(* ===== verification/Prelude.thy ===== *)
theory Prelude
  imports Main "HOL-Library.Word" "HOL-Library.Monad_Syntax"
begin

text \<open>
  What every component shares: bytes and fixed-width unsigned arithmetic, the little-endian
  layout of integers in a C struct, byte ranges of an address space, C strings, and the total
  correctness predicate \<open>holds\<close> over programs in the option monad.

  A C function that acts on a database is a HOL function that takes the database and returns
  \<open>Some (result, database')\<close>. \<open>None\<close> means that the C function does not return a value:
  an \<open>FDB_ASSERT\<close> failed (which spins forever), a loop does not end, or the C standard gives
  the call no meaning (a stream used after \<open>fclose\<close>).
\<close>

unbundle bit_operations_syntax

declare One_nat_def [simp del]

lemma replicate_1 [simp]: "replicate 1 x = [x]"
  by (simp add: One_nat_def)

lemma case_nat_1 [simp]: "case_nat a f 1 = f 0"
  by (simp add: One_nat_def)

lemma nth_Cons_1 [simp]: "(x # xs) ! 1 = xs ! 0"
  by (simp add: One_nat_def)

lemma take_drop_Cons_1 [simp]: "take 1 (x # xs) = [x]" "drop 1 (x # xs) = xs"
  by (simp_all add: One_nat_def)

lemma bit_255_int: "bit (255 :: int) n \<longleftrightarrow> n < 8"
  using bit_mask_iff [where 'a = int, of 8 n] by (simp add: mask_eq_exp_minus_1)

lemma bit_128_int: "bit (128 :: int) n \<longleftrightarrow> n = 7"
  using bit_exp_iff [where 'a = int, of 7 n] by auto

named_theorems fdb_layout \<open>sizes and offsets of the on-flash structures\<close>
named_theorems wp_rules \<open>total-correctness rules of the operations, one per operation\<close>
named_theorems fdb_frame \<open>what an operation leaves unchanged\<close>


section \<open>Bytes and unsigned integers\<close>

type_synonym byte = "8 word"
type_synonym addr = nat

lemma and_ff_byte [simp]: "(w :: byte) AND 0xFF = w" "0xFF AND (w :: byte) = w"
  by (auto intro!: bit_word_eqI simp: bit_simps bit_255_int)

text \<open>
  \<open>uint8_t\<close>, \<open>uint16_t\<close>, \<open>uint32_t\<close> and \<open>size_t\<close> values are natural numbers below
  \<open>2 ^ 8\<close>, \<open>2 ^ 16\<close>, \<open>2 ^ 32\<close> and \<open>2 ^ 64\<close>; a conversion to the type is the remainder,
  and the wrap-around of an addition or subtraction is written out with these.
\<close>

definition u8 :: "nat \<Rightarrow> nat" where
  "u8 n = n mod 2 ^ 8"

definition u16 :: "nat \<Rightarrow> nat" where
  "u16 n = n mod 2 ^ 16"

definition u32 :: "nat \<Rightarrow> nat" where
  "u32 n = n mod 2 ^ 32"

definition u64 :: "nat \<Rightarrow> nat" where
  "u64 n = n mod 2 ^ 64"

text \<open>Subtraction of two values of the width, wrapping below zero.\<close>

definition sub32 :: "nat \<Rightarrow> nat \<Rightarrow> nat" where
  "sub32 a b = (if b \<le> a then a - b else 2 ^ 32 + a - b)"

definition sub64 :: "nat \<Rightarrow> nat \<Rightarrow> nat" where
  "sub64 a b = (if b \<le> a then a - b else 2 ^ 64 + a - b)"

lemma u32_id [simp]: "n < 2 ^ 32 \<Longrightarrow> u32 n = n"
  by (simp add: u32_def)

lemma u32_less [simp]: "u32 n < 2 ^ 32"
  by (simp add: u32_def)

lemma u32_le: "u32 n \<le> n"
  by (simp add: u32_def)

lemma u8_id [simp]: "n < 256 \<Longrightarrow> u8 n = n"
  by (simp add: u8_def)

lemma u16_id [simp]: "n < 65536 \<Longrightarrow> u16 n = n"
  by (simp add: u16_def)

lemma u64_id [simp]: "n < 2 ^ 64 \<Longrightarrow> u64 n = n"
  by (simp add: u64_def)

lemma sub32_le [simp]: "b \<le> a \<Longrightarrow> sub32 a b = a - b"
  by (simp add: sub32_def)

lemma sub64_le [simp]: "b \<le> a \<Longrightarrow> sub64 a b = a - b"
  by (simp add: sub64_def)

lemma sub32_less: "a < 2 ^ 32 \<Longrightarrow> b < 2 ^ 32 \<Longrightarrow> sub32 a b < 2 ^ 32"
  by (auto simp: sub32_def)


section \<open>Little-endian integers\<close>

definition le32 :: "nat \<Rightarrow> byte list" where
  "le32 n = [word_of_nat n, word_of_nat (n div 256), word_of_nat (n div 65536),
             word_of_nat (n div 16777216)]"

definition le32_dec :: "byte list \<Rightarrow> nat" where
  "le32_dec bs = unat (bs ! 0) + 256 * unat (bs ! 1) + 65536 * unat (bs ! 2)
                 + 16777216 * unat (bs ! 3)"

lemma length_le32 [simp]: "length (le32 n) = 4"
  by (simp add: le32_def)

lemma unat_byte_of_nat: "unat (word_of_nat n :: byte) = n mod 256"
  by (simp add: unat_of_nat)

lemma le32_dec_le32 [simp]:
  assumes "n < 2 ^ 32"
  shows "le32_dec (le32 n) = n"
proof -
  define a b c where "a = n div 256" and "b = a div 256" and "c = b div 256"
  have eqs: "n div 65536 = b" "n div 16777216 = c"
    unfolding a_def b_def c_def by (simp_all flip: div_mult2_eq)
  have c: "c < 256" unfolding a_def b_def c_def using assms by (simp flip: div_mult2_eq)
  have "n mod 256 + 256 * a = n" "a mod 256 + 256 * b = a" "b mod 256 + 256 * c = b" "c mod 256 = c"
    using c unfolding a_def b_def c_def by simp_all
  then have "n mod 256 + 256 * (a mod 256) + 65536 * (b mod 256) + 16777216 * (c mod 256) = n"
    by linarith
  then show ?thesis
    unfolding le32_def le32_dec_def by (simp add: unat_byte_of_nat eqs flip: a_def)
qed

lemma unat_byte_less [simp]: "unat (b :: byte) < 256"
  using unsigned_less [of b] by simp

lemma le32_dec_less: "le32_dec bs < 2 ^ 32"
proof -
  have "unat (bs ! 0) < 256" "unat (bs ! 1) < 256" "unat (bs ! 2) < 256" "unat (bs ! 3) < 256"
    by simp_all
  then have "unat (bs ! 0) + 256 * unat (bs ! 1) + 65536 * unat (bs ! 2) + 16777216 * unat (bs ! 3)
      < 4294967296" by linarith
  then show ?thesis unfolding le32_dec_def by simp
qed

text \<open>Values of the signed 32-bit type \<open>fdb_time_t\<close>, stored as two's complement.\<close>

definition s32_of_u32 :: "nat \<Rightarrow> int" where
  "s32_of_u32 n = (if n < 2 ^ 31 then int n else int n - 2 ^ 32)"

definition u32_of_s32 :: "int \<Rightarrow> nat" where
  "u32_of_s32 t = nat (t mod 2 ^ 32)"

lemma u32_of_s32_less [simp]: "u32_of_s32 t < 2 ^ 32"
proof -
  have "t mod 2 ^ 32 < 2 ^ 32" by (rule pos_mod_bound) simp
  then show ?thesis unfolding u32_of_s32_def by simp
qed

lemma s32_roundtrip [simp]:
  "- (2 ^ 31) \<le> t \<Longrightarrow> t < 2 ^ 31 \<Longrightarrow> s32_of_u32 (u32_of_s32 t) = t"
proof (cases "0 \<le> t")
  case True
  assume "t < 2 ^ 31"
  with True show ?thesis by (simp add: s32_of_u32_def u32_of_s32_def nat_less_iff)
next
  case False
  assume lo: "- (2 ^ 31) \<le> t"
  from False lo have "(t + 2 ^ 32) mod 2 ^ 32 = t + 2 ^ 32"
    by (intro mod_pos_pos_trivial) auto
  then have "t mod 2 ^ 32 = t + 2 ^ 32" by simp
  with False lo show ?thesis by (simp add: s32_of_u32_def u32_of_s32_def nat_less_iff)
qed


section \<open>Byte ranges of an address space\<close>

text \<open>
  The storage below a database is a function from addresses to bytes. \<open>rd f a n\<close> is what a
  read of \<open>n\<close> bytes at \<open>a\<close> yields, \<open>wr f a xs\<close> what a write of \<open>xs\<close> at \<open>a\<close> leaves.
\<close>

definition rd :: "(nat \<Rightarrow> 'b) \<Rightarrow> nat \<Rightarrow> nat \<Rightarrow> 'b list" where
  "rd f a n = map f [a..<a + n]"

definition wr :: "(nat \<Rightarrow> 'b) \<Rightarrow> nat \<Rightarrow> 'b list \<Rightarrow> nat \<Rightarrow> 'b" where
  "wr f a xs = (\<lambda>x. if a \<le> x \<and> x < a + length xs then xs ! (x - a) else f x)"

lemma length_rd [simp]: "length (rd f a n) = n"
  by (simp add: rd_def)

lemma nth_rd [simp]: "i < n \<Longrightarrow> rd f a n ! i = f (a + i)"
  by (simp add: rd_def)

lemma rd_0 [simp]: "rd f a 0 = []"
  by (simp add: rd_def)

lemma rd_1 [simp]: "rd f a 1 = [f a]"
  by (simp add: rd_def One_nat_def)

lemma rd_eqI: "length xs = n \<Longrightarrow> (\<And>i. i < n \<Longrightarrow> f (a + i) = xs ! i) \<Longrightarrow> rd f a n = xs"
  by (simp add: list_eq_iff_nth_eq)

lemma rd_cong: "(\<And>i. i < n \<Longrightarrow> f (a + i) = g (a + i)) \<Longrightarrow> rd f a n = rd g a n"
  by (rule rd_eqI) auto

lemma rd_append: "rd f a (m + n) = rd f a m @ rd f (a + m) n"
  by (rule rd_eqI) (auto simp: nth_append add.assoc)

lemma take_rd: "take k (rd f a n) = rd f a (min k n)"
  by (rule sym, rule rd_eqI) auto

lemma drop_rd: "drop k (rd f a n) = rd f (a + k) (n - k)"
  by (rule sym, rule rd_eqI) (auto simp: add.assoc)

lemma wr_Nil [simp]: "wr f a [] = f"
  by (auto simp: wr_def fun_eq_iff)

lemma rd_wr_same: "length xs = n \<Longrightarrow> rd (wr f a xs) a n = xs"
  by (rule rd_eqI) (auto simp: wr_def)

lemma rd_wr_disjoint:
  "b + n \<le> a \<or> a + length xs \<le> b \<Longrightarrow> rd (wr f a xs) b n = rd f b n"
  by (rule rd_cong) (auto simp: wr_def)

lemma rd_wr_sub:
  "a \<le> b \<Longrightarrow> b + n \<le> a + length xs \<Longrightarrow> rd (wr f a xs) b n = take n (drop (b - a) xs)"
  by (rule rd_eqI) (auto simp: wr_def)

lemma wr_append: "wr (wr f a xs) (a + length xs) ys = wr f a (xs @ ys)"
  by (auto simp: wr_def fun_eq_iff nth_append)

lemma wr_wr_cover: "length ys = length xs \<Longrightarrow> wr (wr f a xs) a ys = wr f a ys"
  by (auto simp: wr_def fun_eq_iff)

lemma wr_out: "x < a \<or> a + length xs \<le> x \<Longrightarrow> wr f a xs x = f x"
  by (auto simp: wr_def)

lemma wr_in: "a \<le> x \<Longrightarrow> x < a + length xs \<Longrightarrow> wr f a xs x = xs ! (x - a)"
  by (simp add: wr_def)


section \<open>C strings\<close>

text \<open>
  A \<open>const char *\<close> is the list of its characters; reading past the end of the list reads the
  terminating NUL.
\<close>

definition char_at :: "byte list \<Rightarrow> nat \<Rightarrow> byte" where
  "char_at s i = (if i < length s then s ! i else 0)"

definition strlen :: "byte list \<Rightarrow> nat" where
  "strlen s = length (takeWhile (\<lambda>b. b \<noteq> 0) s)"

text \<open>\<open>strncmp (s, t, n) == 0\<close>, looking from index \<open>i\<close> on.\<close>

fun strncmp_eq_from :: "nat \<Rightarrow> nat \<Rightarrow> byte list \<Rightarrow> byte list \<Rightarrow> bool" where
  "strncmp_eq_from i 0 s t = True"
| "strncmp_eq_from i (Suc n) s t =
     (if char_at s i \<noteq> char_at t i then False
      else if char_at s i = 0 then True
      else strncmp_eq_from (Suc i) n s t)"

definition strncmp_eq :: "byte list \<Rightarrow> byte list \<Rightarrow> nat \<Rightarrow> bool" where
  "strncmp_eq s t n = strncmp_eq_from 0 n s t"

text \<open>A list that is a C string: no NUL inside.\<close>

definition c_string :: "byte list \<Rightarrow> bool" where
  "c_string s = list_all (\<lambda>b. b \<noteq> 0) s"

lemma strlen_c_string [simp]: "c_string s \<Longrightarrow> strlen s = length s"
  unfolding c_string_def strlen_def list_all_iff by (subst takeWhile_eq_all_conv [THEN iffD2]) auto

lemma strncmp_eq_fromI:
  "(\<And>j. i \<le> j \<Longrightarrow> j < i + n \<Longrightarrow> char_at s j = char_at t j) \<Longrightarrow> strncmp_eq_from i n s t"
proof (induction n arbitrary: i)
  case 0
  then show ?case by simp
next
  case (Suc n)
  have "char_at s i = char_at t i" by (rule Suc.prems) auto
  moreover have "strncmp_eq_from (Suc i) n s t" by (rule Suc.IH) (rule Suc.prems, auto)
  ultimately show ?case by simp
qed

lemma strncmp_eq_fromD:
  "strncmp_eq_from i n s t \<Longrightarrow> (\<And>j. i \<le> j \<Longrightarrow> j < i + n \<Longrightarrow> char_at s j \<noteq> 0) \<Longrightarrow>
   i \<le> k \<Longrightarrow> k < i + n \<Longrightarrow> char_at s k = char_at t k"
proof (induction n arbitrary: i)
  case 0
  then show ?case by simp
next
  case (Suc n)
  from Suc.prems(2) [of i] have nz: "char_at s i \<noteq> 0" by simp
  with Suc.prems(1) have eq: "char_at s i = char_at t i" and rest: "strncmp_eq_from (Suc i) n s t"
    by (auto split: if_splits)
  show ?case
  proof (cases "k = i")
    case True
    with eq show ?thesis by simp
  next
    case False
    with Suc.prems(3,4) have "Suc i \<le> k" "k < Suc i + n" by auto
    then show ?thesis by (intro Suc.IH [OF rest]) (use Suc.prems(2) in auto)
  qed
qed

lemma strncmp_eq_refl [simp]: "strncmp_eq s s n"
  by (simp add: strncmp_eq_def strncmp_eq_fromI)

lemma strncmp_eq_take:
  assumes "n \<le> length s" "n \<le> length t" "take n s = take n t"
  shows "strncmp_eq s t n"
  unfolding strncmp_eq_def
proof (rule strncmp_eq_fromI)
  fix j
  assume "j < 0 + n"
  moreover from this have "take n s ! j = take n t ! j" by (simp add: assms(3))
  ultimately show "char_at s j = char_at t j" using assms(1,2) by (simp add: char_at_def)
qed

lemma strncmp_eq_takeD:
  assumes eq: "strncmp_eq s t n" and s: "c_string s" "n \<le> length s" and t: "n \<le> length t"
  shows "take n s = take n t"
proof (rule nth_equalityI)
  show "length (take n s) = length (take n t)" using s t by simp
next
  fix i
  assume "i < length (take n s)"
  then have i: "i < n" by simp
  have "char_at s i = char_at t i"
    by (rule strncmp_eq_fromD [OF eq [unfolded strncmp_eq_def]])
       (use i s in \<open>auto simp: char_at_def c_string_def list_all_length\<close>)
  with i s t show "take n s ! i = take n t ! i" by (simp add: char_at_def)
qed


section \<open>Total correctness in the option monad\<close>

text \<open>\<open>holds m P\<close>: the program \<open>m\<close> returns and its result satisfies \<open>P\<close>.\<close>

definition holds :: "'r option \<Rightarrow> ('r \<Rightarrow> bool) \<Rightarrow> bool" where
  "holds m P = (case m of None \<Rightarrow> False | Some r \<Rightarrow> P r)"

lemma holds_Some [simp]: "holds (Some r) P = P r"
  by (simp add: holds_def)

lemma holds_None [simp]: "holds None P = False"
  by (simp add: holds_def)

lemma holds_bind [simp]: "holds (Option.bind m f) P = holds m (\<lambda>r. holds (f r) P)"
  by (cases m) simp_all

lemma holds_mono: "holds m P \<Longrightarrow> (\<And>r. P r \<Longrightarrow> Q r) \<Longrightarrow> holds m Q"
  by (cases m) simp_all

lemma holds_conj: "holds m P \<Longrightarrow> holds m Q \<Longrightarrow> holds m (\<lambda>r. P r \<and> Q r)"
  by (cases m) simp_all

lemma holds_ex: "holds m P = (\<exists>r. m = Some r \<and> P r)"
  by (cases m) simp_all

lemma holds_if [simp]: "holds (if b then m else m') P = (if b then holds m P else holds m' P)"
  by simp

text \<open>\<open>yields m P\<close>: whatever \<open>m\<close> returns satisfies \<open>P\<close> (it may not return).\<close>

definition yields :: "'r option \<Rightarrow> ('r \<Rightarrow> bool) \<Rightarrow> bool" where
  "yields m P = (case m of None \<Rightarrow> True | Some r \<Rightarrow> P r)"

lemma yields_simps [simp]:
  "yields None P" "yields (Some r) P = P r"
  "yields (Option.bind m f) P = yields m (\<lambda>r. yields (f r) P)"
  by (simp_all add: yields_def split: option.split bind_split)

lemma yieldsD: "m = Some r \<Longrightarrow> yields m P \<Longrightarrow> P r"
  by simp

lemma yieldsI: "(\<And>r. m = Some r \<Longrightarrow> P r) \<Longrightarrow> yields m P"
  by (cases m) simp_all

lemma yields_mono: "yields m P \<Longrightarrow> (\<And>r. P r \<Longrightarrow> Q r) \<Longrightarrow> yields m Q"
  by (cases m) simp_all

lemma yields_rec: "(\<And>r. m = Some r \<Longrightarrow> P r) \<Longrightarrow> (\<And>r. P r \<Longrightarrow> Q r) \<Longrightarrow> yields m Q"
  by (cases m) simp_all

lemma yields_pure: "(\<And>r. P r) \<Longrightarrow> yields m P"
  by (cases m) simp_all

lemma yields_if [simp]: "yields (if b then m else m') P = (if b then yields m P else yields m' P)"
  by simp

end
