(* ===== verification/FdbDef.thy ===== *)
theory FdbDef
  imports Prelude
begin

text \<open>
  The public definitions of \<open>inc/fdb_def.h\<close> and \<open>inc/fdb_low_lvl.h\<close> in the configuration of
  the repository's build (\<open>crates/ixmati-cache/build.rs\<close>, \<open>fdb_cfg.h\<close>): write granularity
  1 bit, file mode over the C library's streams, 32-bit timestamps, erased byte \<open>0xFF\<close>.
  Error codes and status enumerations are datatypes, structures are records. The base record
  \<open>fdb_db\<close> is extended by the key-value and the time-series database, as \<open>struct fdb_db parent\<close>
  is the first member of both.
\<close>

section \<open>Configuration constants\<close>

definition FDB_WRITE_GRAN :: nat where "FDB_WRITE_GRAN = 1"
definition FDB_KV_NAME_MAX :: nat where "FDB_KV_NAME_MAX = 64"
definition FDB_KV_CACHE_TABLE_SIZE :: nat where "FDB_KV_CACHE_TABLE_SIZE = 64"
definition FDB_SECTOR_CACHE_TABLE_SIZE :: nat where "FDB_SECTOR_CACHE_TABLE_SIZE = 8"
definition FDB_FILE_CACHE_TABLE_SIZE :: nat where "FDB_FILE_CACHE_TABLE_SIZE = 2"
definition FDB_BYTE_ERASED :: byte where "FDB_BYTE_ERASED = 0xFF"
definition FDB_BYTE_WRITTEN :: byte where "FDB_BYTE_WRITTEN = 0"
definition FDB_DATA_UNUSED :: nat where "FDB_DATA_UNUSED = 0xFFFFFFFF"
definition FDB_FAILED_ADDR :: nat where "FDB_FAILED_ADDR = 0xFFFFFFFF"

lemmas fdb_config [fdb_layout] =
  FDB_WRITE_GRAN_def FDB_KV_NAME_MAX_def FDB_KV_CACHE_TABLE_SIZE_def
  FDB_SECTOR_CACHE_TABLE_SIZE_def FDB_FILE_CACHE_TABLE_SIZE_def FDB_BYTE_ERASED_def
  FDB_BYTE_WRITTEN_def FDB_DATA_UNUSED_def FDB_FAILED_ADDR_def


section \<open>Alignment macros\<close>

definition FDB_ALIGN :: "nat \<Rightarrow> nat \<Rightarrow> nat" where
  "FDB_ALIGN n align = (n + align - 1) - ((n + align - 1) mod align)"

definition FDB_ALIGN_DOWN :: "nat \<Rightarrow> nat \<Rightarrow> nat" where
  "FDB_ALIGN_DOWN n align = (n div align) * align"

definition FDB_WG_ALIGN :: "nat \<Rightarrow> nat" where
  "FDB_WG_ALIGN n = FDB_ALIGN n ((FDB_WRITE_GRAN + 7) div 8)"

definition FDB_WG_ALIGN_DOWN :: "nat \<Rightarrow> nat" where
  "FDB_WG_ALIGN_DOWN n = FDB_ALIGN_DOWN n ((FDB_WRITE_GRAN + 7) div 8)"

lemma FDB_WG_ALIGN_eq [simp]: "FDB_WG_ALIGN n = n"
  by (simp add: FDB_WG_ALIGN_def FDB_ALIGN_def FDB_WRITE_GRAN_def)

lemma FDB_WG_ALIGN_DOWN_eq [simp]: "FDB_WG_ALIGN_DOWN n = n"
  by (simp add: FDB_WG_ALIGN_DOWN_def FDB_ALIGN_DOWN_def FDB_WRITE_GRAN_def)

lemma FDB_ALIGN_DOWN_bounds:
  "0 < s \<Longrightarrow> FDB_ALIGN_DOWN a s \<le> a \<and> a < FDB_ALIGN_DOWN a s + s"
  using dividend_less_div_times [of s a] by (simp add: FDB_ALIGN_DOWN_def add.commute)

lemma FDB_ALIGN_DOWN_mult [simp]: "o' < s \<Longrightarrow> FDB_ALIGN_DOWN (i * s + o') s = i * s"
  by (simp add: FDB_ALIGN_DOWN_def)


section \<open>Error codes and status enumerations\<close>

datatype fdb_err_t =
    FDB_NO_ERR | FDB_ERASE_ERR | FDB_READ_ERR | FDB_WRITE_ERR | FDB_PART_NOT_FOUND
  | FDB_KV_NAME_ERR | FDB_KV_NAME_EXIST | FDB_SAVED_FULL | FDB_INIT_FAILED

datatype fdb_kv_status =
    FDB_KV_UNUSED | FDB_KV_PRE_WRITE | FDB_KV_WRITE | FDB_KV_PRE_DELETE | FDB_KV_DELETED
  | FDB_KV_ERR_HDR

datatype fdb_tsl_status =
    FDB_TSL_UNUSED | FDB_TSL_PRE_WRITE | FDB_TSL_WRITE | FDB_TSL_USER_STATUS1 | FDB_TSL_DELETED
  | FDB_TSL_USER_STATUS2

datatype fdb_sector_store_status =
    FDB_SECTOR_STORE_UNUSED | FDB_SECTOR_STORE_EMPTY | FDB_SECTOR_STORE_USING
  | FDB_SECTOR_STORE_FULL

datatype fdb_sector_dirty_status =
    FDB_SECTOR_DIRTY_UNUSED | FDB_SECTOR_DIRTY_FALSE | FDB_SECTOR_DIRTY_TRUE
  | FDB_SECTOR_DIRTY_GC

datatype fdb_db_type = FDB_DB_TYPE_KV | FDB_DB_TYPE_TS

definition FDB_KV_STATUS_NUM :: nat where "FDB_KV_STATUS_NUM = 6"
definition FDB_TSL_STATUS_NUM :: nat where "FDB_TSL_STATUS_NUM = 6"
definition FDB_SECTOR_STORE_STATUS_NUM :: nat where "FDB_SECTOR_STORE_STATUS_NUM = 4"
definition FDB_SECTOR_DIRTY_STATUS_NUM :: nat where "FDB_SECTOR_DIRTY_STATUS_NUM = 4"

lemmas status_nums [fdb_layout] =
  FDB_KV_STATUS_NUM_def FDB_TSL_STATUS_NUM_def FDB_SECTOR_STORE_STATUS_NUM_def
  FDB_SECTOR_DIRTY_STATUS_NUM_def

text \<open>The number of an enumerator, and the cast of a number to the enumeration.\<close>

fun kv_status_num :: "fdb_kv_status \<Rightarrow> nat" where
  "kv_status_num FDB_KV_UNUSED = 0"
| "kv_status_num FDB_KV_PRE_WRITE = 1"
| "kv_status_num FDB_KV_WRITE = 2"
| "kv_status_num FDB_KV_PRE_DELETE = 3"
| "kv_status_num FDB_KV_DELETED = 4"
| "kv_status_num FDB_KV_ERR_HDR = 5"

definition kv_status_of :: "nat \<Rightarrow> fdb_kv_status" where
  "kv_status_of n = (if n = 0 then FDB_KV_UNUSED else if n = 1 then FDB_KV_PRE_WRITE
     else if n = 2 then FDB_KV_WRITE else if n = 3 then FDB_KV_PRE_DELETE
     else if n = 4 then FDB_KV_DELETED else FDB_KV_ERR_HDR)"

fun tsl_status_num :: "fdb_tsl_status \<Rightarrow> nat" where
  "tsl_status_num FDB_TSL_UNUSED = 0"
| "tsl_status_num FDB_TSL_PRE_WRITE = 1"
| "tsl_status_num FDB_TSL_WRITE = 2"
| "tsl_status_num FDB_TSL_USER_STATUS1 = 3"
| "tsl_status_num FDB_TSL_DELETED = 4"
| "tsl_status_num FDB_TSL_USER_STATUS2 = 5"

definition tsl_status_of :: "nat \<Rightarrow> fdb_tsl_status" where
  "tsl_status_of n = (if n = 0 then FDB_TSL_UNUSED else if n = 1 then FDB_TSL_PRE_WRITE
     else if n = 2 then FDB_TSL_WRITE else if n = 3 then FDB_TSL_USER_STATUS1
     else if n = 4 then FDB_TSL_DELETED else FDB_TSL_USER_STATUS2)"

fun store_status_num :: "fdb_sector_store_status \<Rightarrow> nat" where
  "store_status_num FDB_SECTOR_STORE_UNUSED = 0"
| "store_status_num FDB_SECTOR_STORE_EMPTY = 1"
| "store_status_num FDB_SECTOR_STORE_USING = 2"
| "store_status_num FDB_SECTOR_STORE_FULL = 3"

definition store_status_of :: "nat \<Rightarrow> fdb_sector_store_status" where
  "store_status_of n = (if n = 0 then FDB_SECTOR_STORE_UNUSED
     else if n = 1 then FDB_SECTOR_STORE_EMPTY
     else if n = 2 then FDB_SECTOR_STORE_USING else FDB_SECTOR_STORE_FULL)"

fun dirty_status_num :: "fdb_sector_dirty_status \<Rightarrow> nat" where
  "dirty_status_num FDB_SECTOR_DIRTY_UNUSED = 0"
| "dirty_status_num FDB_SECTOR_DIRTY_FALSE = 1"
| "dirty_status_num FDB_SECTOR_DIRTY_TRUE = 2"
| "dirty_status_num FDB_SECTOR_DIRTY_GC = 3"

definition dirty_status_of :: "nat \<Rightarrow> fdb_sector_dirty_status" where
  "dirty_status_of n = (if n = 0 then FDB_SECTOR_DIRTY_UNUSED
     else if n = 1 then FDB_SECTOR_DIRTY_FALSE
     else if n = 2 then FDB_SECTOR_DIRTY_TRUE else FDB_SECTOR_DIRTY_GC)"

end
