(* ===== verification/LibcStdio.thy ===== *)
theory LibcStdio
  imports Prelude
begin

text \<open>
  What the file mode uses of the C library: streams on regular files. A file is its contents, a
  stream is a path and a position, \<open>FILE *\<close> values are numbers with 0 for \<open>NULL\<close>. Writes reach
  the contents at once: one process with one stream at a time per file sees its own buffered
  writes, so buffering is not observable to it. A call on a stream that is not open has no
  meaning (\<open>None\<close>).

  \<open>faults\<close> lists the fate of the coming \<open>fwrite\<close> calls: \<open>Some n\<close> for a call that fails
  after \<open>n\<close> bytes (a full disk, a torn write); when it is empty every write succeeds. \<open>junk\<close> is
  the contents of uninitialised memory.
\<close>

record libc =
  files :: "string \<Rightarrow> byte list option"
  creatable :: "string \<Rightarrow> bool"
  streams :: "nat \<Rightarrow> (string \<times> nat) option"
  next_stream :: nat
  faults :: "nat option list"
  junk :: "nat \<Rightarrow> byte"

text \<open>\<open>fopen (path, "rb+")\<close>: the file has to exist.\<close>

definition fopen_rb :: "libc \<Rightarrow> string \<Rightarrow> nat \<times> libc" where
  "fopen_rb io path =
     (case files io path of
        None \<Rightarrow> (0, io)
      | Some _ \<Rightarrow>
          (next_stream io,
           io\<lparr>streams := (streams io)(next_stream io \<mapsto> (path, 0)),
              next_stream := Suc (next_stream io)\<rparr>))"

text \<open>\<open>fopen (path, "wb+")\<close>: creates or truncates.\<close>

definition fopen_wb :: "libc \<Rightarrow> string \<Rightarrow> nat \<times> libc" where
  "fopen_wb io path =
     (if creatable io path then
        (next_stream io,
         io\<lparr>files := (files io)(path \<mapsto> []),
            streams := (streams io)(next_stream io \<mapsto> (path, 0)),
            next_stream := Suc (next_stream io)\<rparr>)
      else (0, io))"

definition fclose :: "libc \<Rightarrow> nat \<Rightarrow> libc option" where
  "fclose io fp =
     (case streams io fp of
        None \<Rightarrow> None
      | Some _ \<Rightarrow> Some (io\<lparr>streams := (streams io)(fp := None)\<rparr>))"

definition fseek_set :: "libc \<Rightarrow> nat \<Rightarrow> nat \<Rightarrow> libc option" where
  "fseek_set io fp off =
     (case streams io fp of
        None \<Rightarrow> None
      | Some (path, _) \<Rightarrow> Some (io\<lparr>streams := (streams io)(fp \<mapsto> (path, off))\<rparr>))"

text \<open>
  \<open>fread (buf, size, 1, fp)\<close>: the number of complete elements (1 or 0; an element of size 0 gives
  0) and the buffer, of which only the bytes that were there to read are overwritten.
\<close>

definition fread :: "libc \<Rightarrow> nat \<Rightarrow> byte list \<Rightarrow> nat \<Rightarrow> (nat \<times> byte list \<times> libc) option" where
  "fread io fp buf n =
     (case streams io fp of
        None \<Rightarrow> None
      | Some (path, pos) \<Rightarrow>
          (case files io path of
             None \<Rightarrow> None
           | Some bs \<Rightarrow>
               let got = take n (drop pos bs) in
               Some (if n \<noteq> 0 \<and> length got = n then 1 else 0,
                     got @ drop (length got) buf,
                     io\<lparr>streams := (streams io)(fp \<mapsto> (path, pos + length got))\<rparr>)))"

text \<open>The contents after \<open>data\<close> is written at \<open>pos\<close>; a gap past the end is filled with zeros.\<close>

definition splice :: "byte list \<Rightarrow> nat \<Rightarrow> byte list \<Rightarrow> byte list" where
  "splice bs pos data = take pos (bs @ replicate (pos - length bs) 0) @ data
                          @ drop (pos + length data) bs"

definition fwrite :: "libc \<Rightarrow> nat \<Rightarrow> byte list \<Rightarrow> (nat \<times> libc) option" where
  "fwrite io fp data =
     (case streams io fp of
        None \<Rightarrow> None
      | Some (path, pos) \<Rightarrow>
          (case files io path of
             None \<Rightarrow> None
           | Some bs \<Rightarrow>
               if data = [] then Some (0, io)
               else
                 let (done, rest) = (case faults io of
                        [] \<Rightarrow> (length data, [])
                      | None # fs \<Rightarrow> (length data, fs)
                      | Some k # fs \<Rightarrow> (min k (length data - 1), fs)) in
                 Some (if done = length data then 1 else 0,
                       io\<lparr>files := (files io)(path \<mapsto> splice bs pos (take done data)),
                          streams := (streams io)(fp \<mapsto> (path, pos + done)),
                          faults := rest\<rparr>)))"

definition uninit :: "libc \<Rightarrow> nat \<Rightarrow> byte list" where
  "uninit io n = map (junk io) [0..<n]"

lemma length_uninit [simp]: "length (uninit io n) = n"
  by (simp add: uninit_def)

lemma length_splice: "length (splice bs pos data) = max (length bs) (pos + length data)"
  by (auto simp: splice_def)

lemma nth_splice:
  assumes "i < length bs" "pos \<le> length bs"
  shows "splice bs pos data ! i
           = (if pos \<le> i \<and> i < pos + length data then data ! (i - pos) else bs ! i)"
  using assms by (auto simp: splice_def nth_append)

lemma splice_append: "splice (splice bs pos xs) (pos + length xs) ys = splice bs pos (xs @ ys)"
proof -
  define head where "head = take pos (bs @ replicate (pos - length bs) 0)"
  have len: "length head = pos" by (simp add: head_def)
  have one: "splice bs pos zs = head @ zs @ drop (pos + length zs) bs" for zs
    by (simp add: splice_def head_def)
  have "splice (head @ xs @ tl') (pos + length xs) ys = head @ xs @ ys @ drop (length ys) tl'" for tl'
    by (simp add: splice_def len)
  then show ?thesis by (simp add: one ac_simps)
qed


section \<open>Decimal numerals and \<open>snprintf\<close>\<close>

fun dec :: "nat \<Rightarrow> string" where
  "dec n = (if n < 10 then [char_of (48 + n)] else dec (n div 10) @ [char_of (48 + n mod 10)])"

declare dec.simps [simp del]

text \<open>\<open>snprintf\<close> into a buffer of \<open>n\<close> bytes keeps the first \<open>n - 1\<close> characters.\<close>

definition snprintf :: "nat \<Rightarrow> string \<Rightarrow> string" where
  "snprintf n s = take (n - 1) s"

lemma dec_inj: "dec m = dec n \<Longrightarrow> m = n"
proof (induction m arbitrary: n rule: dec.induct)
  case (1 m)
  have ne: "dec k \<noteq> []" for k by (subst dec.simps) simp
  have digit: "char_of (48 + a) = (char_of (48 + b) :: char) \<longleftrightarrow> a = b" if "a < 10" "b < 10" for a b :: nat
    using that by (auto simp: char_of_eq_iff take_bit_nat_eq_self_iff take_bit_nat_eq_self)
  show ?case
  proof (cases "m < 10")
    case True
    with "1.prems" have "dec n = [char_of (48 + m)]" by (simp add: dec.simps [of m])
    with True ne [of "n div 10"] show ?thesis
      by (cases "n < 10") (auto simp: dec.simps [of n] digit)
  next
    case False
    then have m: "dec m = dec (m div 10) @ [char_of (48 + m mod 10)]" by (simp add: dec.simps [of m])
    show ?thesis
    proof (cases "n < 10")
      case True
      with "1.prems" m ne [of "m div 10"] show ?thesis by (simp add: dec.simps [of n])
    next
      case n: False
      with "1.prems" m have "dec (m div 10) = dec (n div 10)" "m mod 10 = n mod 10"
        by (simp_all add: dec.simps [of n] digit)
      with "1.IH" False have "m div 10 = n div 10" "m mod 10 = n mod 10" by simp_all
      then show ?thesis by (metis div_mult_mod_eq)
    qed
  qed
qed

lemma length_dec: "n < 10 ^ Suc k \<Longrightarrow> length (dec n) \<le> Suc k"
proof (induction k arbitrary: n)
  case 0
  then show ?case by (subst dec.simps) simp
next
  case (Suc k)
  then have "n div 10 < 10 ^ Suc k" by simp
  then show ?case using Suc.IH [of "n div 10"] by (subst dec.simps) auto
qed

end
