(* ===== verification/FdbFile.thy ===== *)
theory FdbFile
  imports FdbDef LibcStdio
begin

text \<open>
  The base structure \<open>struct fdb_db\<close> and the file mode of \<open>fdb_file.c\<close> over the C library's
  streams: a database is a directory of files, one per sector, with a cache of two open streams.
  Afterwards the invariant of that cache and what a read, a write and an erase do to the
  storage seen as one address space.
\<close>

section \<open>The database structure\<close>

text \<open>
  \<open>db_lock_fn\<close> and \<open>db_unlock_fn\<close> say whether a lock and an unlock function are registered, and
  \<open>db_lock_cnt\<close> counts the calls of the first less those of the second. \<open>db_io\<close> is the part of
  the world the database acts on.
\<close>

record fdb_db =
  db_name :: string
  db_type :: fdb_db_type
  db_dir :: string
  db_sec_size :: nat
  db_max_size :: nat
  db_oldest_addr :: addr
  db_init_ok :: bool
  db_file_mode :: bool
  db_not_formatable :: bool
  db_cur_file_sec :: "addr list"
  db_cur_file :: "nat list"
  db_cur_sec :: addr
  db_lock_fn :: bool
  db_unlock_fn :: bool
  db_lock_cnt :: int
  db_user_data :: nat
  db_io :: libc


section \<open>The program\<close>

definition DB_PATH_MAX :: nat where "DB_PATH_MAX = 256"
definition DB_NAME_MAX :: nat where "DB_NAME_MAX = 8"

text \<open>\<open>%d\<close> of the \<open>int\<close> that an unsigned index is assigned to.\<close>

definition dec_d :: "nat \<Rightarrow> string" where
  "dec_d n = (if n < 2 ^ 31 then dec n else ''-'' @ dec (2 ^ 32 - n))"

definition db_file_name :: "string \<Rightarrow> nat \<Rightarrow> string" where
  "db_file_name name index =
     snprintf (DB_NAME_MAX + 4 + 10) (take DB_NAME_MAX name @ ''.fdb.'' @ dec_d index)"

definition get_db_file_path :: "'a fdb_db_scheme \<Rightarrow> addr \<Rightarrow> nat \<Rightarrow> string option" where
  "get_db_file_path db addr n =
     (if db_sec_size db = 0 then None
      else
        let sec_addr = FDB_ALIGN_DOWN addr (db_sec_size db);
            index = sec_addr div db_sec_size db;
            file_name = db_file_name (db_name db) index
        in if length (db_dir db) + 1 + length file_name \<ge> n then None
           else Some (snprintf n (db_dir db @ ''/'' @ file_name)))"

definition get_file_from_cache :: "'a fdb_db_scheme \<Rightarrow> addr \<Rightarrow> nat" where
  "get_file_from_cache db sec_addr =
     (case find (\<lambda>e. fst e = sec_addr) (zip (db_cur_file_sec db) (db_cur_file db)) of
        None \<Rightarrow> 0 | Some e \<Rightarrow> snd e)"

text \<open>
  The first loop of \<open>update_file_cache\<close>: \<open>Inl i\<close> when slot \<open>i\<close> already is the sector's, \<open>Inr\<close> of
  the free slot otherwise.
\<close>

fun update_file_cache_scan :: "(addr \<times> nat) list \<Rightarrow> addr \<Rightarrow> nat \<Rightarrow> nat \<Rightarrow> nat + nat" where
  "update_file_cache_scan [] sec_addr i free_index = Inr free_index"
| "update_file_cache_scan ((s, f) # es) sec_addr i free_index =
     (if s = sec_addr then Inl i
      else update_file_cache_scan es sec_addr (Suc i) (if f = 0 then i else free_index))"

text \<open>The second loop, which closes the last slot's stream and moves every slot one place on.\<close>

fun update_file_cache_shift :: "'a fdb_db_scheme \<Rightarrow> nat \<Rightarrow> 'a fdb_db_scheme option" where
  "update_file_cache_shift db 0 = Some db"
| "update_file_cache_shift db (Suc i) =
     do {
       io \<leftarrow> fclose (db_io db) (db_cur_file db ! Suc i);
       update_file_cache_shift
         (db\<lparr>db_io := io,
             db_cur_file := (db_cur_file db)[Suc i := db_cur_file db ! i],
             db_cur_file_sec := (db_cur_file_sec db)[Suc i := db_cur_file_sec db ! i]\<rparr>) i
     }"

definition update_file_cache :: "'a fdb_db_scheme \<Rightarrow> addr \<Rightarrow> nat \<Rightarrow> 'a fdb_db_scheme option" where
  "update_file_cache db sec_addr fd =
     (case update_file_cache_scan (zip (db_cur_file_sec db) (db_cur_file db)) sec_addr 0
             FDB_FILE_CACHE_TABLE_SIZE of
        Inl i \<Rightarrow> Some (db\<lparr>db_cur_file := (db_cur_file db)[i := fd]\<rparr>)
      | Inr free_index \<Rightarrow>
          if fd \<noteq> 0 then
            if free_index < FDB_FILE_CACHE_TABLE_SIZE then
              Some (db\<lparr>db_cur_file := (db_cur_file db)[free_index := fd],
                       db_cur_file_sec := (db_cur_file_sec db)[free_index := sec_addr]\<rparr>)
            else do {
              db \<leftarrow> update_file_cache_shift db (FDB_FILE_CACHE_TABLE_SIZE - 1);
              Some (db\<lparr>db_cur_file := (db_cur_file db)[0 := fd],
                       db_cur_file_sec := (db_cur_file_sec db)[0 := sec_addr]\<rparr>)
            }
          else Some db)"

definition open_db_file :: "'a fdb_db_scheme \<Rightarrow> addr \<Rightarrow> bool \<Rightarrow> (nat \<times> 'a fdb_db_scheme) option" where
  "open_db_file db addr clean =
     (if db_sec_size db = 0 then None
      else
        let sec_addr = FDB_ALIGN_DOWN addr (db_sec_size db);
            fd = get_file_from_cache db sec_addr
        in if fd = 0 \<or> clean then do {
             path \<leftarrow> get_db_file_path db addr DB_PATH_MAX;
             db \<leftarrow> (if fd \<noteq> 0 then do {
                      io \<leftarrow> fclose (db_io db) fd;
                      update_file_cache (db\<lparr>db_io := io\<rparr>) sec_addr 0
                    } else Some db);
             db \<leftarrow> (if clean then
                      case fopen_wb (db_io db) path of (clean_fd, io) \<Rightarrow>
                        if clean_fd = 0 then Some (db\<lparr>db_io := io\<rparr>)
                        else do {
                          io \<leftarrow> fclose io clean_fd;
                          Some (db\<lparr>db_io := io\<rparr>)
                        }
                    else Some db);
             (fd, db) \<leftarrow> (if get_file_from_cache db sec_addr = 0 then
                            case fopen_rb (db_io db) path of (fd, io) \<Rightarrow> do {
                              db \<leftarrow> update_file_cache (db\<lparr>db_io := io\<rparr>) sec_addr fd;
                              Some (fd, db)
                            }
                          else Some (0, db));
             Some (fd, db\<lparr>db_cur_sec := sec_addr\<rparr>)
           }
           else Some (fd, db))"

definition fdb_file_read ::
  "'a fdb_db_scheme \<Rightarrow> addr \<Rightarrow> byte list \<Rightarrow> nat \<Rightarrow> (fdb_err_t \<times> byte list \<times> 'a fdb_db_scheme) option"
where
  "fdb_file_read db addr buf n =
     do {
       (fp, db) \<leftarrow> open_db_file db addr False;
       if fp \<noteq> 0 then do {
         io \<leftarrow> fseek_set (db_io db) fp (addr mod db_sec_size db);
         (cnt, buf, io) \<leftarrow> fread io fp buf n;
         Some (if cnt \<noteq> 1 then FDB_READ_ERR else FDB_NO_ERR, buf, db\<lparr>db_io := io\<rparr>)
       }
       else Some (FDB_READ_ERR, buf, db)
     }"

text \<open>
  A failed write is reported as \<open>FDB_READ_ERR\<close>, as the source does. The flush that \<open>sync\<close> asks for
  changes nothing the process can see.
\<close>

definition fdb_file_write ::
  "'a fdb_db_scheme \<Rightarrow> addr \<Rightarrow> byte list \<Rightarrow> bool \<Rightarrow> (fdb_err_t \<times> 'a fdb_db_scheme) option"
where
  "fdb_file_write db addr buf sync =
     do {
       (fp, db) \<leftarrow> open_db_file db addr False;
       if fp \<noteq> 0 then do {
         io \<leftarrow> fseek_set (db_io db) fp (addr mod db_sec_size db);
         (cnt, io) \<leftarrow> fwrite io fp buf;
         Some (if cnt \<noteq> 1 then FDB_READ_ERR else FDB_NO_ERR, db\<lparr>db_io := io\<rparr>)
       }
       else Some (FDB_READ_ERR, db)
     }"

text \<open>
  The loop that fills the file in blocks of \<open>BUF_SIZE\<close> bytes, from block \<open>i\<close> on; it returns the
  number of blocks.
\<close>

definition BUF_SIZE :: nat where "BUF_SIZE = 32"

function fdb_file_erase_loop :: "libc \<Rightarrow> nat \<Rightarrow> nat \<Rightarrow> nat \<Rightarrow> (nat \<times> libc) option" where
  "fdb_file_erase_loop io fp n i =
     (if i * BUF_SIZE < n then do {
        (_, io) \<leftarrow> fwrite io fp (replicate BUF_SIZE 0xFF);
        fdb_file_erase_loop io fp n (Suc i)
      }
      else Some (i, io))"
  by pat_completeness auto
termination
  by (relation "measure (\<lambda>(io, fp, n, i). n - i)") (auto simp: BUF_SIZE_def)

text \<open>
  The write after the loop has \<open>size - i * BUF_SIZE\<close> bytes. When the size is no multiple of the
  block this wraps around and the call reads far past the buffer, which has no meaning.
\<close>

definition fdb_file_erase :: "'a fdb_db_scheme \<Rightarrow> addr \<Rightarrow> nat \<Rightarrow> (fdb_err_t \<times> 'a fdb_db_scheme) option"
where
  "fdb_file_erase db addr n =
     do {
       (fp, db) \<leftarrow> open_db_file db addr True;
       if fp \<noteq> 0 then do {
         io \<leftarrow> fseek_set (db_io db) fp 0;
         (i, io) \<leftarrow> fdb_file_erase_loop io fp n 0;
         if sub64 n (i * BUF_SIZE) \<le> BUF_SIZE then do {
           (_, io) \<leftarrow> fwrite io fp (replicate (sub64 n (i * BUF_SIZE)) 0xFF);
           Some (FDB_NO_ERR, db\<lparr>db_io := io\<rparr>)
         }
         else None
       }
       else Some (FDB_ERASE_ERR, db)
     }"

declare fdb_file_erase_loop.simps [simp del]

end
