(* ===== verification/StatusTable.thy ===== *)
theory StatusTable
  imports FdbDef
begin

text \<open>
  The status tables of \<open>fdb_utils.c\<close>: a status of an enumeration with \<open>n\<close> values is stored
  so that a later status is written over an earlier one by clearing bits only. With a write
  granularity \<open>g\<close> of 1 bit, status \<open>i\<close> clears the \<open>i\<close> most significant bits; with 8 or more bits
  it writes one zero byte per step. The functions take \<open>g\<close>, the macro \<open>FDB_WRITE_GRAN\<close>, as an
  argument, because the source selects both encodings with it.
\<close>

section \<open>The program\<close>

definition FDB_STATUS_TABLE_SIZE :: "nat \<Rightarrow> nat \<Rightarrow> nat" where
  "FDB_STATUS_TABLE_SIZE g status_number =
     (if g = 1 then (status_number * g + 7) div 8 else ((status_number - 1) * g + 7) div 8)"

text \<open>
  The result is the index of the byte that was changed (\<open>None\<close> stands for \<open>SIZE_MAX\<close>, no byte)
  and the table, whose \<open>FDB_STATUS_TABLE_SIZE\<close> bytes the function sets in full.
\<close>

definition fdb_set_status :: "nat \<Rightarrow> nat \<Rightarrow> nat \<Rightarrow> nat option \<times> byte list" where
  "fdb_set_status g status_num status_index =
     (let status_table = replicate (FDB_STATUS_TABLE_SIZE g status_num) FDB_BYTE_ERASED in
      if status_index > 0 then
        if g = 1 then
          let byte_index = (status_index - 1) div 8 in
          (Some byte_index,
           status_table[byte_index :=
             status_table ! byte_index AND drop_bit (status_index mod 8) 0xFF])
        else
          let byte_index = (status_index - 1) * (g div 8) in
          (Some byte_index, status_table[byte_index := FDB_BYTE_WRITTEN])
      else (None, status_table))"

text \<open>The \<open>while (status_num--)\<close> loop: the number of rounds before the first written step.\<close>

definition status_written :: "nat \<Rightarrow> byte list \<Rightarrow> nat \<Rightarrow> bool" where
  "status_written g status_table n =
     (if g = 1 then status_table ! (n div 8) AND drop_bit (n mod 8) 0x80 = 0
      else status_table ! (n * g div 8) = FDB_BYTE_WRITTEN)"

fun fdb_get_status_loop :: "nat \<Rightarrow> byte list \<Rightarrow> nat \<Rightarrow> nat \<Rightarrow> nat" where
  "fdb_get_status_loop g status_table 0 i = i"
| "fdb_get_status_loop g status_table (Suc n) i =
     (if status_written g status_table n then i
      else fdb_get_status_loop g status_table n (i + 1))"

definition fdb_get_status :: "nat \<Rightarrow> byte list \<Rightarrow> nat \<Rightarrow> nat" where
  "fdb_get_status g status_table status_num =
     (status_num - 1) - fdb_get_status_loop g status_table (status_num - 1) 0"


section \<open>Statuses only advance\<close>

text \<open>
  The contract a status cell gives the databases: \<open>dec\<close> reads the status back, and programming
  status \<open>j\<close> into a cell leaves the later of the old status and \<open>j\<close>. \<open>cell t k\<close> says that the
  table \<open>t\<close> holds status \<open>k\<close>.
\<close>

locale status_cell =
  fixes num :: nat
    and enc :: "nat \<Rightarrow> 't"
    and prog :: "'t \<Rightarrow> 't \<Rightarrow> 't"
    and dec :: "'t \<Rightarrow> nat"
    and cell :: "'t \<Rightarrow> nat \<Rightarrow> bool"
  assumes cell_enc: "i < num \<Longrightarrow> cell (enc i) i"
    and cell_prog: "cell t i \<Longrightarrow> j < num \<Longrightarrow> cell (prog t (enc j)) (max i j)"
    and dec_cell: "cell t i \<Longrightarrow> dec t = i"
begin

lemma dec_enc: "i < num \<Longrightarrow> dec (enc i) = i"
  by (rule dec_cell [OF cell_enc])

lemma dec_prog_seq:
  assumes "cell t i" "list_all (\<lambda>j. j < num) js"
  shows "dec (foldl prog t (map enc js)) = fold max js i"
  using assms
proof (induction js arbitrary: t i)
  case Nil
  then show ?case by (simp add: dec_cell)
next
  case (Cons j js)
  then have "dec (foldl prog (prog t (enc j)) (map enc js)) = fold max js (max i j)"
    by (intro Cons.IH cell_prog) auto
  then show ?case by (simp add: max.commute)
qed

end

text \<open>Programming flash clears bits: a write leaves the bitwise conjunction.\<close>

definition nor_program :: "byte list \<Rightarrow> byte list \<Rightarrow> byte list" where
  "nor_program old new = map2 (\<lambda>a b. a AND b) old new"

lemma get_status_loop_stop:
  assumes "k \<le> m" "k = 0 \<or> status_written g t (k - 1)"
    and "\<And>n. k \<le> n \<Longrightarrow> n < m \<Longrightarrow> \<not> status_written g t n"
  shows "fdb_get_status_loop g t m i = i + (m - k)"
  using assms
proof (induction m arbitrary: i)
  case 0
  then show ?case by simp
next
  case (Suc m)
  show ?case
  proof (cases "k = Suc m")
    case True
    with Suc.prems(2) show ?thesis by simp
  next
    case False
    with Suc.prems have "k \<le> m" "\<not> status_written g t m" by auto
    then show ?thesis using Suc.IH [of "i + 1"] Suc.prems by (simp add: Suc_diff_le)
  qed
qed

lemma fdb_get_status_eqI:
  assumes "k < num" "k = 0 \<or> status_written g t (k - 1)"
    and "\<And>n. k \<le> n \<Longrightarrow> n < num - 1 \<Longrightarrow> \<not> status_written g t n"
  shows "fdb_get_status g t num = k"
  using get_status_loop_stop [of k "num - 1" g t 0] assms by (simp add: fdb_get_status_def)


subsection \<open>Granularity of one bit\<close>

lemma status_written_bit: "n < 8 \<Longrightarrow> status_written 1 [w] n \<longleftrightarrow> \<not> bit w (7 - n)"
proof -
  assume n: "n < 8"
  have "drop_bit n (0x80 :: byte) = push_bit (7 - n) 1"
    using n by (intro bit_word_eqI) (auto simp: bit_simps bit_128_int)
  with n show ?thesis by (simp add: status_written_def bit_iff_and_push_bit_not_eq_0)
qed

definition bit_cell :: "byte list \<Rightarrow> nat \<Rightarrow> bool" where
  "bit_cell t k \<longleftrightarrow> k < 8 \<and> t = [drop_bit k 0xFF]"

lemma set_status_bit:
  "i < num \<Longrightarrow> num \<le> 8 \<Longrightarrow> snd (fdb_set_status 1 num i) = [drop_bit i 0xFF]"
proof -
  assume "i < num" "num \<le> 8"
  moreover from this have "FDB_STATUS_TABLE_SIZE 1 num = 1" by (simp add: FDB_STATUS_TABLE_SIZE_def)
  ultimately show ?thesis
    by (auto simp: fdb_set_status_def FDB_BYTE_ERASED_def Let_def bit_255_int bit_simps intro!: bit_word_eqI)
qed

lemma status_cell_bit:
  assumes "0 < num" "num \<le> 8"
  shows "status_cell num (\<lambda>i. snd (fdb_set_status 1 num i)) nor_program
           (\<lambda>t. fdb_get_status 1 t num) (\<lambda>t k. k < num \<and> bit_cell t k)"
proof
  show "i < num \<and> bit_cell (snd (fdb_set_status 1 num i)) i" if "i < num" for i
    using that assms by (simp add: bit_cell_def set_status_bit)
next
  fix t i j
  assume a: "i < num \<and> bit_cell t i" "j < num"
  have "drop_bit i 0xFF AND drop_bit j 0xFF = (drop_bit (max i j) 0xFF :: byte)"
    by (intro bit_word_eqI) (auto simp: bit_simps bit_255_int)
  with a assms show "max i j < num \<and> bit_cell (nor_program t (snd (fdb_set_status 1 num j))) (max i j)"
    by (simp add: bit_cell_def set_status_bit nor_program_def)
next
  fix t k
  assume a: "k < num \<and> bit_cell t k"
  have w: "status_written 1 t n \<longleftrightarrow> n < k" if "n < 8" for n
    using a that by (auto simp: bit_cell_def status_written_bit bit_simps bit_255_int)
  show "fdb_get_status 1 t num = k"
    by (rule fdb_get_status_eqI) (use a assms w in auto)
qed


subsection \<open>Granularity of whole bytes\<close>

definition byte_cell :: "nat \<Rightarrow> nat \<Rightarrow> byte list \<Rightarrow> nat \<Rightarrow> bool" where
  "byte_cell g num t k \<longleftrightarrow> k < num \<and> length t = (num - 1) * (g div 8) \<and>
     (k = 0 \<or> t ! ((k - 1) * (g div 8)) = FDB_BYTE_WRITTEN) \<and>
     (\<forall>n. k \<le> n \<and> n < num - 1 \<longrightarrow> t ! (n * (g div 8)) = FDB_BYTE_ERASED)"

lemma set_status_byte_nth:
  assumes "8 dvd g" "0 < g" "i < num" "n < num - 1"
  shows "snd (fdb_set_status g num i) ! (n * (g div 8))
           = (if i = Suc n then FDB_BYTE_WRITTEN else FDB_BYTE_ERASED)"
    and "length (snd (fdb_set_status g num i)) = (num - 1) * (g div 8)"
proof -
  from assms(1,2) obtain b where g: "g = 8 * b" "0 < b" by (elim dvdE) auto
  then have size: "FDB_STATUS_TABLE_SIZE (8 * b) num = (num - 1) * b" "8 * b \<noteq> 1"
    by (simp_all add: FDB_STATUS_TABLE_SIZE_def)
  have "n * b < (num - 1) * b" using assms(4) g(2) by simp
  moreover have "(i - 1) * b = n * b \<longleftrightarrow> i - 1 = n" using g(2) by simp
  ultimately show "snd (fdb_set_status g num i) ! (n * (g div 8))
           = (if i = Suc n then FDB_BYTE_WRITTEN else FDB_BYTE_ERASED)"
    using g by (auto simp: fdb_set_status_def size Let_def nth_list_update)
  show "length (snd (fdb_set_status g num i)) = (num - 1) * (g div 8)"
    using g by (simp add: fdb_set_status_def size Let_def)
qed

lemma status_written_byte:
  "8 dvd g \<Longrightarrow> g \<noteq> 1 \<Longrightarrow> status_written g t n \<longleftrightarrow> t ! (n * (g div 8)) = FDB_BYTE_WRITTEN"
  by (simp add: status_written_def div_mult_swap)

lemma status_cell_byte:
  assumes "8 dvd g" "0 < g" "1 < num"
  shows "status_cell num (\<lambda>i. snd (fdb_set_status g num i)) nor_program
           (\<lambda>t. fdb_get_status g t num) (byte_cell g num)"
proof
  show "byte_cell g num (snd (fdb_set_status g num i)) i" if "i < num" for i
    using that assms set_status_byte_nth(2) [OF assms(1,2) that, of 0]
    by (auto simp: byte_cell_def set_status_byte_nth(1))
next
  fix t i j
  assume t: "byte_cell g num t i" and j: "j < num"
  have lt: "n * (g div 8) < (num - 1) * (g div 8)" if "n < num - 1" for n
    using that assms by (auto elim!: dvdE)
  have len: "length (snd (fdb_set_status g num j)) = (num - 1) * (g div 8)"
    by (rule set_status_byte_nth(2) [OF assms(1,2) j, of 0]) (use assms in simp)
  have nth: "nor_program t (snd (fdb_set_status g num j)) ! (n * (g div 8))
      = (if j = Suc n then FDB_BYTE_WRITTEN else t ! (n * (g div 8)))" if "n < num - 1" for n
    using that t lt [OF that] len set_status_byte_nth(1) [OF assms(1,2) j that]
    by (simp add: byte_cell_def nor_program_def FDB_BYTE_WRITTEN_def FDB_BYTE_ERASED_def)
  have at_j: "nor_program t (snd (fdb_set_status g num j)) ! ((j - 1) * (g div 8)) = FDB_BYTE_WRITTEN"
    if "0 < j" using nth [of "j - 1"] that j by simp
  have at_i: "nor_program t (snd (fdb_set_status g num j)) ! ((i - 1) * (g div 8)) = FDB_BYTE_WRITTEN"
    if "0 < i" using nth [of "i - 1"] that t by (auto simp: byte_cell_def)
  have "length (nor_program t (snd (fdb_set_status g num j))) = (num - 1) * (g div 8)"
    using t len by (simp add: byte_cell_def nor_program_def)
  moreover have "max i j = 0 \<or> nor_program t (snd (fdb_set_status g num j))
      ! ((max i j - 1) * (g div 8)) = FDB_BYTE_WRITTEN"
    using at_i at_j unfolding max_def by (cases "i \<le> j") auto
  moreover have "nor_program t (snd (fdb_set_status g num j)) ! (n * (g div 8)) = FDB_BYTE_ERASED"
    if "max i j \<le> n" "n < num - 1" for n
    using that t nth [of n] by (simp add: byte_cell_def)
  ultimately show "byte_cell g num (nor_program t (snd (fdb_set_status g num j))) (max i j)"
    using t j by (simp add: byte_cell_def)
next
  fix t k
  assume k: "byte_cell g num t k"
  from assms have g1: "g \<noteq> 1" by auto
  show "fdb_get_status g t num = k"
    by (rule fdb_get_status_eqI)
       (use k in \<open>auto simp: byte_cell_def status_written_byte [OF assms(1) g1]
          FDB_BYTE_WRITTEN_def FDB_BYTE_ERASED_def\<close>)
qed


subsection \<open>The two encodings and the enumerations of the databases\<close>

interpretation status_kv: status_cell FDB_KV_STATUS_NUM
    "\<lambda>i. snd (fdb_set_status 1 FDB_KV_STATUS_NUM i)" nor_program
    "\<lambda>t. fdb_get_status 1 t FDB_KV_STATUS_NUM" "\<lambda>t k. k < FDB_KV_STATUS_NUM \<and> bit_cell t k"
  by (rule status_cell_bit) (simp_all add: fdb_layout)

interpretation status_sec: status_cell FDB_SECTOR_STORE_STATUS_NUM
    "\<lambda>i. snd (fdb_set_status 1 FDB_SECTOR_STORE_STATUS_NUM i)" nor_program
    "\<lambda>t. fdb_get_status 1 t FDB_SECTOR_STORE_STATUS_NUM"
    "\<lambda>t k. k < FDB_SECTOR_STORE_STATUS_NUM \<and> bit_cell t k"
  by (rule status_cell_bit) (simp_all add: fdb_layout)

text \<open>An enumeration that is cast to and from its number.\<close>

locale status_enum =
  fixes to_num :: "'s \<Rightarrow> nat"
    and of_num :: "nat \<Rightarrow> 's"
    and num :: nat
  assumes of_to: "of_num (to_num s) = s"
    and to_less: "to_num s < num"
    and num_le: "num \<le> 8"
begin

lemma stored_status: "of_num (fdb_get_status 1 (snd (fdb_set_status 1 num (to_num s))) num) = s"
proof -
  have "0 < num" using to_less [of s] by simp
  then show ?thesis
    using status_cell.dec_enc [OF status_cell_bit, OF _ num_le to_less [of s]] by (simp add: of_to)
qed

lemma set_status_index:
  "fdb_set_status 1 num (to_num s)
     = (if to_num s = 0 then None else Some 0, [drop_bit (to_num s) 0xFF])"
proof -
  have "snd (fdb_set_status 1 num (to_num s)) = [drop_bit (to_num s) 0xFF]"
    using to_less num_le by (rule set_status_bit)
  moreover have "(to_num s - 1) div 8 = 0" using to_less [of s] num_le by simp
  ultimately show ?thesis by (auto simp: fdb_set_status_def Let_def)
qed

lemma stored_byte: "of_num (fdb_get_status 1 [drop_bit (to_num s) 0xFF] num) = s"
  using stored_status [of s] by (simp add: set_status_index)

end

interpretation kv_enum: status_enum kv_status_num kv_status_of FDB_KV_STATUS_NUM
proof
  fix s :: fdb_kv_status
  show "kv_status_of (kv_status_num s) = s" "kv_status_num s < FDB_KV_STATUS_NUM"
    by (cases s; simp add: kv_status_of_def fdb_layout)+
qed (simp add: fdb_layout)

interpretation tsl_enum: status_enum tsl_status_num tsl_status_of FDB_TSL_STATUS_NUM
proof
  fix s :: fdb_tsl_status
  show "tsl_status_of (tsl_status_num s) = s" "tsl_status_num s < FDB_TSL_STATUS_NUM"
    by (cases s; simp add: tsl_status_of_def fdb_layout)+
qed (simp add: fdb_layout)

interpretation store_enum: status_enum store_status_num store_status_of FDB_SECTOR_STORE_STATUS_NUM
proof
  fix s :: fdb_sector_store_status
  show "store_status_of (store_status_num s) = s" "store_status_num s < FDB_SECTOR_STORE_STATUS_NUM"
    by (cases s; simp add: store_status_of_def fdb_layout)+
qed (simp add: fdb_layout)

interpretation dirty_enum: status_enum dirty_status_num dirty_status_of FDB_SECTOR_DIRTY_STATUS_NUM
proof
  fix s :: fdb_sector_dirty_status
  show "dirty_status_of (dirty_status_num s) = s" "dirty_status_num s < FDB_SECTOR_DIRTY_STATUS_NUM"
    by (cases s; simp add: dirty_status_of_def fdb_layout)+
qed (simp add: fdb_layout)


section \<open>Properties\<close>

text \<open>
  C24: over any sequence of status writes into one cell of flash, where every write can only clear
  bits, the status read back is the latest one in the order of the enumeration: a status never goes
  back. The statement covers both encodings of the source, one bit per step (tables of up to
  eight statuses) and whole bytes.
\<close>

theorem status_only_advances:
  assumes "g = 1 \<and> num \<le> 8 \<or> 8 dvd g \<and> 0 < g \<and> 1 < num"
    and "i < num" "list_all (\<lambda>j. j < num) js"
  shows "fdb_get_status g
           (foldl nor_program (snd (fdb_set_status g num i))
              (map (\<lambda>j. snd (fdb_set_status g num j)) js)) num = fold max js i"
  using assms(1)
proof
  assume "g = 1 \<and> num \<le> 8"
  moreover from assms(2) have "0 < num" by simp
  ultimately show ?thesis
    using status_cell.dec_prog_seq [OF status_cell_bit status_cell.cell_enc [OF status_cell_bit]]
      assms(2,3) by auto
next
  assume "8 dvd g \<and> 0 < g \<and> 1 < num"
  then show ?thesis
    using status_cell.dec_prog_seq [OF status_cell_byte status_cell.cell_enc [OF status_cell_byte]]
      assms(2,3) by auto
qed

theorem status_only_advances_witness:
  "fdb_get_status 1
     (foldl nor_program (snd (fdb_set_status 1 6 1))
        (map (\<lambda>j. snd (fdb_set_status 1 6 j)) [2, 1, 4])) 6 = fold max [2, 1, 4] 1"
  by (rule status_only_advances) auto


end
