(* ===== verification/FlashIo.thy ===== *)
theory FlashIo
  imports FdbFile StatusTable
begin

text \<open>
  The storage operations of \<open>fdb_utils.c\<close> that both databases call: reading, writing and erasing
  (which the build's configuration sends to the file mode), status tables on storage, the
  search for the erased tail of a range, aligned writes and blob reads.
\<close>

section \<open>Read, write, erase\<close>

text \<open>
  Without \<open>FDB_USING_FAL_MODE\<close> a database that is not in file mode does nothing here and reports
  success.
\<close>

definition fdb_flash_read ::
  "'a fdb_db_scheme \<Rightarrow> addr \<Rightarrow> byte list \<Rightarrow> nat \<Rightarrow> (fdb_err_t \<times> byte list \<times> 'a fdb_db_scheme) option"
where
  "fdb_flash_read db addr buf n =
     (if db_file_mode db then fdb_file_read db addr buf n else Some (FDB_NO_ERR, buf, db))"

definition fdb_flash_erase :: "'a fdb_db_scheme \<Rightarrow> addr \<Rightarrow> nat \<Rightarrow> (fdb_err_t \<times> 'a fdb_db_scheme) option"
where
  "fdb_flash_erase db addr n =
     (if db_file_mode db then fdb_file_erase db addr n else Some (FDB_NO_ERR, db))"

definition fdb_flash_write ::
  "'a fdb_db_scheme \<Rightarrow> addr \<Rightarrow> byte list \<Rightarrow> bool \<Rightarrow> (fdb_err_t \<times> 'a fdb_db_scheme) option"
where
  "fdb_flash_write db addr buf sync =
     (if db_file_mode db then fdb_file_write db addr buf sync else Some (FDB_NO_ERR, db))"

definition fdb_flash_write_align ::
  "'a fdb_db_scheme \<Rightarrow> addr \<Rightarrow> byte list \<Rightarrow> (fdb_err_t \<times> 'a fdb_db_scheme) option"
where
  "fdb_flash_write_align db addr buf =
     (let n = length buf;
          align_data_size = (if FDB_WRITE_GRAN div 8 > 0 then FDB_WRITE_GRAN div 8 else 1);
          align_data = replicate align_data_size FDB_BYTE_ERASED;
          align_remain = n - FDB_WG_ALIGN_DOWN n
      in do {
        (result, db) \<leftarrow> (if FDB_WG_ALIGN_DOWN n > 0
                           then fdb_flash_write db addr (take (FDB_WG_ALIGN_DOWN n) buf) False
                           else Some (FDB_NO_ERR, db));
        if result = FDB_NO_ERR \<and> align_remain \<noteq> 0 then
          fdb_flash_write db (u32 (addr + FDB_WG_ALIGN_DOWN n))
            (drop (FDB_WG_ALIGN_DOWN n) buf @ drop align_remain align_data) False
        else Some (result, db)
      })"


section \<open>Status tables on storage\<close>

definition fdb_write_status ::
  "'a fdb_db_scheme \<Rightarrow> addr \<Rightarrow> nat \<Rightarrow> nat \<Rightarrow> bool \<Rightarrow> (fdb_err_t \<times> 'a fdb_db_scheme) option"
where
  "fdb_write_status db addr status_num status_index sync =
     (if \<not> status_index < status_num then None
      else
        case fdb_set_status FDB_WRITE_GRAN status_num status_index of
          (None, _) \<Rightarrow> Some (FDB_NO_ERR, db)
        | (Some byte_index, status_table) \<Rightarrow>
            fdb_flash_write db (u32 (addr + byte_index))
              (take (if FDB_WRITE_GRAN = 1 then 1 else FDB_WRITE_GRAN div 8)
                    (drop byte_index status_table)) sync)"

definition fdb_read_status ::
  "'a fdb_db_scheme \<Rightarrow> addr \<Rightarrow> byte list \<Rightarrow> nat \<Rightarrow> (nat \<times> 'a fdb_db_scheme) option"
where
  "fdb_read_status db addr status_table total_num =
     do {
       (_, status_table, db) \<leftarrow>
          fdb_flash_read db addr status_table (FDB_STATUS_TABLE_SIZE FDB_WRITE_GRAN total_num);
       Some (fdb_get_status FDB_WRITE_GRAN status_table total_num, db)
     }"


section \<open>The erased tail of a range\<close>

text \<open>The inner loop over one buffer, from address \<open>a\<close> on.\<close>

fun ff_scan :: "byte list \<Rightarrow> nat \<Rightarrow> nat \<Rightarrow> byte \<Rightarrow> nat \<times> byte" where
  "ff_scan [] a addr last_data = (addr, last_data)"
| "ff_scan (b # bs) a addr last_data =
     ff_scan bs (Suc a)
       (if last_data \<noteq> FDB_BYTE_ERASED \<and> b = FDB_BYTE_ERASED then a else addr) b"

partial_function (option) continue_ff_loop ::
  "'a fdb_db_scheme \<Rightarrow> addr \<Rightarrow> addr \<Rightarrow> byte list \<Rightarrow> nat \<Rightarrow> byte
     \<Rightarrow> (nat \<times> byte \<times> 'a fdb_db_scheme) option"
where
  "continue_ff_loop db start end buf addr last_data =
     (if start < end then
        let read_size = (if start + 32 < end then 32 else end - start) in
        do {
          (_, buf, db) \<leftarrow> fdb_flash_read db start buf read_size;
          case ff_scan (take read_size buf) start addr last_data of (addr, last_data) \<Rightarrow>
            continue_ff_loop db (u32 (start + 32)) end buf addr last_data
        }
      else Some (addr, last_data, db))"

definition fdb_continue_ff_addr ::
  "'a fdb_db_scheme \<Rightarrow> addr \<Rightarrow> addr \<Rightarrow> (addr \<times> 'a fdb_db_scheme) option"
where
  "fdb_continue_ff_addr db start end =
     do {
       (addr, last_data, db) \<leftarrow>
          continue_ff_loop db start end (uninit (db_io db) 32) start FDB_BYTE_WRITTEN;
       Some (if last_data = FDB_BYTE_ERASED then u32 (FDB_WG_ALIGN addr) else end, db)
     }"


section \<open>Blobs\<close>

record fdb_blob =
  blob_buf :: "byte list option"
  blob_size :: nat
  blob_meta_addr :: addr
  blob_addr :: addr
  blob_len :: nat

definition fdb_blob_make :: "fdb_blob \<Rightarrow> byte list option \<Rightarrow> nat \<Rightarrow> fdb_blob" where
  "fdb_blob_make blob value_buf buf_len = blob\<lparr>blob_buf := value_buf, blob_size := buf_len\<rparr>"

text \<open>
  A blob without a buffer is given to the storage layer as a null pointer; only a read of no bytes
  is defined on it.
\<close>

definition fdb_blob_read ::
  "'a fdb_db_scheme \<Rightarrow> fdb_blob \<Rightarrow> (nat \<times> fdb_blob \<times> 'a fdb_db_scheme) option"
where
  "fdb_blob_read db blob =
     (let read_len = (if blob_size blob > blob_len blob then blob_len blob else blob_size blob) in
      case blob_buf blob of
        None \<Rightarrow>
          if read_len = 0 then do {
            (result, _, db) \<leftarrow> fdb_flash_read db (blob_addr blob) [] 0;
            Some (0, blob, db)
          } else None
      | Some buf \<Rightarrow> do {
            (result, buf, db) \<leftarrow> fdb_flash_read db (blob_addr blob) buf read_len;
            Some (if result \<noteq> FDB_NO_ERR then 0 else read_len, blob\<lparr>blob_buf := Some buf\<rparr>, db)
          })"

end
