(* ===== verification/FdbInit.thy ===== *)
theory FdbInit
  imports FlashIo
begin

text \<open>
  The initialisation shared by both databases, \<open>fdb.c\<close>, and the lock macros \<open>db_lock\<close> and
  \<open>db_unlock\<close>.
\<close>

section \<open>The program\<close>

definition db_lock :: "'a fdb_db_scheme \<Rightarrow> 'a fdb_db_scheme" where
  "db_lock db = (if db_lock_fn db then db\<lparr>db_lock_cnt := db_lock_cnt db + 1\<rparr> else db)"

definition db_unlock :: "'a fdb_db_scheme \<Rightarrow> 'a fdb_db_scheme" where
  "db_unlock db = (if db_unlock_fn db then db\<lparr>db_lock_cnt := db_lock_cnt db - 1\<rparr> else db)"

text \<open>
  A sector size of 0 can only be met outside file mode, where the remainder by it has no meaning.
\<close>

definition fdb_init_ex ::
  "'a fdb_db_scheme \<Rightarrow> string \<Rightarrow> string \<Rightarrow> fdb_db_type \<Rightarrow> nat \<Rightarrow> (fdb_err_t \<times> 'a fdb_db_scheme) option"
where
  "fdb_init_ex db name path type user_data =
     (if db_init_ok db then Some (FDB_NO_ERR, db)
      else do {
        db \<leftarrow> Some (db\<lparr>db_name := name, db_type := type, db_user_data := user_data\<rparr>);
        db \<leftarrow> (if db_file_mode db then
                 if db_sec_size db \<noteq> 0 \<and> db_max_size db \<noteq> 0 \<and> length path \<noteq> 0 then
                   Some (db\<lparr>db_cur_file_sec := replicate FDB_FILE_CACHE_TABLE_SIZE FDB_FAILED_ADDR,
                            db_cur_file := replicate FDB_FILE_CACHE_TABLE_SIZE 0,
                            db_dir := path\<rparr>)
                 else None
               else Some db);
        if db_sec_size db = 0 \<or> (db_sec_size db AND sub32 (db_sec_size db) 1) \<noteq> 0 then None
        else if db_max_size db mod db_sec_size db \<noteq> 0 then Some (FDB_INIT_FAILED, db)
        else if db_max_size db div db_sec_size db < 2 then Some (FDB_INIT_FAILED, db)
        else Some (FDB_NO_ERR, db)
      })"

definition fdb_init_finish :: "'a fdb_db_scheme \<Rightarrow> fdb_err_t \<Rightarrow> 'a fdb_db_scheme" where
  "fdb_init_finish db result = (if result = FDB_NO_ERR then db\<lparr>db_init_ok := True\<rparr> else db)"

fun fdb_deinit_close :: "libc \<Rightarrow> nat list \<Rightarrow> libc option" where
  "fdb_deinit_close io [] = Some io"
| "fdb_deinit_close io (fd # fds) =
     (if fd \<noteq> 0 then do { io \<leftarrow> fclose io fd; fdb_deinit_close io fds }
      else fdb_deinit_close io fds)"

definition fdb_deinit :: "'a fdb_db_scheme \<Rightarrow> 'a fdb_db_scheme option" where
  "fdb_deinit db =
     do {
       db \<leftarrow> (if db_init_ok db then do {
                io \<leftarrow> fdb_deinit_close (db_io db) (take FDB_FILE_CACHE_TABLE_SIZE (db_cur_file db));
                Some (db\<lparr>db_io := io\<rparr>)
              } else Some db);
       Some (db\<lparr>db_init_ok := False\<rparr>)
     }"

definition fdb_db_path :: "'a fdb_db_scheme \<Rightarrow> string option" where
  "fdb_db_path db = (if db_file_mode db then Some (db_dir db) else None)"

text \<open>
  The argument of a control command: a pointer to a 32-bit integer, to a boolean or to a timestamp,
  or a function pointer (whether it is not null). A command given another kind of pointer has no
  meaning.
\<close>

datatype ctrl_arg = Arg_u32 nat | Arg_bool bool | Arg_time int | Arg_fn bool

end
