(* ===== verification/KvDef.thy ===== *)
theory KvDef
  imports FdbInit Crc32
begin

text \<open>
  The data of the key-value database, from \<open>inc/fdb_def.h\<close> and the head of \<open>fdb_kvdb.c\<close>: the
  on-flash headers of a sector and of a key-value node with their byte layout, and the in-memory
  structures. The layout is that of the build's x86-64 target: little endian, natural alignment.
\<close>

section \<open>On-flash headers\<close>

text \<open>
  \<open>struct sector_hdr_data\<close>: status bytes at 0 and 1, padding at 2, \<open>magic\<close> at 4, \<open>combined\<close> at 8,
  \<open>reserved\<close> at 12, 16 bytes in all.
\<close>

record sector_hdr_data =
  sh_store :: "byte list"
  sh_dirty :: "byte list"
  sh_pad :: "byte list"
  sh_magic :: nat
  sh_combined :: nat
  sh_reserved :: nat

definition sector_hdr_bytes :: "sector_hdr_data \<Rightarrow> byte list" where
  "sector_hdr_bytes h = sh_store h @ sh_dirty h @ sh_pad h @ le32 (sh_magic h)
     @ le32 (sh_combined h) @ le32 (sh_reserved h)"

definition sector_hdr_of :: "byte list \<Rightarrow> sector_hdr_data" where
  "sector_hdr_of bs = \<lparr>sh_store = take 1 bs, sh_dirty = take 1 (drop 1 bs),
     sh_pad = take 2 (drop 2 bs), sh_magic = le32_dec (take 4 (drop 4 bs)),
     sh_combined = le32_dec (take 4 (drop 8 bs)), sh_reserved = le32_dec (take 4 (drop 12 bs))\<rparr>"

text \<open>
  \<open>struct kv_hdr_data\<close>: status byte at 0, padding, \<open>magic\<close> at 4, \<open>len\<close> at 8, \<open>crc32\<close> at 12,
  \<open>name_len\<close> at 16, padding, \<open>value_len\<close> at 20, 24 bytes in all. The checksum is computed over the
  four bytes from \<open>name_len\<close> on, padding included.
\<close>

record kv_hdr_data =
  kh_status_table :: "byte list"
  kh_pad0 :: "byte list"
  kh_magic :: nat
  kh_len :: nat
  kh_crc32 :: nat
  kh_name_len :: nat
  kh_pad1 :: "byte list"
  kh_value_len :: nat

definition kv_hdr_bytes :: "kv_hdr_data \<Rightarrow> byte list" where
  "kv_hdr_bytes h = kh_status_table h @ kh_pad0 h @ le32 (kh_magic h) @ le32 (kh_len h)
     @ le32 (kh_crc32 h) @ [word_of_nat (kh_name_len h)] @ kh_pad1 h @ le32 (kh_value_len h)"

definition kv_hdr_of :: "byte list \<Rightarrow> kv_hdr_data" where
  "kv_hdr_of bs = \<lparr>kh_status_table = take 1 bs, kh_pad0 = take 3 (drop 1 bs),
     kh_magic = le32_dec (take 4 (drop 4 bs)), kh_len = le32_dec (take 4 (drop 8 bs)),
     kh_crc32 = le32_dec (take 4 (drop 12 bs)), kh_name_len = unat (bs ! 16),
     kh_pad1 = take 3 (drop 17 bs), kh_value_len = le32_dec (take 4 (drop 20 bs))\<rparr>"

definition SECTOR_MAGIC_WORD :: nat where "SECTOR_MAGIC_WORD = 0x30424446"
definition KV_MAGIC_WORD :: nat where "KV_MAGIC_WORD = 0x3030564B"
definition SECTOR_NOT_COMBINED :: nat where "SECTOR_NOT_COMBINED = 0xFFFFFFFF"
definition SECTOR_COMBINED :: nat where "SECTOR_COMBINED = 0"
definition FAILED_ADDR :: addr where "FAILED_ADDR = 0xFFFFFFFF"
definition SECTOR_HDR_DATA_SIZE :: nat where "SECTOR_HDR_DATA_SIZE = FDB_WG_ALIGN 16"
definition SECTOR_STORE_OFFSET :: nat where "SECTOR_STORE_OFFSET = 0"
definition SECTOR_DIRTY_OFFSET :: nat where "SECTOR_DIRTY_OFFSET = 1"
definition KV_HDR_DATA_SIZE :: nat where "KV_HDR_DATA_SIZE = FDB_WG_ALIGN 24"
definition KV_MAGIC_OFFSET :: nat where "KV_MAGIC_OFFSET = 4"
definition FDB_SEC_REMAIN_THRESHOLD :: nat where
  "FDB_SEC_REMAIN_THRESHOLD = KV_HDR_DATA_SIZE + FDB_KV_NAME_MAX"
definition FDB_GC_EMPTY_SEC_THRESHOLD :: nat where "FDB_GC_EMPTY_SEC_THRESHOLD = 1"
definition FDB_STR_KV_VALUE_MAX_SIZE :: nat where "FDB_STR_KV_VALUE_MAX_SIZE = 128"

lemmas kv_layout [fdb_layout] =
  SECTOR_MAGIC_WORD_def KV_MAGIC_WORD_def SECTOR_NOT_COMBINED_def SECTOR_COMBINED_def
  FAILED_ADDR_def SECTOR_HDR_DATA_SIZE_def SECTOR_STORE_OFFSET_def SECTOR_DIRTY_OFFSET_def
  KV_HDR_DATA_SIZE_def KV_MAGIC_OFFSET_def FDB_SEC_REMAIN_THRESHOLD_def
  FDB_GC_EMPTY_SEC_THRESHOLD_def FDB_STR_KV_VALUE_MAX_SIZE_def


section \<open>In-memory structures\<close>

record fdb_kv =
  kv_status :: fdb_kv_status
  kv_crc_is_ok :: bool
  kv_name_len :: nat
  kv_len :: nat
  kv_value_len :: nat
  kv_name :: "byte list"
  kv_addr_start :: addr
  kv_addr_value :: addr

record kvdb_sec_info =
  sec_check_ok :: bool
  sec_store :: fdb_sector_store_status
  sec_dirty :: fdb_sector_dirty_status
  sec_addr :: addr
  sec_magic :: nat
  sec_combined :: nat
  sec_remain :: nat
  sec_empty_kv :: addr

record kv_cache_node =
  kc_name_crc :: nat
  kc_active :: nat
  kc_addr :: addr

record fdb_default_kv_node =
  dk_key :: "byte list"
  dk_value :: "byte list"
  dk_value_len :: nat

text \<open>
  \<open>kvdb_stack_kv\<close> and \<open>kvdb_stack_sector\<close> are what a local variable of the structure type holds
  before it is assigned.
\<close>

record fdb_kvdb = fdb_db +
  kvdb_default_kvs :: "fdb_default_kv_node list"
  kvdb_gc_request :: bool
  kvdb_in_recovery_check :: bool
  kvdb_cur_kv :: fdb_kv
  kvdb_cur_sector :: kvdb_sec_info
  kvdb_last_is_complete_del :: bool
  kvdb_kv_cache_table :: "kv_cache_node list"
  kvdb_sector_cache_table :: "kvdb_sec_info list"
  kvdb_stack_kv :: fdb_kv
  kvdb_stack_sector :: kvdb_sec_info

record fdb_kv_iterator =
  itr_curr_kv :: fdb_kv
  itr_iterated_cnt :: nat
  itr_iterated_obj_bytes :: nat
  itr_iterated_value_bytes :: nat
  itr_sector_addr :: addr
  itr_traversed_len :: nat

abbreviation SECTOR_NUM :: "fdb_kvdb \<Rightarrow> nat" where
  "SECTOR_NUM db \<equiv> db_max_size db div db_sec_size db"

end
