(* ===== verification/KvCache.thy ===== *)
theory KvCache
  imports KvDef
begin

text \<open>
  The two in-memory caches of the key-value database: the table of sector information and the
  table of key-value addresses, indexed by 16 bits of the name's checksum and replaced by lowest
  activity. A pointer to an entry is the index of the entry.
\<close>

section \<open>The sector cache\<close>

text \<open>The loop of \<open>update_sector_cache\<close>: \<open>Inl\<close> of the entry that is the sector's, or \<open>Inr\<close> of
  the last free one.\<close>

fun update_sector_cache_scan :: "kvdb_sec_info list \<Rightarrow> addr \<Rightarrow> nat \<Rightarrow> nat \<Rightarrow> nat + nat" where
  "update_sector_cache_scan [] a i empty_index = Inr empty_index"
| "update_sector_cache_scan (s # ss) a i empty_index =
     (if sec_addr s = a then Inl i
      else update_sector_cache_scan ss a (Suc i)
             (if sec_addr s = FDB_DATA_UNUSED then i else empty_index))"

definition update_sector_cache :: "fdb_kvdb \<Rightarrow> kvdb_sec_info \<Rightarrow> fdb_kvdb" where
  "update_sector_cache db sector =
     (let table = kvdb_sector_cache_table db in
      case update_sector_cache_scan table (sec_addr sector) 0 FDB_SECTOR_CACHE_TABLE_SIZE of
        Inl i \<Rightarrow>
          if sec_check_ok sector then db\<lparr>kvdb_sector_cache_table := table[i := sector]\<rparr>
          else db\<lparr>kvdb_sector_cache_table := table[i := (table ! i)\<lparr>sec_addr := FDB_DATA_UNUSED\<rparr>]\<rparr>
      | Inr empty_index \<Rightarrow>
          if sec_check_ok sector \<and> empty_index < FDB_SECTOR_CACHE_TABLE_SIZE
          then db\<lparr>kvdb_sector_cache_table := table[empty_index := sector]\<rparr>
          else db)"

fun sector_cache_index :: "kvdb_sec_info list \<Rightarrow> addr \<Rightarrow> nat \<Rightarrow> nat option" where
  "sector_cache_index [] a i = None"
| "sector_cache_index (s # ss) a i = (if sec_addr s = a then Some i else sector_cache_index ss a (Suc i))"

definition get_sector_from_cache :: "fdb_kvdb \<Rightarrow> addr \<Rightarrow> nat option" where
  "get_sector_from_cache db a = sector_cache_index (kvdb_sector_cache_table db) a 0"

definition update_sector_empty_addr_cache :: "fdb_kvdb \<Rightarrow> addr \<Rightarrow> addr \<Rightarrow> fdb_kvdb" where
  "update_sector_empty_addr_cache db a empty_addr =
     (case get_sector_from_cache db a of
        None \<Rightarrow> db
      | Some i \<Rightarrow>
          let table = kvdb_sector_cache_table db; sector = table ! i in
          db\<lparr>kvdb_sector_cache_table := table[i := sector\<lparr>sec_empty_kv := empty_addr,
               sec_remain := sub32 (db_sec_size db) (sub32 empty_addr (sec_addr sector))\<rparr>]\<rparr>)"

definition update_sector_status_store_cache ::
  "fdb_kvdb \<Rightarrow> addr \<Rightarrow> fdb_sector_store_status \<Rightarrow> fdb_kvdb"
where
  "update_sector_status_store_cache db a status =
     (case get_sector_from_cache db a of
        None \<Rightarrow> db
      | Some i \<Rightarrow>
          let table = kvdb_sector_cache_table db in
          db\<lparr>kvdb_sector_cache_table := table[i := (table ! i)\<lparr>sec_store := status\<rparr>]\<rparr>)"


section \<open>The key-value cache\<close>

definition name_crc16 :: "byte list \<Rightarrow> nat" where
  "name_crc16 name = u16 (unat (drop_bit 16 (fdb_calc_crc32 0 name)))"

text \<open>
  The loop of \<open>update_kv_cache\<close> over the rest of the table from index \<open>i\<close> on: whether the function
  returned from inside the loop, the rest of the table as it is left, and the two indices found.
\<close>

fun update_kv_cache_loop ::
  "kv_cache_node list \<Rightarrow> nat \<Rightarrow> addr \<Rightarrow> nat \<Rightarrow> nat \<Rightarrow> nat \<Rightarrow> nat
     \<Rightarrow> bool \<times> kv_cache_node list \<times> nat \<times> nat"
where
  "update_kv_cache_loop [] name_crc a i empty_index min_index min_activity
     = (False, [], empty_index, min_index)"
| "update_kv_cache_loop (c # cs) name_crc a i empty_index min_index min_activity =
     (if a \<noteq> FDB_DATA_UNUSED then
        if kc_name_crc c = name_crc then (True, c\<lparr>kc_addr := a\<rparr> # cs, empty_index, min_index)
        else if kc_addr c = FDB_DATA_UNUSED \<and> empty_index = FDB_KV_CACHE_TABLE_SIZE then
          map_prod id (map_prod ((#) c) id)
            (update_kv_cache_loop cs name_crc a (Suc i) i min_index min_activity)
        else if kc_addr c \<noteq> FDB_DATA_UNUSED then
          let c' = (if kc_active c > 0 then c\<lparr>kc_active := kc_active c - 1\<rparr> else c) in
          map_prod id (map_prod ((#) c') id)
            (if kc_active c' < min_activity
             then update_kv_cache_loop cs name_crc a (Suc i) empty_index i (kc_active c')
             else update_kv_cache_loop cs name_crc a (Suc i) empty_index min_index min_activity)
        else
          map_prod id (map_prod ((#) c) id)
            (update_kv_cache_loop cs name_crc a (Suc i) empty_index min_index min_activity)
      else if kc_name_crc c = name_crc then
        (True, c\<lparr>kc_addr := FDB_DATA_UNUSED, kc_active := 0\<rparr> # cs, empty_index, min_index)
      else
        map_prod id (map_prod ((#) c) id)
          (update_kv_cache_loop cs name_crc a (Suc i) empty_index min_index min_activity))"

definition kv_cache_put :: "kv_cache_node list \<Rightarrow> nat \<Rightarrow> nat \<Rightarrow> addr \<Rightarrow> kv_cache_node list" where
  "kv_cache_put table i name_crc a =
     table[i := \<lparr>kc_name_crc = name_crc, kc_active = FDB_KV_CACHE_TABLE_SIZE, kc_addr = a\<rparr>]"

definition update_kv_cache :: "fdb_kvdb \<Rightarrow> byte list \<Rightarrow> addr \<Rightarrow> fdb_kvdb" where
  "update_kv_cache db name a =
     (case update_kv_cache_loop (kvdb_kv_cache_table db) (name_crc16 name) a 0
             FDB_KV_CACHE_TABLE_SIZE FDB_KV_CACHE_TABLE_SIZE 0xFFFF of
        (returned, table, empty_index, min_activity_index) \<Rightarrow>
          db\<lparr>kvdb_kv_cache_table :=
            (if returned then table
             else if empty_index < FDB_KV_CACHE_TABLE_SIZE
               then kv_cache_put table empty_index (name_crc16 name) a
             else if min_activity_index < FDB_KV_CACHE_TABLE_SIZE
               then kv_cache_put table min_activity_index (name_crc16 name) a
             else table)\<rparr>)"

definition kv_cache_touch :: "kv_cache_node \<Rightarrow> kv_cache_node" where
  "kv_cache_touch c =
     (if kc_active c \<ge> 0xFFFF - FDB_KV_CACHE_TABLE_SIZE then c\<lparr>kc_active := 0xFFFF\<rparr>
      else c\<lparr>kc_active := kc_active c + FDB_KV_CACHE_TABLE_SIZE\<rparr>)"

text \<open>
  \<open>get_kv_from_cache\<close> looks at the entries from index \<open>i\<close> on; the name that is looked for has
  \<open>name_len\<close> bytes, the saved one is read into a zeroed buffer.
\<close>

function get_kv_from_cache_loop ::
  "fdb_kvdb \<Rightarrow> byte list \<Rightarrow> nat \<Rightarrow> (addr option \<times> fdb_kvdb) option"
where
  "get_kv_from_cache_loop db name i =
     (if i < FDB_KV_CACHE_TABLE_SIZE then
        let c = kvdb_kv_cache_table db ! i in
        if kc_addr c \<noteq> FDB_DATA_UNUSED \<and> kc_name_crc c = name_crc16 name then do {
          (_, saved_name, db) \<leftarrow> fdb_flash_read db (u32 (kc_addr c + KV_HDR_DATA_SIZE))
                                   (replicate FDB_KV_NAME_MAX 0) FDB_KV_NAME_MAX;
          if strncmp_eq name saved_name (length name) then
            Some (Some (kc_addr c), db\<lparr>kvdb_kv_cache_table :=
                                        (kvdb_kv_cache_table db)[i := kv_cache_touch c]\<rparr>)
          else get_kv_from_cache_loop db name (Suc i)
        }
        else get_kv_from_cache_loop db name (Suc i)
      else Some (None, db))"
  by pat_completeness auto
termination
  by (relation "measure (\<lambda>(db, name, i). FDB_KV_CACHE_TABLE_SIZE - i)") auto

declare get_kv_from_cache_loop.simps [simp del]

definition get_kv_from_cache :: "fdb_kvdb \<Rightarrow> byte list \<Rightarrow> (addr option \<times> fdb_kvdb) option" where
  "get_kv_from_cache db name = get_kv_from_cache_loop db name 0"

end
