(* ===== verification/KvRead.thy ===== *)
theory KvRead
  imports KvCache
begin

text \<open>
  Reading the key-value database (\<open>fdb_kvdb.c\<close>): the search for the next node in a sector, the
  decoding of a node and of a sector header, the iteration over all nodes, the lookup of a key and
  the public functions that get a value. A structure that the C code fills through a pointer is
  passed in and returned, so a member that the code leaves alone keeps what it held.
\<close>

section \<open>Finding the next node\<close>

text \<open>The loop over the positions \<open>i\<close> of one buffer of 32 bytes read at \<open>start\<close>.\<close>

fun find_magic :: "byte list \<Rightarrow> addr \<Rightarrow> addr \<Rightarrow> addr \<Rightarrow> nat list \<Rightarrow> addr option" where
  "find_magic buf start start_bak end [] = None"
| "find_magic buf start start_bak end (i # is) =
     (if \<not> u32 (start + i) < end then None
      else if le32_dec (take 4 (drop i buf)) = KV_MAGIC_WORD
              \<and> sub64 (u32 (start + i)) KV_MAGIC_OFFSET \<ge> start_bak
        then Some (u32 (sub64 (u32 (start + i)) KV_MAGIC_OFFSET))
      else find_magic buf start start_bak end is)"

partial_function (option) find_next_kv_loop ::
  "fdb_kvdb \<Rightarrow> byte list \<Rightarrow> addr \<Rightarrow> addr \<Rightarrow> addr \<Rightarrow> (addr \<times> fdb_kvdb) option"
where
  "find_next_kv_loop db buf start start_bak end =
     (if start < end \<and> start + 32 < end then do {
        (result, buf, db) \<leftarrow> fdb_flash_read db start buf 32;
        if result \<noteq> FDB_NO_ERR then Some (FAILED_ADDR, db)
        else case find_magic buf start start_bak end [0..<28] of
               Some a \<Rightarrow> Some (a, db)
             | None \<Rightarrow> find_next_kv_loop db buf (u32 (start + 28)) start_bak end
      }
      else Some (FAILED_ADDR, db))"

definition find_next_kv_addr :: "fdb_kvdb \<Rightarrow> addr \<Rightarrow> addr \<Rightarrow> (addr \<times> fdb_kvdb) option" where
  "find_next_kv_addr db start end =
     (case get_sector_from_cache db (FDB_ALIGN_DOWN start (db_sec_size db)) of
        Some i \<Rightarrow>
          if start = sec_empty_kv (kvdb_sector_cache_table db ! i) then Some (FAILED_ADDR, db)
          else find_next_kv_loop db (uninit (db_io db) 32) start start end
      | None \<Rightarrow> find_next_kv_loop db (uninit (db_io db) 32) start start end)"

definition get_next_kv_addr ::
  "fdb_kvdb \<Rightarrow> kvdb_sec_info \<Rightarrow> fdb_kv \<Rightarrow> (addr \<times> fdb_kvdb) option"
where
  "get_next_kv_addr db sector pre_kv =
     (if sec_store sector = FDB_SECTOR_STORE_EMPTY then Some (FAILED_ADDR, db)
      else if kv_addr_start pre_kv = FAILED_ADDR then
        Some (u32 (sec_addr sector + SECTOR_HDR_DATA_SIZE), db)
      else if kv_addr_start pre_kv \<le> u32 (sec_addr sector + db_sec_size db) then do {
        (a, db) \<leftarrow> find_next_kv_addr db
                     (if kv_crc_is_ok pre_kv then u32 (kv_addr_start pre_kv + kv_len pre_kv)
                      else u32 (kv_addr_start pre_kv + FDB_WG_ALIGN 1))
                     (u32 (sub64 (u32 (sec_addr sector + db_sec_size db)) SECTOR_HDR_DATA_SIZE));
        if a = FAILED_ADDR \<or> a > u32 (sec_addr sector + db_sec_size db) \<or> kv_len pre_kv = 0
        then Some (FAILED_ADDR, db)
        else Some (a, db)
      }
      else Some (FAILED_ADDR, db))"


section \<open>Decoding a node\<close>

text \<open>The checksum of \<open>crc_data_len\<close> bytes at \<open>base\<close>, in blocks of 32, from offset \<open>len\<close> on.\<close>

partial_function (option) read_kv_crc ::
  "fdb_kvdb \<Rightarrow> byte list \<Rightarrow> addr \<Rightarrow> nat \<Rightarrow> nat \<Rightarrow> 32 word \<Rightarrow> (32 word \<times> fdb_kvdb) option"
where
  "read_kv_crc db buf base crc_data_len len crc =
     (if len < crc_data_len then
        let n = (if len + 32 < crc_data_len then 32 else crc_data_len - len) in
        do {
          (_, buf, db) \<leftarrow> fdb_flash_read db (u32 (base + len)) buf (FDB_WG_ALIGN n);
          read_kv_crc db buf base crc_data_len (len + n) (fdb_calc_crc32 crc (take n buf))
        }
      else Some (crc, db))"

text \<open>
  A name longer than \<open>kv->name\<close> would be read past the end of the array, which has no meaning.
\<close>

definition read_kv :: "fdb_kvdb \<Rightarrow> fdb_kv \<Rightarrow> (fdb_err_t \<times> fdb_kv \<times> fdb_kvdb) option" where
  "read_kv db kv =
     do {
       (_, raw, db) \<leftarrow> fdb_flash_read db (kv_addr_start kv) (uninit (db_io db) 24) 24;
       let kv_hdr = kv_hdr_of raw;
           kv = kv\<lparr>kv_status := kv_status_of
                               (fdb_get_status FDB_WRITE_GRAN (kh_status_table kv_hdr) FDB_KV_STATUS_NUM),
                   kv_len := kh_len kv_hdr\<rparr>
       in if kv_len kv = 0xFFFFFFFF \<or> kv_len kv > db_max_size db \<or> kv_len kv < KV_HDR_DATA_SIZE
          then do {
            (kv, db) \<leftarrow> (if kv_status kv \<noteq> FDB_KV_ERR_HDR then do {
                           (_, db) \<leftarrow> fdb_write_status db (kv_addr_start kv) FDB_KV_STATUS_NUM
                                        (kv_status_num FDB_KV_ERR_HDR) True;
                           Some (kv\<lparr>kv_status := FDB_KV_ERR_HDR\<rparr>, db)
                         } else Some (kv, db));
            Some (FDB_READ_ERR, kv\<lparr>kv_len := KV_HDR_DATA_SIZE, kv_crc_is_ok := False\<rparr>, db)
          }
          else
            let crc = fdb_calc_crc32 0 (take 4 (drop 16 raw));
                crc = fdb_calc_crc32 crc (take 4 (drop 20 raw));
                kv_name_addr = u32 (kv_addr_start kv + KV_HDR_DATA_SIZE)
            in do {
              (crc, db) \<leftarrow> read_kv_crc db (uninit (db_io db) 32) kv_name_addr
                             (kv_len kv - KV_HDR_DATA_SIZE) 0 crc;
              if unat crc \<noteq> kh_crc32 kv_hdr then do {
                (_, name, db) \<leftarrow> fdb_flash_read db kv_name_addr (kv_name kv)
                   (FDB_WG_ALIGN (if kh_name_len kv_hdr > FDB_KV_NAME_MAX then FDB_KV_NAME_MAX
                                  else kh_name_len kv_hdr));
                Some (FDB_READ_ERR, kv\<lparr>kv_crc_is_ok := False, kv_name := name\<rparr>, db)
              }
              else if kh_name_len kv_hdr > FDB_KV_NAME_MAX then None
              else do {
                (_, name, db) \<leftarrow> fdb_flash_read db kv_name_addr (kv_name kv)
                                   (FDB_WG_ALIGN (kh_name_len kv_hdr));
                Some (FDB_NO_ERR,
                      kv\<lparr>kv_crc_is_ok := True,
                         kv_addr_value := u32 (kv_name_addr + FDB_WG_ALIGN (kh_name_len kv_hdr)),
                         kv_value_len := kh_value_len kv_hdr,
                         kv_name_len := kh_name_len kv_hdr,
                         kv_name := name[(if kh_name_len kv_hdr \<ge> FDB_KV_NAME_MAX
                                          then FDB_KV_NAME_MAX - 1 else kh_name_len kv_hdr) := 0]\<rparr>,
                      db)
              }
            }
     }"


section \<open>Decoding a sector header\<close>

text \<open>The \<open>do ... while\<close> loop that walks over the nodes of a sector in use.\<close>

partial_function (option) kv_read_sector_loop ::
  "fdb_kvdb \<Rightarrow> kvdb_sec_info \<Rightarrow> fdb_kv \<Rightarrow> (fdb_err_t \<times> kvdb_sec_info \<times> fdb_kvdb) option"
where
  "kv_read_sector_loop db sector kv =
     do {
       (_, kv, db) \<leftarrow> read_kv db kv;
       if \<not> kv_crc_is_ok kv \<and> kv_status kv \<noteq> FDB_KV_PRE_WRITE \<and> kv_status kv \<noteq> FDB_KV_ERR_HDR
       then Some (FDB_READ_ERR, sector\<lparr>sec_remain := 0\<rparr>, db)
       else
         let sector = sector\<lparr>sec_empty_kv := u32 (sec_empty_kv sector + kv_len kv),
                             sec_remain := sub64 (sec_remain sector) (kv_len kv)\<rparr>
         in do {
           (a, db) \<leftarrow> get_next_kv_addr db sector kv;
           if a \<noteq> FAILED_ADDR then kv_read_sector_loop db sector (kv\<lparr>kv_addr_start := a\<rparr>)
           else Some (FDB_NO_ERR, sector, db)
         }
     }"

definition kv_read_sector_traverse ::
  "fdb_kvdb \<Rightarrow> kvdb_sec_info \<Rightarrow> (fdb_err_t \<times> kvdb_sec_info \<times> fdb_kvdb) option"
where
  "kv_read_sector_traverse db sector =
     (let sector = sector\<lparr>sec_remain := 0,
                          sec_empty_kv := u32 (sec_addr sector + SECTOR_HDR_DATA_SIZE)\<rparr>
      in if sec_store sector = FDB_SECTOR_STORE_EMPTY then
           Some (FDB_NO_ERR,
                 sector\<lparr>sec_remain := sub64 (db_sec_size db) SECTOR_HDR_DATA_SIZE\<rparr>, db)
         else if sec_store sector = FDB_SECTOR_STORE_USING then do {
           (result, sector, db) \<leftarrow> kv_read_sector_loop db
              (sector\<lparr>sec_remain := sub64 (db_sec_size db) SECTOR_HDR_DATA_SIZE\<rparr>)
              ((kvdb_stack_kv db)\<lparr>kv_addr_start := u32 (sec_addr sector + SECTOR_HDR_DATA_SIZE)\<rparr>);
           (ff_addr, db) \<leftarrow> fdb_continue_ff_addr db (sec_empty_kv sector)
              (u32 (sec_addr sector + db_sec_size db));
           Some (result,
                 (if sec_empty_kv sector \<noteq> ff_addr
                  then sector\<lparr>sec_empty_kv := ff_addr,
                              sec_remain := sub32 (db_sec_size db) (sub32 ff_addr (sec_addr sector))\<rparr>
                  else sector), db)
         }
         else Some (FDB_NO_ERR, sector, db))"

definition kv_read_sector_info ::
  "fdb_kvdb \<Rightarrow> addr \<Rightarrow> kvdb_sec_info \<Rightarrow> bool \<Rightarrow> (fdb_err_t \<times> kvdb_sec_info \<times> fdb_kvdb) option"
where
  "kv_read_sector_info db a sector traversal =
     (if db_sec_size db = 0 \<or> a mod db_sec_size db \<noteq> 0 then None
      else
        let cached = get_sector_from_cache db a in
        if (case cached of None \<Rightarrow> False
            | Some i \<Rightarrow> \<not> traversal \<or> sec_empty_kv (kvdb_sector_cache_table db ! i) \<noteq> FAILED_ADDR)
        then Some (FDB_NO_ERR, kvdb_sector_cache_table db ! the cached, db)
        else do {
          (_, raw, db) \<leftarrow> fdb_flash_read db a (replicate 16 0) 16;
          let sec_hdr = sector_hdr_of raw;
              sector = sector\<lparr>sec_store := FDB_SECTOR_STORE_UNUSED, sec_dirty := FDB_SECTOR_DIRTY_UNUSED,
                              sec_addr := a, sec_magic := sh_magic sec_hdr\<rparr>
          in if sh_magic sec_hdr \<noteq> SECTOR_MAGIC_WORD
                \<or> (sh_combined sec_hdr \<noteq> SECTOR_NOT_COMBINED \<and> sh_combined sec_hdr \<noteq> SECTOR_COMBINED)
             then Some (FDB_INIT_FAILED,
                        sector\<lparr>sec_check_ok := False, sec_combined := SECTOR_NOT_COMBINED\<rparr>, db)
             else
               let sector = sector\<lparr>sec_check_ok := True, sec_combined := sh_combined sec_hdr,
                     sec_store := store_status_of
                       (fdb_get_status FDB_WRITE_GRAN (sh_store sec_hdr) FDB_SECTOR_STORE_STATUS_NUM),
                     sec_dirty := dirty_status_of
                       (fdb_get_status FDB_WRITE_GRAN (sh_dirty sec_hdr) FDB_SECTOR_DIRTY_STATUS_NUM)\<rparr>
               in if traversal then do {
                    (result, sector, db) \<leftarrow> kv_read_sector_traverse db sector;
                    Some (result, sector, update_sector_cache db sector)
                  }
                  else
                    case get_sector_from_cache db (sec_addr sector) of
                      None \<Rightarrow>
                        let sector = sector\<lparr>sec_empty_kv := FAILED_ADDR, sec_remain := 0\<rparr>
                        in Some (FDB_NO_ERR, sector, update_sector_cache db sector)
                    | Some _ \<Rightarrow> Some (FDB_NO_ERR, sector, db)
        })"


section \<open>Iterating and looking up\<close>

definition kv_get_next_sector_addr :: "fdb_kvdb \<Rightarrow> kvdb_sec_info \<Rightarrow> nat \<Rightarrow> addr" where
  "kv_get_next_sector_addr db pre_sec traversed_len =
     (let cur_block_size = (if sec_combined pre_sec = SECTOR_NOT_COMBINED then db_sec_size db
                            else u32 (sec_combined pre_sec * db_sec_size db))
      in if u32 (traversed_len + cur_block_size) \<le> db_max_size db then
           if u32 (sec_addr pre_sec + cur_block_size) < db_max_size db
           then u32 (sec_addr pre_sec + cur_block_size)
           else 0
         else FAILED_ADDR)"

text \<open>
  A callback gets the node, its argument and the database, and says whether to stop.
\<close>

type_synonym 'x kv_callback = "fdb_kv \<Rightarrow> 'x \<Rightarrow> fdb_kvdb \<Rightarrow> (bool \<times> 'x \<times> fdb_kvdb) option"

text \<open>The inner loop of \<open>kv_iterator\<close>, over the nodes of one sector.\<close>

partial_function (option) kv_iterator_sector ::
  "fdb_kvdb \<Rightarrow> kvdb_sec_info \<Rightarrow> fdb_kv \<Rightarrow> 'x \<Rightarrow> 'x kv_callback
     \<Rightarrow> (bool \<times> fdb_kv \<times> 'x \<times> fdb_kvdb) option"
where
  "kv_iterator_sector db sector kv arg callback =
     do {
       (_, kv, db) \<leftarrow> read_kv db kv;
       (stop, arg, db) \<leftarrow> callback kv arg db;
       if stop then Some (True, kv, arg, db)
       else do {
         (a, db) \<leftarrow> get_next_kv_addr db sector kv;
         if a \<noteq> FAILED_ADDR
         then kv_iterator_sector db sector (kv\<lparr>kv_addr_start := a\<rparr>) arg callback
         else Some (False, kv\<lparr>kv_addr_start := a\<rparr>, arg, db)
       }
     }"

partial_function (option) kv_iterator_loop ::
  "fdb_kvdb \<Rightarrow> kvdb_sec_info \<Rightarrow> addr \<Rightarrow> nat \<Rightarrow> fdb_kv \<Rightarrow> 'x \<Rightarrow> 'x kv_callback option
     \<Rightarrow> (fdb_kv \<times> 'x \<times> fdb_kvdb) option"
where
  "kv_iterator_loop db sector a traversed_len kv arg callback =
     (let traversed_len = u32 (traversed_len + db_sec_size db) in
      do {
        (result, sector, db) \<leftarrow> kv_read_sector_info db a sector False;
        (stop, kv, arg, db) \<leftarrow>
          (case callback of
             None \<Rightarrow> Some (False, kv, arg, db)
           | Some cb \<Rightarrow>
               if result = FDB_NO_ERR
                  \<and> (sec_store sector = FDB_SECTOR_STORE_USING \<or> sec_store sector = FDB_SECTOR_STORE_FULL)
               then kv_iterator_sector db sector
                      (kv\<lparr>kv_addr_start := u32 (sec_addr sector + SECTOR_HDR_DATA_SIZE)\<rparr>) arg cb
               else Some (False, kv, arg, db));
        if stop then Some (kv, arg, db)
        else
          let a = kv_get_next_sector_addr db sector traversed_len in
          if a \<noteq> FAILED_ADDR then kv_iterator_loop db sector a traversed_len kv arg callback
          else Some (kv, arg, db)
      })"

definition kv_iterator ::
  "fdb_kvdb \<Rightarrow> fdb_kv \<Rightarrow> 'x \<Rightarrow> 'x kv_callback option \<Rightarrow> (fdb_kv \<times> 'x \<times> fdb_kvdb) option"
where
  "kv_iterator db kv arg callback =
     kv_iterator_loop db (kvdb_stack_sector db) (db_oldest_addr db) 0 kv arg callback"

definition find_kv_cb :: "byte list \<Rightarrow> bool kv_callback" where
  "find_kv_cb key kv find_ok db =
     (let key_len = strlen key in
      if key_len \<noteq> kv_name_len kv then Some (False, find_ok, db)
      else if kv_crc_is_ok kv \<and> kv_status kv = FDB_KV_WRITE \<and> strncmp_eq (kv_name kv) key key_len
        then Some (True, True, db)
      else Some (False, find_ok, db))"

definition find_kv_no_cache :: "fdb_kvdb \<Rightarrow> byte list \<Rightarrow> fdb_kv \<Rightarrow> (bool \<times> fdb_kv \<times> fdb_kvdb) option"
where
  "find_kv_no_cache db key kv =
     do {
       (kv, find_ok, db) \<leftarrow> kv_iterator db kv False (Some (find_kv_cb key));
       Some (find_ok, kv, db)
     }"

definition find_kv :: "fdb_kvdb \<Rightarrow> byte list \<Rightarrow> fdb_kv \<Rightarrow> (bool \<times> fdb_kv \<times> fdb_kvdb) option" where
  "find_kv db key kv =
     (let key_len = strlen key in
      do {
        (hit, db) \<leftarrow> get_kv_from_cache db (take key_len key);
        case hit of
          Some a \<Rightarrow> do {
            (_, kv, db) \<leftarrow> read_kv db (kv\<lparr>kv_addr_start := a\<rparr>);
            Some (True, kv, db)
          }
        | None \<Rightarrow> do {
            (find_ok, kv, db) \<leftarrow> find_kv_no_cache db key kv;
            Some (find_ok, kv, if find_ok then update_kv_cache db (take key_len key) (kv_addr_start kv)
                               else db)
          }
      })"


section \<open>Getting a value\<close>

definition fdb_is_str :: "byte list \<Rightarrow> bool" where
  "fdb_is_str value_bytes = list_all (\<lambda>ch. sub32 (unat ch) 32 < 127 - 32) value_bytes"

text \<open>
  The value read, the length that is stored through \<open>value_len\<close> and the buffer. A read of more
  bytes than the buffer has would be past its end.
\<close>

definition get_kv ::
  "fdb_kvdb \<Rightarrow> byte list \<Rightarrow> byte list option \<Rightarrow> nat
     \<Rightarrow> (nat \<times> nat \<times> byte list option \<times> fdb_kvdb) option"
where
  "get_kv db key value_buf buf_len =
     do {
       (found, kv, db) \<leftarrow> find_kv db key (kvdb_stack_kv db);
       if found then
         let read_len = (if buf_len > kv_value_len kv then kv_value_len kv else buf_len) in
         case value_buf of
           None \<Rightarrow> Some (read_len, kv_value_len kv, None, db)
         | Some buf \<Rightarrow>
             if read_len > length buf then None
             else do {
               (_, buf, db) \<leftarrow> fdb_flash_read db (kv_addr_value kv) buf read_len;
               Some (read_len, kv_value_len kv, Some buf, db)
             }
       else Some (0, 0, value_buf, db)
     }"

definition fdb_kv_get_obj ::
  "fdb_kvdb \<Rightarrow> byte list \<Rightarrow> fdb_kv \<Rightarrow> (bool \<times> fdb_kv \<times> fdb_kvdb) option"
where
  "fdb_kv_get_obj db key kv =
     (if \<not> db_init_ok db then Some (False, kv, db)
      else do {
        (find_ok, kv, db) \<leftarrow> find_kv (db_lock db) key kv;
        Some (find_ok, kv, db_unlock db)
      })"

definition fdb_kv_to_blob :: "fdb_kv \<Rightarrow> fdb_blob \<Rightarrow> fdb_blob" where
  "fdb_kv_to_blob kv blob =
     blob\<lparr>blob_meta_addr := kv_addr_start kv, blob_addr := kv_addr_value kv,
          blob_len := kv_value_len kv\<rparr>"

definition fdb_kv_get_blob ::
  "fdb_kvdb \<Rightarrow> byte list \<Rightarrow> fdb_blob \<Rightarrow> (nat \<times> fdb_blob \<times> fdb_kvdb) option"
where
  "fdb_kv_get_blob db key blob =
     (if \<not> db_init_ok db then Some (0, blob, db)
      else do {
        (read_len, value_len, buf, db) \<leftarrow> get_kv (db_lock db) key (blob_buf blob) (blob_size blob);
        Some (read_len, blob\<lparr>blob_buf := buf, blob_len := value_len\<rparr>, db_unlock db)
      })"

text \<open>
  \<open>fdb_kv_get\<close> keeps its buffer of \<open>FDB_STR_KV_VALUE_MAX_SIZE + 1\<close> bytes in a static variable; the
  argument \<open>value\<close> is what it holds. The result is the string, without its NUL.
\<close>

definition fdb_kv_get ::
  "fdb_kvdb \<Rightarrow> byte list \<Rightarrow> byte list \<Rightarrow> fdb_blob \<Rightarrow> (byte list option \<times> byte list \<times> fdb_kvdb) option"
where
  "fdb_kv_get db key value_buf blob =
     do {
       (get_size, blob, db) \<leftarrow> fdb_kv_get_blob db key
          (fdb_blob_make blob (Some value_buf) FDB_STR_KV_VALUE_MAX_SIZE);
       let value_buf = the (blob_buf blob) in
       if get_size > 0 \<and> fdb_is_str (take get_size value_buf)
       then let value_buf = value_buf[get_size := 0] in
            Some (Some (take (strlen value_buf) value_buf), value_buf, db)
       else Some (None, value_buf, db)
     }"

end
