(* ===== verification/KvWrite.thy ===== *)
theory KvWrite
  imports KvRead
begin

text \<open>
  Changing the key-value database (\<open>fdb_kvdb.c\<close>): formatting a sector, allocating space, creating,
  deleting and moving a node, garbage collection, and the public functions that set and delete a
  key.
\<close>

section \<open>Headers and sector status\<close>

definition write_kv_hdr :: "fdb_kvdb \<Rightarrow> addr \<Rightarrow> kv_hdr_data \<Rightarrow> (fdb_err_t \<times> fdb_kvdb) option" where
  "write_kv_hdr db a kv_hdr =
     do {
       (result, db) \<leftarrow> fdb_write_status db a FDB_KV_STATUS_NUM (kv_status_num FDB_KV_PRE_WRITE) False;
       if result \<noteq> FDB_NO_ERR then Some (result, db)
       else fdb_flash_write db (u32 (a + KV_MAGIC_OFFSET))
              (drop KV_MAGIC_OFFSET (kv_hdr_bytes kv_hdr)) False
     }"

definition kv_format_sector :: "fdb_kvdb \<Rightarrow> addr \<Rightarrow> nat \<Rightarrow> (fdb_err_t \<times> fdb_kvdb) option" where
  "kv_format_sector db a combined_value =
     (if db_sec_size db = 0 \<or> a mod db_sec_size db \<noteq> 0 then None
      else do {
        (result, db) \<leftarrow> fdb_flash_erase db a (db_sec_size db);
        if result = FDB_NO_ERR then
          let sec_hdr = \<lparr>
                sh_store = snd (fdb_set_status FDB_WRITE_GRAN FDB_SECTOR_STORE_STATUS_NUM
                                  (store_status_num FDB_SECTOR_STORE_EMPTY)),
                sh_dirty = snd (fdb_set_status FDB_WRITE_GRAN FDB_SECTOR_DIRTY_STATUS_NUM
                                  (dirty_status_num FDB_SECTOR_DIRTY_FALSE)),
                sh_pad = replicate 2 FDB_BYTE_ERASED,
                sh_magic = SECTOR_MAGIC_WORD, sh_combined = combined_value,
                sh_reserved = FDB_DATA_UNUSED\<rparr>
          in do {
            (result, db) \<leftarrow> fdb_flash_write db a (sector_hdr_bytes sec_hdr) True;
            Some (result,
              update_sector_cache db
                \<lparr>sec_check_ok = False, sec_store = FDB_SECTOR_STORE_UNUSED,
                 sec_dirty = FDB_SECTOR_DIRTY_UNUSED, sec_addr = a, sec_magic = 0,
                 sec_combined = 0, sec_remain = 0, sec_empty_kv = FAILED_ADDR\<rparr>)
          }
        else Some (result, db)
      })"

text \<open>\<open>is_full\<close> is \<open>None\<close> for a null pointer.\<close>

definition kv_update_sec_status ::
  "fdb_kvdb \<Rightarrow> kvdb_sec_info \<Rightarrow> nat \<Rightarrow> bool option \<Rightarrow> (fdb_err_t \<times> bool option \<times> fdb_kvdb) option"
where
  "kv_update_sec_status db sector new_kv_len is_full =
     (if sec_store sector = FDB_SECTOR_STORE_EMPTY then do {
        (result, db) \<leftarrow> fdb_write_status db (sec_addr sector) FDB_SECTOR_STORE_STATUS_NUM
                          (store_status_num FDB_SECTOR_STORE_USING) True;
        Some (result, is_full,
              update_sector_status_store_cache db (sec_addr sector) FDB_SECTOR_STORE_USING)
      }
      else if sec_store sector = FDB_SECTOR_STORE_USING then
        if sec_remain sector < FDB_SEC_REMAIN_THRESHOLD
           \<or> sub64 (sec_remain sector) new_kv_len < FDB_SEC_REMAIN_THRESHOLD
        then do {
          (result, db) \<leftarrow> fdb_write_status db (sec_addr sector) FDB_SECTOR_STORE_STATUS_NUM
                            (store_status_num FDB_SECTOR_STORE_FULL) True;
          Some (result, map_option (\<lambda>_. True) is_full,
                update_sector_status_store_cache db (sec_addr sector) FDB_SECTOR_STORE_FULL)
        }
        else Some (FDB_NO_ERR, map_option (\<lambda>_. False) is_full, db)
      else Some (FDB_NO_ERR, is_full, db))"


section \<open>Iterating over sectors\<close>

type_synonym 'x sec_callback =
  "kvdb_sec_info \<Rightarrow> 'x \<Rightarrow> fdb_kvdb \<Rightarrow> (bool \<times> 'x \<times> fdb_kvdb) option"

partial_function (option) kv_sector_iterator_loop ::
  "fdb_kvdb \<Rightarrow> kvdb_sec_info \<Rightarrow> addr \<Rightarrow> nat \<Rightarrow> fdb_sector_store_status \<Rightarrow> 'x
     \<Rightarrow> 'x sec_callback option \<Rightarrow> bool \<Rightarrow> (kvdb_sec_info \<times> 'x \<times> fdb_kvdb) option"
where
  "kv_sector_iterator_loop db sector a traversed_len status arg callback traversal_kv =
     (let traversed_len = u32 (traversed_len + db_sec_size db) in
      do {
        (_, sector, db) \<leftarrow> kv_read_sector_info db a sector False;
        (stop, sector, arg, db) \<leftarrow>
          (if status = FDB_SECTOR_STORE_UNUSED \<or> status = sec_store sector then do {
             (sector, db) \<leftarrow> (if traversal_kv then do {
                                (_, sector, db) \<leftarrow> kv_read_sector_info db a sector True;
                                Some (sector, db)
                              } else Some (sector, db));
             case callback of
               None \<Rightarrow> Some (False, sector, arg, db)
             | Some cb \<Rightarrow> do {
                 (stop, arg, db) \<leftarrow> cb sector arg db;
                 Some (stop, sector, arg, db)
               }
           }
           else Some (False, sector, arg, db));
        if stop then Some (sector, arg, db)
        else
          let a = kv_get_next_sector_addr db sector traversed_len in
          if a \<noteq> FAILED_ADDR
          then kv_sector_iterator_loop db sector a traversed_len status arg callback traversal_kv
          else Some (sector, arg, db)
      })"

definition kv_sector_iterator ::
  "fdb_kvdb \<Rightarrow> kvdb_sec_info \<Rightarrow> fdb_sector_store_status \<Rightarrow> 'x \<Rightarrow> 'x sec_callback option \<Rightarrow> bool
     \<Rightarrow> (kvdb_sec_info \<times> 'x \<times> fdb_kvdb) option"
where
  "kv_sector_iterator db sector status arg callback traversal_kv =
     kv_sector_iterator_loop db sector (db_oldest_addr db) 0 status arg callback traversal_kv"


section \<open>Allocation\<close>

text \<open>The argument is the pair of counters of empty sectors and of sectors in use.\<close>

definition sector_statistics_cb :: "(nat \<times> nat) sec_callback" where
  "sector_statistics_cb sector arg db =
     (case arg of (empty_sector, using_sector) \<Rightarrow>
        Some (False,
          (if sec_check_ok sector \<and> sec_store sector = FDB_SECTOR_STORE_EMPTY
             then (empty_sector + 1, using_sector)
           else if sec_check_ok sector \<and> sec_store sector = FDB_SECTOR_STORE_USING
             then (empty_sector, using_sector + 1)
           else (empty_sector, using_sector)), db))"

text \<open>The argument is the address to allocate, \<open>FAILED_ADDR\<close> until one is found.\<close>

definition alloc_kv_cb :: "nat \<Rightarrow> addr sec_callback" where
  "alloc_kv_cb kv_size sector empty_kv db =
     (if sec_check_ok sector \<and> sec_remain sector > u64 (kv_size + FDB_SEC_REMAIN_THRESHOLD)
         \<and> (sec_dirty sector = FDB_SECTOR_DIRTY_FALSE
            \<or> (sec_dirty sector = FDB_SECTOR_DIRTY_TRUE \<and> \<not> kvdb_gc_request db))
      then Some (True, sec_empty_kv sector, db)
      else Some (False, empty_kv, db))"

definition alloc_kv ::
  "fdb_kvdb \<Rightarrow> kvdb_sec_info \<Rightarrow> nat \<Rightarrow> (addr \<times> kvdb_sec_info \<times> fdb_kvdb) option"
where
  "alloc_kv db sector kv_size =
     do {
       (sector, (empty_sector, using_sector), db) \<leftarrow>
          kv_sector_iterator db sector FDB_SECTOR_STORE_UNUSED (0, 0) (Some sector_statistics_cb) False;
       (sector, empty_kv, db) \<leftarrow>
          (if using_sector > 0
           then kv_sector_iterator db sector FDB_SECTOR_STORE_USING FAILED_ADDR
                  (Some (alloc_kv_cb kv_size)) True
           else Some (sector, FAILED_ADDR, db));
       if empty_sector > 0 \<and> empty_kv = FAILED_ADDR then
         if empty_sector > FDB_GC_EMPTY_SEC_THRESHOLD \<or> kvdb_gc_request db then do {
           (sector, empty_kv, db) \<leftarrow>
              kv_sector_iterator db sector FDB_SECTOR_STORE_EMPTY empty_kv
                (Some (alloc_kv_cb kv_size)) True;
           Some (empty_kv, sector, db)
         }
         else Some (empty_kv, sector, db\<lparr>kvdb_gc_request := True\<rparr>)
       else Some (empty_kv, sector, db)
     }"


section \<open>Deleting\<close>

text \<open>
  \<open>key\<close> and \<open>old_kv\<close> may be null pointers. Without both the code reads the node behind a null
  pointer key, which has no meaning.
\<close>

definition del_kv_mark_dirty :: "fdb_kvdb \<Rightarrow> addr \<Rightarrow> byte list \<Rightarrow> (fdb_err_t \<times> fdb_kvdb) option" where
  "del_kv_mark_dirty db kv_start status_table =
     (let sec = FDB_ALIGN_DOWN kv_start (db_sec_size db);
          dirty_status_addr = u32 (sec + SECTOR_DIRTY_OFFSET)
      in do {
        (status, db) \<leftarrow> fdb_read_status db dirty_status_addr status_table FDB_SECTOR_DIRTY_STATUS_NUM;
        if status = dirty_status_num FDB_SECTOR_DIRTY_FALSE then do {
          (result, db) \<leftarrow> fdb_write_status db dirty_status_addr FDB_SECTOR_DIRTY_STATUS_NUM
                            (dirty_status_num FDB_SECTOR_DIRTY_TRUE) True;
          Some (result,
            (case get_sector_from_cache db sec of
               None \<Rightarrow> db
             | Some i \<Rightarrow> db\<lparr>kvdb_sector_cache_table := (kvdb_sector_cache_table db)
                             [i := (kvdb_sector_cache_table db ! i)\<lparr>sec_dirty := FDB_SECTOR_DIRTY_TRUE\<rparr>]\<rparr>))
        }
        else Some (FDB_NO_ERR, db)
      })"

definition del_kv_node ::
  "fdb_kvdb \<Rightarrow> byte list option \<Rightarrow> fdb_kv \<Rightarrow> bool \<Rightarrow> (fdb_err_t \<times> fdb_kvdb) option"
where
  "del_kv_node db key old_kv complete_del =
     do {
       let new_status = (if complete_del then FDB_KV_DELETED else FDB_KV_PRE_DELETE);
       (result, db) \<leftarrow> fdb_write_status db (kv_addr_start old_kv) FDB_KV_STATUS_NUM
                         (kv_status_num new_status) complete_del;
       let db = (if complete_del \<and> \<not> kvdb_last_is_complete_del db \<and> result = FDB_NO_ERR
                 then update_kv_cache db
                        (case key of
                           Some k \<Rightarrow> take (strlen k) k
                         | None \<Rightarrow> take (kv_name_len old_kv) (kv_name old_kv)) FDB_DATA_UNUSED
                 else db);
       let db = db\<lparr>kvdb_last_is_complete_del := \<not> complete_del\<rparr>;
       if result = FDB_NO_ERR
       then del_kv_mark_dirty db (kv_addr_start old_kv)
              (snd (fdb_set_status FDB_WRITE_GRAN FDB_KV_STATUS_NUM (kv_status_num new_status)))
       else Some (result, db)
     }"

definition del_kv ::
  "fdb_kvdb \<Rightarrow> byte list option \<Rightarrow> fdb_kv option \<Rightarrow> bool \<Rightarrow> (fdb_err_t \<times> fdb_kvdb) option"
where
  "del_kv db key old_kv complete_del =
     (case old_kv of
        Some kv \<Rightarrow> del_kv_node db key kv complete_del
      | None \<Rightarrow>
          (case key of
             None \<Rightarrow> None
           | Some k \<Rightarrow> do {
               (found, kv, db) \<leftarrow> find_kv db k
                  \<lparr>kv_status = FDB_KV_UNUSED, kv_crc_is_ok = False, kv_name_len = 0, kv_len = 0,
                   kv_value_len = 0, kv_name = replicate FDB_KV_NAME_MAX 0, kv_addr_start = 0,
                   kv_addr_value = 0\<rparr>;
               if found then del_kv_node db key kv complete_del
               else Some (FDB_KV_NAME_ERR, db)
             }))"

end
