(* ===== verification/KvSet.thy ===== *)
theory KvSet
  imports KvWrite
begin

text \<open>
  Moving nodes, garbage collection, creating a node, and the public functions that set and delete
  a key (\<open>fdb_kvdb.c\<close>).
\<close>

section \<open>Moving a node\<close>

text \<open>The copy of \<open>copy_len\<close> bytes from \<open>src\<close> to \<open>dst\<close> in blocks of 32, from offset \<open>len\<close> on; the
  result is that of the last write.\<close>

partial_function (option) move_kv_copy ::
  "fdb_kvdb \<Rightarrow> byte list \<Rightarrow> addr \<Rightarrow> addr \<Rightarrow> nat \<Rightarrow> nat \<Rightarrow> fdb_err_t \<Rightarrow> (fdb_err_t \<times> fdb_kvdb) option"
where
  "move_kv_copy db buf src dst copy_len len result =
     (if len < copy_len then
        let n = (if len + 32 < copy_len then 32 else copy_len - len) in
        do {
          (_, buf, db) \<leftarrow> fdb_flash_read db (u32 (src + len)) buf (FDB_WG_ALIGN n);
          (result, db) \<leftarrow> fdb_flash_write db (u32 (dst + len)) (take n buf) True;
          move_kv_copy db buf src dst copy_len (len + n) result
        }
      else Some (result, db))"

definition move_kv_write ::
  "fdb_kvdb \<Rightarrow> kvdb_sec_info \<Rightarrow> fdb_kv \<Rightarrow> addr \<Rightarrow> (fdb_err_t \<times> fdb_kvdb) option"
where
  "move_kv_write db sector kv kv_addr =
     do {
       (_, _, db) \<leftarrow> kv_update_sec_status db sector (kv_len kv) None;
       (_, db) \<leftarrow> fdb_write_status db kv_addr FDB_KV_STATUS_NUM (kv_status_num FDB_KV_PRE_WRITE) False;
       (result, db) \<leftarrow> move_kv_copy db (uninit (db_io db) 32) (kv_addr_start kv + KV_MAGIC_OFFSET)
                         (kv_addr + KV_MAGIC_OFFSET) (sub64 (kv_len kv) KV_MAGIC_OFFSET) 0 FDB_NO_ERR;
       (_, db) \<leftarrow> fdb_write_status db kv_addr FDB_KV_STATUS_NUM (kv_status_num FDB_KV_WRITE) True;
       let db = update_sector_empty_addr_cache db (FDB_ALIGN_DOWN kv_addr (db_sec_size db))
                  (u32 (kv_addr + KV_HDR_DATA_SIZE + FDB_WG_ALIGN (kv_name_len kv)
                        + FDB_WG_ALIGN (kv_value_len kv)));
       Some (result, update_kv_cache db (take (kv_name_len kv) (kv_name kv)) kv_addr)
     }"

text \<open>
  \<open>strncpy\<close> into the array of 65 bytes stops at a NUL of \<open>kv->name\<close>, so the key that is looked for
  is the part of the name before it.
\<close>

definition move_kv :: "fdb_kvdb \<Rightarrow> fdb_kv \<Rightarrow> (fdb_err_t \<times> fdb_kvdb) option" where
  "move_kv db kv =
     do {
       db \<leftarrow> (if kv_status kv = FDB_KV_WRITE then do {
                (_, db) \<leftarrow> del_kv db None (Some kv) False;
                Some db
              } else Some db);
       (kv_addr, sector, db) \<leftarrow> alloc_kv db (kvdb_stack_sector db) (kv_len kv);
       if kv_addr = FAILED_ADDR then Some (FDB_SAVED_FULL, db)
       else do {
         (already, db) \<leftarrow>
           (if kvdb_in_recovery_check db \<and> kv_status kv = FDB_KV_PRE_DELETE then
              if kv_name_len kv > FDB_KV_NAME_MAX + 1 then None
              else do {
                (found, _, db) \<leftarrow> find_kv_no_cache db
                   (takeWhile (\<lambda>b. b \<noteq> 0) (take (kv_name_len kv) (kv_name kv))) (kvdb_stack_kv db);
                Some (found, db)
              }
            else Some (False, db));
         (result, db) \<leftarrow> (if already then Some (FDB_NO_ERR, db)
                          else move_kv_write db sector kv kv_addr);
         (_, db) \<leftarrow> del_kv db None (Some kv) True;
         Some (result, db)
       }
     }"


section \<open>Garbage collection\<close>

text \<open>The argument: the number of empty sectors and the address of the last one.\<close>

definition gc_check_cb :: "(nat \<times> addr) sec_callback" where
  "gc_check_cb sector arg db =
     Some (False, if sec_check_ok sector then (fst arg + 1, sec_addr sector) else arg, db)"

text \<open>The loop of \<open>do_gc\<close> over the nodes of the sector.\<close>

partial_function (option) do_gc_loop :: "fdb_kvdb \<Rightarrow> kvdb_sec_info \<Rightarrow> fdb_kv \<Rightarrow> fdb_kvdb option" where
  "do_gc_loop db sector kv =
     do {
       (_, kv, db) \<leftarrow> read_kv db kv;
       db \<leftarrow> (if kv_crc_is_ok kv \<and> (kv_status kv = FDB_KV_WRITE \<or> kv_status kv = FDB_KV_PRE_DELETE)
              then do {
                (_, db) \<leftarrow> move_kv db kv;
                Some db
              } else Some db);
       (a, db) \<leftarrow> get_next_kv_addr db sector kv;
       if a \<noteq> FAILED_ADDR then do_gc_loop db sector (kv\<lparr>kv_addr_start := a\<rparr>) else Some db
     }"

text \<open>The argument is \<open>gc->last_gc_sec_addr\<close>.\<close>

definition do_gc :: "nat \<Rightarrow> addr sec_callback" where
  "do_gc setting_free_size sector last_gc_sec_addr db =
     (if sec_check_ok sector
         \<and> (sec_dirty sector = FDB_SECTOR_DIRTY_TRUE \<or> sec_dirty sector = FDB_SECTOR_DIRTY_GC)
      then do {
        (_, db) \<leftarrow> fdb_write_status db (u32 (sec_addr sector + SECTOR_DIRTY_OFFSET))
                     FDB_SECTOR_DIRTY_STATUS_NUM (dirty_status_num FDB_SECTOR_DIRTY_GC) True;
        db \<leftarrow> do_gc_loop db sector
               ((kvdb_stack_kv db)\<lparr>kv_addr_start := u32 (sec_addr sector + SECTOR_HDR_DATA_SIZE)\<rparr>);
        (_, db) \<leftarrow> kv_format_sector db (sec_addr sector) SECTOR_NOT_COMBINED;
        let db = db\<lparr>db_oldest_addr := kv_get_next_sector_addr db sector 0\<rparr>;
        (result, last_gc_sector, db) \<leftarrow>
           kv_read_sector_info db (u32 last_gc_sec_addr) (kvdb_stack_sector db) True;
        Some (result = FDB_NO_ERR \<and> sec_remain last_gc_sector > setting_free_size, sec_addr sector, db)
      }
      else Some (False, last_gc_sec_addr, db))"

definition gc_collect_by_free_size :: "fdb_kvdb \<Rightarrow> nat \<Rightarrow> fdb_kvdb option" where
  "gc_collect_by_free_size db free_size =
     do {
       (sector, (empty_sec_num, empty_sec_addr), db) \<leftarrow>
          kv_sector_iterator db (kvdb_stack_sector db) FDB_SECTOR_STORE_EMPTY (0, 0)
            (Some gc_check_cb) False;
       db \<leftarrow> (if empty_sec_num \<le> FDB_GC_EMPTY_SEC_THRESHOLD then do {
                (_, _, db) \<leftarrow> kv_sector_iterator db sector FDB_SECTOR_STORE_UNUSED empty_sec_addr
                                (Some (do_gc free_size)) False;
                Some db
              } else Some db);
       Some (db\<lparr>kvdb_gc_request := False\<rparr>)
     }"

definition gc_collect :: "fdb_kvdb \<Rightarrow> fdb_kvdb option" where
  "gc_collect db = gc_collect_by_free_size db (db_max_size db)"

text \<open>The second attempt after a garbage collection is the last one.\<close>

definition new_kv :: "fdb_kvdb \<Rightarrow> kvdb_sec_info \<Rightarrow> nat \<Rightarrow> (addr \<times> kvdb_sec_info \<times> fdb_kvdb) option" where
  "new_kv db sector kv_size =
     do {
       (empty_kv, sector, db) \<leftarrow> alloc_kv db sector kv_size;
       if empty_kv = FAILED_ADDR \<and> kvdb_gc_request db then do {
         db \<leftarrow> gc_collect_by_free_size db kv_size;
         (empty_kv, sector, db) \<leftarrow> alloc_kv db sector kv_size;
         Some (empty_kv, sector,
               if empty_kv = FAILED_ADDR then db\<lparr>kvdb_gc_request := False\<rparr> else db)
       }
       else Some (empty_kv, sector, db)
     }"

definition new_kv_ex ::
  "fdb_kvdb \<Rightarrow> kvdb_sec_info \<Rightarrow> nat \<Rightarrow> nat \<Rightarrow> (addr \<times> kvdb_sec_info \<times> fdb_kvdb) option"
where
  "new_kv_ex db sector key_len buf_len =
     new_kv db sector (u64 (KV_HDR_DATA_SIZE + FDB_WG_ALIGN key_len + FDB_WG_ALIGN buf_len))"


section \<open>Creating a node\<close>

text \<open>The header that \<open>create_kv_blob\<close> builds before the checksum.\<close>

definition kv_hdr_init :: "nat \<Rightarrow> nat \<Rightarrow> kv_hdr_data" where
  "kv_hdr_init key_len value_len =
     (let name_len = u8 key_len; value_len = u32 value_len in
      \<lparr>kh_status_table = [FDB_BYTE_ERASED], kh_pad0 = replicate 3 FDB_BYTE_ERASED,
       kh_magic = KV_MAGIC_WORD,
       kh_len = u32 (KV_HDR_DATA_SIZE + FDB_WG_ALIGN name_len + FDB_WG_ALIGN value_len),
       kh_crc32 = 0xFFFFFFFF, kh_name_len = name_len, kh_pad1 = replicate 3 FDB_BYTE_ERASED,
       kh_value_len = value_len\<rparr>)"

text \<open>The checksum over the lengths, the name and the value, each filled up with erased bytes.\<close>

definition kv_hdr_crc :: "kv_hdr_data \<Rightarrow> byte list \<Rightarrow> byte list \<Rightarrow> 32 word" where
  "kv_hdr_crc kv_hdr key value_bytes =
     (let raw = kv_hdr_bytes kv_hdr;
          crc = fdb_calc_crc32 0 (take 4 (drop 16 raw));
          crc = fdb_calc_crc32 crc (take 4 (drop 20 raw));
          crc = fdb_calc_crc32 crc (take (kh_name_len kv_hdr) key);
          crc = fdb_calc_crc32 crc
                  (replicate (FDB_WG_ALIGN (kh_name_len kv_hdr) - kh_name_len kv_hdr) FDB_BYTE_ERASED);
          crc = fdb_calc_crc32 crc (take (kh_value_len kv_hdr) value_bytes)
      in fdb_calc_crc32 crc
           (replicate (FDB_WG_ALIGN (kh_value_len kv_hdr) - kh_value_len kv_hdr) FDB_BYTE_ERASED))"

text \<open>The part of \<open>create_kv_blob\<close> after an address has been found.\<close>

definition create_kv_write ::
  "fdb_kvdb \<Rightarrow> kvdb_sec_info \<Rightarrow> addr \<Rightarrow> kv_hdr_data \<Rightarrow> byte list \<Rightarrow> byte list
     \<Rightarrow> (fdb_err_t \<times> fdb_kvdb) option"
where
  "create_kv_write db sector kv_addr kv_hdr key value_bytes =
     do {
       (result, is_full, db) \<leftarrow> kv_update_sec_status db sector (kh_len kv_hdr) (Some False);
       let is_full = the is_full;
       (result, db) \<leftarrow>
         (if result = FDB_NO_ERR
          then write_kv_hdr db kv_addr (kv_hdr\<lparr>kh_crc32 := unat (kv_hdr_crc kv_hdr key value_bytes)\<rparr>)
          else Some (result, db));
       (result, db) \<leftarrow>
         (if result = FDB_NO_ERR then do {
            (result, db) \<leftarrow> fdb_flash_write_align db (u32 (kv_addr + KV_HDR_DATA_SIZE))
                              (take (kh_name_len kv_hdr) key);
            let db = (if \<not> is_full
                      then update_sector_empty_addr_cache db (sec_addr sector)
                             (u32 (kv_addr + KV_HDR_DATA_SIZE + FDB_WG_ALIGN (kh_name_len kv_hdr)
                                   + FDB_WG_ALIGN (kh_value_len kv_hdr)))
                      else db);
            Some (result, update_kv_cache db (take (kh_name_len kv_hdr) key) kv_addr)
          } else Some (result, db));
       (result, db) \<leftarrow>
         (if result = FDB_NO_ERR
          then fdb_flash_write_align db
                 (u32 (kv_addr + KV_HDR_DATA_SIZE + FDB_WG_ALIGN (kh_name_len kv_hdr)))
                 (take (kh_value_len kv_hdr) value_bytes)
          else Some (result, db));
       (result, db) \<leftarrow>
         (if result = FDB_NO_ERR
          then fdb_write_status db kv_addr FDB_KV_STATUS_NUM (kv_status_num FDB_KV_WRITE) True
          else Some (result, db));
       Some (result, if result = FDB_NO_ERR \<and> is_full then db\<lparr>kvdb_gc_request := True\<rparr> else db)
     }"

definition create_kv_blob ::
  "fdb_kvdb \<Rightarrow> kvdb_sec_info \<Rightarrow> byte list \<Rightarrow> byte list \<Rightarrow> nat
     \<Rightarrow> (fdb_err_t \<times> kvdb_sec_info \<times> fdb_kvdb) option"
where
  "create_kv_blob db sector key value_bytes len =
     (let kv_hdr = kv_hdr_init (strlen key) len in
      if strlen key > FDB_KV_NAME_MAX then Some (FDB_KV_NAME_ERR, sector, db)
      else if kh_len kv_hdr > sub64 (db_sec_size db) SECTOR_HDR_DATA_SIZE
        then Some (FDB_SAVED_FULL, sector, db)
      else if length value_bytes < kh_value_len kv_hdr then None
      else do {
        (kv_addr, sector, db) \<leftarrow>
          (if sec_empty_kv sector \<noteq> FAILED_ADDR then Some (sec_empty_kv sector, sector, db)
           else new_kv db sector (kh_len kv_hdr));
        if kv_addr \<noteq> FAILED_ADDR then do {
          (result, db) \<leftarrow> create_kv_write db sector kv_addr kv_hdr key value_bytes;
          Some (result, sector, db)
        }
        else Some (FDB_SAVED_FULL, sector, db)
      })"


section \<open>Setting and deleting a key\<close>

definition fdb_kv_del :: "fdb_kvdb \<Rightarrow> byte list \<Rightarrow> (fdb_err_t \<times> fdb_kvdb) option" where
  "fdb_kv_del db key =
     (if \<not> db_init_ok db then Some (FDB_INIT_FAILED, db)
      else do {
        (result, db) \<leftarrow> del_kv (db_lock db) (Some key) None True;
        Some (result, db_unlock db)
      })"

text \<open>The part of \<open>set_kv\<close> after space has been found for the new node.\<close>

definition set_kv_write ::
  "fdb_kvdb \<Rightarrow> byte list \<Rightarrow> byte list \<Rightarrow> nat \<Rightarrow> (fdb_err_t \<times> fdb_kvdb) option"
where
  "set_kv_write db key value_bytes buf_len =
     do {
       (kv_is_found, kv, db) \<leftarrow> find_kv db key (kvdb_cur_kv db);
       let db = db\<lparr>kvdb_cur_kv := kv\<rparr>;
       (result, db) \<leftarrow> (if kv_is_found then del_kv db (Some key) (Some (kvdb_cur_kv db)) False
                        else Some (FDB_NO_ERR, db));
       (result, db) \<leftarrow>
         (if result = FDB_NO_ERR then do {
            (result, sector, db) \<leftarrow> create_kv_blob db (kvdb_cur_sector db) key value_bytes buf_len;
            Some (result, db\<lparr>kvdb_cur_sector := sector\<rparr>)
          } else Some (result, db));
       (result, db) \<leftarrow>
         (if kv_is_found \<and> result = FDB_NO_ERR
          then del_kv db (Some key) (Some (kvdb_cur_kv db)) True
          else Some (result, db));
       db \<leftarrow> (if kvdb_gc_request db
              then gc_collect_by_free_size db
                     (u64 (KV_HDR_DATA_SIZE + FDB_WG_ALIGN (strlen key) + FDB_WG_ALIGN buf_len))
              else Some db);
       Some (result, db)
     }"

definition set_kv ::
  "fdb_kvdb \<Rightarrow> byte list \<Rightarrow> byte list option \<Rightarrow> nat \<Rightarrow> (fdb_err_t \<times> fdb_kvdb) option"
where
  "set_kv db key value_buf buf_len =
     (case value_buf of
        None \<Rightarrow> del_kv db (Some key) None True
      | Some value_bytes \<Rightarrow> do {
          (empty_kv, sector, db) \<leftarrow> new_kv_ex db (kvdb_cur_sector db) (strlen key) buf_len;
          let db = db\<lparr>kvdb_cur_sector := sector\<rparr>;
          if empty_kv = FAILED_ADDR then Some (FDB_SAVED_FULL, db)
          else set_kv_write db key value_bytes buf_len
        })"

definition fdb_kv_set_blob :: "fdb_kvdb \<Rightarrow> byte list \<Rightarrow> fdb_blob \<Rightarrow> (fdb_err_t \<times> fdb_kvdb) option" where
  "fdb_kv_set_blob db key blob =
     (if \<not> db_init_ok db then Some (FDB_INIT_FAILED, db)
      else do {
        (result, db) \<leftarrow> set_kv (db_lock db) key (blob_buf blob) (blob_size blob);
        Some (result, db_unlock db)
      })"

definition fdb_kv_set ::
  "fdb_kvdb \<Rightarrow> byte list \<Rightarrow> byte list option \<Rightarrow> fdb_blob \<Rightarrow> (fdb_err_t \<times> fdb_kvdb) option"
where
  "fdb_kv_set db key val blob =
     (case val of
        Some v \<Rightarrow> fdb_kv_set_blob db key (fdb_blob_make blob (Some v) (strlen v))
      | None \<Rightarrow> fdb_kv_del db key)"


section \<open>Default values\<close>

partial_function (option) format_all_loop :: "fdb_kvdb \<Rightarrow> addr \<Rightarrow> (fdb_err_t \<times> fdb_kvdb) option" where
  "format_all_loop db a =
     (if a < db_max_size db then do {
        (result, db) \<leftarrow> kv_format_sector db a SECTOR_NOT_COMBINED;
        if result \<noteq> FDB_NO_ERR then Some (result, db)
        else format_all_loop db (u32 (a + db_sec_size db))
      }
      else Some (FDB_NO_ERR, db))"

text \<open>The result of \<open>create_kv_blob\<close> is not used, as in the source.\<close>

fun create_defaults :: "fdb_kvdb \<Rightarrow> kvdb_sec_info \<Rightarrow> fdb_default_kv_node list \<Rightarrow> fdb_kvdb option" where
  "create_defaults db sector [] = Some db"
| "create_defaults db sector (d # ds) =
     do {
       (_, sector, db) \<leftarrow> create_kv_blob db (sector\<lparr>sec_empty_kv := FAILED_ADDR\<rparr>) (dk_key d) (dk_value d)
          (u32 (if dk_value_len d = 0 then strlen (dk_value d) else dk_value_len d));
       create_defaults db sector ds
     }"

definition fdb_kv_set_default :: "fdb_kvdb \<Rightarrow> (fdb_err_t \<times> fdb_kvdb) option" where
  "fdb_kv_set_default db =
     do {
       let db = db_lock db;
       let db = db\<lparr>kvdb_kv_cache_table :=
                    map (\<lambda>c. c\<lparr>kc_addr := FDB_DATA_UNUSED\<rparr>) (kvdb_kv_cache_table db)\<rparr>;
       (result, db) \<leftarrow> format_all_loop db 0;
       db \<leftarrow> (if result = FDB_NO_ERR then create_defaults db (kvdb_stack_sector db) (kvdb_default_kvs db)
              else Some db);
       Some (result, db_unlock (db\<lparr>db_oldest_addr := 0\<rparr>))
     }"

end
