(* ===== verification/KvInit.thy ===== *)
theory KvInit
  imports KvSet
begin

text \<open>
  The life of a key-value database (\<open>fdb_kvdb.c\<close>): loading with recovery after a power failure,
  initialisation, options, the external iterator, the integrity check and the listing.
\<close>

section \<open>Listing\<close>

text \<open>
  What \<open>fdb_kv_print\<close> sends to \<open>FDB_PRINT\<close>: names and chunks of string values (which \<open>%.*s\<close> cuts at
  a NUL), the description of a value that is no string, line ends and the totals.
\<close>

datatype kv_print =
    Print_name "byte list" | Print_chunk "byte list" | Print_blob addr nat | Print_nl
  | Print_total nat nat

definition percent_s :: "nat \<Rightarrow> byte list \<Rightarrow> byte list" where
  "percent_s n s = takeWhile (\<lambda>b. b \<noteq> 0) (take n s)"

text \<open>One run of the loop over the value: whether all of it is a string, and the chunks that are
  printed when \<open>print_value\<close> is set.\<close>

partial_function (option) print_value_loop ::
  "fdb_kvdb \<Rightarrow> byte list \<Rightarrow> fdb_kv \<Rightarrow> nat \<Rightarrow> bool \<Rightarrow> kv_print list
     \<Rightarrow> (bool \<times> byte list \<times> kv_print list \<times> fdb_kvdb) option"
where
  "print_value_loop db buf kv len print_value out =
     (if len < kv_value_len kv then
        let n = (if len + 32 < kv_value_len kv then 32 else kv_value_len kv - len) in
        do {
          (_, buf, db) \<leftarrow> fdb_flash_read db (u32 (kv_addr_value kv + len)) buf (FDB_WG_ALIGN n);
          if print_value
          then print_value_loop db buf kv (len + n) print_value (out @ [Print_chunk (percent_s n buf)])
          else if \<not> fdb_is_str (take n buf) then Some (False, buf, out, db)
          else print_value_loop db buf kv (len + n) print_value out
        }
      else Some (True, buf, out, db))"

definition print_kv_cb :: "(nat \<times> kv_print list) kv_callback" where
  "print_kv_cb kv arg db =
     (case arg of (using_size, out) \<Rightarrow>
        if kv_crc_is_ok kv then
          let using_size = u64 (using_size + kv_len kv) in
          if kv_status kv = FDB_KV_WRITE then do {
            let out = out @ [Print_name (percent_s (kv_name_len kv) (kv_name kv))];
            (value_is_str, out, db) \<leftarrow>
              (if kv_value_len kv < FDB_STR_KV_VALUE_MAX_SIZE then do {
                 (value_is_str, buf, out, db) \<leftarrow> print_value_loop db (uninit (db_io db) 32) kv 0 False out;
                 if value_is_str then do {
                   (_, _, out, db) \<leftarrow> print_value_loop db buf kv 0 True out;
                   Some (True, out, db)
                 } else Some (False, out, db)
               } else Some (False, out, db));
            let out = (if \<not> value_is_str then out @ [Print_blob (kv_addr_value kv) (kv_value_len kv)]
                       else out);
            Some (False, (using_size, out @ [Print_nl]), db)
          }
          else Some (False, (using_size, out), db)
        else Some (False, arg, db))"

definition fdb_kv_print :: "fdb_kvdb \<Rightarrow> (kv_print list \<times> fdb_kvdb) option" where
  "fdb_kv_print db =
     (if \<not> db_init_ok db then Some ([], db)
      else do {
        let db = db_lock db;
        (_, (using_size, out), db) \<leftarrow> kv_iterator db (kvdb_stack_kv db) (0, []) (Some print_kv_cb);
        Some (out @ [Print_total
                       (u64 (u32 using_size + sub32 (SECTOR_NUM db) FDB_GC_EMPTY_SEC_THRESHOLD
                                               * SECTOR_HDR_DATA_SIZE))
                       (sub32 (db_max_size db) (u32 (db_sec_size db * FDB_GC_EMPTY_SEC_THRESHOLD)))],
              db_unlock db)
      })"


section \<open>Loading and recovery\<close>

text \<open>The argument: the oldest sector found so far and the status of the last sector.\<close>

definition check_oldest_addr_cb :: "(addr \<times> fdb_sector_store_status) sec_callback" where
  "check_oldest_addr_cb sector arg db =
     (case arg of (sector_oldest_addr, last_sector_status) \<Rightarrow>
        Some (False,
          ((if last_sector_status = FDB_SECTOR_STORE_EMPTY
               \<and> (sec_store sector = FDB_SECTOR_STORE_FULL \<or> sec_store sector = FDB_SECTOR_STORE_USING)
            then sec_addr sector else sector_oldest_addr), sec_store sector), db))"

definition kv_check_sec_hdr_cb :: "nat sec_callback" where
  "kv_check_sec_hdr_cb sector failed_count db =
     (if \<not> sec_check_ok sector then
        if db_not_formatable db then Some (True, failed_count + 1, db)
        else do {
          (_, db) \<leftarrow> kv_format_sector db (sec_addr sector) SECTOR_NOT_COMBINED;
          Some (False, failed_count + 1, db)
        }
      else Some (False, failed_count, db))"

definition check_and_recovery_gc_cb :: "unit sec_callback" where
  "check_and_recovery_gc_cb sector arg db =
     (if sec_check_ok sector \<and> sec_dirty sector = FDB_SECTOR_DIRTY_GC then do {
        db \<leftarrow> gc_collect (db\<lparr>kvdb_gc_request := True\<rparr>);
        Some (False, arg, db)
      }
      else Some (False, arg, db))"

definition check_and_recovery_kv_cb :: "unit kv_callback" where
  "check_and_recovery_kv_cb kv arg db =
     (if kv_crc_is_ok kv \<and> kv_status kv = FDB_KV_PRE_DELETE then do {
        (result, db) \<leftarrow> move_kv db kv;
        Some (result \<noteq> FDB_NO_ERR, arg, db)
      }
      else if kv_status kv = FDB_KV_PRE_WRITE then do {
        (_, db) \<leftarrow> fdb_write_status db (kv_addr_start kv) FDB_KV_STATUS_NUM
                     (kv_status_num FDB_KV_ERR_HDR) True;
        Some (True, arg, db)
      }
      else if kv_crc_is_ok kv \<and> kv_status kv = FDB_KV_WRITE then
        Some (False, arg, update_kv_cache db (take (kv_name_len kv) (kv_name kv)) (kv_addr_start kv))
      else Some (False, arg, db))"

text \<open>The part from \<open>__retry\<close> on.\<close>

partial_function (option) fdb_kv_load_retry :: "fdb_kvdb \<Rightarrow> fdb_kv \<Rightarrow> fdb_kvdb option" where
  "fdb_kv_load_retry db kv =
     do {
       (kv, _, db) \<leftarrow> kv_iterator db kv () (Some check_and_recovery_kv_cb);
       if kvdb_gc_request db then do {
         db \<leftarrow> gc_collect db;
         fdb_kv_load_retry db kv
       }
       else Some db
     }"

definition fdb_kv_load :: "fdb_kvdb \<Rightarrow> (fdb_err_t \<times> fdb_kvdb) option" where
  "fdb_kv_load db =
     do {
       (sector, check_failed_count, db) \<leftarrow>
          kv_sector_iterator (db\<lparr>kvdb_in_recovery_check := True\<rparr>) (kvdb_stack_sector db)
            FDB_SECTOR_STORE_UNUSED 0 (Some kv_check_sec_hdr_cb) False;
       if db_not_formatable db \<and> check_failed_count > 0 then Some (FDB_READ_ERR, db)
       else do {
         db \<leftarrow> (if check_failed_count = SECTOR_NUM db then do {
                  (_, db) \<leftarrow> fdb_kv_set_default db;
                  Some db
                } else Some db);
         (_, _, db) \<leftarrow> kv_sector_iterator db sector FDB_SECTOR_STORE_UNUSED ()
                         (Some check_and_recovery_gc_cb) False;
         db \<leftarrow> fdb_kv_load_retry db (kvdb_stack_kv db);
         Some (FDB_NO_ERR, db\<lparr>kvdb_in_recovery_check := False\<rparr>)
       }
     }"


section \<open>Options and initialisation\<close>

definition FDB_KVDB_CTRL_SET_SEC_SIZE :: int where "FDB_KVDB_CTRL_SET_SEC_SIZE = 0"
definition FDB_KVDB_CTRL_GET_SEC_SIZE :: int where "FDB_KVDB_CTRL_GET_SEC_SIZE = 1"
definition FDB_KVDB_CTRL_SET_LOCK :: int where "FDB_KVDB_CTRL_SET_LOCK = 2"
definition FDB_KVDB_CTRL_SET_UNLOCK :: int where "FDB_KVDB_CTRL_SET_UNLOCK = 3"
definition FDB_KVDB_CTRL_SET_FILE_MODE :: int where "FDB_KVDB_CTRL_SET_FILE_MODE = 9"
definition FDB_KVDB_CTRL_SET_MAX_SIZE :: int where "FDB_KVDB_CTRL_SET_MAX_SIZE = 10"
definition FDB_KVDB_CTRL_SET_NOT_FORMAT :: int where "FDB_KVDB_CTRL_SET_NOT_FORMAT = 11"

lemmas kvdb_ctrl_defs [fdb_layout] =
  FDB_KVDB_CTRL_SET_SEC_SIZE_def FDB_KVDB_CTRL_GET_SEC_SIZE_def FDB_KVDB_CTRL_SET_LOCK_def
  FDB_KVDB_CTRL_SET_UNLOCK_def FDB_KVDB_CTRL_SET_FILE_MODE_def FDB_KVDB_CTRL_SET_MAX_SIZE_def
  FDB_KVDB_CTRL_SET_NOT_FORMAT_def

definition fdb_kvdb_control :: "fdb_kvdb \<Rightarrow> int \<Rightarrow> ctrl_arg \<Rightarrow> (ctrl_arg \<times> fdb_kvdb) option" where
  "fdb_kvdb_control db cmd arg =
     (if cmd = FDB_KVDB_CTRL_SET_SEC_SIZE then
        (case arg of Arg_u32 n \<Rightarrow> if db_init_ok db then None else Some (arg, db\<lparr>db_sec_size := n\<rparr>)
         | _ \<Rightarrow> None)
      else if cmd = FDB_KVDB_CTRL_GET_SEC_SIZE then
        (case arg of Arg_u32 _ \<Rightarrow> Some (Arg_u32 (db_sec_size db), db) | _ \<Rightarrow> None)
      else if cmd = FDB_KVDB_CTRL_SET_LOCK then
        (case arg of Arg_fn f \<Rightarrow> Some (arg, db\<lparr>db_lock_fn := f\<rparr>) | _ \<Rightarrow> None)
      else if cmd = FDB_KVDB_CTRL_SET_UNLOCK then
        (case arg of Arg_fn f \<Rightarrow> Some (arg, db\<lparr>db_unlock_fn := f\<rparr>) | _ \<Rightarrow> None)
      else if cmd = FDB_KVDB_CTRL_SET_FILE_MODE then
        (case arg of Arg_bool b \<Rightarrow> if db_init_ok db then None else Some (arg, db\<lparr>db_file_mode := b\<rparr>)
         | _ \<Rightarrow> None)
      else if cmd = FDB_KVDB_CTRL_SET_MAX_SIZE then
        (case arg of Arg_u32 n \<Rightarrow> if db_init_ok db then None else Some (arg, db\<lparr>db_max_size := n\<rparr>)
         | _ \<Rightarrow> None)
      else if cmd = FDB_KVDB_CTRL_SET_NOT_FORMAT then
        (case arg of Arg_bool b \<Rightarrow> if db_init_ok db then None else Some (arg, db\<lparr>db_not_formatable := b\<rparr>)
         | _ \<Rightarrow> None)
      else Some (arg, db))"

text \<open>
  The search for the oldest sector uses the sector cache as it was before the initialisation; the
  caches are cleared after it.
\<close>

definition kvdb_clear_caches :: "fdb_kvdb \<Rightarrow> fdb_kvdb" where
  "kvdb_clear_caches db =
     db\<lparr>kvdb_sector_cache_table :=
          map (\<lambda>s. s\<lparr>sec_check_ok := False, sec_empty_kv := FAILED_ADDR, sec_addr := FDB_DATA_UNUSED\<rparr>)
              (kvdb_sector_cache_table db),
        kvdb_kv_cache_table := map (\<lambda>c. c\<lparr>kc_addr := FDB_DATA_UNUSED\<rparr>) (kvdb_kv_cache_table db)\<rparr>"

definition kvdb_find_oldest :: "fdb_kvdb \<Rightarrow> fdb_kvdb option" where
  "kvdb_find_oldest db =
     do {
       (_, (sector_oldest_addr, _), db) \<leftarrow>
          kv_sector_iterator (db\<lparr>db_oldest_addr := 0\<rparr>) (kvdb_stack_sector db) FDB_SECTOR_STORE_UNUSED
            (0, FDB_SECTOR_STORE_UNUSED) (Some check_oldest_addr_cb) False;
       Some (db\<lparr>db_oldest_addr := sector_oldest_addr\<rparr>)
     }"

definition fdb_kvdb_init ::
  "fdb_kvdb \<Rightarrow> string \<Rightarrow> string \<Rightarrow> fdb_default_kv_node list option \<Rightarrow> nat \<Rightarrow> (fdb_err_t \<times> fdb_kvdb) option"
where
  "fdb_kvdb_init db name path default_kv user_data =
     (if (FDB_STR_KV_VALUE_MAX_SIZE * 8) mod FDB_WRITE_GRAN \<noteq> 0 then None
      else do {
        (result, db) \<leftarrow> fdb_init_ex db name path FDB_DB_TYPE_KV user_data;
        if result \<noteq> FDB_NO_ERR then Some (result, fdb_init_finish db result)
        else do {
          let db = db_lock db;
          db \<leftarrow> kvdb_find_oldest
                 (db\<lparr>kvdb_gc_request := False, kvdb_in_recovery_check := False,
                     kvdb_default_kvs := (case default_kv of Some kvs \<Rightarrow> kvs | None \<Rightarrow> [])\<rparr>);
          if \<not> (FDB_GC_EMPTY_SEC_THRESHOLD > 0 \<and> FDB_GC_EMPTY_SEC_THRESHOLD < SECTOR_NUM db) then None
          else do {
            (result, db) \<leftarrow> fdb_kv_load (db_unlock (kvdb_clear_caches db));
            let db = db_unlock (db_lock db);
            Some (result, fdb_init_finish db result)
          }
        }
      })"

definition fdb_kvdb_deinit :: "fdb_kvdb \<Rightarrow> (fdb_err_t \<times> fdb_kvdb) option" where
  "fdb_kvdb_deinit db = do { db \<leftarrow> fdb_deinit db; Some (FDB_NO_ERR, db) }"


section \<open>The external iterator and the integrity check\<close>

definition fdb_kv_iterator_init :: "fdb_kvdb \<Rightarrow> fdb_kv_iterator \<Rightarrow> fdb_kv_iterator" where
  "fdb_kv_iterator_init db itr =
     itr\<lparr>itr_curr_kv := (itr_curr_kv itr)\<lparr>kv_addr_start := 0\<rparr>, itr_iterated_cnt := 0,
         itr_iterated_obj_bytes := 0, itr_iterated_value_bytes := 0, itr_traversed_len := 0,
         itr_sector_addr := db_oldest_addr db\<rparr>"

partial_function (option) kv_iterate_sector ::
  "fdb_kvdb \<Rightarrow> kvdb_sec_info \<Rightarrow> fdb_kv_iterator \<Rightarrow> (bool \<times> fdb_kv_iterator \<times> fdb_kvdb) option"
where
  "kv_iterate_sector db sector itr =
     do {
       (_, kv, db) \<leftarrow> read_kv db (itr_curr_kv itr);
       if kv_status kv = FDB_KV_WRITE \<and> kv_crc_is_ok kv then
         Some (True,
               itr\<lparr>itr_curr_kv := kv, itr_iterated_cnt := u32 (itr_iterated_cnt itr + 1),
                   itr_iterated_obj_bytes := u64 (itr_iterated_obj_bytes itr + kv_len kv),
                   itr_iterated_value_bytes := u64 (itr_iterated_value_bytes itr + kv_value_len kv)\<rparr>, db)
       else do {
         (a, db) \<leftarrow> get_next_kv_addr db sector kv;
         let itr = itr\<lparr>itr_curr_kv := kv\<lparr>kv_addr_start := a\<rparr>\<rparr>;
         if a \<noteq> FAILED_ADDR then kv_iterate_sector db sector itr else Some (False, itr, db)
       }
     }"

text \<open>The position in a sector with nodes: its first node, the node after the current one, or none
  left.\<close>

definition kv_iterate_start ::
  "fdb_kvdb \<Rightarrow> kvdb_sec_info \<Rightarrow> fdb_kv_iterator \<Rightarrow> (bool \<times> fdb_kv_iterator \<times> fdb_kvdb) option"
where
  "kv_iterate_start db sector itr =
     (let kv = itr_curr_kv itr in
      if kv_addr_start kv = 0 then
        kv_iterate_sector db sector
          (itr\<lparr>itr_curr_kv := kv\<lparr>kv_addr_start := u32 (sec_addr sector + SECTOR_HDR_DATA_SIZE)\<rparr>\<rparr>)
      else do {
        (a, db) \<leftarrow> get_next_kv_addr db sector kv;
        let itr = itr\<lparr>itr_curr_kv := kv\<lparr>kv_addr_start := a\<rparr>\<rparr>;
        if a = FAILED_ADDR then Some (False, itr, db) else kv_iterate_sector db sector itr
      })"

partial_function (option) kv_iterate_loop ::
  "fdb_kvdb \<Rightarrow> kvdb_sec_info \<Rightarrow> fdb_kv_iterator \<Rightarrow> (bool \<times> fdb_kv_iterator \<times> fdb_kvdb) option"
where
  "kv_iterate_loop db sector itr =
     do {
       (result, sector, db) \<leftarrow> kv_read_sector_info db (itr_sector_addr itr) sector False;
       (found, itr, db) \<leftarrow>
         (if result = FDB_NO_ERR
             \<and> (sec_store sector = FDB_SECTOR_STORE_USING \<or> sec_store sector = FDB_SECTOR_STORE_FULL)
          then kv_iterate_start db sector itr
          else Some (False, itr, db));
       if found then Some (True, itr, db)
       else
         let traversed_len = u32 (itr_traversed_len itr + db_sec_size db);
             a = kv_get_next_sector_addr db sector traversed_len;
             itr = itr\<lparr>itr_curr_kv := (itr_curr_kv itr)\<lparr>kv_addr_start := 0\<rparr>,
                       itr_traversed_len := traversed_len, itr_sector_addr := a\<rparr>
         in if a \<noteq> FAILED_ADDR then kv_iterate_loop db sector itr else Some (False, itr, db)
     }"

definition fdb_kv_iterate :: "fdb_kvdb \<Rightarrow> fdb_kv_iterator \<Rightarrow> (bool \<times> fdb_kv_iterator \<times> fdb_kvdb) option" where
  "fdb_kv_iterate db itr = kv_iterate_loop db (kvdb_stack_sector db) itr"

partial_function (option) kvdb_check_sector ::
  "fdb_kvdb \<Rightarrow> kvdb_sec_info \<Rightarrow> fdb_kv \<Rightarrow> (fdb_err_t \<times> fdb_kv \<times> fdb_kvdb) option"
where
  "kvdb_check_sector db sector kv =
     do {
       (result, kv, db) \<leftarrow> read_kv db kv;
       (a, db) \<leftarrow> get_next_kv_addr db sector kv;
       let kv = kv\<lparr>kv_addr_start := a\<rparr>;
       if a \<noteq> FAILED_ADDR \<and> result = FDB_NO_ERR then kvdb_check_sector db sector kv
       else Some (result, kv, db)
     }"

partial_function (option) kvdb_check_loop ::
  "fdb_kvdb \<Rightarrow> kvdb_sec_info \<Rightarrow> fdb_kv \<Rightarrow> addr \<Rightarrow> nat \<Rightarrow> (fdb_err_t \<times> fdb_kvdb) option"
where
  "kvdb_check_loop db sector kv a traversed_len =
     (let traversed_len = u32 (traversed_len + db_sec_size db) in
      do {
        (result, sector, db) \<leftarrow> kv_read_sector_info db a sector False;
        (result, kv, db) \<leftarrow>
          (if result = FDB_NO_ERR
              \<and> (sec_store sector = FDB_SECTOR_STORE_USING \<or> sec_store sector = FDB_SECTOR_STORE_FULL)
           then kvdb_check_sector db sector
                  (kv\<lparr>kv_addr_start := u32 (sec_addr sector + SECTOR_HDR_DATA_SIZE)\<rparr>)
           else Some (result, kv, db));
        let a = kv_get_next_sector_addr db sector traversed_len;
        if a \<noteq> FAILED_ADDR \<and> result = FDB_NO_ERR
        then kvdb_check_loop db sector kv a traversed_len
        else Some (result, db)
      })"

definition fdb_kvdb_check :: "fdb_kvdb \<Rightarrow> (fdb_err_t \<times> fdb_kvdb) option" where
  "fdb_kvdb_check db =
     (if \<not> db_init_ok db then Some (FDB_INIT_FAILED, db)
      else do {
        let db = db_lock db;
        (result, db) \<leftarrow> kvdb_check_loop db (kvdb_stack_sector db) (kvdb_stack_kv db) (db_oldest_addr db) 0;
        Some (result, db_unlock db)
      })"

end
