(* ===== verification/FileSpec.thy ===== *)
theory FileSpec
  imports FlashIo
begin

text \<open>
  The file mode as one address space. \<open>dir_ok\<close> is the invariant of the directory and the stream
  cache, \<open>file_ok\<close> adds that every sector file is there in full, and \<open>fl db a\<close> is the byte at
  address \<open>a\<close>. The lemmas show what opening, reading, writing and erasing do to it, that each of
  them returns, keeps the invariant and changes nothing of the database but the stream cache
  (\<open>io_frame\<close>).
\<close>

section \<open>The directory as one address space\<close>

definition sec_num :: "'a fdb_db_scheme \<Rightarrow> nat" where
  "sec_num db = db_max_size db div db_sec_size db"

definition sec_path :: "'a fdb_db_scheme \<Rightarrow> nat \<Rightarrow> string" where
  "sec_path db i = db_dir db @ ''/'' @ db_file_name (db_name db) i"

definition geometry_ok :: "'a fdb_db_scheme \<Rightarrow> bool" where
  "geometry_ok db \<longleftrightarrow> db_file_mode db \<and> 32 dvd db_sec_size db \<and> 0 < db_sec_size db
     \<and> db_sec_size db dvd db_max_size db \<and> db_max_size db < 2 ^ 32 \<and> sec_num db \<le> 10 ^ 8
     \<and> length (db_dir db) + 22 < DB_PATH_MAX"

definition slot_ok :: "'a fdb_db_scheme \<Rightarrow> nat \<Rightarrow> bool" where
  "slot_ok db k \<longleftrightarrow> db_cur_file db ! k = 0 \<or>
     (\<exists>i pos. i < sec_num db \<and> db_cur_file_sec db ! k = i * db_sec_size db
        \<and> streams (db_io db) (db_cur_file db ! k) = Some (sec_path db i, pos)
        \<and> files (db_io db) (sec_path db i) \<noteq> None
        \<and> db_cur_file db ! k < next_stream (db_io db))"

definition cache_ok :: "'a fdb_db_scheme \<Rightarrow> bool" where
  "cache_ok db \<longleftrightarrow> length (db_cur_file_sec db) = 2 \<and> length (db_cur_file db) = 2
     \<and> slot_ok db 0 \<and> slot_ok db 1
     \<and> (db_cur_file_sec db ! 0 \<noteq> db_cur_file_sec db ! 1
        \<or> (db_cur_file_sec db ! 0 = FDB_FAILED_ADDR \<and> db_cur_file_sec db ! 1 = FDB_FAILED_ADDR))"

definition io_ok :: "'a fdb_db_scheme \<Rightarrow> bool" where
  "io_ok db \<longleftrightarrow> 0 < next_stream (db_io db) \<and> faults (db_io db) = []
     \<and> (\<forall>i < sec_num db. creatable (db_io db) (sec_path db i))"

definition files_ok :: "'a fdb_db_scheme \<Rightarrow> bool" where
  "files_ok db \<longleftrightarrow> (\<forall>i < sec_num db. \<exists>bs. files (db_io db) (sec_path db i) = Some bs
     \<and> length bs = db_sec_size db)"

text \<open>The invariant of a directory that may lack files, and the one of a complete directory.\<close>

definition dir_ok :: "'a fdb_db_scheme \<Rightarrow> bool" where
  "dir_ok db \<longleftrightarrow> geometry_ok db \<and> cache_ok db \<and> io_ok db"

definition file_ok :: "'a fdb_db_scheme \<Rightarrow> bool" where
  "file_ok db \<longleftrightarrow> dir_ok db \<and> files_ok db"

definition fl :: "'a fdb_db_scheme \<Rightarrow> addr \<Rightarrow> byte" where
  "fl db a = (case files (db_io db) (sec_path db (a div db_sec_size db)) of
                None \<Rightarrow> 0
              | Some bs \<Rightarrow> if a < db_max_size db \<and> a mod db_sec_size db < length bs
                           then bs ! (a mod db_sec_size db) else 0)"

text \<open>What an operation on the storage may change of a database.\<close>

definition io_frame :: "'a fdb_db_scheme \<Rightarrow> 'a fdb_db_scheme \<Rightarrow> bool" where
  "io_frame db db' \<longleftrightarrow>
     db' = db\<lparr>db_cur_file_sec := db_cur_file_sec db', db_cur_file := db_cur_file db',
              db_cur_sec := db_cur_sec db', db_io := db_io db'\<rparr>
     \<and> junk (db_io db') = junk (db_io db)"

lemma io_frame_refl [simp]: "io_frame db db"
  by (simp add: io_frame_def)

lemma io_frame_trans: "io_frame db db' \<Longrightarrow> io_frame db' db'' \<Longrightarrow> io_frame db db''"
  by (cases db; cases db'; cases db'') (simp add: io_frame_def)

lemma io_frameD:
  assumes "io_frame db db'"
  shows "db_name db' = db_name db" "db_type db' = db_type db" "db_dir db' = db_dir db"
    "db_sec_size db' = db_sec_size db" "db_max_size db' = db_max_size db"
    "db_oldest_addr db' = db_oldest_addr db" "db_init_ok db' = db_init_ok db"
    "db_file_mode db' = db_file_mode db" "db_not_formatable db' = db_not_formatable db"
    "db_lock_fn db' = db_lock_fn db" "db_unlock_fn db' = db_unlock_fn db"
    "db_lock_cnt db' = db_lock_cnt db" "db_user_data db' = db_user_data db"
    "fdb_db.more db' = fdb_db.more db" "junk (db_io db') = junk (db_io db)"
  using assms by (cases db; cases db'; simp add: io_frame_def)+

lemma io_frame_updates [simp]:
  "io_frame db (db\<lparr>db_cur_file := x\<rparr>)" "io_frame db (db\<lparr>db_cur_file_sec := y\<rparr>)"
  "io_frame db (db\<lparr>db_cur_sec := z\<rparr>)"
  "junk io = junk (db_io db) \<Longrightarrow> io_frame db (db\<lparr>db_io := io\<rparr>)"
  by (simp_all add: io_frame_def)

lemma sec_num_frame: "io_frame db db' \<Longrightarrow> sec_num db' = sec_num db"
  by (simp add: sec_num_def io_frameD)

lemma sec_path_frame: "io_frame db db' \<Longrightarrow> sec_path db' = sec_path db"
  by (simp add: sec_path_def fun_eq_iff io_frameD)

lemma geometry_frame: "io_frame db db' \<Longrightarrow> geometry_ok db' = geometry_ok db"
  by (simp add: geometry_ok_def sec_num_frame io_frameD)

lemma geometry_updates [simp]:
  "sec_num (db\<lparr>db_io := io\<rparr>) = sec_num db" "sec_path (db\<lparr>db_io := io\<rparr>) = sec_path db"
  "sec_num (db\<lparr>db_cur_sec := z\<rparr>) = sec_num db" "sec_path (db\<lparr>db_cur_sec := z\<rparr>) = sec_path db"
  "sec_num (db\<lparr>db_cur_file := x\<rparr>) = sec_num db" "sec_path (db\<lparr>db_cur_file := x\<rparr>) = sec_path db"
  "sec_num (db\<lparr>db_cur_file_sec := y\<rparr>) = sec_num db"
  "sec_path (db\<lparr>db_cur_file_sec := y\<rparr>) = sec_path db"
  by (simp_all add: sec_num_def sec_path_def fun_eq_iff)

lemma geometry_ok_updates [simp]:
  "geometry_ok (db\<lparr>db_io := io\<rparr>) = geometry_ok db" "geometry_ok (db\<lparr>db_cur_sec := z\<rparr>) = geometry_ok db"
  "geometry_ok (db\<lparr>db_cur_file := x\<rparr>) = geometry_ok db"
  "geometry_ok (db\<lparr>db_cur_file_sec := y\<rparr>) = geometry_ok db"
  by (simp_all add: geometry_ok_def)

lemma cur_sec_irrelevant [simp]:
  "slot_ok (db\<lparr>db_cur_sec := z\<rparr>) k = slot_ok db k" "cache_ok (db\<lparr>db_cur_sec := z\<rparr>) = cache_ok db"
  "dir_ok (db\<lparr>db_cur_sec := z\<rparr>) = dir_ok db" "fl (db\<lparr>db_cur_sec := z\<rparr>) = fl db"
proof -
  show "slot_ok (db\<lparr>db_cur_sec := z\<rparr>) k = slot_ok db k" for k by (simp add: slot_ok_def)
  then show "cache_ok (db\<lparr>db_cur_sec := z\<rparr>) = cache_ok db" by (simp add: cache_ok_def)
  then show "dir_ok (db\<lparr>db_cur_sec := z\<rparr>) = dir_ok db" by (simp add: dir_ok_def geometry_ok_def io_ok_def)
  show "fl (db\<lparr>db_cur_sec := z\<rparr>) = fl db" by (simp add: fl_def fun_eq_iff split: option.split)
qed

lemmas io_frame_geometry = sec_num_frame sec_path_frame geometry_frame


section \<open>File names\<close>

lemma db_file_name_eq:
  assumes "i < 10 ^ 8"
  shows "db_file_name name i = take DB_NAME_MAX name @ ''.fdb.'' @ dec i"
    and "length (db_file_name name i) \<le> 21"
proof -
  have len: "length (dec i) \<le> 8" using length_dec [of i 7] assms by simp
  have "i < 2 ^ 31" using assms by simp
  then have d: "dec_d i = dec i" by (simp add: dec_d_def)
  show "db_file_name name i = take DB_NAME_MAX name @ ''.fdb.'' @ dec i"
    using len by (simp add: db_file_name_def d snprintf_def DB_NAME_MAX_def)
  then show "length (db_file_name name i) \<le> 21"
    using len by (simp add: DB_NAME_MAX_def)
qed

lemma sec_path_inj:
  "i < 10 ^ 8 \<Longrightarrow> j < 10 ^ 8 \<Longrightarrow> sec_path db i = sec_path db j \<longleftrightarrow> i = j"
  using dec_inj by (auto simp: sec_path_def db_file_name_eq)

lemma get_db_file_path_eq:
  assumes "geometry_ok db" "a < db_max_size db"
  shows "get_db_file_path db a DB_PATH_MAX = Some (sec_path db (a div db_sec_size db))"
proof -
  have pos: "0 < db_sec_size db" and dvd: "db_sec_size db dvd db_max_size db"
    and num: "sec_num db \<le> 10 ^ 8"
    and dir: "length (db_dir db) + 22 < DB_PATH_MAX" using assms by (auto simp: geometry_ok_def)
  have "a div db_sec_size db < sec_num db"
    using assms(2) pos dvd by (simp add: sec_num_def less_mult_imp_div_less)
  with num have "a div db_sec_size db < 10 ^ 8" by linarith
  then have "length (db_file_name (db_name db) (a div db_sec_size db)) \<le> 21"
    by (rule db_file_name_eq(2))
  with dir pos show ?thesis
    by (simp add: get_db_file_path_def FDB_ALIGN_DOWN_def sec_path_def snprintf_def)
qed

section \<open>The stream cache\<close>

lemma sector_addr_not_failed:
  "geometry_ok db \<Longrightarrow> i * db_sec_size db \<noteq> FDB_FAILED_ADDR"
proof
  assume g: "geometry_ok db" and eq: "i * db_sec_size db = FDB_FAILED_ADDR"
  from g have "32 dvd i * db_sec_size db" by (simp add: geometry_ok_def)
  with eq show False by (simp add: FDB_FAILED_ADDR_def)
qed

lemma sector_index:
  assumes "geometry_ok db" "a < db_max_size db"
  shows "a div db_sec_size db < sec_num db" "a div db_sec_size db < 10 ^ 8"
proof -
  from assms show 1: "a div db_sec_size db < sec_num db"
    by (simp add: geometry_ok_def sec_num_def less_mult_imp_div_less)
  with assms show "a div db_sec_size db < 10 ^ 8" by (simp add: geometry_ok_def)
qed

lemma cache_okE:
  assumes "cache_ok db"
  obtains s0 s1 f0 f1 where "db_cur_file_sec db = [s0, s1]" "db_cur_file db = [f0, f1]"
    "s0 \<noteq> s1 \<or> s0 = FDB_FAILED_ADDR \<and> s1 = FDB_FAILED_ADDR"
proof -
  from assms have "length (db_cur_file_sec db) = Suc (Suc 0)" "length (db_cur_file db) = Suc (Suc 0)"
    by (simp_all add: cache_ok_def)
  then obtain s0 s1 f0 f1 where "db_cur_file_sec db = [s0, s1]" "db_cur_file db = [f0, f1]"
    by (auto simp: length_Suc_conv)
  with assms show thesis by (intro that) (auto simp: cache_ok_def)
qed

lemma update_file_cache_shift_1:
  "update_file_cache_shift db 1 =
     do {
       io \<leftarrow> fclose (db_io db) (db_cur_file db ! 1);
       Some (db\<lparr>db_io := io, db_cur_file := (db_cur_file db)[1 := db_cur_file db ! 0],
                db_cur_file_sec := (db_cur_file_sec db)[1 := db_cur_file_sec db ! 0]\<rparr>)
     }"
  by (simp add: One_nat_def)

lemma slot_ok_Some:
  "slot_ok db k \<Longrightarrow> db_cur_file db ! k \<noteq> 0 \<Longrightarrow>
     \<exists>i pos. i < sec_num db \<and> db_cur_file_sec db ! k = i * db_sec_size db
        \<and> streams (db_io db) (db_cur_file db ! k) = Some (sec_path db i, pos)
        \<and> files (db_io db) (sec_path db i) \<noteq> None
        \<and> db_cur_file db ! k < next_stream (db_io db)"
  by (auto simp: slot_ok_def)

text \<open>Entering a freshly opened stream keeps the cache in order and closes at most another one.\<close>

lemma update_file_cache_ok:
  assumes geo: "geometry_ok db" and cache: "cache_ok db"
    and miss: "get_file_from_cache db (i * db_sec_size db) = 0" and i: "i < sec_num db"
    and fd: "streams (db_io db) fd = Some (sec_path db i, pos)" "fd \<noteq> 0" "fd < next_stream (db_io db)"
    and fd_new: "fd \<notin> set (db_cur_file db)"
    and ex: "files (db_io db) (sec_path db i) \<noteq> None"
  obtains db' where "update_file_cache db (i * db_sec_size db) fd = Some db'" "cache_ok db'"
    "io_frame db db'" "files (db_io db') = files (db_io db)"
    "streams (db_io db') fd = Some (sec_path db i, pos)"
    "creatable (db_io db') = creatable (db_io db)" "faults (db_io db') = faults (db_io db)"
    "next_stream (db_io db') = next_stream (db_io db)"
proof -
  obtain s0 s1 f0 f1 where s: "db_cur_file_sec db = [s0, s1]" and f: "db_cur_file db = [f0, f1]"
    and d: "s0 \<noteq> s1 \<or> s0 = FDB_FAILED_ADDR \<and> s1 = FDB_FAILED_ADDR" by (rule cache_okE [OF cache])
  let ?a = "i * db_sec_size db"
  have slots: "slot_ok db 0" "slot_ok db 1" using cache by (simp_all add: cache_ok_def)
  have nf: "j * db_sec_size db \<noteq> FDB_FAILED_ADDR" for j by (rule sector_addr_not_failed [OF geo])
  have ne: "fd \<noteq> f0" "fd \<noteq> f1" using fd_new f by auto
  show thesis
  proof (cases "s0 = ?a \<or> s1 = ?a \<or> f0 = 0 \<or> f1 = 0")
    case True
    have id: "db\<lparr>db_cur_file := y, db_cur_file_sec := [s0, s1]\<rparr> = db\<lparr>db_cur_file := y\<rparr>" for y
      using s by (cases db) simp
    have upd: "\<exists>k<2. update_file_cache db ?a fd
        = Some (db\<lparr>db_cur_file := (db_cur_file db)[k := fd],
                   db_cur_file_sec := (db_cur_file_sec db)[k := ?a]\<rparr>)
        \<and> (s0 = ?a \<longrightarrow> k = 0) \<and> (s1 = ?a \<longrightarrow> k = 1)"
    proof -
      note upd_simps = update_file_cache_def FDB_FILE_CACHE_TABLE_SIZE_def s f fd(2)
      consider "s0 = ?a" | "s0 \<noteq> ?a" "s1 = ?a" | "s0 \<noteq> ?a" "s1 \<noteq> ?a" "f1 = 0"
        | "s0 \<noteq> ?a" "s1 \<noteq> ?a" "f1 \<noteq> 0" "f0 = 0" using True by blast
      then show ?thesis
      proof cases
        case 1
        then show ?thesis using d nf [of i] id [of "[fd, f1]"]
          by (intro exI [of _ 0]) (simp add: upd_simps)
      next
        case 2
        then show ?thesis using id [of "[f0, fd]"] by (intro exI [of _ 1]) (simp add: upd_simps)
      next
        case 3
        then show ?thesis by (intro exI [of _ 1]) (simp add: upd_simps)
      next
        case 4
        then show ?thesis by (intro exI [of _ 0]) (simp add: upd_simps)
      qed
    qed
    then obtain k where k: "k < 2" and eq: "update_file_cache db ?a fd
        = Some (db\<lparr>db_cur_file := (db_cur_file db)[k := fd],
                   db_cur_file_sec := (db_cur_file_sec db)[k := ?a]\<rparr>)"
        and only: "s0 = ?a \<longrightarrow> k = 0" "s1 = ?a \<longrightarrow> k = 1" by blast
    let ?db = "db\<lparr>db_cur_file := (db_cur_file db)[k := fd],
                  db_cur_file_sec := (db_cur_file_sec db)[k := ?a]\<rparr>"
    have fr: "io_frame db ?db" by (simp add: io_frame_def)
    have "length (db_cur_file db) = 2" "length (db_cur_file_sec db) = 2" using s f by simp_all
    then have "slot_ok ?db k"
      using fd i ex k by (auto simp: slot_ok_def sec_num_def sec_path_def)
    moreover have "k \<noteq> 0 \<Longrightarrow> slot_ok ?db 0" "k \<noteq> 1 \<Longrightarrow> slot_ok ?db 1"
      using slots by (auto simp: slot_ok_def sec_num_def sec_path_def)
    ultimately have "slot_ok ?db 0" "slot_ok ?db 1" by metis+
    moreover have "k = 0 \<or> k = 1" using k by auto
    ultimately have "cache_ok ?db" using only s f by (auto simp: cache_ok_def)
    then show ?thesis using eq fr fd by (intro that [of ?db]) simp_all
  next
    case False
    then have z: "f0 \<noteq> 0" "f1 \<noteq> 0" "s0 \<noteq> ?a" "s1 \<noteq> ?a" by auto
    obtain i1 p1 where c1: "i1 < sec_num db" "s1 = i1 * db_sec_size db"
        "streams (db_io db) f1 = Some (sec_path db i1, p1)"
      using slot_ok_Some [OF slots(2)] z s f by auto
    obtain i0 p0 where c0: "i0 < sec_num db" "s0 = i0 * db_sec_size db"
        "streams (db_io db) f0 = Some (sec_path db i0, p0)"
        "files (db_io db) (sec_path db i0) \<noteq> None" "f0 < next_stream (db_io db)"
      using slot_ok_Some [OF slots(1)] z s f by auto
    have "s0 \<noteq> s1" using d nf [of i0] c0 by auto
    then have "i0 \<noteq> i1" using c0 c1 by auto
    then have f01: "f0 \<noteq> f1" using c0 c1 geo sec_path_inj [of i0 i1 db] by (auto simp: geometry_ok_def)
    let ?db = "db\<lparr>db_io := (db_io db)\<lparr>streams := (streams (db_io db))(f1 := None)\<rparr>,
                  db_cur_file := [fd, f0], db_cur_file_sec := [?a, s0]\<rparr>"
    have eq: "update_file_cache db ?a fd = Some ?db"
      using z s f c1 fd by (simp add: update_file_cache_def FDB_FILE_CACHE_TABLE_SIZE_def
          update_file_cache_shift_1 fclose_def)
    have "slot_ok ?db 0" using fd i ex ne by (auto simp: slot_ok_def sec_num_def sec_path_def)
    moreover have "slot_ok ?db 1" using c0 f01 by (auto simp: slot_ok_def sec_num_def sec_path_def)
    ultimately have "cache_ok ?db" using z by (simp add: cache_ok_def)
    then show ?thesis using eq fd ne by (intro that [of ?db]) (simp_all add: io_frame_def)
  qed
qed

lemma cached_file:
  assumes cache: "cache_ok db" and geo: "geometry_ok db"
    and hit: "get_file_from_cache db (i * db_sec_size db) = fd" "fd \<noteq> 0"
  obtains pos where "i < sec_num db" "streams (db_io db) fd = Some (sec_path db i, pos)"
    "files (db_io db) (sec_path db i) \<noteq> None"
proof -
  obtain s0 s1 f0 f1 where s: "db_cur_file_sec db = [s0, s1]" and f: "db_cur_file db = [f0, f1]"
    by (rule cache_okE [OF cache])
  have slots: "slot_ok db 0" "slot_ok db 1" using cache by (simp_all add: cache_ok_def)
  have pos: "0 < db_sec_size db" using geo by (simp add: geometry_ok_def)
  consider "s0 = i * db_sec_size db" "f0 = fd" | "s1 = i * db_sec_size db" "f1 = fd"
    using hit s f by (auto simp: get_file_from_cache_def split: if_splits)
  then show thesis
  proof cases
    case 1
    then show ?thesis using slot_ok_Some [OF slots(1)] s f hit(2) pos by (auto intro: that)
  next
    case 2
    then show ?thesis using slot_ok_Some [OF slots(2)] s f hit(2) pos by (auto intro: that)
  qed
qed

lemma cache_ok_streams_less:
  "cache_ok db \<Longrightarrow> 0 < next_stream (db_io db) \<Longrightarrow> fd \<in> set (db_cur_file db) \<Longrightarrow> fd < next_stream (db_io db)"
  by (frule cache_okE) (auto simp: cache_ok_def slot_ok_def)

text \<open>
  Opening a file of the directory: with the file there the stream is open on it, without it the
  result is the null pointer, and the stored bytes do not change.
\<close>

lemma open_existing:
  assumes ok: "dir_ok db" and a: "a < db_max_size db"
    and ex: "files (db_io db) (sec_path db (a div db_sec_size db)) \<noteq> None"
  obtains fp pos db' where "open_db_file db a False = Some (fp, db')" "fp \<noteq> 0" "dir_ok db'"
    "io_frame db db'" "files (db_io db') = files (db_io db)"
    "streams (db_io db') fp = Some (sec_path db (a div db_sec_size db), pos)"
proof -
  define i where "i = a div db_sec_size db"
  have geo: "geometry_ok db" and cache: "cache_ok db" and io: "io_ok db" using ok by (simp_all add: dir_ok_def)
  have pos: "0 < db_sec_size db" using geo by (simp add: geometry_ok_def)
  have i: "i < sec_num db" using sector_index [OF geo a] by (simp add: i_def)
  have sec: "FDB_ALIGN_DOWN a (db_sec_size db) = i * db_sec_size db" by (simp add: FDB_ALIGN_DOWN_def i_def)
  show thesis
  proof (cases "get_file_from_cache db (i * db_sec_size db) = 0")
    case False
    then obtain p where "streams (db_io db) (get_file_from_cache db (i * db_sec_size db)) = Some (sec_path db i, p)"
      by (rule cached_file [OF cache geo refl])
    with False ok show ?thesis using pos
      by (intro that [of "get_file_from_cache db (i * db_sec_size db)" db])
         (simp_all add: open_db_file_def sec i_def)
  next
    case True
    let ?fd = "next_stream (db_io db)"
    let ?io = "(db_io db)\<lparr>streams := (streams (db_io db))(?fd \<mapsto> (sec_path db i, 0)), next_stream := Suc ?fd\<rparr>"
    let ?db = "db\<lparr>db_io := ?io\<rparr>"
    have fd0: "?fd \<noteq> 0" using io by (simp add: io_ok_def)
    have new: "?fd \<notin> set (db_cur_file db)" using cache_ok_streams_less [OF cache] fd0 by blast
    have fr: "io_frame db ?db" by simp
    have c: "cache_ok ?db" using cache new
      by (auto simp: cache_ok_def slot_ok_def in_set_conv_nth less_Suc_eq numeral_2_eq_2 fd0)
    have g: "geometry_ok ?db" using geo by (simp add: geometry_frame [OF fr])
    have m: "get_file_from_cache ?db (i * db_sec_size ?db) = 0"
      using True by (simp add: get_file_from_cache_def)
    have r: "i < sec_num ?db" "streams (db_io ?db) ?fd = Some (sec_path ?db i, 0)"
      "?fd < next_stream (db_io ?db)" "?fd \<notin> set (db_cur_file ?db)"
      "files (db_io ?db) (sec_path ?db i) \<noteq> None"
      using i new ex by (simp_all add: i_def)
    obtain db' where u: "update_file_cache ?db (i * db_sec_size ?db) ?fd = Some db'" "cache_ok db'"
      "io_frame ?db db'" "files (db_io db') = files (db_io ?db)"
      "streams (db_io db') ?fd = Some (sec_path ?db i, 0)" "creatable (db_io db') = creatable (db_io ?db)"
      "faults (db_io db') = faults (db_io ?db)" "next_stream (db_io db') = next_stream (db_io ?db)"
      by (rule update_file_cache_ok [OF g c m r(1,2) fd0 r(3,4,5)])
    let ?db' = "db'\<lparr>db_cur_sec := i * db_sec_size db\<rparr>"
    have fr': "io_frame db ?db'"
      using io_frame_trans [OF io_frame_trans [OF fr u(3)] io_frame_updates(3)] .
    have "open_db_file db a False = Some (?fd, ?db')"
      using True u(1) ex pos get_db_file_path_eq [OF geo a]
      by (auto simp: open_db_file_def sec fopen_rb_def i_def)
    moreover have "dir_ok ?db'"
      using u io geo io_frame_geometry [OF io_frame_trans [OF fr u(3)]] by (simp add: dir_ok_def io_ok_def)
    ultimately show ?thesis using fr' u fd0 by (intro that [of ?fd ?db']) (simp_all add: i_def)
  qed
qed


lemma open_missing:
  assumes ok: "dir_ok db" and a: "a < db_max_size db"
    and none: "files (db_io db) (sec_path db (a div db_sec_size db)) = None"
  shows "open_db_file db a False
           = Some (0, db\<lparr>db_cur_sec := (a div db_sec_size db) * db_sec_size db\<rparr>)"
proof -
  define i where "i = a div db_sec_size db"
  have geo: "geometry_ok db" and cache: "cache_ok db" using ok by (simp_all add: dir_ok_def)
  have pos: "0 < db_sec_size db" using geo by (simp add: geometry_ok_def)
  have sec: "FDB_ALIGN_DOWN a (db_sec_size db) = i * db_sec_size db" by (simp add: FDB_ALIGN_DOWN_def i_def)
  obtain s0 s1 f0 f1 where s: "db_cur_file_sec db = [s0, s1]" and f: "db_cur_file db = [f0, f1]"
    by (rule cache_okE [OF cache])
  have miss: "get_file_from_cache db (i * db_sec_size db) = 0"
  proof (rule ccontr)
    assume "get_file_from_cache db (i * db_sec_size db) \<noteq> 0"
    then have "files (db_io db) (sec_path db i) \<noteq> None" by (rule cached_file [OF cache geo refl])
    with none show False by (simp add: i_def)
  qed
  have id: "db\<lparr>db_io := db_io db\<rparr> = db" "db\<lparr>db_cur_file := [f0, f1]\<rparr> = db" using f by (cases db; simp)+
  have "update_file_cache db (i * db_sec_size db) 0 = Some db"
    using miss by (auto simp: get_file_from_cache_def update_file_cache_def s f id split: if_splits)
  then show ?thesis
    using miss pos none get_db_file_path_eq [OF geo a]
    by (simp add: open_db_file_def sec fopen_rb_def id flip: i_def)
qed

text \<open>Closing the cached stream of a sector, as \<open>open_db_file\<close> does before it truncates the file.\<close>

lemma close_cached:
  assumes ok: "dir_ok db" and fd: "get_file_from_cache db (i * db_sec_size db) = fd" "fd \<noteq> 0"
  obtains io db' where "fclose (db_io db) fd = Some io"
    "update_file_cache (db\<lparr>db_io := io\<rparr>) (i * db_sec_size db) 0 = Some db'" "dir_ok db'" "io_frame db db'"
    "files (db_io db') = files (db_io db)" "get_file_from_cache db' (i * db_sec_size db) = 0"
proof -
  have geo: "geometry_ok db" and cache: "cache_ok db" and io: "io_ok db" using ok by (simp_all add: dir_ok_def)
  obtain s0 s1 f0 f1 where s: "db_cur_file_sec db = [s0, s1]" and f: "db_cur_file db = [f0, f1]"
    and d: "s0 \<noteq> s1 \<or> s0 = FDB_FAILED_ADDR \<and> s1 = FDB_FAILED_ADDR" by (rule cache_okE [OF cache])
  obtain p where i: "i < sec_num db" and st: "streams (db_io db) fd = Some (sec_path db i, p)"
    by (rule cached_file [OF cache geo fd])
  have nf: "j * db_sec_size db \<noteq> FDB_FAILED_ADDR" for j by (rule sector_addr_not_failed [OF geo])
  have slots: "slot_ok db 0" "slot_ok db 1" using cache by (simp_all add: cache_ok_def)
  let ?io = "(db_io db)\<lparr>streams := (streams (db_io db))(fd := None)\<rparr>"
  have cl: "fclose (db_io db) fd = Some ?io" using st by (simp add: fclose_def)
  have keep: "slot_ok (db\<lparr>db_io := ?io, db_cur_file := x\<rparr>) k"
    if "slot_ok db k" "x ! k = db_cur_file db ! k" "db_cur_file_sec db ! k \<noteq> i * db_sec_size db" for k x
  proof -
    have "db_cur_file db ! k = 0 \<or> db_cur_file db ! k \<noteq> fd"
      using that(1,3) st geo i by (auto simp: slot_ok_def sec_path_inj geometry_ok_def)
    then show ?thesis using that by (auto simp: slot_ok_def)
  qed
  consider "s0 = i * db_sec_size db" "f0 = fd" "s1 \<noteq> i * db_sec_size db"
    | "s0 \<noteq> i * db_sec_size db" "s1 = i * db_sec_size db" "f1 = fd"
    using fd s f d nf [of i] by (auto simp: get_file_from_cache_def split: if_splits)
  then show thesis
  proof cases
    case 1
    let ?db = "db\<lparr>db_io := ?io, db_cur_file := [0, f1]\<rparr>"
    have "slot_ok ?db 0" by (simp add: slot_ok_def)
    moreover have "slot_ok ?db 1" using keep [OF slots(2), of "[0, f1]"] 1 s f by simp
    ultimately have "dir_ok ?db" using geo io s 1 by (simp add: dir_ok_def cache_ok_def io_ok_def)
    then show ?thesis using cl s f 1
      by (intro that [of ?io ?db]) (simp_all add: update_file_cache_def io_frame_def get_file_from_cache_def)
  next
    case 2
    let ?db = "db\<lparr>db_io := ?io, db_cur_file := [f0, 0]\<rparr>"
    have "slot_ok ?db 1" by (simp add: slot_ok_def)
    moreover have "slot_ok ?db 0" using keep [OF slots(1), of "[f0, 0]"] 2 s f by simp
    ultimately have "dir_ok ?db" using geo io s 2 by (simp add: dir_ok_def cache_ok_def io_ok_def)
    then show ?thesis using cl s f 2
      by (intro that [of ?io ?db]) (simp_all add: update_file_cache_def io_frame_def get_file_from_cache_def)
  qed
qed

lemma open_clean:
  assumes ok: "dir_ok db" and a: "a < db_max_size db"
  obtains fp pos db' where "open_db_file db a True = Some (fp, db')" "fp \<noteq> 0" "dir_ok db'"
    "io_frame db db'"
    "files (db_io db') = (files (db_io db))(sec_path db (a div db_sec_size db) \<mapsto> [])"
    "streams (db_io db') fp = Some (sec_path db (a div db_sec_size db), pos)"
proof -
  define i where "i = a div db_sec_size db"
  define p where "p = sec_path db i"
  have geo: "geometry_ok db" using ok by (simp add: dir_ok_def)
  have i: "i < sec_num db" using sector_index [OF geo a] by (simp add: i_def)
  have pos: "0 < db_sec_size db" using geo by (simp add: geometry_ok_def)
  have sec: "FDB_ALIGN_DOWN a (db_sec_size db) = i * db_sec_size db" by (simp add: FDB_ALIGN_DOWN_def i_def)
  define fd where "fd = get_file_from_cache db (i * db_sec_size db)"
  obtain db1 where db1: "(if fd \<noteq> 0 then do { io \<leftarrow> fclose (db_io db) fd;
        update_file_cache (db\<lparr>db_io := io\<rparr>) (i * db_sec_size db) 0 } else Some db) = Some db1"
      "dir_ok db1" "io_frame db db1" "files (db_io db1) = files (db_io db)"
      "get_file_from_cache db1 (i * db_sec_size db) = 0"
  proof (cases "fd = 0")
    case True
    then show ?thesis using ok fd_def by (intro that [of db]) simp_all
  next
    case False
    from close_cached [OF ok fd_def [symmetric] False] obtain io db1
      where "fclose (db_io db) fd = Some io"
        "update_file_cache (db\<lparr>db_io := io\<rparr>) (i * db_sec_size db) 0 = Some db1" "dir_ok db1"
        "io_frame db db1" "files (db_io db1) = files (db_io db)"
        "get_file_from_cache db1 (i * db_sec_size db) = 0" by blast
    then show ?thesis using False by (intro that [of db1]) simp_all
  qed
  note fr = io_frameD [OF db1(3)] io_frame_geometry [OF db1(3)]
  let ?c = "next_stream (db_io db1)"
  let ?io2 = "(db_io db1)\<lparr>files := (files (db_io db1))(p \<mapsto> []),
      next_stream := Suc ?c, streams := (streams (db_io db1))(?c := None)\<rparr>"
  let ?db2 = "db1\<lparr>db_io := ?io2\<rparr>"
  have c0: "?c \<noteq> 0" and cr: "creatable (db_io db1) p"
    using db1(2) i by (auto simp: dir_ok_def io_ok_def fr p_def)
  have less: "\<And>f. f \<in> set (db_cur_file db1) \<Longrightarrow> f < ?c"
    using db1(2) c0 cache_ok_streams_less by (auto simp: dir_ok_def)
  have slot: "slot_ok ?db2 k" if "slot_ok db1 k" "db_cur_file db1 ! k \<noteq> ?c" for k
    using that by (auto simp: slot_ok_def)
  have "cache_ok ?db2"
  proof -
    have c1: "cache_ok db1" using db1(2) by (simp add: dir_ok_def)
    then have "db_cur_file db1 ! 0 \<noteq> ?c" "db_cur_file db1 ! 1 \<noteq> ?c"
      using less [of ?c] by (auto elim!: cache_okE)
    with c1 show ?thesis by (simp add: cache_ok_def slot)
  qed
  then have ok2: "dir_ok ?db2" using db1(2) by (simp add: dir_ok_def io_ok_def)
  have miss2: "get_file_from_cache ?db2 (i * db_sec_size db) = 0"
    using db1(5) by (simp add: get_file_from_cache_def)
  have path: "get_db_file_path db a DB_PATH_MAX = Some p" "get_db_file_path ?db2 a DB_PATH_MAX = Some p"
    using get_db_file_path_eq [OF geo a] get_db_file_path_eq [of ?db2 a] ok2 a
    by (simp_all add: fr p_def i_def dir_ok_def)
  obtain io1 where wb: "fopen_wb (db_io db1) p = (?c, io1)" "fclose io1 ?c = Some ?io2"
    using cr by (simp add: fopen_wb_def fclose_def)
  have eq: "open_db_file db a True = open_db_file ?db2 a False"
  proof (cases "fd = 0")
    case True
    then have "db1 = db" using db1(1) by simp
    with True show ?thesis using pos path c0 wb miss2
      by (simp add: open_db_file_def sec Let_def flip: fd_def)
  next
    case False
    with db1(1) obtain io where "fclose (db_io db) fd = Some io"
      "update_file_cache (db\<lparr>db_io := io\<rparr>) (i * db_sec_size db) 0 = Some db1"
      by (auto simp: bind_eq_Some_conv)
    with False show ?thesis using pos path c0 wb miss2 fr(4)
      by (simp add: open_db_file_def sec Let_def flip: fd_def)
  qed
  have fr2: "io_frame db ?db2" by (rule io_frame_trans [OF db1(3)]) simp
  have ex2: "files (db_io ?db2) (sec_path ?db2 (a div db_sec_size ?db2)) \<noteq> None"
    by (simp add: fr p_def flip: i_def)
  have a2: "a < db_max_size ?db2" using a by (simp add: fr)
  obtain fp q db' where
    "open_db_file ?db2 a False = Some (fp, db')" "fp \<noteq> 0" "dir_ok db'"
    "io_frame ?db2 db'" "files (db_io db') = files (db_io ?db2)"
    "streams (db_io db') fp = Some (sec_path ?db2 (a div db_sec_size ?db2), q)"
    by (rule open_existing [OF ok2 a2 ex2])
  then show thesis using eq db1(4) io_frame_trans [OF fr2]
    by (intro that [of fp db' q]) (simp_all add: fr p_def flip: i_def)
qed

section \<open>Reading, writing and erasing\<close>

lemma stream_move_ok:
  assumes "dir_ok db" "streams (db_io db) fp = Some (path, q)" "files (db_io db) path \<noteq> None"
  shows "dir_ok (db\<lparr>db_io := (db_io db)\<lparr>files := (files (db_io db))(path \<mapsto> bs),
                       streams := (streams (db_io db))(fp \<mapsto> (path, q'))\<rparr>\<rparr>)" (is "dir_ok ?db")
proof -
  have "slot_ok ?db k" if "slot_ok db k" for k using that assms by (auto simp: slot_ok_def)
  then show ?thesis using assms(1) by (auto simp: dir_ok_def cache_ok_def io_ok_def)
qed

lemma stream_seek_ok:
  assumes "dir_ok db" "streams (db_io db) fp = Some (path, q)" "files (db_io db) path = Some bs"
  shows "dir_ok (db\<lparr>db_io := (db_io db)\<lparr>streams := (streams (db_io db))(fp \<mapsto> (path, q'))\<rparr>\<rparr>)"
proof -
  have "(files (db_io db))(path \<mapsto> bs) = files (db_io db)" using assms(3) by auto
  then show ?thesis using stream_move_ok [OF assms(1,2), where bs = bs and q' = q'] assms(3) by simp
qed

lemma fdb_file_read_ok:
  assumes ok: "dir_ok db" and a: "a < db_max_size db"
    and bs: "files (db_io db) (sec_path db (a div db_sec_size db)) = Some bs"
  obtains db' where "fdb_file_read db a buf n = Some
      (let got = take n (drop (a mod db_sec_size db) bs) in
        (if n \<noteq> 0 \<and> length got = n then FDB_NO_ERR else FDB_READ_ERR, got @ drop (length got) buf, db'))"
    "dir_ok db'" "io_frame db db'" "files (db_io db') = files (db_io db)"
proof -
  from bs have "files (db_io db) (sec_path db (a div db_sec_size db)) \<noteq> None" by simp
  from open_existing [OF ok a this] obtain fp q db1 where
    op: "open_db_file db a False = Some (fp, db1)" "fp \<noteq> 0" "dir_ok db1" "io_frame db db1"
      "files (db_io db1) = files (db_io db)"
      "streams (db_io db1) fp = Some (sec_path db (a div db_sec_size db), q)" .
  note fr = io_frameD [OF op(4)] io_frame_geometry [OF op(4)]
  let ?o = "a mod db_sec_size db"
  let ?db' = "db1\<lparr>db_io := (db_io db1)\<lparr>streams := (streams (db_io db1))
      (fp \<mapsto> (sec_path db (a div db_sec_size db), ?o + length (take n (drop ?o bs))))\<rparr>\<rparr>"
  have "dir_ok ?db'" using op(3,6) bs op(5) by (intro stream_seek_ok) auto
  moreover have "io_frame db ?db'" by (rule io_frame_trans [OF op(4)]) simp
  ultimately show thesis using op bs
    by (intro that [of ?db']) (simp_all add: fdb_file_read_def fseek_set_def fread_def fr Let_def)
qed

lemma fdb_file_write_ok:
  assumes ok: "dir_ok db" and a: "a < db_max_size db"
    and bs: "files (db_io db) (sec_path db (a div db_sec_size db)) = Some bs" and ne: "data \<noteq> []"
  obtains db' where "fdb_file_write db a data sync = Some (FDB_NO_ERR, db')"
    "dir_ok db'" "io_frame db db'"
    "files (db_io db') = (files (db_io db))
       (sec_path db (a div db_sec_size db) \<mapsto> splice bs (a mod db_sec_size db) data)"
proof -
  from bs have "files (db_io db) (sec_path db (a div db_sec_size db)) \<noteq> None" by simp
  from open_existing [OF ok a this] obtain fp q db1 where
    op: "open_db_file db a False = Some (fp, db1)" "fp \<noteq> 0" "dir_ok db1" "io_frame db db1"
      "files (db_io db1) = files (db_io db)"
      "streams (db_io db1) fp = Some (sec_path db (a div db_sec_size db), q)" .
  note fr = io_frameD [OF op(4)] io_frame_geometry [OF op(4)]
  have nf: "faults (db_io db1) = []" using op(3) by (simp add: dir_ok_def io_ok_def)
  let ?o = "a mod db_sec_size db"
  let ?p = "sec_path db (a div db_sec_size db)"
  let ?db' = "db1\<lparr>db_io := (db_io db1)\<lparr>files := (files (db_io db1))(?p \<mapsto> splice bs ?o data),
      streams := (streams (db_io db1))(fp \<mapsto> (?p, ?o + length data))\<rparr>\<rparr>"
  have "dir_ok ?db'" using op(3,6) bs op(5) by (intro stream_move_ok) auto
  moreover have "io_frame db ?db'" by (rule io_frame_trans [OF op(4)]) simp
  moreover have "fdb_file_write db a data sync = Some (FDB_NO_ERR, ?db')"
    using op bs ne nf by (simp add: fdb_file_write_def fseek_set_def fwrite_def fr)
  ultimately show thesis using op(5) by (intro that [of ?db']) simp_all
qed

lemma fwrite_block:
  assumes "streams io fp = Some (path, pos)" "files io path = Some bs" "faults io = []" "data \<noteq> []"
  shows "fwrite io fp data = Some (1, io\<lparr>files := (files io)(path \<mapsto> splice bs pos data),
           streams := (streams io)(fp \<mapsto> (path, pos + length data))\<rparr>)"
  using assms by (cases io) (simp add: fwrite_def)

lemma erase_loop_ok:
  assumes "streams io fp = Some (path, i * BUF_SIZE)" "files io path = Some (replicate (i * BUF_SIZE) 0xFF)"
    and "faults io = []" "i * BUF_SIZE \<le> n" "BUF_SIZE dvd n"
  shows "fdb_file_erase_loop io fp n i = Some (n div BUF_SIZE,
           io\<lparr>files := (files io)(path \<mapsto> replicate n 0xFF), streams := (streams io)(fp \<mapsto> (path, n))\<rparr>)"
  using assms
proof (induction io fp n i rule: fdb_file_erase_loop.induct)
  case (1 io fp n i)
  show ?case
  proof (cases "i * BUF_SIZE < n")
    case False
    with "1.prems"(4) have n: "n = i * BUF_SIZE" by simp
    have "(files io)(path \<mapsto> replicate n 0xFF) = files io" "(streams io)(fp \<mapsto> (path, n)) = streams io"
      using "1.prems"(1,2) n by auto
    then have "io\<lparr>files := (files io)(path \<mapsto> replicate n 0xFF), streams := (streams io)(fp \<mapsto> (path, n))\<rparr> = io"
      by (cases io) simp
    with False n show ?thesis by (subst fdb_file_erase_loop.simps) (simp add: BUF_SIZE_def)
  next
    case True
    let ?io = "io\<lparr>files := (files io)(path \<mapsto> replicate (Suc i * BUF_SIZE) 0xFF),
                  streams := (streams io)(fp \<mapsto> (path, Suc i * BUF_SIZE))\<rparr>"
    have block: "splice (replicate (i * BUF_SIZE) 0xFF) (i * BUF_SIZE) (replicate BUF_SIZE (0xFF :: byte))
        = replicate (Suc i * BUF_SIZE) 0xFF"
      by (simp add: splice_def add.commute flip: replicate_add)
    have w: "fwrite io fp (replicate BUF_SIZE 0xFF) = Some (1, ?io)"
      using fwrite_block [OF "1.prems"(1,2,3), of "replicate BUF_SIZE 0xFF"]
      by (simp add: block add.commute) (simp add: BUF_SIZE_def)
    have "Suc i * BUF_SIZE \<le> n"
    proof -
      from "1.prems"(5) obtain q where q: "n = BUF_SIZE * q" by (elim dvdE)
      with True have "i < q" by (simp add: BUF_SIZE_def)
      with q show ?thesis by (simp add: BUF_SIZE_def)
    qed
    then have "fdb_file_erase_loop ?io fp n (Suc i) = Some (n div BUF_SIZE,
        ?io\<lparr>files := (files ?io)(path \<mapsto> replicate n 0xFF), streams := (streams ?io)(fp \<mapsto> (path, n))\<rparr>)"
      using "1.prems" by (intro "1.IH" [OF True w refl]) simp_all
    with True w show ?thesis by (subst fdb_file_erase_loop.simps) simp
  qed
qed

lemma fdb_file_erase_ok:
  assumes ok: "dir_ok db" and a: "a < db_max_size db" and n: "BUF_SIZE dvd n" "n < 2 ^ 64"
  obtains db' where "fdb_file_erase db a n = Some (FDB_NO_ERR, db')" "dir_ok db'" "io_frame db db'"
    "files (db_io db') = (files (db_io db))(sec_path db (a div db_sec_size db) \<mapsto> replicate n 0xFF)"
proof -
  let ?p = "sec_path db (a div db_sec_size db)"
  obtain fp q db1 where op: "open_db_file db a True = Some (fp, db1)" "fp \<noteq> 0" "dir_ok db1"
    "io_frame db db1" "files (db_io db1) = (files (db_io db))(?p \<mapsto> [])"
    "streams (db_io db1) fp = Some (?p, q)" by (rule open_clean [OF ok a])
  have nf: "faults (db_io db1) = []" using op(3) by (simp add: dir_ok_def io_ok_def)
  let ?io0 = "(db_io db1)\<lparr>streams := (streams (db_io db1))(fp \<mapsto> (?p, 0))\<rparr>"
  let ?db' = "db1\<lparr>db_io := (db_io db1)\<lparr>files := (files (db_io db1))(?p \<mapsto> replicate n 0xFF),
      streams := (streams (db_io db1))(fp \<mapsto> (?p, n))\<rparr>\<rparr>"
  have loop: "fdb_file_erase_loop ?io0 fp n 0 = Some (n div BUF_SIZE, db_io ?db')"
    using erase_loop_ok [of ?io0 fp ?p 0 n] op nf n by simp
  have "sub64 n (n div BUF_SIZE * BUF_SIZE) = 0" using n by simp
  moreover have "fwrite (db_io ?db') fp [] = Some (0, db_io ?db')" by (simp add: fwrite_def)
  ultimately have eq: "fdb_file_erase db a n = Some (FDB_NO_ERR, ?db')"
    using op loop by (simp add: fdb_file_erase_def fseek_set_def)
  have "dir_ok ?db'" using op(3,5,6) by (intro stream_move_ok) auto
  moreover have "io_frame db ?db'" by (rule io_frame_trans [OF op(4)]) simp
  ultimately show thesis using eq op(5) by (intro that [of ?db']) simp_all
qed

section \<open>The address space\<close>

lemma fl_cong:
  assumes "io_frame db db'" "files (db_io db') = files (db_io db)"
  shows "fl db' = fl db"
  using io_frameD [OF assms(1)] io_frame_geometry [OF assms(1)] assms(2)
  by (simp add: fl_def fun_eq_iff split: option.split)

lemma file_okD:
  assumes "file_ok db"
  shows "dir_ok db" "geometry_ok db" "0 < db_sec_size db" "db_sec_size db dvd db_max_size db"
    "db_max_size db < 2 ^ 32" "db_file_mode db" "32 dvd db_sec_size db"
  using assms by (simp_all add: file_ok_def dir_ok_def geometry_ok_def)

lemma file_ok_same_files:
  "file_ok db \<Longrightarrow> dir_ok db' \<Longrightarrow> io_frame db db' \<Longrightarrow> files (db_io db') = files (db_io db) \<Longrightarrow> file_ok db'"
  by (simp add: file_ok_def files_ok_def io_frameD io_frame_geometry)

lemma file_of:
  assumes "file_ok db" "a < db_max_size db"
  obtains bs where "files (db_io db) (sec_path db (a div db_sec_size db)) = Some bs"
    "length bs = db_sec_size db"
  using assms(1) sector_index(1) [OF file_okD(2) [OF assms(1)] assms(2)]
  by (auto simp: file_ok_def files_ok_def)

lemma div_in_sector:
  fixes a i s :: nat
  assumes "0 < s" "a mod s + i < s"
  shows "(a + i) div s = a div s \<and> (a + i) mod s = a mod s + i"
proof -
  have "a + i = a div s * s + (a mod s + i)" by (simp flip: add.assoc)
  with assms show ?thesis by (metis div_mult_self3 add.commute add_0 div_less less_not_refl mod_less mod_mult_self3)
qed

lemma in_sector_less:
  fixes a i s m :: nat
  assumes "s dvd m" "a < m" "0 < s" "a mod s + i < s"
  shows "a + i < m"
proof -
  from assms(1) obtain q where m: "m = s * q" by (elim dvdE)
  have "(a + i) div s = a div s" using div_in_sector [OF assms(3,4)] by simp
  also have "a div s < q" using assms(2) m by (simp add: less_mult_imp_div_less mult.commute)
  finally show ?thesis using m assms(3) by (metis div_less_iff_less_mult mult.commute)
qed

lemma fl_in_sector:
  assumes ok: "file_ok db" and a: "a < db_max_size db"
    and bs: "files (db_io db) (sec_path db (a div db_sec_size db)) = Some bs" "length bs = db_sec_size db"
    and i: "a mod db_sec_size db + i < db_sec_size db"
  shows "fl db (a + i) = bs ! (a mod db_sec_size db + i)"
  using div_in_sector [OF file_okD(3) [OF ok] i] in_sector_less [OF file_okD(4) [OF ok] a file_okD(3) [OF ok] i] bs i
  by (simp add: fl_def)

lemma fl_read:
  assumes ok: "file_ok db" and a: "a < db_max_size db"
  obtains db' where "fdb_flash_read db a buf n = Some
      (if n \<noteq> 0 \<and> a mod db_sec_size db + n \<le> db_sec_size db then FDB_NO_ERR else FDB_READ_ERR,
       rd (fl db) a (min n (db_sec_size db - a mod db_sec_size db))
         @ drop (min n (db_sec_size db - a mod db_sec_size db)) buf, db')"
    "file_ok db'" "io_frame db db'" "fl db' = fl db"
proof -
  let ?s = "db_sec_size db" and ?o = "a mod db_sec_size db"
  obtain bs where bs: "files (db_io db) (sec_path db (a div ?s)) = Some bs" "length bs = ?s"
    by (rule file_of [OF ok a])
  have o: "?o < ?s" using file_okD(3) [OF ok] by simp
  have got: "take n (drop ?o bs) = rd (fl db) a (min n (?s - ?o))"
  proof (rule sym, rule rd_eqI)
    show "length (take n (drop ?o bs)) = min n (?s - ?o)" using bs by (simp add: min.commute)
    show "fl db (a + i) = take n (drop ?o bs) ! i" if "i < min n (?s - ?o)" for i
      using that bs by (subst fl_in_sector [OF ok a bs]) auto
  qed
  obtain db' where r: "fdb_file_read db a buf n = Some
      (let got = take n (drop ?o bs) in
        (if n \<noteq> 0 \<and> length got = n then FDB_NO_ERR else FDB_READ_ERR, got @ drop (length got) buf, db'))"
    "dir_ok db'" "io_frame db db'" "files (db_io db') = files (db_io db)"
    by (rule fdb_file_read_ok [OF file_okD(1) [OF ok] a bs(1)])
  have "min n (?s - ?o) = n \<longleftrightarrow> ?o + n \<le> ?s" using o by (auto simp: min_def)
  with r got show thesis using file_okD(6) [OF ok]
    by (intro that [of db'])
       (auto simp: fdb_flash_read_def Let_def intro: file_ok_same_files [OF ok] fl_cong)
qed

text \<open>Replacing one file: what it means for the address space.\<close>

lemma fl_replace_file:
  assumes ok: "file_ok db" and a: "a < db_max_size db" and bs: "length bs = db_sec_size db"
    and d: "dir_ok db'" "io_frame db db'"
    and f: "files (db_io db') = (files (db_io db))(sec_path db (a div db_sec_size db) \<mapsto> bs)"
  shows "file_ok db'"
    and "fl db' x = (if x div db_sec_size db = a div db_sec_size db then bs ! (x mod db_sec_size db)
                     else fl db x)"
proof -
  note fr = io_frameD [OF d(2)] io_frame_geometry [OF d(2)]
  note geo = file_okD(2) [OF ok]
  have pos: "0 < db_sec_size db" by (rule file_okD(3) [OF ok])
  show "file_ok db'" using ok d(1) f bs by (auto simp: file_ok_def files_ok_def fr)
  show "fl db' x = (if x div db_sec_size db = a div db_sec_size db then bs ! (x mod db_sec_size db)
                     else fl db x)"
  proof (cases "x < db_max_size db")
    case True
    have "sec_path db (x div db_sec_size db) = sec_path db (a div db_sec_size db)
        \<longleftrightarrow> x div db_sec_size db = a div db_sec_size db"
      by (intro sec_path_inj sector_index(2) [OF geo] True a)
    with True show ?thesis using f bs pos by (simp add: fl_def fr split: option.split)
  next
    case False
    have "x div db_sec_size db \<noteq> a div db_sec_size db"
    proof
      assume eq: "x div db_sec_size db = a div db_sec_size db"
      from sector_index(1) [OF geo a] eq have "x div db_sec_size db < db_max_size db div db_sec_size db"
        by (simp add: sec_num_def)
      with False show False by (meson div_le_mono leD not_le_imp_less)
    qed
    with False show ?thesis by (simp add: fl_def fr split: option.split)
  qed
qed

lemma fl_write:
  assumes ok: "file_ok db" and a: "a < db_max_size db"
    and data: "data \<noteq> []" "a mod db_sec_size db + length data \<le> db_sec_size db"
  obtains db' where "fdb_flash_write db a data sync = Some (FDB_NO_ERR, db')"
    "file_ok db'" "io_frame db db'" "fl db' = wr (fl db) a data"
proof -
  let ?s = "db_sec_size db" and ?o = "a mod db_sec_size db"
  obtain bs where bs: "files (db_io db) (sec_path db (a div ?s)) = Some bs" "length bs = ?s"
    by (rule file_of [OF ok a])
  obtain db' where w: "fdb_file_write db a data sync = Some (FDB_NO_ERR, db')" "dir_ok db'" "io_frame db db'"
    "files (db_io db') = (files (db_io db))(sec_path db (a div ?s) \<mapsto> splice bs ?o data)"
    by (rule fdb_file_write_ok [OF file_okD(1) [OF ok] a bs(1) data(1)])
  have pos: "0 < ?s" by (rule file_okD(3) [OF ok])
  have "length (splice bs ?o data) = ?s" using bs data by (simp add: length_splice)
  note rep = fl_replace_file [OF ok a this w(2,3,4)]
  have "fl db' x = wr (fl db) a data x" for x
  proof (cases "x div ?s = a div ?s")
    case True
    have x: "x = a div ?s * ?s + x mod ?s" and aa: "a = a div ?s * ?s + ?o" using True by (metis div_mult_mod_eq)+
    have m: "x mod ?s < ?s" using pos by simp
    have "fl db x = bs ! (x mod ?s)"
    proof -
      have "x < db_max_size db"
        using True sector_index(1) [OF file_okD(2) [OF ok] a] pos file_okD(4) [OF ok]
        by (metis div_less_iff_less_mult dvd_div_mult_self sec_num_def)
      then show ?thesis using bs True m by (simp add: fl_def)
    qed
    moreover have "a \<le> x \<longleftrightarrow> ?o \<le> x mod ?s" "x < a + length data \<longleftrightarrow> x mod ?s < ?o + length data"
      "x - a = x mod ?s - ?o" using x aa by linarith+
    ultimately show ?thesis using rep(2) [of x] True m bs data
      by (auto simp: nth_splice wr_def)
  next
    case False
    have "x < a \<or> a + length data \<le> x"
    proof (rule ccontr)
      assume "\<not> (x < a \<or> a + length data \<le> x)"
      then have "a mod ?s + (x - a) < ?s" "x = a + (x - a)" using data by auto
      with div_in_sector [OF pos this(1)] False show False by simp
    qed
    then show ?thesis using rep(2) [of x] False by (simp add: wr_out)
  qed
  then show thesis using w rep(1) file_okD(6) [OF ok]
    by (intro that [of db']) (simp_all add: fdb_flash_write_def fun_eq_iff)
qed

lemma fl_erase:
  assumes ok: "file_ok db" and a: "a < db_max_size db" "a mod db_sec_size db = 0"
  obtains db' where "fdb_flash_erase db a (db_sec_size db) = Some (FDB_NO_ERR, db')"
    "file_ok db'" "io_frame db db'" "fl db' = wr (fl db) a (replicate (db_sec_size db) FDB_BYTE_ERASED)"
proof -
  let ?s = "db_sec_size db"
  have pos: "0 < ?s" and "?s < 2 ^ 64"
    using file_okD(3-5) [OF ok] a by (auto dest: dvd_imp_le)
  then obtain db' where e: "fdb_file_erase db a ?s = Some (FDB_NO_ERR, db')" "dir_ok db'" "io_frame db db'"
    "files (db_io db') = (files (db_io db))(sec_path db (a div ?s) \<mapsto> replicate ?s 0xFF)"
    using fdb_file_erase_ok [OF file_okD(1) [OF ok] a(1)] file_okD(7) [OF ok] unfolding BUF_SIZE_def by metis
  note rep = fl_replace_file [OF ok a(1) _ e(2,3,4)]
  have "fl db' x = wr (fl db) a (replicate ?s FDB_BYTE_ERASED) x" for x
  proof -
    have aa: "a = a div ?s * ?s" using a(2) by (metis add.right_neutral div_mult_mod_eq)
    then have "x div ?s = a div ?s \<longleftrightarrow> a \<le> x \<and> x < a + ?s"
      using pos by (metis div_mult_mod_eq le_add1 mod_less_divisor nat_add_left_cancel_less
          add.commute div_le_mono div_less_iff_less_mult mult_Suc le_antisym less_Suc_eq_le
          nonzero_mult_div_cancel_right less_numeral_extra(3))
    then show ?thesis using rep(2) [of x] pos by (auto simp: wr_def FDB_BYTE_ERASED_def)
  qed
  then show thesis using e rep(1) file_okD(6) [OF ok]
    by (intro that [of db']) (simp_all add: fdb_flash_erase_def fun_eq_iff)
qed

end
