(* ===== verification/FlashSpec.thy ===== *)
theory FlashSpec
  imports FileSpec
begin

text \<open>
  The contract the storage gives the databases, as a locale that the file mode interprets, and
  what follows for the operations of \<open>fdb_utils.c\<close> on top of it: status tables on storage,
  aligned writes and the search for the erased tail of a range. A sequence of storage operations
  refines the same sequence on an array of bytes.
\<close>

section \<open>The interface of the storage\<close>

locale flash_store =
  fixes ok :: "'db \<Rightarrow> bool"
    and view :: "'db \<Rightarrow> addr \<Rightarrow> byte"
    and same :: "'db \<Rightarrow> 'db \<Rightarrow> bool"
    and sec :: "'db \<Rightarrow> nat"
    and top :: "'db \<Rightarrow> nat"
    and rd_op :: "'db \<Rightarrow> addr \<Rightarrow> byte list \<Rightarrow> nat \<Rightarrow> (fdb_err_t \<times> byte list \<times> 'db) option"
    and wr_op :: "'db \<Rightarrow> addr \<Rightarrow> byte list \<Rightarrow> bool \<Rightarrow> (fdb_err_t \<times> 'db) option"
    and er_op :: "'db \<Rightarrow> addr \<Rightarrow> nat \<Rightarrow> (fdb_err_t \<times> 'db) option"
  assumes read_law: "ok db \<Longrightarrow> a < top db \<Longrightarrow> 0 < n \<Longrightarrow> a mod sec db + n \<le> sec db \<Longrightarrow>
      \<exists>db'. rd_op db a buf n = Some (FDB_NO_ERR, rd (view db) a n @ drop n buf, db')
        \<and> ok db' \<and> same db db' \<and> view db' = view db"
    and write_law: "ok db \<Longrightarrow> a < top db \<Longrightarrow> data \<noteq> [] \<Longrightarrow> a mod sec db + length data \<le> sec db \<Longrightarrow>
      \<exists>db'. wr_op db a data sync = Some (FDB_NO_ERR, db') \<and> ok db' \<and> same db db'
        \<and> view db' = wr (view db) a data"
    and erase_law: "ok db \<Longrightarrow> a < top db \<Longrightarrow> a mod sec db = 0 \<Longrightarrow>
      \<exists>db'. er_op db a (sec db) = Some (FDB_NO_ERR, db') \<and> ok db' \<and> same db db'
        \<and> view db' = wr (view db) a (replicate (sec db) FDB_BYTE_ERASED)"
    and same_trans: "same db1 db2 \<Longrightarrow> same db2 db3 \<Longrightarrow> same db1 db3"
    and same_geometry: "same db db' \<Longrightarrow> sec db' = sec db \<and> top db' = top db"
begin

lemma write_read:
  assumes "ok db" "a < top db" "data \<noteq> []" "a mod sec db + length data \<le> sec db"
    and "b < top db" "0 < n" "b mod sec db + n \<le> sec db"
  shows "\<exists>db1 db2. wr_op db a data sync = Some (FDB_NO_ERR, db1)
      \<and> rd_op db1 b buf n = Some (FDB_NO_ERR, rd (wr (view db) a data) b n @ drop n buf, db2)
      \<and> ok db2 \<and> same db db2 \<and> view db2 = wr (view db) a data"
proof -
  obtain db1 where 1: "wr_op db a data sync = Some (FDB_NO_ERR, db1)" "ok db1" "same db db1"
    "view db1 = wr (view db) a data" using write_law [OF assms(1-4)] by blast
  obtain db2 where "rd_op db1 b buf n = Some (FDB_NO_ERR, rd (view db1) b n @ drop n buf, db2)" "ok db2"
    "same db1 db2" "view db2 = view db1"
    using read_law [OF 1(2), of b n buf] assms(5-7) same_geometry [OF 1(3)] by auto
  with 1 same_trans show ?thesis by (intro exI [of _ db1] exI [of _ db2]) auto
qed

lemma erase_read:
  assumes "ok db" "a < top db" "a mod sec db = 0" "b < top db" "0 < n" "b mod sec db + n \<le> sec db"
  shows "\<exists>db1 db2. er_op db a (sec db) = Some (FDB_NO_ERR, db1)
      \<and> rd_op db1 b buf n = Some (FDB_NO_ERR,
           rd (wr (view db) a (replicate (sec db) FDB_BYTE_ERASED)) b n @ drop n buf, db2)
      \<and> ok db2 \<and> same db db2"
proof -
  obtain db1 where 1: "er_op db a (sec db) = Some (FDB_NO_ERR, db1)" "ok db1" "same db db1"
    "view db1 = wr (view db) a (replicate (sec db) FDB_BYTE_ERASED)" using erase_law [OF assms(1-3)] by blast
  obtain db2 where "rd_op db1 b buf n = Some (FDB_NO_ERR, rd (view db1) b n @ drop n buf, db2)" "ok db2"
    "same db1 db2" "view db2 = view db1"
    using read_law [OF 1(2), of b n buf] assms(4-6) same_geometry [OF 1(3)] by auto
  with 1 same_trans show ?thesis by (intro exI [of _ db1] exI [of _ db2]) auto
qed

end

interpretation file_store: flash_store file_ok fl io_frame db_sec_size db_max_size
    fdb_flash_read fdb_flash_write fdb_flash_erase
proof
  fix db :: "'a fdb_db_scheme" and a n :: nat and buf data :: "byte list" and sync :: bool
  show "\<exists>db'. fdb_flash_read db a buf n = Some (FDB_NO_ERR, rd (fl db) a n @ drop n buf, db')
        \<and> file_ok db' \<and> io_frame db db' \<and> fl db' = fl db"
    if ok: "file_ok db" "a < db_max_size db" and n: "0 < n" "a mod db_sec_size db + n \<le> db_sec_size db"
  proof -
    obtain db' where "fdb_flash_read db a buf n = Some
      (if n \<noteq> 0 \<and> a mod db_sec_size db + n \<le> db_sec_size db then FDB_NO_ERR else FDB_READ_ERR,
       rd (fl db) a (min n (db_sec_size db - a mod db_sec_size db))
         @ drop (min n (db_sec_size db - a mod db_sec_size db)) buf, db')"
      "file_ok db'" "io_frame db db'" "fl db' = fl db" by (rule fl_read [OF ok])
    moreover have "min n (db_sec_size db - a mod db_sec_size db) = n" using n by auto
    ultimately show ?thesis using n by auto
  qed
  show "\<exists>db'. fdb_flash_write db a data sync = Some (FDB_NO_ERR, db') \<and> file_ok db' \<and> io_frame db db'
        \<and> fl db' = wr (fl db) a data"
    if "file_ok db" "a < db_max_size db" "data \<noteq> []" "a mod db_sec_size db + length data \<le> db_sec_size db"
    using fl_write [OF that] by metis
  show "\<exists>db'. fdb_flash_erase db a (db_sec_size db) = Some (FDB_NO_ERR, db') \<and> file_ok db' \<and> io_frame db db'
        \<and> fl db' = wr (fl db) a (replicate (db_sec_size db) FDB_BYTE_ERASED)"
    if "file_ok db" "a < db_max_size db" "a mod db_sec_size db = 0"
    using fl_erase [OF that] by metis
qed (auto intro: io_frame_trans simp: io_frameD)

section \<open>Status tables on storage\<close>

definition status_byte :: "nat \<Rightarrow> byte" where
  "status_byte i = drop_bit i 0xFF"

lemma mod_le_sector: "0 < s \<Longrightarrow> a mod s + 1 \<le> s" for a s :: nat
  using mod_less_divisor [of s a] by linarith

lemma fl_write_status:
  assumes ok: "file_ok db" "a < db_max_size db" and i: "0 < i" "i < num" "num \<le> 8"
  obtains db' where "fdb_write_status db a num i sync = Some (FDB_NO_ERR, db')"
    "file_ok db'" "io_frame db db'" "fl db' = wr (fl db) a [status_byte i]"
proof -
  have t: "fdb_set_status 1 num i = (Some 0, [status_byte i])"
    using set_status_bit [of i num] i by (auto simp: fdb_set_status_def status_byte_def Let_def)
  have a: "u32 a = a" using ok(2) file_okD(5) [OF ok(1)] by simp
  have "fdb_write_status db a num i sync = fdb_flash_write db a [status_byte i] sync"
    using i by (simp add: fdb_write_status_def t a FDB_WRITE_GRAN_def)
  moreover obtain db' where "fdb_flash_write db a [status_byte i] sync = Some (FDB_NO_ERR, db')"
    "file_ok db'" "io_frame db db'" "fl db' = wr (fl db) a [status_byte i]"
    by (rule fl_write [OF ok]) (use mod_le_sector [OF file_okD(3) [OF ok(1)], of a] in auto)
  ultimately show thesis by (intro that) simp_all
qed

lemma fl_read_status:
  assumes ok: "file_ok db" "a < db_max_size db" and num: "0 < num" "num \<le> 8" and t: "length t = 1"
  obtains db' where "fdb_read_status db a t num = Some (fdb_get_status 1 [fl db a] num, db')"
    "file_ok db'" "io_frame db db'" "fl db' = fl db"
proof -
  have n: "FDB_STATUS_TABLE_SIZE FDB_WRITE_GRAN num = 1"
    using num by (simp add: FDB_STATUS_TABLE_SIZE_def FDB_WRITE_GRAN_def)
  obtain db' where "fdb_flash_read db a t 1 = Some (FDB_NO_ERR, rd (fl db) a 1 @ drop 1 t, db')"
    "file_ok db'" "io_frame db db'" "fl db' = fl db"
    using file_store.read_law [OF ok, of 1 t] mod_le_sector [OF file_okD(3) [OF ok(1)]] by auto
  then show thesis using t n
    by (intro that [of db']) (simp_all add: fdb_read_status_def FDB_WRITE_GRAN_def)
qed

lemma get_status_byte:
  "i < num \<Longrightarrow> num \<le> 8 \<Longrightarrow> fdb_get_status 1 [status_byte i] num = i"
  using status_cell.dec_enc [OF status_cell_bit, of num i] set_status_bit [of i num]
  by (simp add: status_byte_def)

lemma fl_write_align:
  assumes ok: "file_ok db" and data: "data \<noteq> [] \<Longrightarrow> a < db_max_size db"
    "a mod db_sec_size db + length data \<le> db_sec_size db"
  obtains db' where "fdb_flash_write_align db a data = Some (FDB_NO_ERR, db')"
    "file_ok db'" "io_frame db db'" "fl db' = wr (fl db) a data"
proof (cases "data = []")
  case True
  then show thesis using ok by (intro that [of db]) (simp_all add: fdb_flash_write_align_def)
next
  case False
  then obtain db' where w: "fdb_flash_write db a data False = Some (FDB_NO_ERR, db')"
    "file_ok db'" "io_frame db db'" "fl db' = wr (fl db) a data"
    using fl_write [OF ok data(1) _ data(2)] by metis
  with False show thesis by (intro that [of db']) (simp_all add: fdb_flash_write_align_def)
qed


section \<open>The erased tail\<close>

text \<open>\<open>r\<close> is where the erased tail of \<open>[s, e)\<close> starts: all bytes from \<open>r\<close> on are erased and the one
  before is not; \<open>e\<close> itself when the last byte is not erased.\<close>

definition erased_tail :: "(addr \<Rightarrow> byte) \<Rightarrow> addr \<Rightarrow> addr \<Rightarrow> addr \<Rightarrow> bool" where
  "erased_tail f s e r \<longleftrightarrow> s \<le> r \<and> r \<le> e \<and> (\<forall>x. r \<le> x \<and> x < e \<longrightarrow> f x = FDB_BYTE_ERASED)
     \<and> (r = s \<or> f (r - 1) \<noteq> FDB_BYTE_ERASED)"

lemma erased_tail_unique:
  assumes "erased_tail f s e r" "erased_tail f s e r'" shows "r = r'"
proof (rule ccontr)
  assume ne: "r \<noteq> r'"
  have "False" if "u < v" "erased_tail f s e u" "erased_tail f s e v" for u v
  proof -
    from that have "u \<le> v - 1" "v - 1 < e" "v \<noteq> s" by (auto simp: erased_tail_def)
    with that(2) have "f (v - 1) = FDB_BYTE_ERASED" by (simp add: erased_tail_def)
    note this \<open>v \<noteq> s\<close>
    with that(3) show False by (auto simp: erased_tail_def)
  qed
  with ne assms show False by (meson linorder_neqE_nat)
qed

text \<open>What the two loop variables mean after the bytes up to \<open>k\<close> have been seen.\<close>

definition ff_inv :: "(addr \<Rightarrow> byte) \<Rightarrow> addr \<Rightarrow> addr \<Rightarrow> addr \<Rightarrow> byte \<Rightarrow> bool" where
  "ff_inv f s k addr lst \<longleftrightarrow> s \<le> k \<and> lst = (if k = s then FDB_BYTE_WRITTEN else f (k - 1))
     \<and> (lst = FDB_BYTE_ERASED \<longrightarrow> addr < k \<and> erased_tail f s k addr)"

lemma ff_scan_inv:
  assumes "ff_inv f s k addr lst"
  shows "case ff_scan (rd f k n) k addr lst of (addr', lst') \<Rightarrow> ff_inv f s (k + n) addr' lst'"
  using assms
proof (induction n arbitrary: k addr lst)
  case 0
  then show ?case by simp
next
  case (Suc n)
  have r: "rd f k (Suc n) = f k # rd f (Suc k) n" by (simp add: rd_def upt_rec)
  let ?addr = "if lst \<noteq> FDB_BYTE_ERASED \<and> f k = FDB_BYTE_ERASED then k else addr"
  have "ff_inv f s (Suc k) ?addr (f k)"
    using Suc.prems by (auto simp: ff_inv_def erased_tail_def less_Suc_eq FDB_BYTE_ERASED_def
        FDB_BYTE_WRITTEN_def split: if_splits)
  from Suc.IH [OF this] show ?case by (simp add: r split: prod.splits)
qed

lemma continue_ff_loop_ok:
  assumes "file_ok db" "k \<le> e" "e \<le> db_max_size db" "s \<le> k" "k < e \<Longrightarrow> k mod db_sec_size db + (e - k) \<le> db_sec_size db"
    and "length buf = 32" "ff_inv (fl db) s k addr lst"
  shows "\<exists>addr' lst' db'. continue_ff_loop db k e buf addr lst = Some (addr', lst', db')
     \<and> ff_inv (fl db) s e addr' lst' \<and> file_ok db' \<and> io_frame db db' \<and> fl db' = fl db"
  using assms
proof (induction "e - k" arbitrary: db k buf addr lst rule: less_induct)
  case less
  show ?case
  proof (cases "k < e")
    case False
    with less.prems have "k = e" by simp
    then show ?thesis using less.prems by (subst continue_ff_loop.simps) simp
  next
    case True
    define n where "n = (if k + 32 < e then 32 else e - k)"
    have n: "0 < n" "n \<le> 32" "k + n \<le> e" "n < 32 \<Longrightarrow> k + n = e" using True by (auto simp: n_def)
    have k: "k < db_max_size db" using True less.prems(3) by simp
    have "k mod db_sec_size db + n \<le> db_sec_size db" using less.prems(5) True n by linarith
    then obtain db1 where r: "fdb_flash_read db k buf n = Some (FDB_NO_ERR, rd (fl db) k n @ drop n buf, db1)"
      "file_ok db1" "io_frame db db1" "fl db1 = fl db"
      using file_store.read_law [OF less.prems(1) k n(1)] by blast
    note fr = io_frameD [OF r(3)]
    obtain addr1 lst1 where sc: "ff_scan (rd (fl db) k n) k addr lst = (addr1, lst1)" by fastforce
    have inv1: "ff_inv (fl db) s (k + n) addr1 lst1"
      using ff_scan_inv [OF less.prems(7), of n] sc by simp
    have u: "u32 (k + 32) = k + 32"
    proof -
      have "32 dvd db_max_size db" using file_okD(4,7) [OF less.prems(1)] dvd_trans by blast
      then have "db_max_size db + 32 \<le> 2 ^ 32" using file_okD(5) [OF less.prems(1)] by (auto elim!: dvdE)
      with k show ?thesis by (intro u32_id) linarith
    qed
    have step: "continue_ff_loop db k e buf addr lst
        = continue_ff_loop db1 (k + 32) e (rd (fl db) k n @ drop n buf) addr1 lst1"
      using True r(1) sc by (subst continue_ff_loop.simps) (simp add: n_def u Let_def)
    show ?thesis
    proof (cases "k + 32 < e")
      case c: True
      then have n32: "n = 32" by (simp add: n_def)
      have s: "(k + 32) mod db_sec_size db = k mod db_sec_size db + 32"
        using div_in_sector [OF file_okD(3) [OF less.prems(1)], of k 32] less.prems(5) True c by simp
      have "\<exists>addr' lst' db'. continue_ff_loop db1 (k + 32) e (rd (fl db) k n @ drop n buf) addr1 lst1
            = Some (addr', lst', db')
          \<and> ff_inv (fl db1) s e addr' lst' \<and> file_ok db' \<and> io_frame db1 db' \<and> fl db' = fl db1"
        using less.prems c True inv1 n32 s r(2)
        by (intro less.hyps) (auto simp: fr r(4))
      then show ?thesis using step r(4) io_frame_trans [OF r(3)] by metis
    next
      case c: False
      then have "k + n = e" using n True by (auto simp: n_def)
      moreover have "continue_ff_loop db1 (k + 32) e (rd (fl db) k n @ drop n buf) addr1 lst1
          = Some (addr1, lst1, db1)"
        using c by (subst continue_ff_loop.simps) simp
      ultimately show ?thesis using step inv1 r by metis
    qed
  qed
qed

lemma continue_ff_ok:
  assumes ok: "file_ok db" and se: "s \<le> e" "e \<le> db_max_size db"
    and sec: "s < e \<Longrightarrow> s mod db_sec_size db + (e - s) \<le> db_sec_size db"
  obtains r db' where "fdb_continue_ff_addr db s e = Some (r, db')" "erased_tail (fl db) s e r"
    "file_ok db'" "io_frame db db'" "fl db' = fl db"
proof -
  have "ff_inv (fl db) s s s FDB_BYTE_WRITTEN"
    by (simp add: ff_inv_def FDB_BYTE_WRITTEN_def FDB_BYTE_ERASED_def)
  with continue_ff_loop_ok [OF ok se(1,2), of s "uninit (db_io db) 32" s FDB_BYTE_WRITTEN] sec obtain addr lst db' where
    l: "continue_ff_loop db s e (uninit (db_io db) 32) s FDB_BYTE_WRITTEN = Some (addr, lst, db')"
      "ff_inv (fl db) s e addr lst" "file_ok db'" "io_frame db db'" "fl db' = fl db" by auto
  have "e < 2 ^ 32" using se(2) file_okD(5) [OF ok] by simp
  then have "fdb_continue_ff_addr db s e = Some (if lst = FDB_BYTE_ERASED then addr else e, db')"
    using l(1,2) by (auto simp: fdb_continue_ff_addr_def ff_inv_def)
  moreover have "erased_tail (fl db) s e (if lst = FDB_BYTE_ERASED then addr else e)"
    using l(2) by (auto simp: ff_inv_def erased_tail_def FDB_BYTE_ERASED_def FDB_BYTE_WRITTEN_def split: if_splits)
  ultimately show thesis using l(3-5) by (rule that)
qed

section \<open>Sequences of operations\<close>

datatype storage_op = Op_read addr nat | Op_write addr "byte list" bool | Op_erase addr

text \<open>The operation on the database, on an array of bytes, and when it stays inside a sector.\<close>

fun storage_exec :: "'a fdb_db_scheme \<Rightarrow> storage_op \<Rightarrow> 'a fdb_db_scheme option" where
  "storage_exec db (Op_read a n) =
     do { (r, buf, db) \<leftarrow> fdb_flash_read db a (replicate n 0) n; if r = FDB_NO_ERR then Some db else None }"
| "storage_exec db (Op_write a data sync) =
     do { (r, db) \<leftarrow> fdb_flash_write db a data sync; if r = FDB_NO_ERR then Some db else None }"
| "storage_exec db (Op_erase a) =
     do { (r, db) \<leftarrow> fdb_flash_erase db a (db_sec_size db); if r = FDB_NO_ERR then Some db else None }"

fun storage_effect :: "nat \<Rightarrow> (addr \<Rightarrow> byte) \<Rightarrow> storage_op \<Rightarrow> addr \<Rightarrow> byte" where
  "storage_effect s f (Op_read a n) = f"
| "storage_effect s f (Op_write a data sync) = wr f a data"
| "storage_effect s f (Op_erase a) = wr f a (replicate s FDB_BYTE_ERASED)"

fun storage_valid :: "nat \<Rightarrow> nat \<Rightarrow> storage_op \<Rightarrow> bool" where
  "storage_valid s m (Op_read a n) \<longleftrightarrow> a < m \<and> 0 < n \<and> a mod s + n \<le> s"
| "storage_valid s m (Op_write a data sync) \<longleftrightarrow> a < m \<and> data \<noteq> [] \<and> a mod s + length data \<le> s"
| "storage_valid s m (Op_erase a) \<longleftrightarrow> a < m \<and> a mod s = 0"

fun storage_run :: "'a fdb_db_scheme \<Rightarrow> storage_op list \<Rightarrow> 'a fdb_db_scheme option" where
  "storage_run db [] = Some db"
| "storage_run db (w # ws) = do { db \<leftarrow> storage_exec db w; storage_run db ws }"

lemma storage_exec_ok:
  assumes "file_ok db" "storage_valid (db_sec_size db) (db_max_size db) w"
  obtains db' where "storage_exec db w = Some db'" "file_ok db'" "io_frame db db'"
    "fl db' = storage_effect (db_sec_size db) (fl db) w"
proof (cases w)
  case (Op_read a n)
  then show thesis using file_store.read_law [OF assms(1), of a n "replicate n 0"] assms(2) by (auto intro: that)
next
  case (Op_write a data sync)
  then show thesis using file_store.write_law [OF assms(1), of a data sync] assms(2) by (auto intro: that)
next
  case (Op_erase a)
  then show thesis using file_store.erase_law [OF assms(1), of a] assms(2) by (auto intro: that)
qed

text \<open>A database with two sectors of 64 bytes on an erased directory, for the witnesses.\<close>

definition demo_io :: libc where
  "demo_io = \<lparr>files = (\<lambda>_. Some (replicate 64 0xFF)), creatable = (\<lambda>_. True), streams = (\<lambda>_. None),
              next_stream = 1, faults = [], junk = (\<lambda>_. 0)\<rparr>"

definition demo_db :: fdb_db where
  "demo_db = \<lparr>db_name = ''demo'', db_type = FDB_DB_TYPE_KV, db_dir = ''d'', db_sec_size = 64,
     db_max_size = 128, db_oldest_addr = 0, db_init_ok = True, db_file_mode = True,
     db_not_formatable = False, db_cur_file_sec = [FDB_FAILED_ADDR, FDB_FAILED_ADDR],
     db_cur_file = [0, 0], db_cur_sec = 0, db_lock_fn = False, db_unlock_fn = False, db_lock_cnt = 0,
     db_user_data = 0, db_io = demo_io\<rparr>"

lemma demo_ok: "file_ok demo_db"
  by (simp add: file_ok_def dir_ok_def geometry_ok_def cache_ok_def slot_ok_def io_ok_def files_ok_def
      sec_num_def demo_db_def demo_io_def DB_PATH_MAX_def)


section \<open>Properties\<close>

text \<open>
  C26: in a directory that is in order, every sequence of reads, writes and erases that stay inside
  their sectors runs through without an error, keeps the directory and the stream cache in order (no
  closed stream is ever used, because that would have no result), changes nothing else of the
  database, and leaves exactly the bytes that the same operations leave on an array.
\<close>

theorem storage_refines_array:
  assumes "file_ok db" "list_all (storage_valid (db_sec_size db) (db_max_size db)) ws"
  shows "\<exists>db'. storage_run db ws = Some db' \<and> file_ok db' \<and> io_frame db db'
     \<and> fl db' = foldl (storage_effect (db_sec_size db)) (fl db) ws"
  using assms
proof (induction ws arbitrary: db)
  case Nil
  then show ?case by simp
next
  case (Cons w ws)
  from Cons.prems have "storage_valid (db_sec_size db) (db_max_size db) w" by simp
  from storage_exec_ok [OF Cons.prems(1) this] obtain db1 where 1: "storage_exec db w = Some db1" "file_ok db1"
    "io_frame db db1" "fl db1 = storage_effect (db_sec_size db) (fl db) w" .
  note fr = io_frameD [OF 1(3)]
  from Cons.IH [OF 1(2)] Cons.prems(2) obtain db' where "storage_run db1 ws = Some db'" "file_ok db'"
    "io_frame db1 db'" "fl db' = foldl (storage_effect (db_sec_size db)) (fl db1) ws" by (auto simp: fr)
  with 1 io_frame_trans [OF 1(3)] show ?case by auto
qed

theorem storage_refines_array_witness:
  "\<exists>db'. storage_run demo_db [Op_write 70 [1, 2] True, Op_read 64 16, Op_erase 0] = Some db' \<and> file_ok db'
     \<and> io_frame demo_db db' \<and> fl db' = foldl (storage_effect (db_sec_size demo_db)) (fl demo_db)
          [Op_write 70 [1, 2] True, Op_read 64 16, Op_erase 0]"
  by (rule storage_refines_array [OF demo_ok]) (simp add: demo_db_def)

text \<open>
  C27: what was written is what a later read returns, at any address of the same or another sector:
  the written bytes where the ranges overlap and the old ones elsewhere.
\<close>

theorem storage_read_after_write:
  assumes "file_ok db" "a < db_max_size db" "data \<noteq> []" "a mod db_sec_size db + length data \<le> db_sec_size db"
    and "b < db_max_size db" "0 < n" "b mod db_sec_size db + n \<le> db_sec_size db"
  shows "\<exists>db1 db2. fdb_flash_write db a data sync = Some (FDB_NO_ERR, db1)
     \<and> fdb_flash_read db1 b buf n = Some (FDB_NO_ERR, rd (wr (fl db) a data) b n @ drop n buf, db2)
     \<and> file_ok db2 \<and> io_frame db db2 \<and> fl db2 = wr (fl db) a data"
  by (rule file_store.write_read [OF assms])

theorem storage_read_after_write_witness:
  "\<exists>db1 db2. fdb_flash_write demo_db 3 [7, 8] True = Some (FDB_NO_ERR, db1)
     \<and> fdb_flash_read db1 2 [] 4 = Some (FDB_NO_ERR, rd (wr (fl demo_db) 3 [7, 8]) 2 4 @ drop 4 [], db2)
     \<and> file_ok db2 \<and> io_frame demo_db db2 \<and> fl db2 = wr (fl demo_db) 3 [7, 8]"
  by (rule storage_read_after_write [OF demo_ok]) (simp_all add: demo_db_def)

text \<open>
  C28: the search for the erased tail of a range inside one sector ends and returns the one address
  from which on all bytes are erased, before which one is not (or the start, or the end).
\<close>

theorem continue_ff_finds_erased_tail:
  assumes "file_ok db" "s \<le> e" "e \<le> db_max_size db"
    and "s < e \<Longrightarrow> s mod db_sec_size db + (e - s) \<le> db_sec_size db"
  shows "\<exists>!r. erased_tail (fl db) s e r \<and> (\<exists>db'. fdb_continue_ff_addr db s e = Some (r, db')
     \<and> file_ok db' \<and> io_frame db db' \<and> fl db' = fl db)"
proof -
  obtain r db' where "fdb_continue_ff_addr db s e = Some (r, db')" "erased_tail (fl db) s e r"
    "file_ok db'" "io_frame db db'" "fl db' = fl db" by (rule continue_ff_ok [OF assms])
  then show ?thesis using erased_tail_unique by blast
qed

theorem continue_ff_finds_erased_tail_witness:
  "\<exists>!r. erased_tail (fl demo_db) 10 64 r \<and> (\<exists>db'. fdb_continue_ff_addr demo_db 10 64 = Some (r, db')
     \<and> file_ok db' \<and> io_frame demo_db db' \<and> fl db' = fl demo_db)"
  by (rule continue_ff_finds_erased_tail [OF demo_ok]) (simp_all add: demo_db_def)

text \<open>
  C29: two addresses are kept in the same file exactly when they are in the same sector.
\<close>

theorem sector_files_distinct:
  assumes "geometry_ok db" "a < db_max_size db" "b < db_max_size db"
  shows "get_db_file_path db a DB_PATH_MAX = get_db_file_path db b DB_PATH_MAX
     \<longleftrightarrow> a div db_sec_size db = b div db_sec_size db"
  using assms sec_path_inj [OF sector_index(2) [OF assms(1,2)] sector_index(2) [OF assms(1,3)]]
  by (simp add: get_db_file_path_eq)

theorem sector_files_distinct_witness:
  "get_db_file_path demo_db 63 DB_PATH_MAX = get_db_file_path demo_db 64 DB_PATH_MAX
     \<longleftrightarrow> 63 div db_sec_size demo_db = 64 div db_sec_size demo_db"
  by (rule sector_files_distinct [OF file_okD(2) [OF demo_ok]]) (simp_all add: demo_db_def)



lemma fwrite_returns:
  assumes "streams io fp = Some (path, pos)" "files io path \<noteq> None" "data \<noteq> []"
  shows "\<exists>c io' pos'. fwrite io fp data = Some (c, io') \<and> streams io' fp = Some (path, pos')
           \<and> files io' path \<noteq> None"
  using assms by (auto simp: fwrite_def Let_def split: prod.split)

lemma erase_loop_returns:
  assumes "streams io fp = Some (path, pos)" "files io path \<noteq> None"
  shows "\<exists>io'. fdb_file_erase_loop io fp n i = Some (max i ((n + 31) div 32), io')"
  using assms
proof (induction io fp n i arbitrary: pos rule: fdb_file_erase_loop.induct)
  case (1 io fp n i)
  show ?case
  proof (cases "i * BUF_SIZE < n")
    case True
    obtain c io' where w: "fwrite io fp (replicate BUF_SIZE 0xFF) = Some (c, io')"
        "\<exists>pos. streams io' fp = Some (path, pos)" "files io' path \<noteq> None"
      using fwrite_returns [OF "1.prems", of "replicate BUF_SIZE 0xFF"] by (auto simp: BUF_SIZE_def)
    have "max (Suc i) ((n + 31) div 32) = max i ((n + 31) div 32)"
      using True by (simp add: BUF_SIZE_def max_def) linarith
    then show ?thesis using "1.IH" [OF True w(1) refl] w True
      by (subst fdb_file_erase_loop.simps) auto
  next
    case False
    then have "max i ((n + 31) div 32) = i" by (simp add: BUF_SIZE_def max_def) linarith
    then show ?thesis using False by (subst fdb_file_erase_loop.simps) simp
  qed
qed

text \<open>
  C31: erasing a sector whose size is no multiple of the block of 32 bytes has no defined result: the
  length of the last write wraps around and it reads past the block. The initialisation accepts the
  sector sizes 1, 2, 4, 8 and 16, for which this happens.
\<close>

theorem erase_partial_block_undefined:
  assumes "dir_ok db" "a < db_max_size db" "n mod BUF_SIZE \<noteq> 0" "n < 2 ^ 32"
  shows "fdb_file_erase db a n = None"
proof -
  let ?p = "sec_path db (a div db_sec_size db)"
  obtain fp q db1 where op: "open_db_file db a True = Some (fp, db1)" "fp \<noteq> 0"
    "files (db_io db1) = (files (db_io db))(?p \<mapsto> [])" "streams (db_io db1) fp = Some (?p, q)"
    by (rule open_clean [OF assms(1,2)])
  let ?io0 = "(db_io db1)\<lparr>streams := (streams (db_io db1))(fp \<mapsto> (?p, 0))\<rparr>"
  obtain io' where loop: "fdb_file_erase_loop ?io0 fp n 0 = Some ((n + 31) div 32, io')"
    using erase_loop_returns [of ?io0 fp ?p 0 n 0] op by auto
  have "n < (n + 31) div 32 * 32"
  proof -
    obtain q r where n: "n = 32 * q + r" "r < 32" "0 < r"
      using assms(3) mod_less_divisor [of 32 n]
      by (metis BUF_SIZE_def gr0I mult_div_mod_eq zero_less_numeral)
    then have "(n + 31) div 32 = Suc q" by (intro div_nat_eqI) auto
    with n show ?thesis by simp
  qed
  moreover have "(n + 31) div 32 * 32 \<le> n + 31" by simp
  ultimately have "\<not> sub64 n ((n + 31) div 32 * BUF_SIZE) \<le> BUF_SIZE"
    by (simp add: sub64_def BUF_SIZE_def)
  then show ?thesis using op loop by (simp add: fdb_file_erase_def fseek_set_def)
qed

theorem erase_partial_block_undefined_witness: "fdb_file_erase demo_db 0 16 = None"
  by (rule erase_partial_block_undefined [OF file_okD(1) [OF demo_ok]])
     (simp_all add: demo_db_def BUF_SIZE_def)

end
