(* ===== verification/KvFrame.thy ===== *)
theory KvFrame
  imports KvInit FlashSpec
begin

text \<open>
  What no operation of the databases changes: the name, the geometry, the options and the lock
  counter (\<open>meta\<close>), and for a database that is not in file mode the files and streams as well. Each operation has a rule for \<open>yields\<close> in the collection \<open>wp_rules\<close>; the rules of
  the iterators are proved for every callback that keeps \<open>meta\<close>, which is the contract of the locales
  \<open>node_visitor\<close> and \<open>sector_visitor\<close>, interpreted on the callbacks of the program. The public
  functions therefore release the lock exactly as often as they take it.
\<close>

section \<open>A database for the witnesses\<close>

text \<open>A key-value database with four sectors of 4096 bytes on an erased directory, caches cleared.\<close>

definition demo_kv :: fdb_kv where
  "demo_kv = \<lparr>kv_status = FDB_KV_UNUSED, kv_crc_is_ok = False, kv_name_len = 0, kv_len = 0,
     kv_value_len = 0, kv_name = replicate 64 0, kv_addr_start = 0, kv_addr_value = 0\<rparr>"

definition demo_sector :: kvdb_sec_info where
  "demo_sector = \<lparr>sec_check_ok = False, sec_store = FDB_SECTOR_STORE_UNUSED, sec_dirty = FDB_SECTOR_DIRTY_UNUSED,
     sec_addr = FDB_DATA_UNUSED, sec_magic = 0, sec_combined = 0, sec_remain = 0, sec_empty_kv = FAILED_ADDR\<rparr>"

definition demo_kvdb :: fdb_kvdb where
  "demo_kvdb = \<lparr>db_name = ''demo'', db_type = FDB_DB_TYPE_KV, db_dir = ''d'', db_sec_size = 4096,
     db_max_size = 16384, db_oldest_addr = 0, db_init_ok = True, db_file_mode = True,
     db_not_formatable = False, db_cur_file_sec = [FDB_FAILED_ADDR, FDB_FAILED_ADDR],
     db_cur_file = [0, 0], db_cur_sec = 0, db_lock_fn = True, db_unlock_fn = True, db_lock_cnt = 0,
     db_user_data = 0, db_io = demo_io\<lparr>files := (\<lambda>_. Some (replicate 4096 0xFF))\<rparr>,
     kvdb_default_kvs = [], kvdb_gc_request = False, kvdb_in_recovery_check = False,
     kvdb_cur_kv = demo_kv, kvdb_cur_sector = demo_sector, kvdb_last_is_complete_del = False,
     kvdb_kv_cache_table = replicate 64 \<lparr>kc_name_crc = 0, kc_active = 0, kc_addr = FDB_DATA_UNUSED\<rparr>,
     kvdb_sector_cache_table = replicate 8 demo_sector,
     kvdb_stack_kv = demo_kv, kvdb_stack_sector = demo_sector\<rparr>"

lemma demo_kvdb_ok: "file_ok demo_kvdb"
  by (simp add: file_ok_def dir_ok_def geometry_ok_def cache_ok_def slot_ok_def io_ok_def files_ok_def
      sec_num_def demo_kvdb_def demo_io_def DB_PATH_MAX_def)

section \<open>The configuration of a database\<close>

definition conf :: "'a fdb_db_scheme \<Rightarrow> _" where
  "conf db = (db_name db, db_type db, db_dir db, db_sec_size db, db_max_size db, db_init_ok db,
     db_file_mode db, db_not_formatable db, (db_lock_fn db, db_unlock_fn db, db_lock_cnt db), db_user_data db)"

text \<open>A database that is not in file mode has no storage in this build: its streams stay as they are, too.\<close>

definition meta :: "'a fdb_db_scheme \<Rightarrow> _" where
  "meta db = (db_name db, db_type db, db_dir db, db_sec_size db, db_max_size db, db_init_ok db,
     db_file_mode db, db_not_formatable db, (db_lock_fn db, db_unlock_fn db, db_lock_cnt db), db_user_data db,
     if db_file_mode db then None else Some (db_io db, db_cur_file db))"

lemma conf_updates [simp]:
  "conf (db\<lparr>db_cur_file := a\<rparr>) = conf db" "conf (db\<lparr>db_cur_file_sec := b\<rparr>) = conf db"
  "conf (db\<lparr>db_cur_sec := c\<rparr>) = conf db" "conf (db\<lparr>db_io := d\<rparr>) = conf db"
  by (simp_all add: conf_def)

lemma meta_updates [simp]:
  "meta (db\<lparr>db_cur_file_sec := b\<rparr>) = meta db" "meta (db\<lparr>db_cur_sec := c\<rparr>) = meta db"
  "meta (db\<lparr>db_oldest_addr := e\<rparr>) = meta db"
  by (simp_all add: meta_def)

lemma meta_conf: "db_file_mode db \<Longrightarrow> meta db' = meta db \<longleftrightarrow> conf db' = conf db"
  by (auto simp: meta_def conf_def)

lemma libc_yields [wp_rules]:
  "(\<And>r. Q1 r) \<Longrightarrow> yields (fclose io fp) Q1" "(\<And>r. Q1 r) \<Longrightarrow> yields (fseek_set io fp off) Q1"
  "(\<And>c b io'. Q2 (c, b, io')) \<Longrightarrow> yields (fread io fp buf n) Q2"
  "(\<And>c io'. Q3 (c, io')) \<Longrightarrow> yields (fwrite io fp data) Q3"
  "(\<And>c io'. Q3 (c, io')) \<Longrightarrow> yields (fdb_file_erase_loop io fp n i) Q3"
  "(\<And>p. Q4 p) \<Longrightarrow> yields (get_db_file_path db a n) Q4"
  by (auto intro: yields_pure)

lemma shift_conf: "yields (update_file_cache_shift db n) (\<lambda>db'. conf db' = conf db)"
proof (induction n arbitrary: db)
  case (Suc n)
  have "yields (update_file_cache_shift db' n) (\<lambda>r. conf r = conf db)" if "conf db' = conf db" for db' :: "'a fdb_db_scheme"
    using Suc.IH [of db'] that by simp
  then show ?case by (auto intro!: libc_yields)
qed simp

lemma update_file_cache_conf [wp_rules]:
  "(\<And>db'. conf db' = conf db \<Longrightarrow> Q db') \<Longrightarrow> yields (update_file_cache db a fd) Q"
  by (auto simp: update_file_cache_def intro!: yields_mono [OF shift_conf] split: sum.split)

lemma open_conf [wp_rules]:
  "(\<And>fp db'. conf db' = conf db \<Longrightarrow> Q (fp, db')) \<Longrightarrow> yields (open_db_file db a clean) Q"
  by (auto simp: open_db_file_def Let_def intro!: wp_rules split: prod.split)

lemma read_meta [wp_rules]:
  "(\<And>r buf' db'. meta db' = meta db \<Longrightarrow> Q (r, buf', db')) \<Longrightarrow> yields (fdb_flash_read db a buf n) Q"
  by (auto simp: fdb_flash_read_def fdb_file_read_def meta_conf intro!: wp_rules)

lemma write_meta [wp_rules]:
  "(\<And>r db'. meta db' = meta db \<Longrightarrow> Q (r, db')) \<Longrightarrow> yields (fdb_flash_write db a data sync) Q"
  by (auto simp: fdb_flash_write_def fdb_file_write_def meta_conf intro!: wp_rules)

lemma erase_meta [wp_rules]:
  "(\<And>r db'. meta db' = meta db \<Longrightarrow> Q (r, db')) \<Longrightarrow> yields (fdb_flash_erase db a n) Q"
  by (auto simp: fdb_flash_erase_def fdb_file_erase_def meta_conf intro!: wp_rules)

lemma write_status_meta [wp_rules]:
  "(\<And>r db'. meta db' = meta db \<Longrightarrow> Q (r, db')) \<Longrightarrow> yields (fdb_write_status db a num i sync) Q"
  by (auto simp: fdb_write_status_def intro!: wp_rules split: prod.split option.split)

lemma read_status_meta [wp_rules]:
  "(\<And>r db'. meta db' = meta db \<Longrightarrow> Q (r, db')) \<Longrightarrow> yields (fdb_read_status db a t num) Q"
  by (auto simp: fdb_read_status_def intro!: wp_rules)

lemma write_align_meta [wp_rules]:
  "(\<And>r db'. meta db' = meta db \<Longrightarrow> Q (r, db')) \<Longrightarrow> yields (fdb_flash_write_align db a data) Q"
  by (auto simp: fdb_flash_write_align_def Let_def intro!: wp_rules)

lemma continue_ff_loop_meta:
  assumes "continue_ff_loop db s e buf addr l = Some r"
  shows "meta (snd (snd r)) = meta db"
  apply (rule continue_ff_loop.raw_induct [where P = "\<lambda>db s e buf addr l r. meta (snd (snd r)) = meta db", OF _ assms])
  subgoal premises p for f db s e buf addr l r
  proof -
    have IH: "yields (f db s e buf addr l) (\<lambda>r. meta (snd (snd r)) = meta db)" for db s e buf addr l
      by (rule yieldsI) (erule p(1))
    show ?thesis
      by (rule yieldsD [OF p(2)]) (auto simp: Let_def intro!: wp_rules yields_mono [OF IH] split: prod.split)
  qed
  done

lemma continue_ff_loop_wp [wp_rules]:
  "(\<And>r. meta (snd (snd r)) = meta db \<Longrightarrow> Q r) \<Longrightarrow> yields (continue_ff_loop db s e buf addr l) Q"
  by (rule yields_rec) (erule continue_ff_loop_meta)

lemma continue_ff_meta [wp_rules]:
  "(\<And>a db'. meta db' = meta db \<Longrightarrow> Q (a, db')) \<Longrightarrow> yields (fdb_continue_ff_addr db s e) Q"
  by (auto simp: fdb_continue_ff_addr_def intro!: wp_rules)


section \<open>The key-value database\<close>

lemma kv_meta_updates [simp]:
  "meta (db\<lparr>kvdb_gc_request := a\<rparr>) = meta db" "meta (db\<lparr>kvdb_in_recovery_check := b\<rparr>) = meta db"
  "meta (db\<lparr>kvdb_cur_kv := c\<rparr>) = meta db" "meta (db\<lparr>kvdb_cur_sector := d\<rparr>) = meta db"
  "meta (db\<lparr>kvdb_last_is_complete_del := b\<rparr>) = meta db" "meta (db\<lparr>kvdb_default_kvs := k\<rparr>) = meta db"
  "meta (db\<lparr>kvdb_kv_cache_table := e\<rparr>) = meta db" "meta (db\<lparr>kvdb_sector_cache_table := g\<rparr>) = meta db"
  by (simp_all add: meta_def)

lemma cache_meta [simp]:
  "meta (update_sector_cache db sec) = meta db" "meta (update_sector_empty_addr_cache db a e) = meta db"
  "meta (update_sector_status_store_cache db a st) = meta db" "meta (update_kv_cache db name a) = meta db"
  by (simp_all add: update_sector_cache_def update_sector_empty_addr_cache_def
      update_sector_status_store_cache_def update_kv_cache_def Let_def
      split: sum.split option.split prod.split)

lemma get_kv_from_cache_loop_wp:
  "yields (get_kv_from_cache_loop db name i) (\<lambda>r. meta (snd r) = meta db)"
proof (induction "FDB_KV_CACHE_TABLE_SIZE - i" arbitrary: db i)
  case 0
  then show ?case by (subst get_kv_from_cache_loop.simps) simp
next
  case (Suc n)
  then have IH: "yields (get_kv_from_cache_loop db name (Suc i)) (\<lambda>r. meta (snd r) = meta db)" for db
    by (intro Suc.hyps) simp
  show ?case
    by (subst get_kv_from_cache_loop.simps) (auto simp: Let_def intro!: wp_rules yields_mono [OF IH])
qed

lemma get_kv_from_cache_meta [wp_rules]:
  "(\<And>a db'. meta db' = meta db \<Longrightarrow> Q (a, db')) \<Longrightarrow> yields (get_kv_from_cache db name) Q"
  by (auto simp: get_kv_from_cache_def intro!: yields_mono [OF get_kv_from_cache_loop_wp])

lemma find_next_kv_loop_meta:
  assumes "find_next_kv_loop db buf s b e = Some r"
  shows "meta (snd r) = meta db"
  apply (rule find_next_kv_loop.raw_induct [where P = "\<lambda>db buf s b e r. meta (snd r) = meta db", OF _ assms])
  subgoal premises p for f db buf s b e r
  proof -
    have IH: "yields (f db buf s b e) (\<lambda>r. meta (snd r) = meta db)" for db buf s b e
      by (rule yieldsI) (erule p(1))
    show ?thesis
      by (rule yieldsD [OF p(2)]) (auto simp: Let_def intro!: wp_rules yields_mono [OF IH] split: option.split)
  qed
  done

lemma find_next_kv_loop_wp [wp_rules]:
  "(\<And>r. meta (snd r) = meta db \<Longrightarrow> Q r) \<Longrightarrow> yields (find_next_kv_loop db buf s b e) Q"
  by (rule yields_rec) (erule find_next_kv_loop_meta)

lemma get_next_kv_meta [wp_rules]:
  "(\<And>a db'. meta db' = meta db \<Longrightarrow> Q (a, db')) \<Longrightarrow> yields (get_next_kv_addr db sector kv) Q"
  by (auto simp: get_next_kv_addr_def find_next_kv_addr_def intro!: wp_rules split: option.split)

lemma read_kv_crc_meta:
  assumes "read_kv_crc db buf base n k crc = Some r"
  shows "meta (snd r) = meta db"
  apply (rule read_kv_crc.raw_induct [where P = "\<lambda>db buf base n k crc r. meta (snd r) = meta db", OF _ assms])
  subgoal premises p for f db buf base n k crc r
  proof -
    have IH: "yields (f db buf base n k crc) (\<lambda>r. meta (snd r) = meta db)" for db buf base n k crc
      by (rule yieldsI) (erule p(1))
    show ?thesis
      by (rule yieldsD [OF p(2)]) (auto simp: Let_def intro!: wp_rules yields_mono [OF IH])
  qed
  done

lemma read_kv_crc_wp [wp_rules]:
  "(\<And>r. meta (snd r) = meta db \<Longrightarrow> Q r) \<Longrightarrow> yields (read_kv_crc db buf base n k crc) Q"
  by (rule yields_rec) (erule read_kv_crc_meta)

lemma read_kv_meta [wp_rules]:
  "(\<And>r kv' db'. meta db' = meta db \<Longrightarrow> Q (r, kv', db')) \<Longrightarrow> yields (read_kv db kv) Q"
  by (auto simp: read_kv_def Let_def intro!: wp_rules)

lemma kv_read_sector_loop_meta:
  assumes "kv_read_sector_loop db sector kv = Some r"
  shows "meta (snd (snd r)) = meta db"
  apply (rule kv_read_sector_loop.raw_induct [where P = "\<lambda>db sector kv r. meta (snd (snd r)) = meta db", OF _ assms])
  subgoal premises p for f db sector kv r
  proof -
    have IH: "yields (f db sector kv) (\<lambda>r. meta (snd (snd r)) = meta db)" for db sector kv
      by (rule yieldsI) (erule p(1))
    show ?thesis
      by (rule yieldsD [OF p(2)]) (auto simp: Let_def intro!: wp_rules yields_mono [OF IH])
  qed
  done

lemma kv_read_sector_loop_wp [wp_rules]:
  "(\<And>r. meta (snd (snd r)) = meta db \<Longrightarrow> Q r) \<Longrightarrow> yields (kv_read_sector_loop db sector kv) Q"
  by (rule yields_rec) (erule kv_read_sector_loop_meta)

lemma traverse_meta [wp_rules]:
  "(\<And>r sec' db'. meta db' = meta db \<Longrightarrow> Q (r, sec', db')) \<Longrightarrow> yields (kv_read_sector_traverse db sector) Q"
  by (auto simp: kv_read_sector_traverse_def Let_def intro!: wp_rules)

lemma sector_info_meta [wp_rules]:
  "(\<And>r sec' db'. meta db' = meta db \<Longrightarrow> Q (r, sec', db')) \<Longrightarrow> yields (kv_read_sector_info db a sector t) Q"
  by (auto simp: kv_read_sector_info_def Let_def intro!: wp_rules split: option.split)


section \<open>Iterators over callbacks that keep the configuration\<close>

locale node_visitor =
  fixes cb :: "'x kv_callback"
  assumes visit: "yields (cb kv x db) (\<lambda>r. meta (snd (snd r)) = meta db)"
begin

lemma kv_iterator_sector_keeps:
  assumes "kv_iterator_sector db sector kv x c = Some r"
  shows "c = cb \<longrightarrow> meta (snd (snd (snd r))) = meta db"
  apply (rule kv_iterator_sector.raw_induct
      [where P = "\<lambda>db sector kv x c r. c = cb \<longrightarrow> meta (snd (snd (snd r))) = meta db", OF _ assms])
  subgoal premises p for f db sector kv x c r
  proof -
    have IH: "yields (f db sector kv x cb) (\<lambda>r. meta (snd (snd (snd r))) = meta db)" for db sector kv x
      by (rule yieldsI) (erule p(1) [THEN mp, OF _ refl])
    show ?thesis
      by (rule impI, rule yieldsD [OF p(2)])
         (auto simp: Let_def intro!: wp_rules yields_mono [OF IH] yields_mono [OF visit])
  qed
  done

lemma kv_iterator_sector_wp:
  "(\<And>r. meta (snd (snd (snd r))) = meta db \<Longrightarrow> Q r) \<Longrightarrow> yields (kv_iterator_sector db sector kv x cb) Q"
  by (rule yields_rec) (erule kv_iterator_sector_keeps [THEN mp, OF _ refl])

lemma kv_iterator_loop_keeps:
  assumes "kv_iterator_loop db sector a t kv x c = Some r"
  shows "c = (Some cb) \<longrightarrow> meta (snd (snd r)) = meta db"
  apply (rule kv_iterator_loop.raw_induct
      [where P = "\<lambda>db sector a t kv x c r. c = (Some cb) \<longrightarrow> meta (snd (snd r)) = meta db", OF _ assms])
  subgoal premises p for f db sector a t kv x c r
  proof -
    have IH: "yields (f db sector a t kv x (Some cb)) (\<lambda>r. meta (snd (snd r)) = meta db)" for db sector a t kv x
      by (rule yieldsI) (erule p(1) [THEN mp, OF _ refl])
    show ?thesis
      by (rule impI, rule yieldsD [OF p(2)])
         (auto simp: Let_def intro!: wp_rules yields_mono [OF IH] kv_iterator_sector_wp)
  qed
  done

lemma kv_iterator_loop_wp:
  "(\<And>r. meta (snd (snd r)) = meta db \<Longrightarrow> Q r) \<Longrightarrow> yields (kv_iterator_loop db sector a t kv x (Some cb)) Q"
  by (rule yields_rec) (erule kv_iterator_loop_keeps [THEN mp, OF _ refl])

lemma kv_iterator_wp:
  "(\<And>kv' x' db'. meta db' = meta db \<Longrightarrow> Q (kv', x', db')) \<Longrightarrow> yields (kv_iterator db kv x (Some cb)) Q"
  by (auto simp: kv_iterator_def intro!: kv_iterator_loop_wp)

end

locale sector_visitor =
  fixes cb :: "'x sec_callback"
  assumes visit: "yields (cb sector x db) (\<lambda>r. meta (snd (snd r)) = meta db)"
begin

lemma kv_sector_iterator_loop_keeps:
  assumes "kv_sector_iterator_loop db sector a t st x c tk = Some r"
  shows "c = (Some cb) \<longrightarrow> meta (snd (snd r)) = meta db"
  apply (rule kv_sector_iterator_loop.raw_induct
      [where P = "\<lambda>db sector a t st x c tk r. c = (Some cb) \<longrightarrow> meta (snd (snd r)) = meta db", OF _ assms])
  subgoal premises p for f db sector a t st x c tk r
  proof -
    have IH: "yields (f db sector a t st x (Some cb) tk) (\<lambda>r. meta (snd (snd r)) = meta db)" for db sector a t st x tk
      by (rule yieldsI) (erule p(1) [THEN mp, OF _ refl])
    show ?thesis
      by (rule impI, rule yieldsD [OF p(2)])
         (auto simp: Let_def intro!: wp_rules yields_mono [OF IH] yields_mono [OF visit])
  qed
  done

lemma kv_sector_iterator_loop_wp:
  "(\<And>r. meta (snd (snd r)) = meta db \<Longrightarrow> Q r) \<Longrightarrow> yields (kv_sector_iterator_loop db sector a t st x (Some cb) tk) Q"
  by (rule yields_rec) (erule kv_sector_iterator_loop_keeps [THEN mp, OF _ refl])

lemma kv_sector_iterator_wp:
  "(\<And>sec' x' db'. meta db' = meta db \<Longrightarrow> Q (sec', x', db'))
     \<Longrightarrow> yields (kv_sector_iterator db sector st x (Some cb) tk) Q"
  by (auto simp: kv_sector_iterator_def intro!: kv_sector_iterator_loop_wp)

end
end
