(* ===== verification/FlashImage.thy ===== *)
theory FlashImage
  imports FlashSpec FdbInit
begin

text \<open>
  Total-correctness rules of the storage operations over a fixed image: \<open>stored s m f db\<close> says that the
  directory of \<open>db\<close> is in order, with sectors of \<open>s\<close> bytes in \<open>m\<close> bytes, and holds the bytes \<open>f\<close>. The
  rules are collected in \<open>stored_rules\<close>, so that a proof about an operation of a database runs over its
  storage calls by \<open>auto intro!: stored_rules\<close>.
\<close>

named_theorems stored_rules \<open>total-correctness rules over an image of the storage\<close>

definition stored :: "nat \<Rightarrow> nat \<Rightarrow> (addr \<Rightarrow> byte) \<Rightarrow> 'a fdb_db_scheme \<Rightarrow> bool" where
  "stored s m f db \<longleftrightarrow> file_ok db \<and> db_sec_size db = s \<and> db_max_size db = m \<and> fl db = f"

lemma storedI: "file_ok db \<Longrightarrow> stored (db_sec_size db) (db_max_size db) (fl db) db"
  by (simp add: stored_def)

lemma storedD:
  assumes "stored s m f db"
  shows "file_ok db" "fl db = f" "0 < s" "s dvd m" "m < 2 ^ 32" "32 dvd s" "0 < m \<Longrightarrow> 32 \<le> s"
proof -
  show *: "file_ok db" "fl db = f" "0 < s" "s dvd m" "m < 2 ^ 32" "32 dvd s"
    using assms file_okD [of db] by (auto simp: stored_def)
  then show "32 \<le> s" by (auto dest: dvd_imp_le)
qed

lemma stored_frame: "stored s m f db \<Longrightarrow> file_ok db' \<Longrightarrow> io_frame db db' \<Longrightarrow> fl db' = g \<Longrightarrow> stored s m g db'"
  by (simp add: stored_def io_frameD)

lemma stored_geometry [simp]: "stored s m f db \<Longrightarrow> db_sec_size db = s" "stored s m f db \<Longrightarrow> db_max_size db = m"
  by (simp_all add: stored_def)

text \<open>A range of \<open>n\<close> bytes at \<open>a\<close> that does not cross the end of its sector.\<close>

definition in_sector :: "nat \<Rightarrow> nat \<Rightarrow> addr \<Rightarrow> nat \<Rightarrow> bool" where
  "in_sector s m a n \<longleftrightarrow> a < m \<and> a mod s + n \<le> s"

lemma in_sector_sub:
  assumes "in_sector s m a n" "s dvd m" "0 < s" "k + j \<le> n" "k < n \<or> k < s - a mod s"
  shows "in_sector s m (a + k) j"
proof -
  have k: "a mod s + k < s" using assms by (auto simp: in_sector_def)
  then show ?thesis
    using assms div_in_sector [OF assms(3) k] in_sector_less [OF assms(2) _ assms(3) k, of] by (auto simp: in_sector_def)
qed

lemma in_sector_base: "s dvd m \<Longrightarrow> b mod s = 0 \<Longrightarrow> b < m \<Longrightarrow> n \<le> s \<Longrightarrow> in_sector s m b n"
  by (simp add: in_sector_def)

lemma in_sector_at:
  assumes "s dvd m" "b mod s = 0" "b < m" "k + n \<le> s" "k < s"
  shows "in_sector s m (b + k) n"
  using in_sector_sub [OF in_sector_base [OF assms(1-3), of s], of k n] assms by auto

lemma in_sector_end: "in_sector s m a n \<Longrightarrow> s dvd m \<Longrightarrow> 0 < s \<Longrightarrow> a + n \<le> m"
  using in_sector_less [of s m a "n - 1"] by (cases n) (auto simp: in_sector_def)

lemma stored_read [stored_rules]:
  assumes "stored s m f db" "in_sector s m a n"
    and "\<And>r db'. stored s m f db' \<Longrightarrow> io_frame db db' \<Longrightarrow> (0 < n \<Longrightarrow> r = FDB_NO_ERR) \<Longrightarrow> Q (r, rd f a n @ drop n buf, db')"
  shows "holds (fdb_flash_read db a buf n) Q"
proof -
  note i = storedD [OF assms(1)]
  have a: "a < db_max_size db" using assms by (simp add: in_sector_def)
  have "min n (db_sec_size db - a mod db_sec_size db) = n" using assms by (auto simp: in_sector_def)
  moreover have "db_sec_size db = s" using assms by simp
  ultimately show ?thesis
    by (rule_tac fl_read [OF i(1) a, of buf n])
       (use assms i(2) stored_frame [OF assms(1)] in \<open>auto simp: in_sector_def\<close>)
qed

lemma stored_write [stored_rules]:
  assumes "stored s m f db" "in_sector s m a (length data)" "data \<noteq> []"
    and "\<And>db'. stored s m (wr f a data) db' \<Longrightarrow> io_frame db db' \<Longrightarrow> Q (FDB_NO_ERR, db')"
  shows "holds (fdb_flash_write db a data sync) Q"
  by (rule fl_write [OF storedD(1) [OF assms(1)], of a data sync])
     (use assms storedD(2) [OF assms(1)] stored_frame [OF assms(1)] in \<open>auto simp: in_sector_def\<close>)

lemma stored_erase [stored_rules]:
  assumes "stored s m f db" "a < m" "a mod s = 0"
    and "\<And>db'. stored s m (wr f a (replicate s FDB_BYTE_ERASED)) db' \<Longrightarrow> io_frame db db' \<Longrightarrow> Q (FDB_NO_ERR, db')"
  shows "holds (fdb_flash_erase db a s) Q"
  by (rule fl_erase [OF storedD(1) [OF assms(1)], of a])
     (use assms storedD(2) [OF assms(1)] stored_frame [OF assms(1)] in \<open>auto simp: in_sector_def\<close>)

lemma stored_write_status [stored_rules]:
  assumes "stored s m f db" "a < m" "0 < i" "i < num" "num \<le> 8"
    and "\<And>db'. stored s m (wr f a [status_byte i]) db' \<Longrightarrow> io_frame db db' \<Longrightarrow> Q (FDB_NO_ERR, db')"
  shows "holds (fdb_write_status db a num i sync) Q"
  by (rule fl_write_status [OF storedD(1) [OF assms(1)], of a i num sync])
     (use assms storedD(2) [OF assms(1)] stored_frame [OF assms(1)] in \<open>auto simp: in_sector_def\<close>)

lemma stored_read_status [stored_rules]:
  assumes "stored s m f db" "a < m" "0 < num" "num \<le> 8" "length t = 1"
    and "\<And>db'. stored s m f db' \<Longrightarrow> io_frame db db' \<Longrightarrow> Q (fdb_get_status 1 [f a] num, db')"
  shows "holds (fdb_read_status db a t num) Q"
  by (rule fl_read_status [OF storedD(1) [OF assms(1)], of a num t])
     (use assms storedD(2) [OF assms(1)] stored_frame [OF assms(1)] in \<open>auto simp: in_sector_def\<close>)

lemma stored_write_align [stored_rules]:
  assumes "stored s m f db" "data \<noteq> [] \<Longrightarrow> in_sector s m a (length data)"
    and "\<And>db'. stored s m (wr f a data) db' \<Longrightarrow> io_frame db db' \<Longrightarrow> Q (FDB_NO_ERR, db')"
  shows "holds (fdb_flash_write_align db a data) Q"
proof (cases "data = []")
  case True
  then show ?thesis using assms(3) [of db] assms(1) by (simp add: fdb_flash_write_align_def)
next
  case False
  show ?thesis
    by (rule fl_write_align [OF storedD(1) [OF assms(1)], of data a])
     (use False assms storedD(2) [OF assms(1)] stored_frame [OF assms(1)] in \<open>auto simp: in_sector_def\<close>)
qed

lemma stored_continue_ff [stored_rules]:
  assumes "stored s m f db" "b \<le> e" "e \<le> m" "b < e \<Longrightarrow> b mod s + (e - b) \<le> s"
    and "\<And>r db'. erased_tail f b e r \<Longrightarrow> stored s m f db' \<Longrightarrow> io_frame db db' \<Longrightarrow> Q (r, db')"
  shows "holds (fdb_continue_ff_addr db b e) Q"
  by (rule continue_ff_ok [OF storedD(1) [OF assms(1)], of b e])
     (use assms storedD(2) [OF assms(1)] stored_frame [OF assms(1)] in \<open>auto simp: in_sector_def\<close>)

text \<open>Addresses below the end fit into 32 bits; updates of other fields do not touch the storage.\<close>

lemma stored_u32: "stored s m f db \<Longrightarrow> x < m \<Longrightarrow> u32 x = x"
  using storedD(5) by (metis less_trans u32_id)

lemma stored_u32_le: "stored s m f db \<Longrightarrow> x \<le> m \<Longrightarrow> u32 x = x"
  using storedD(5) by (metis le_less_trans u32_id)

lemma stored_top: "stored s m f db \<Longrightarrow> m \<le> 0xFFFFFFE0"
proof -
  assume "stored s m f db"
  note i = storedD [OF this]
  obtain q where "m = 32 * q" using dvd_trans [OF i(6,4)] by (elim dvdE)
  with i(5) show ?thesis by simp
qed

lemma stored_cong:
  assumes "db_name db' = db_name db" "db_dir db' = db_dir db" "db_sec_size db' = db_sec_size db"
    "db_max_size db' = db_max_size db" "db_file_mode db' = db_file_mode db" "db_cur_file_sec db' = db_cur_file_sec db"
    "db_cur_file db' = db_cur_file db" "db_io db' = db_io db"
  shows "stored s m f db' = stored s m f db"
proof -
  have "fl db' = fl db" by (rule ext) (simp add: fl_def sec_path_def assms split: option.split)
  moreover have "file_ok db' = file_ok db"
    by (simp add: file_ok_def dir_ok_def geometry_ok_def cache_ok_def slot_ok_def io_ok_def files_ok_def
        sec_num_def sec_path_def assms)
  ultimately show ?thesis by (simp add: stored_def assms del: stored_geometry)
qed

lemma stored_db_updates [simp]:
  "stored s m f (db_lock db) = stored s m f db" "stored s m f (db_unlock db) = stored s m f db"
  "stored s m f (db\<lparr>db_oldest_addr := a\<rparr>) = stored s m f db"
  "stored s m f (db\<lparr>db_lock_cnt := n\<rparr>) = stored s m f db"
  by (rule stored_cong; simp add: db_lock_def db_unlock_def)+

lemma stored_more: "fdb_db.truncate db' = fdb_db.truncate db \<Longrightarrow> stored s m f db' = stored s m f db"
  by (rule stored_cong; cases db; cases db'; simp add: fdb_db.defs)

end
