(* ===== verification/KvNode.thy ===== *)
theory KvNode
  imports KvFrame FlashImage
begin

text \<open>
  One node of the key-value database on storage. \<open>node_at f a n\<close> says that the bytes of node \<open>n\<close> (its
  status, key and value) are at address \<open>a\<close>; \<open>read_kv\<close> decodes exactly that, and the write path of
  \<open>create_kv_blob\<close> produces it.
\<close>

section \<open>Nodes and their bytes\<close>

record kv_node =
  nd_status :: fdb_kv_status
  nd_key :: "byte list"
  nd_val :: "byte list"

definition node_ok :: "kv_node \<Rightarrow> bool" where
  "node_ok n \<longleftrightarrow> nd_key n \<noteq> [] \<and> length (nd_key n) \<le> FDB_KV_NAME_MAX \<and> c_string (nd_key n)"

definition node_len :: "kv_node \<Rightarrow> nat" where
  "node_len n = KV_HDR_DATA_SIZE + length (nd_key n) + length (nd_val n)"

text \<open>The header of a node with its checksum, as \<open>create_kv_blob\<close> builds it.\<close>

definition node_hdr :: "byte list \<Rightarrow> byte list \<Rightarrow> kv_hdr_data" where
  "node_hdr key v = (let h = kv_hdr_init (length key) (length v)
     in h\<lparr>kh_crc32 := unat (kv_hdr_crc h key v)\<rparr>)"

definition node_at :: "(addr \<Rightarrow> byte) \<Rightarrow> addr \<Rightarrow> kv_node \<Rightarrow> bool" where
  "node_at f a n \<longleftrightarrow> f a = status_byte (kv_status_num (nd_status n))
     \<and> rd f (a + 4) 20 = drop 4 (kv_hdr_bytes (node_hdr (nd_key n) (nd_val n)))
     \<and> rd f (a + 24) (length (nd_key n)) = nd_key n
     \<and> rd f (a + 24 + length (nd_key n)) (length (nd_val n)) = nd_val n"

lemma crc_append: "fdb_calc_crc32 (fdb_calc_crc32 crc xs) ys = fdb_calc_crc32 crc (xs @ ys)"
  by (simp add: fdb_calc_crc32_def xor.assoc)

lemma crc_Nil [simp]: "fdb_calc_crc32 crc [] = crc"
  by (simp add: fdb_calc_crc32_def xor.assoc)

lemma kv_hdr_lengths [simp]:
  "length (kh_status_table (node_hdr key v)) = 1" "length (kh_pad0 (node_hdr key v)) = 3"
  "length (kh_pad1 (node_hdr key v)) = 3"
  by (simp_all add: node_hdr_def kv_hdr_init_def Let_def)

lemma length_node_hdr [simp]: "length (kv_hdr_bytes (node_hdr key v)) = 24"
  by (simp add: kv_hdr_bytes_def)


lemma rd_node_hdr:
  assumes "node_at f a n"
  shows "rd f a 24 = [f a] @ rd f (a + 1) 3 @ drop 4 (kv_hdr_bytes (node_hdr (nd_key n) (nd_val n)))"
proof -
  have "rd f a 24 = rd f a (1 + 3 + 20)" by simp
  also have "\<dots> = [f a] @ rd f (a + 1) 3 @ rd f (a + 4) 20"
    by (simp only: rd_append append_assoc rd_1) (simp add: add.assoc)
  finally show ?thesis using assms by (simp add: node_at_def)
qed

lemma drop4_hdr:
  "drop 4 (kv_hdr_bytes (node_hdr key v)) =
     le32 (kh_magic (node_hdr key v)) @ le32 (kh_len (node_hdr key v)) @ le32 (kh_crc32 (node_hdr key v))
       @ [word_of_nat (kh_name_len (node_hdr key v))] @ kh_pad1 (node_hdr key v) @ le32 (kh_value_len (node_hdr key v))"
  by (simp add: kv_hdr_bytes_def)

lemma node_hdr_fields:
  assumes "length key \<le> 64" "24 + length key + length v < 2 ^ 32"
  shows "kh_magic (node_hdr key v) = KV_MAGIC_WORD" "kh_len (node_hdr key v) = 24 + length key + length v"
    "kh_name_len (node_hdr key v) = length key" "kh_value_len (node_hdr key v) = length v"
    "kh_crc32 (node_hdr key v) < 2 ^ 32"
proof -
  have "length v < 2 ^ 32" using assms(2) by simp
  then show "kh_magic (node_hdr key v) = KV_MAGIC_WORD" "kh_len (node_hdr key v) = 24 + length key + length v"
    "kh_name_len (node_hdr key v) = length key" "kh_value_len (node_hdr key v) = length v"
    using assms by (simp_all add: node_hdr_def kv_hdr_init_def Let_def KV_HDR_DATA_SIZE_def)
  show "kh_crc32 (node_hdr key v) < 2 ^ 32"
    using unsigned_less [of "kv_hdr_crc (kv_hdr_init (length key) (length v)) key v"]
    by (simp add: node_hdr_def Let_def)
qed

lemma decode_node:
  assumes at: "node_at f a n" and ok: "node_ok n" and len: "node_len n < 2 ^ 32"
  shows "kh_status_table (kv_hdr_of (rd f a 24)) = [status_byte (kv_status_num (nd_status n))]"
    "kh_len (kv_hdr_of (rd f a 24)) = node_len n"
    "kh_crc32 (kv_hdr_of (rd f a 24)) = kh_crc32 (node_hdr (nd_key n) (nd_val n))"
    "kh_name_len (kv_hdr_of (rd f a 24)) = length (nd_key n)"
    "kh_value_len (kv_hdr_of (rd f a 24)) = length (nd_val n)"
    "drop 16 (rd f a 24) = drop 16 (kv_hdr_bytes (node_hdr (nd_key n) (nd_val n)))"
proof -
  let ?h = "node_hdr (nd_key n) (nd_val n)"
  have k: "length (nd_key n) \<le> 64" using ok by (simp add: node_ok_def FDB_KV_NAME_MAX_def)
  have l: "24 + length (nd_key n) + length (nd_val n) < 2 ^ 32" using len by (simp add: node_len_def KV_HDR_DATA_SIZE_def)
  note fs = node_hdr_fields [OF k l]
  have v: "length (nd_val n) < 2 ^ 32" using l by simp
  have raw: "rd f a 24 = [f a] @ rd f (a + 1) 3 @ le32 (kh_magic ?h) @ le32 (kh_len ?h) @ le32 (kh_crc32 ?h)
       @ [word_of_nat (kh_name_len ?h)] @ kh_pad1 ?h @ le32 (kh_value_len ?h)"
    unfolding rd_node_hdr [OF at] drop4_hdr by simp
  show "kh_status_table (kv_hdr_of (rd f a 24)) = [status_byte (kv_status_num (nd_status n))]"
    using at by (simp add: kv_hdr_of_def raw node_at_def)
  show "kh_len (kv_hdr_of (rd f a 24)) = node_len n"
    using l by (simp add: kv_hdr_of_def raw fs node_len_def KV_HDR_DATA_SIZE_def)
  show "kh_crc32 (kv_hdr_of (rd f a 24)) = kh_crc32 ?h" using fs(5) by (simp add: kv_hdr_of_def raw)
  show "kh_name_len (kv_hdr_of (rd f a 24)) = length (nd_key n)"
    using k by (simp add: kv_hdr_of_def raw fs nth_append unat_of_nat)
  show "kh_value_len (kv_hdr_of (rd f a 24)) = length (nd_val n)"
    using v by (simp add: kv_hdr_of_def raw fs)
  show "drop 16 (rd f a 24) = drop 16 (kv_hdr_bytes ?h)"
    by (simp add: raw kv_hdr_bytes_def)
qed

lemma node_crc:
  assumes "length key \<le> 64" "24 + length key + length v < 2 ^ 32"
  shows "kv_hdr_crc (kv_hdr_init (length key) (length v)) key v
     = fdb_calc_crc32 0 (drop 16 (kv_hdr_bytes (node_hdr key v)) @ key @ v)"
proof -
  let ?h = "kv_hdr_init (length key) (length v)"
  have v: "length v < 2 ^ 32" using assms(2) by simp
  have d: "drop 16 (kv_hdr_bytes (node_hdr key v)) = drop 16 (kv_hdr_bytes ?h)"
    by (simp add: kv_hdr_bytes_def node_hdr_def Let_def kv_hdr_init_def)
  have len: "length (kv_hdr_bytes ?h) = 24" by (simp add: kv_hdr_bytes_def kv_hdr_init_def Let_def)
  have split: "drop 16 (kv_hdr_bytes ?h) = take 4 (drop 16 (kv_hdr_bytes ?h)) @ take 4 (drop 20 (kv_hdr_bytes ?h))"
    using len append_take_drop_id [of 4 "drop 16 (kv_hdr_bytes ?h)"] by simp
  have "kh_name_len ?h = length key" "kh_value_len ?h = length v"
    using assms v by (simp_all add: kv_hdr_init_def Let_def)
  then have "kv_hdr_crc ?h key v = fdb_calc_crc32 0
      ((take 4 (drop 16 (kv_hdr_bytes ?h)) @ take 4 (drop 20 (kv_hdr_bytes ?h))) @ key @ v)"
    by (simp add: kv_hdr_crc_def Let_def crc_append)
  then show ?thesis unfolding d by (simp only: split [symmetric])
qed


section \<open>Reading a node\<close>

lemma read_kv_crc_ok:
  assumes "stored s m f db" "in_sector s m base n" "k \<le> n"
    and "\<And>db'. stored s m f db' \<Longrightarrow> io_frame db db' \<Longrightarrow> Q (fdb_calc_crc32 crc (rd f (base + k) (n - k)), db')"
  shows "holds (read_kv_crc db buf base n k crc) Q"
  using assms
proof (induction "n - k" arbitrary: k db buf crc rule: less_induct)
  case less
  note i = storedD [OF less.prems(1)]
  show ?case
  proof (cases "k < n")
    case False
    with less.prems(3) less.prems(4) [OF less.prems(1) io_frame_refl] show ?thesis
      by (subst read_kv_crc.simps) simp
  next
    case True
    define j where "j = (if k + 32 < n then 32 else n - k)"
    have j: "0 < j" "k + j \<le> n" using True by (auto simp: j_def)
    have sec: "in_sector s m (base + k) j"
      by (rule in_sector_sub [OF less.prems(2) i(4,3)]) (use j True in auto)
    have u: "u32 (base + k) = base + k"
      using stored_u32 [OF less.prems(1)] sec by (simp add: in_sector_def)
    have rest: "holds (read_kv_crc db1 (rd f (base + k) j @ drop j buf) base n (k + j)
        (fdb_calc_crc32 crc (rd f (base + k) j))) Q"
      if "stored s m f db1" "io_frame db db1" for db1
    proof (rule less.hyps [OF _ that(1) less.prems(2)])
      show "n - (k + j) < n - k" "k + j \<le> n" using j by auto
      fix db' assume d: "stored s m f db'" "io_frame db1 db'"
      have "rd f (base + k) j @ rd f (base + (k + j)) (n - (k + j)) = rd f (base + k) (n - k)"
        using rd_append [of f "base + k" j "n - (k + j)"] j by (simp add: add.assoc)
      with less.prems(4) [OF d(1) io_frame_trans [OF that(2) d(2)]]
      show "Q (fdb_calc_crc32 (fdb_calc_crc32 crc (rd f (base + k) j)) (rd f (base + (k + j)) (n - (k + j))), db')"
        by (simp add: crc_append)
    qed
    have "holds (fdb_flash_read db (u32 (base + k)) buf (FDB_WG_ALIGN j))
        (\<lambda>(r, buf, db). holds (read_kv_crc db buf base n (k + j) (fdb_calc_crc32 crc (take j buf))) Q)"
      using u sec less.prems(1) rest by (auto intro!: stored_rules)
    with True show ?thesis
      by (subst read_kv_crc.simps) (simp add: j_def Let_def split_def)
  qed
qed

text \<open>What \<open>read_kv\<close> leaves in the structure for node \<open>n\<close> at \<open>a\<close>.\<close>

definition node_name :: "byte list \<Rightarrow> byte list \<Rightarrow> byte list" where
  "node_name key old = (key @ drop (length key) old)
     [(if length key \<ge> FDB_KV_NAME_MAX then FDB_KV_NAME_MAX - 1 else length key) := 0]"

definition node_kv :: "fdb_kv \<Rightarrow> addr \<Rightarrow> kv_node \<Rightarrow> fdb_kv" where
  "node_kv kv a n = kv\<lparr>kv_addr_start := a, kv_status := nd_status n, kv_len := node_len n, kv_crc_is_ok := True,
     kv_addr_value := a + 24 + length (nd_key n), kv_value_len := length (nd_val n),
     kv_name_len := length (nd_key n), kv_name := node_name (nd_key n) (kv_name kv)\<rparr>"

lemma read_kv_node:
  assumes st: "stored s m f db" and at: "node_at f a n" and ok: "node_ok n" and sec: "in_sector s m a (node_len n)"
    and post: "\<And>db'. stored s m f db' \<Longrightarrow> io_frame db db' \<Longrightarrow> Q (FDB_NO_ERR, node_kv kv a n, db')"
  shows "holds (read_kv db (kv\<lparr>kv_addr_start := a\<rparr>)) Q"
proof -
  note i = storedD [OF st]
  let ?key = "nd_key n" and ?v = "nd_val n"
  have len: "node_len n \<le> m" using in_sector_end [OF sec i(4,3)] by simp
  then have len32: "node_len n < 2 ^ 32" using i(5) by simp
  note dec = decode_node [OF at ok len32]
  have k: "0 < length ?key" "length ?key \<le> 64" using ok by (auto simp: node_ok_def FDB_KV_NAME_MAX_def)
  have nl: "node_len n = 24 + length ?key + length ?v" by (simp add: node_len_def KV_HDR_DATA_SIZE_def)
  have s24: "in_sector s m a 24" by (rule in_sector_sub [OF sec i(4,3), of 0, simplified]) (use nl k in auto)
  have sk: "in_sector s m (a + 24) (length ?key)" by (rule in_sector_sub [OF sec i(4,3)]) (use nl k in auto)
  have sb: "in_sector s m (a + 24) (length ?key + length ?v)" by (rule in_sector_sub [OF sec i(4,3)]) (use nl k in auto)
  have u: "u32 (a + 24) = a + 24" using stored_u32 [OF st] sk by (simp add: in_sector_def)
  have uv: "u32 (a + (24 + length ?key)) = a + 24 + length ?key"
    using stored_u32_le [OF st] in_sector_end [OF sk i(4,3)] by (simp add: add.assoc)
  have stat: "kv_status_of (fdb_get_status FDB_WRITE_GRAN [status_byte (kv_status_num (nd_status n))] FDB_KV_STATUS_NUM)
      = nd_status n"
    using kv_enum.stored_byte by (simp add: FDB_WRITE_GRAN_def status_byte_def)
  have crc: "fdb_calc_crc32 (fdb_calc_crc32 (fdb_calc_crc32 0 (take 4 (drop 16 (rd f a 24)))) (take 4 (drop 20 (rd f a 24))))
      (rd f (a + 24) (length ?key + length ?v)) = kv_hdr_crc (kv_hdr_init (length ?key) (length ?v)) ?key ?v"
  proof -
    have "take 4 (drop 16 (rd f a 24)) @ take 4 (drop 20 (rd f a 24)) = drop 16 (rd f a 24)"
      using append_take_drop_id [of 4 "drop 16 (rd f a 24)"] by simp
    moreover have "rd f (a + 24) (length ?key + length ?v) = ?key @ ?v"
      using at by (simp add: rd_append node_at_def)
    ultimately show ?thesis
      using node_crc [of ?key ?v] k nl len32 dec(6) by (simp add: crc_append flip: append_assoc)
  qed
  have nm: "rd f (a + 24) (length ?key) = ?key" using at by (simp add: node_at_def)
  have hc: "kh_crc32 (node_hdr ?key ?v) = unat (kv_hdr_crc (kv_hdr_init (length ?key) (length ?v)) ?key ?v)"
    by (simp add: node_hdr_def Let_def)
  have g: "\<not> (node_len n = 0xFFFFFFFF \<or> node_len n > m \<or> node_len n < KV_HDR_DATA_SIZE)"
    using len stored_top [OF st] by (auto simp: node_len_def)
  show ?thesis
    unfolding read_kv_def holds_bind
    apply (rule stored_read [OF st])
     apply (simp add: s24)
    subgoal premises d1 for r db1
  proof -
    let ?c = "kv_hdr_crc (kv_hdr_init (length ?key) (length ?v)) ?key ?v"
    have name: "holds (fdb_flash_read db2 (a + 24) (kv_name kv) (length ?key))
        (\<lambda>(r, nm, db). Q (FDB_NO_ERR, kv\<lparr>kv_addr_start := a, kv_status := nd_status n, kv_len := node_len n,
            kv_crc_is_ok := True, kv_addr_value := a + 24 + length ?key, kv_value_len := length ?v,
            kv_name_len := length ?key,
            kv_name := nm[(if length ?key \<ge> FDB_KV_NAME_MAX then FDB_KV_NAME_MAX - 1 else length ?key) := 0]\<rparr>, db))"
      if d2: "stored s m f db2" "io_frame db1 db2" for db2
    proof (rule stored_read [OF d2(1) sk])
      fix r db3
      assume d3: "stored s m f db3" "io_frame db2 db3"
      note post [OF d3(1) io_frame_trans [OF io_frame_trans [OF d1(2) d2(2)] d3(2)]]
      then show "case (r, rd f (a + 24) (length ?key) @ drop (length ?key) (kv_name kv), db3) of (r, nm, db) \<Rightarrow>
          Q (FDB_NO_ERR, kv\<lparr>kv_addr_start := a, kv_status := nd_status n, kv_len := node_len n,
            kv_crc_is_ok := True, kv_addr_value := a + 24 + length ?key, kv_value_len := length ?v,
            kv_name_len := length ?key,
            kv_name := nm[(if length ?key \<ge> FDB_KV_NAME_MAX then FDB_KV_NAME_MAX - 1 else length ?key) := 0]\<rparr>, db)"
        by (simp only: nm node_kv_def node_name_def prod.case)
    qed
    have nk: "\<not> FDB_KV_NAME_MAX < length ?key" using k by (simp add: FDB_KV_NAME_MAX_def)
    have u': "u32 (a + KV_HDR_DATA_SIZE) = a + 24" using u by (simp add: KV_HDR_DATA_SIZE_def)
    have nl': "node_len n - KV_HDR_DATA_SIZE = length ?key + length ?v" by (simp add: node_len_def)
    have uv': "u32 (a + 24 + length ?key) = a + 24 + length ?key" using uv by (simp add: add.assoc)
    show ?thesis
      using d1 g nk
      apply (simp add: Let_def dec stat u' uv' hc nl' split del: if_split)
      apply (rule read_kv_crc_ok [OF _ sb])
        apply (use d1 in simp)
       apply simp
      using crc name nk
      apply (simp add: dec stat u' uv' split_def split del: if_split cong: if_cong)
      done
  qed
  done
qed


section \<open>Writing a node\<close>

definition node_write :: "(addr \<Rightarrow> byte) \<Rightarrow> addr \<Rightarrow> kv_node \<Rightarrow> addr \<Rightarrow> byte" where
  "node_write f a n =
     wr (wr (wr (wr (wr f a [status_byte 1])
       (a + 4) (drop 4 (kv_hdr_bytes (node_hdr (nd_key n) (nd_val n)))))
       (a + 24) (nd_key n))
       (a + 24 + length (nd_key n)) (nd_val n))
       a [status_byte (kv_status_num (nd_status n))]"

lemma node_write_at: "node_at (node_write f a n) a n"
  by (auto simp: node_at_def node_write_def rd_wr_disjoint rd_wr_same wr_in)

lemma node_write_out: "x < a \<or> a + node_len n \<le> x \<Longrightarrow> node_write f a n x = f x"
  by (auto simp: node_write_def node_len_def KV_HDR_DATA_SIZE_def wr_out)

lemma node_at_cong:
  assumes "node_at f a n" "\<And>x. a \<le> x \<Longrightarrow> x < a + node_len n \<Longrightarrow> g x = f x"
  shows "node_at g a n"
proof -
  have "rd g b k = rd f b k" if "a \<le> b" "b + k \<le> a + node_len n" for b k
    by (rule rd_cong) (use assms(2) that in auto)
  then show ?thesis using assms by (auto simp: node_at_def node_len_def KV_HDR_DATA_SIZE_def)
qed

text \<open>Updates of the caches do not touch the storage.\<close>

lemma stored_kv_updates [simp]:
  "stored s m f (db\<lparr>kvdb_kv_cache_table := t\<rparr>) = stored s m f db"
  "stored s m f (db\<lparr>kvdb_sector_cache_table := u\<rparr>) = stored s m f db"
  "stored s m f (db\<lparr>kvdb_gc_request := b\<rparr>) = stored s m f db"
  "stored s m f (db\<lparr>kvdb_last_is_complete_del := b\<rparr>) = stored s m f db"
  "stored s m f (db\<lparr>kvdb_cur_kv := kv\<rparr>) = stored s m f db"
  "stored s m f (db\<lparr>kvdb_cur_sector := sec\<rparr>) = stored s m f db"
  by (rule stored_more, simp add: fdb_db.defs)+

lemma stored_cache_updates [simp]:
  "stored s m f (update_sector_cache db sec) = stored s m f db"
  "stored s m f (update_sector_empty_addr_cache db a e) = stored s m f db"
  "stored s m f (update_sector_status_store_cache db a st) = stored s m f db"
  "stored s m f (update_kv_cache db name a) = stored s m f db"
  by (simp_all add: update_sector_cache_def update_sector_empty_addr_cache_def
      update_sector_status_store_cache_def update_kv_cache_def Let_def
      split: sum.split option.split prod.split)


text \<open>The frame of a storage operation on a key-value database.\<close>

lemma io_frame_kv:
  assumes "io_frame db db'"
  shows "kvdb_sector_cache_table db' = kvdb_sector_cache_table db" "kvdb_kv_cache_table db' = kvdb_kv_cache_table db"
    "kvdb_gc_request db' = kvdb_gc_request db" "kvdb_in_recovery_check db' = kvdb_in_recovery_check db"
    "kvdb_last_is_complete_del db' = kvdb_last_is_complete_del db" "kvdb_cur_sector db' = kvdb_cur_sector db"
    "kvdb_cur_kv db' = kvdb_cur_kv db" "kvdb_stack_kv db' = kvdb_stack_kv db"
    "kvdb_stack_sector db' = kvdb_stack_sector db" "kvdb_default_kvs db' = kvdb_default_kvs db"
  using assms by (cases db; cases db'; simp add: io_frame_def)+

lemma write_kv_hdr_ok:
  assumes st: "stored s m f db" and sec: "in_sector s m a 24" and len: "length (kv_hdr_bytes h) = 24"
    and post: "\<And>db'. stored s m (wr (wr f a [status_byte 1]) (a + 4) (drop 4 (kv_hdr_bytes h))) db' \<Longrightarrow> io_frame db db'
       \<Longrightarrow> Q (FDB_NO_ERR, db')"
  shows "holds (write_kv_hdr db a h) Q"
proof -
  note i = storedD [OF st]
  have s4: "in_sector s m (a + 4) 20" by (rule in_sector_sub [OF sec i(4,3)]) auto
  have u: "u32 (a + 4) = a + 4" using stored_u32 [OF st] s4 by (simp add: in_sector_def)
  have am: "a < m" using sec by (simp add: in_sector_def)
  show ?thesis
    using st am s4 len
    by (auto simp: write_kv_hdr_def u KV_MAGIC_OFFSET_def FDB_KV_STATUS_NUM_def intro!: stored_rules post
        elim: io_frame_trans)
qed

text \<open>
  The frame of an operation that also updates the caches: all but the streams and the two cache
  tables stays.
\<close>

definition kv_frame :: "fdb_kvdb \<Rightarrow> fdb_kvdb \<Rightarrow> bool" where
  "kv_frame db db' \<longleftrightarrow> io_frame db (db'\<lparr>kvdb_sector_cache_table := kvdb_sector_cache_table db,
     kvdb_kv_cache_table := kvdb_kv_cache_table db\<rparr>)"

lemma kv_frame_io: "io_frame db db' \<Longrightarrow> kv_frame db db'"
  by (cases db; cases db') (simp add: kv_frame_def io_frame_def)

lemma kv_frame_trans: "kv_frame db db' \<Longrightarrow> kv_frame db' db'' \<Longrightarrow> kv_frame db db''"
  by (cases db; cases db'; cases db'') (simp add: kv_frame_def io_frame_def)

lemma kv_frame_caches [simp]:
  "kv_frame db (db'\<lparr>kvdb_sector_cache_table := t\<rparr>) = kv_frame db db'"
  "kv_frame db (db'\<lparr>kvdb_kv_cache_table := u\<rparr>) = kv_frame db db'"
  by (cases db; cases db'; simp add: kv_frame_def io_frame_def)+

lemma kv_frame_cache_ops [simp]:
  "kv_frame db (update_sector_cache db' sec) = kv_frame db db'"
  "kv_frame db (update_sector_empty_addr_cache db' a e) = kv_frame db db'"
  "kv_frame db (update_sector_status_store_cache db' a st) = kv_frame db db'"
  "kv_frame db (update_kv_cache db' name a) = kv_frame db db'"
  by (simp_all add: update_sector_cache_def update_sector_empty_addr_cache_def
      update_sector_status_store_cache_def update_kv_cache_def Let_def
      split: sum.split option.split prod.split)

lemma kv_frameD:
  assumes "kv_frame db db'"
  shows "db_oldest_addr db' = db_oldest_addr db" "kvdb_gc_request db' = kvdb_gc_request db"
    "kvdb_in_recovery_check db' = kvdb_in_recovery_check db"
    "kvdb_last_is_complete_del db' = kvdb_last_is_complete_del db" "kvdb_cur_sector db' = kvdb_cur_sector db"
    "kvdb_cur_kv db' = kvdb_cur_kv db" "kvdb_stack_kv db' = kvdb_stack_kv db"
    "kvdb_stack_sector db' = kvdb_stack_sector db" "kvdb_default_kvs db' = kvdb_default_kvs db"
  using assms by (cases db; cases db'; simp add: kv_frame_def io_frame_def)+


lemma cache_tables [simp]:
  "kvdb_sector_cache_table (update_kv_cache db name a) = kvdb_sector_cache_table db"
  "kvdb_kv_cache_table (update_sector_cache db sec) = kvdb_kv_cache_table db"
  "kvdb_kv_cache_table (update_sector_empty_addr_cache db a e) = kvdb_kv_cache_table db"
  "kvdb_kv_cache_table (update_sector_status_store_cache db a st) = kvdb_kv_cache_table db"
  by (simp_all add: update_sector_cache_def update_sector_empty_addr_cache_def
      update_sector_status_store_cache_def update_kv_cache_def Let_def
      split: sum.split option.split prod.split)

lemma cache_table_cong:
  "kvdb_sector_cache_table db = kvdb_sector_cache_table db' \<Longrightarrow> db_sec_size db = db_sec_size db' \<Longrightarrow>
     kvdb_sector_cache_table (update_sector_empty_addr_cache db a e)
       = kvdb_sector_cache_table (update_sector_empty_addr_cache db' a e)"
  "kvdb_sector_cache_table db = kvdb_sector_cache_table db' \<Longrightarrow>
     kvdb_sector_cache_table (update_sector_status_store_cache db a st)
       = kvdb_sector_cache_table (update_sector_status_store_cache db' a st)"
  "kvdb_sector_cache_table db = kvdb_sector_cache_table db' \<Longrightarrow>
     kvdb_sector_cache_table (update_sector_cache db sec) = kvdb_sector_cache_table (update_sector_cache db' sec)"
  "kvdb_kv_cache_table db = kvdb_kv_cache_table db' \<Longrightarrow>
     kvdb_kv_cache_table (update_kv_cache db name a) = kvdb_kv_cache_table (update_kv_cache db' name a)"
  by (simp_all add: update_sector_empty_addr_cache_def update_sector_status_store_cache_def update_sector_cache_def
      get_sector_from_cache_def update_kv_cache_def Let_def split: sum.split option.split prod.split)

lemma update_sec_status_empty:
  assumes "stored s m f db" "sec_addr sector < m" "sec_store sector = FDB_SECTOR_STORE_EMPTY"
    and "\<And>db'. stored s m (wr f (sec_addr sector) [status_byte 2]) db' \<Longrightarrow> io_frame db db'
       \<Longrightarrow> Q (FDB_NO_ERR, full, update_sector_status_store_cache db' (sec_addr sector) FDB_SECTOR_STORE_USING)"
  shows "holds (kv_update_sec_status db sector n full) Q"
  using assms(1-3)
  by (auto simp: kv_update_sec_status_def FDB_SECTOR_STORE_STATUS_NUM_def intro!: stored_rules assms(4))

text \<open>A sector in use with room for the node and the threshold keeps its status.\<close>

lemma update_sec_status_using:
  "sec_store sector = FDB_SECTOR_STORE_USING \<Longrightarrow> n + FDB_SEC_REMAIN_THRESHOLD \<le> sec_remain sector \<Longrightarrow>
   kv_update_sec_status db sector n full = Some (FDB_NO_ERR, map_option (\<lambda>_. False) full, db)"
  by (subgoal_tac "\<not> sec_remain sector - n < FDB_SEC_REMAIN_THRESHOLD") (simp_all add: kv_update_sec_status_def)

definition sec_used :: "kvdb_sec_info \<Rightarrow> (addr \<Rightarrow> byte) \<Rightarrow> addr \<Rightarrow> byte" where
  "sec_used sector f = (if sec_store sector = FDB_SECTOR_STORE_EMPTY then wr f (sec_addr sector) [status_byte 2] else f)"

definition sec_used_db :: "kvdb_sec_info \<Rightarrow> fdb_kvdb \<Rightarrow> fdb_kvdb" where
  "sec_used_db sector db = (if sec_store sector = FDB_SECTOR_STORE_EMPTY
     then update_sector_status_store_cache db (sec_addr sector) FDB_SECTOR_STORE_USING else db)"

lemma update_status_ok:
  assumes st: "stored s m f db" and b: "sec_addr sector < m"
    and sto: "sec_store sector = FDB_SECTOR_STORE_EMPTY \<or>
      sec_store sector = FDB_SECTOR_STORE_USING \<and> n + FDB_SEC_REMAIN_THRESHOLD \<le> sec_remain sector"
    and Q: "\<And>full' db1. stored s m (sec_used sector f) db1 \<Longrightarrow> kv_frame db db1 \<Longrightarrow>
      kvdb_sector_cache_table db1 = kvdb_sector_cache_table (sec_used_db sector db) \<Longrightarrow>
      kvdb_kv_cache_table db1 = kvdb_kv_cache_table db \<Longrightarrow> (full = Some False \<Longrightarrow> full' = Some False) \<Longrightarrow> Q (FDB_NO_ERR, full', db1)"
  shows "holds (kv_update_sec_status db sector n full) Q"
  using sto
proof
  assume e: "sec_store sector = FDB_SECTOR_STORE_EMPTY"
  have tab: "kvdb_sector_cache_table (update_sector_status_store_cache db' (sec_addr sector) FDB_SECTOR_STORE_USING)
      = kvdb_sector_cache_table (update_sector_status_store_cache db (sec_addr sector) FDB_SECTOR_STORE_USING)" if "io_frame db db'" for db'
    by (rule cache_table_cong(2)) (simp add: io_frame_kv [OF that])
  show ?thesis
  proof (rule update_sec_status_empty [OF st b e], rule Q, goal_cases)
    case (3 db')
    show ?case using tab [OF 3(2)] e by (simp add: sec_used_db_def)
  qed (use e in \<open>simp_all add: sec_used_def io_frame_kv kv_frame_io\<close>)
next
  assume "sec_store sector = FDB_SECTOR_STORE_USING \<and> n + FDB_SEC_REMAIN_THRESHOLD \<le> sec_remain sector"
  then show ?thesis using st Q [of db "map_option (\<lambda>_. False) full"]
    by (simp add: update_sec_status_using sec_used_def sec_used_db_def kv_frame_io)
qed

lemma create_kv_write_ok:
  fixes n :: kv_node
  defines "h \<equiv> kv_hdr_init (length (nd_key n)) (length (nd_val n))"
  assumes st: "stored s m f db" and ok: "node_ok n" "nd_status n = FDB_KV_WRITE"
    and sec: "in_sector s m a (node_len n)" and b: "sec_addr sector < m"
    and sto: "sec_store sector = FDB_SECTOR_STORE_EMPTY \<or>
      sec_store sector = FDB_SECTOR_STORE_USING \<and> node_len n + FDB_SEC_REMAIN_THRESHOLD \<le> sec_remain sector"
    and post: "\<And>db'. stored s m (node_write (sec_used sector f) a n) db' \<Longrightarrow> kv_frame db db' \<Longrightarrow>
        kvdb_sector_cache_table db' = kvdb_sector_cache_table
          (update_sector_empty_addr_cache (sec_used_db sector db) (sec_addr sector) (a + node_len n)) \<Longrightarrow>
        kvdb_kv_cache_table db' = kvdb_kv_cache_table (update_kv_cache db (nd_key n) a) \<Longrightarrow>
        Q (FDB_NO_ERR, db')"
  shows "holds (create_kv_write db sector a h (nd_key n) (nd_val n)) Q"
proof -
  note i = storedD [OF st]
  let ?key = "nd_key n" and ?v = "nd_val n"
  have len: "node_len n \<le> m" using in_sector_end [OF sec i(4,3)] by simp
  have k: "0 < length ?key" "length ?key \<le> 64" using ok by (auto simp: node_ok_def FDB_KV_NAME_MAX_def)
  have nl: "node_len n = 24 + length ?key + length ?v" by (simp add: node_len_def KV_HDR_DATA_SIZE_def)
  have s24: "in_sector s m a 24" by (rule in_sector_sub [OF sec i(4,3), of 0, simplified]) (use nl k in auto)
  have sk: "in_sector s m (a + 24) (length ?key)" by (rule in_sector_sub [OF sec i(4,3)]) (use nl k in auto)
  have sv: "in_sector s m (a + 24 + length ?key) (length ?v)" if "?v \<noteq> []"
    using in_sector_sub [OF sec i(4,3), of "24 + length ?key" "length ?v"] nl that by (simp add: add.assoc)
  have e: "a + node_len n \<le> m" by (rule in_sector_end [OF sec i(4,3)])
  have us: "u32 (a + KV_HDR_DATA_SIZE) = a + 24" "u32 (a + KV_HDR_DATA_SIZE + length ?key) = a + 24 + length ?key"
    "u32 (a + KV_HDR_DATA_SIZE + length ?key + length ?v) = a + node_len n"
    using e stored_u32_le [OF st, of "a + node_len n"] stored_u32_le [OF st, of "a + 24"]
      stored_u32_le [OF st, of "a + 24 + length ?key"] nl by (simp_all add: KV_HDR_DATA_SIZE_def add.assoc)
  have am: "a < m" using sec by (simp add: in_sector_def)
  have l32: "24 + length ?key + length ?v < 2 ^ 32" using len nl i(5) by simp
  have fields: "kh_len h = node_len n" "kh_name_len h = length ?key" "kh_value_len h = length ?v"
    using node_hdr_fields [OF k(2) l32] nl by (simp_all add: node_hdr_def h_def Let_def)
  have hdr: "h\<lparr>kh_crc32 := unat (kv_hdr_crc h ?key ?v)\<rparr> = node_hdr ?key ?v" by (simp add: node_hdr_def h_def Let_def)
  define P where "P = (\<lambda>db1. stored s m (sec_used sector f) db1 \<and> kv_frame db db1
     \<and> kvdb_sector_cache_table db1 = kvdb_sector_cache_table (sec_used_db sector db)
     \<and> kvdb_kv_cache_table db1 = kvdb_kv_cache_table db)"
  have start: "holds (kv_update_sec_status db sector (node_len n) (Some False)) (\<lambda>(r, full, db1). r = FDB_NO_ERR \<and> full = Some False \<and> P db1)"
    unfolding P_def by (rule update_status_ok [OF st b sto]) simp
  show ?thesis
    unfolding create_kv_write_def holds_bind fields hdr
    apply (rule holds_mono [OF start])
    apply (clarsimp simp: P_def Let_def us fields)
    apply (rule write_kv_hdr_ok, assumption, rule s24, simp)
    apply (clarsimp simp: us)
    apply (rule stored_write_align, assumption, simp add: sk)
    apply clarsimp
    apply (rule stored_write_align [where s = s and m = m], simp only: stored_cache_updates, simp add: sv us)
    apply clarsimp
    apply (rule stored_write_status [where s = s and m = m], assumption, rule am, simp, simp add: FDB_KV_STATUS_NUM_def,
        simp add: FDB_KV_STATUS_NUM_def)
    apply (rule post)
    subgoal using ok(2) by (simp add: node_write_def us)
    subgoal premises p
      using p(2) kv_frame_io [OF p(6)] kv_frame_io [OF p(8)] kv_frame_io [OF p(10)] kv_frame_io [OF p(12)]
      by (meson kv_frame_cache_ops(2,4) kv_frame_trans)
    subgoal premises p
      using p(3,4,6,8,10,12) st stored_geometry(1) [OF p(7)] by (simp add: io_frame_kv) (rule cache_table_cong, simp_all add: io_frame_kv sec_used_db_def)
    subgoal premises p
      using p(3,4,6,8,10,12) by (simp add: io_frame_kv) (rule cache_table_cong, simp add: io_frame_kv)
    done
qed

end
