(* ===== verification/KvSector.thy ===== *)
theory KvSector
  imports KvNode
begin

text \<open>
  A sector of the key-value database as a list of nodes. \<open>sector_holds\<close> relates the bytes of a sector to
  its header status and its nodes; walking over the sector with \<open>get_next_kv_addr\<close> visits exactly these
  nodes in order, and stops.
\<close>

section \<open>Consecutive nodes\<close>

fun nodes_at :: "(addr \<Rightarrow> byte) \<Rightarrow> addr \<Rightarrow> kv_node list \<Rightarrow> bool" where
  "nodes_at f a [] \<longleftrightarrow> True"
| "nodes_at f a (n # ns) \<longleftrightarrow> node_at f a n \<and> node_ok n \<and> nodes_at f (a + node_len n) ns"

fun nodes_len :: "kv_node list \<Rightarrow> nat" where
  "nodes_len [] = 0"
| "nodes_len (n # ns) = node_len n + nodes_len ns"

lemma nodes_len_append [simp]: "nodes_len (ns @ ns') = nodes_len ns + nodes_len ns'"
  by (induction ns) auto

lemma nodes_at_append:
  "nodes_at f a (ns @ ns') \<longleftrightarrow> nodes_at f a ns \<and> nodes_at f (a + nodes_len ns) ns'"
  by (induction ns arbitrary: a) (auto simp: add.assoc)

lemma nodes_at_cong:
  assumes "nodes_at f a ns" "\<And>x. a \<le> x \<Longrightarrow> x < a + nodes_len ns \<Longrightarrow> g x = f x"
  shows "nodes_at g a ns"
  using assms
proof (induction ns arbitrary: a)
  case (Cons n ns)
  have "nodes_at g (a + node_len n) ns" by (rule Cons.IH) (use Cons.prems in auto)
  moreover have "node_at g a n" by (rule node_at_cong [where f = f]) (use Cons.prems in auto)
  ultimately show ?case using Cons.prems by simp
qed simp

lemma node_len_ge: "node_ok n \<Longrightarrow> 25 \<le> node_len n"
  by (cases "nd_key n") (auto simp: node_ok_def node_len_def KV_HDR_DATA_SIZE_def)


section \<open>A sector\<close>

text \<open>
  The header and the nodes of the sector at \<open>b\<close>: status \<open>st\<close> and \<open>d\<close>, nodes \<open>ns\<close> from offset 16 on, all
  bytes after them erased, and at least the threshold left.
\<close>

definition hdr_at :: "(addr \<Rightarrow> byte) \<Rightarrow> addr \<Rightarrow> fdb_sector_store_status \<Rightarrow> fdb_sector_dirty_status \<Rightarrow> bool" where
  "hdr_at f b st d \<longleftrightarrow> f b = status_byte (store_status_num st) \<and> f (b + 1) = status_byte (dirty_status_num d)
     \<and> rd f (b + 4) 4 = le32 SECTOR_MAGIC_WORD \<and> rd f (b + 8) 4 = le32 SECTOR_NOT_COMBINED"

definition sector_holds ::
  "nat \<Rightarrow> (addr \<Rightarrow> byte) \<Rightarrow> addr \<Rightarrow> fdb_sector_store_status \<Rightarrow> fdb_sector_dirty_status \<Rightarrow> kv_node list \<Rightarrow> bool"
where
  "sector_holds s f b st d ns \<longleftrightarrow> hdr_at f b st d \<and> nodes_at f (b + 16) ns
     \<and> (\<forall>x. b + 16 + nodes_len ns \<le> x \<and> x < b + s \<longrightarrow> f x = FDB_BYTE_ERASED)
     \<and> 16 + nodes_len ns + FDB_SEC_REMAIN_THRESHOLD \<le> s
     \<and> (st = FDB_SECTOR_STORE_EMPTY \<and> ns = [] \<or> st = FDB_SECTOR_STORE_USING \<and> ns \<noteq> [])"

definition log_end :: "addr \<Rightarrow> kv_node list \<Rightarrow> addr" where
  "log_end b ns = b + 16 + nodes_len ns"

text \<open>
  A cached entry of the sector is right about it; the end of its nodes may be unknown, and the mark of a
  running garbage collection is on storage only.
\<close>

definition dirty_seen :: "fdb_sector_dirty_status \<Rightarrow> fdb_sector_dirty_status \<Rightarrow> bool" where
  "dirty_seen d e \<longleftrightarrow> e = d \<or> d = FDB_SECTOR_DIRTY_GC \<and> e = FDB_SECTOR_DIRTY_TRUE"

lemma dirty_seen_refl [simp]: "dirty_seen d d"
  by (simp add: dirty_seen_def)

lemma dirty_seen_plain: "d \<noteq> FDB_SECTOR_DIRTY_GC \<Longrightarrow> dirty_seen d e \<longleftrightarrow> e = d"
  by (simp add: dirty_seen_def)

definition sec_info_ok ::
  "nat \<Rightarrow> addr \<Rightarrow> fdb_sector_store_status \<Rightarrow> fdb_sector_dirty_status \<Rightarrow> kv_node list \<Rightarrow> kvdb_sec_info \<Rightarrow> bool"
where
  "sec_info_ok s b st d ns e \<longleftrightarrow> sec_addr e = b \<and> sec_check_ok e \<and> sec_store e = st \<and> dirty_seen d (sec_dirty e)
     \<and> sec_combined e = SECTOR_NOT_COMBINED
     \<and> (sec_empty_kv e = FAILED_ADDR \<or> sec_empty_kv e = log_end b ns \<and> sec_remain e = s - 16 - nodes_len ns)"

lemma hdr_at_cong: "hdr_at f b st d \<Longrightarrow> (\<And>x. b \<le> x \<Longrightarrow> x < b + 16 \<Longrightarrow> g x = f x) \<Longrightarrow> hdr_at g b st d"
  using rd_cong [of 4 g "b + 4" f] rd_cong [of 4 g "b + 8" f] by (auto simp: hdr_at_def)

lemma sector_holds_cong:
  assumes "sector_holds s f b st d ns" "\<And>x. b \<le> x \<Longrightarrow> x < b + s \<Longrightarrow> g x = f x"
  shows "sector_holds s g b st d ns"
proof -
  have "16 + nodes_len ns \<le> s" using assms(1) by (simp add: sector_holds_def)
  moreover have "hdr_at g b st d" by (rule hdr_at_cong [where f = f]) (use assms calculation in \<open>auto simp: sector_holds_def\<close>)
  moreover have "nodes_at g (b + 16) ns" by (rule nodes_at_cong [where f = f]) (use assms calculation in \<open>auto simp: sector_holds_def\<close>)
  ultimately show ?thesis using assms by (auto simp: sector_holds_def)
qed


section \<open>The next node\<close>

lemma find_magic_erased:
  assumes "length buf = 32" "\<And>i. i < 32 \<Longrightarrow> buf ! i = FDB_BYTE_ERASED" "set is \<subseteq> {..<28}"
  shows "find_magic buf start bak end is = None"
  using assms(3)
proof (induction "is")
  case (Cons i "is")
  then have i: "i < 28" by simp
  have "take 4 (drop i buf) = replicate 4 255"
    by (rule nth_equalityI) (use i assms in \<open>auto simp: FDB_BYTE_ERASED_def\<close>)
  then have "le32_dec (take 4 (drop i buf)) \<noteq> KV_MAGIC_WORD"
    by (simp add: le32_dec_def KV_MAGIC_WORD_def)
  with Cons show ?case by simp
qed simp


lemma find_magic_skip:
  assumes "\<forall>i \<in> set is. i < 4 \<and> u32 (start + i) = start + i \<and> start + i < e" "4 \<le> start"
  shows "find_magic buf start start e (is @ js) = find_magic buf start start e js"
  using assms(1)
proof (induction "is")
  case (Cons i "is")
  from Cons.prems assms(2) have "start + i - 4 < start" "u32 (start + i) = start + i" by auto
  then have "\<not> start \<le> sub64 (u32 (start + i)) KV_MAGIC_OFFSET"
    using assms(2) by (simp add: KV_MAGIC_OFFSET_def)
  with Cons show ?case by simp
qed simp

lemma find_magic_here:
  assumes "take 4 (drop 4 buf) = le32 KV_MAGIC_WORD" "start + 32 < e" "e < 2 ^ 32" "4 \<le> start"
  shows "find_magic buf start start e [0..<28] = Some start"
proof -
  have "[0..<28] = [0..<4] @ [4..<28]" by (simp add: upt_conv_Cons)
  moreover have "[4..<28] = 4 # [5..<28]" by (simp add: upt_conv_Cons)
  ultimately have "find_magic buf start start e [0..<28] = find_magic buf start start e (4 # [5..<28])"
    using find_magic_skip [of "[0..<4]" start e buf "[4..<28]"] assms by simp
  also have "\<dots> = Some start" using assms by (simp add: KV_MAGIC_OFFSET_def KV_MAGIC_WORD_def)
  finally show ?thesis .
qed

lemma find_next_erased:
  assumes "stored s m f db" "b mod s = 0" "b < m" "b \<le> start" "e \<le> b + s" "length buf = 32"
    and "\<And>x. start \<le> x \<Longrightarrow> x < b + s \<Longrightarrow> f x = FDB_BYTE_ERASED"
    and "\<And>db'. stored s m f db' \<Longrightarrow> io_frame db db' \<Longrightarrow> Q (FAILED_ADDR, db')"
  shows "holds (find_next_kv_loop db buf start bak e) Q"
  using assms
proof (induction "e - start" arbitrary: start db buf rule: less_induct)
  case less
  note i = storedD [OF less.prems(1)]
  show ?case
  proof (cases "start + 32 < e")
    case False
    then show ?thesis using less.prems(8) [OF less.prems(1) io_frame_refl]
      by (subst find_next_kv_loop.simps) simp
  next
    case True
    obtain k where k: "start = b + k" using less.prems(4) le_iff_add by blast
    have sec: "in_sector s m start 32" unfolding k
      by (rule in_sector_at [OF i(4) less.prems(2,3)]) (use True k less.prems(5) in auto)
    have u: "u32 (start + 28) = start + 28"
      using stored_u32_le [OF less.prems(1)] in_sector_end [OF sec i(4,3)] by simp
    have none: "find_magic (rd f start 32) start bak e [0..<28] = None"
      by (rule find_magic_erased) (use less.prems(5,7) True in auto)
    have rest: "holds (find_next_kv_loop db1 (rd f start 32) (start + 28) bak e) Q"
      if "stored s m f db1" "io_frame db db1" for db1
      by (rule less.hyps) (use that less.prems True io_frame_trans [OF that(2)] in auto)
    show ?thesis
      using True sec less.prems(1,6) none rest
      by (subst find_next_kv_loop.simps) (auto simp: u intro!: stored_read)
  qed
qed

lemma node_hdr_magic [simp]: "kh_magic (node_hdr key v) = KV_MAGIC_WORD"
  by (simp add: node_hdr_def kv_hdr_init_def Let_def)

lemma find_next_here:
  assumes "stored s m f db" "b mod s = 0" "b < m" "b + 4 \<le> start" "e \<le> b + s" "length buf = 32"
    and "node_at f start n" "start + 32 < e"
    and "\<And>db'. stored s m f db' \<Longrightarrow> io_frame db db' \<Longrightarrow> Q (start, db')"
  shows "holds (find_next_kv_loop db buf start start e) Q"
proof -
  note i = storedD [OF assms(1)]
  obtain k where k: "start = b + k" using assms(4) le_iff_add by (metis add_leD1)
  have sec: "in_sector s m start 32" unfolding k
    by (rule in_sector_at [OF i(4) assms(2,3)]) (use assms(5,8) k in auto)
  have "b + s \<le> m" using in_sector_end [OF in_sector_base [OF i(4) assms(2,3), of s] i(4,3)] by simp
  then have e: "e < 2 ^ 32" using assms(5) i(5) by simp
  have "take 4 (drop 4 (rd f start 32)) = take 4 (rd f (start + 4) 20)" by (simp add: take_rd drop_rd)
  also have "\<dots> = le32 KV_MAGIC_WORD"
    using assms(7) by (simp add: node_at_def drop4_hdr)
  finally have "find_magic (rd f start 32) start start e [0..<28] = Some start"
    using assms(4,8) e by (intro find_magic_here) auto
  then show ?thesis
    using assms sec by (subst find_next_kv_loop.simps) (auto intro!: stored_read)
qed


text \<open>The cache knows the end of the nodes of the sector at \<open>b\<close>, or does not know the sector.\<close>

definition end_cached :: "fdb_kvdb \<Rightarrow> addr \<Rightarrow> kv_node list \<Rightarrow> bool" where
  "end_cached db b ns \<longleftrightarrow> (case get_sector_from_cache db b of None \<Rightarrow> True
     | Some i \<Rightarrow> sec_empty_kv (kvdb_sector_cache_table db ! i) \<in> {FAILED_ADDR, log_end b ns})"

lemma end_cached_frame: "io_frame db db' \<Longrightarrow> end_cached db' b ns = end_cached db b ns"
  by (simp add: end_cached_def get_sector_from_cache_def io_frame_kv split: option.split)

lemma sector_bounds:
  assumes "stored s m f db" "sector_holds s f b st d ns" "b mod s = 0" "b < m"
  shows "b + s \<le> m" "log_end b ns + 88 \<le> b + s"
proof -
  note i = storedD [OF assms(1)]
  show "b + s \<le> m" using in_sector_end [OF in_sector_base [OF i(4) assms(3,4), of s] i(4,3)] by simp
  show "log_end b ns + 88 \<le> b + s" using assms(2)
    by (simp add: sector_holds_def log_end_def FDB_SEC_REMAIN_THRESHOLD_def KV_HDR_DATA_SIZE_def FDB_KV_NAME_MAX_def)
qed

lemma align_down_sector:
  assumes "b mod s = 0" "b \<le> x" "x < b + s"
  shows "FDB_ALIGN_DOWN x s = b"
proof -
  obtain q where "b = q * s" using assms(1) by (metis mod_eq_0_iff_dvd dvd_div_mult_self)
  moreover obtain k where "x = b + k" "k < s" using assms(2,3) by (metis le_iff_add nat_add_left_cancel_less)
  ultimately show ?thesis by simp
qed

lemma get_next_node:
  assumes st: "stored s m f db" and sh: "sector_holds s f b sst d (pre @ n # post)"
    and b: "b mod s = 0" "b < m" and info: "sec_addr sector = b" "sec_store sector \<noteq> FDB_SECTOR_STORE_EMPTY"
    and kv: "kv_addr_start kv = b + 16 + nodes_len pre" "kv_crc_is_ok kv" "kv_len kv = node_len n"
    and ca: "end_cached db b (pre @ n # post)"
    and Q: "\<And>db'. stored s m f db' \<Longrightarrow> io_frame db db' \<Longrightarrow>
      Q (if post = [] then FAILED_ADDR else b + 16 + nodes_len pre + node_len n, db')"
  shows "holds (get_next_kv_addr db sector kv) Q"
proof -
  note i = storedD [OF st] and bd = sector_bounds [OF st sh b]
  let ?x = "b + 16 + nodes_len pre + node_len n"
  have e: "log_end b (pre @ n # post) = ?x + nodes_len post" by (simp add: log_end_def)
  have ok: "node_ok n" "nodes_at f ?x post" using sh by (auto simp: sector_holds_def nodes_at_append add.assoc)
  have nl: "25 \<le> node_len n" by (rule node_len_ge [OF ok(1)])
  have top: "m \<le> 0xFFFFFFE0" by (rule stored_top [OF st])
  have xs: "?x + 88 \<le> b + s" "?x < 2 ^ 32" "b + s < 2 ^ 32" using bd e top by auto
  have us: "u32 ?x = ?x" "u32 (b + s) = b + s" "u32 (b + s - 16) = b + s - 16" "u32 (b + 16 + nodes_len pre + node_len n) = ?x"
    using xs by (simp_all add: u32_def)
  have al: "FDB_ALIGN_DOWN ?x s = b" by (rule align_down_sector) (use b xs in auto)
  have geo: "db_sec_size db = s" using st by simp
  have ne: "?x \<noteq> FAILED_ADDR" using xs bd top by (simp add: FAILED_ADDR_def)
  have hit: "?x = sec_empty_kv (kvdb_sector_cache_table db ! i) \<Longrightarrow> post = []"
    if "get_sector_from_cache db b = Some i" for i
    using ca that ne e ok(2) by (cases post) (auto simp: end_cached_def dest!: node_len_ge)
  have loop: "holds (find_next_kv_loop db (uninit (db_io db) 32) ?x ?x (b + s - 16))
     (\<lambda>(r, db'). r = (if post = [] then FAILED_ADDR else ?x) \<and> stored s m f db' \<and> io_frame db db')"
  proof (cases post)
    case Nil
    with sh have "f x = FDB_BYTE_ERASED" if "?x \<le> x" "x < b + s" for x
      using that by (auto simp: sector_holds_def)
    then show ?thesis using Nil by (intro find_next_erased [OF st b]) auto
  next
    case (Cons n' post')
    then have "node_at f ?x n'" "node_ok n'" using ok by auto
    moreover have "?x + 32 < b + s - 16" using bd e Cons node_len_ge [OF calculation(2)] by simp
    ultimately show ?thesis using Cons by (intro find_next_here [OF st b]) auto
  qed
  have find: "holds (find_next_kv_addr db ?x (b + s - 16))
     (\<lambda>(r, db'). r = (if post = [] then FAILED_ADDR else ?x) \<and> stored s m f db' \<and> io_frame db db')"
    unfolding find_next_kv_addr_def geo al
    using loop hit st by (auto split: option.split)
  have ne': "b + 16 + nodes_len pre \<noteq> FAILED_ADDR" using xs bd top by (simp add: FAILED_ADDR_def)
  have sub: "sub64 (b + s) 16 = b + s - 16" using xs by simp
  have find': "holds (find_next_kv_addr db ?x (b + s - 16))
     (\<lambda>r. holds (case r of (a, db) \<Rightarrow> if a = FAILED_ADDR \<or> u32 (b + db_sec_size db) < a \<or> node_len n = 0
        then Some (FAILED_ADDR, db) else Some (a, db)) Q)"
    by (rule holds_mono [OF find]) (use ne nl xs Q us(2) in auto)
  show ?thesis
    unfolding get_next_kv_addr_def info geo kv us(2) if_not_P [OF info(2)] if_P [OF kv(2)] holds_if holds_bind
    using xs ne' find' Q nl by (auto simp: us sub SECTOR_HDR_DATA_SIZE_def intro: holds_mono split: if_splits)
qed



section \<open>Walking over the nodes of a sector\<close>

text \<open>The walk as a function on the list of nodes: whether the visitor stopped, the structure and the
  argument it leaves.\<close>

fun visit_nodes ::
  "(fdb_kv \<Rightarrow> 'x \<Rightarrow> bool \<times> 'x) \<Rightarrow> fdb_kv \<Rightarrow> addr \<Rightarrow> kv_node list \<Rightarrow> 'x \<Rightarrow> bool \<times> fdb_kv \<times> 'x"
where
  "visit_nodes visit kv a [] x = (False, kv\<lparr>kv_addr_start := FAILED_ADDR\<rparr>, x)"
| "visit_nodes visit kv a (n # ns) x =
     (let kv' = node_kv kv a n in
      case visit kv' x of (stop, x') \<Rightarrow>
        if stop then (True, kv', x') else visit_nodes visit kv' (a + node_len n) ns x')"

lemma node_kv_addr [simp]:
  "kv_addr_start (node_kv kv a n) = a" "kv_crc_is_ok (node_kv kv a n)" "kv_len (node_kv kv a n) = node_len n"
  "kv_status (node_kv kv a n) = nd_status n" "kv_name_len (node_kv kv a n) = length (nd_key n)"
  "kv_value_len (node_kv kv a n) = length (nd_val n)" "kv_addr_value (node_kv kv a n) = a + 24 + length (nd_key n)"
  "kv_name (node_kv kv a n) = node_name (nd_key n) (kv_name kv)"
  by (simp_all add: node_kv_def)

text \<open>A callback that only looks at the node and its argument.\<close>

locale node_reader =
  fixes cb :: "'x kv_callback"
    and visit :: "fdb_kv \<Rightarrow> 'x \<Rightarrow> bool \<times> 'x"
  assumes cb_visit: "cb kv x db = Some (fst (visit kv x), snd (visit kv x), db)"
begin

lemma walk_step:
  assumes st: "stored s m f db" and sh: "sector_holds s f b sst d (pre @ n # post)" and b: "b mod s = 0" "b < m"
    and info: "sec_addr sector = b" "sec_store sector \<noteq> FDB_SECTOR_STORE_EMPTY"
    and ca: "end_cached db b (pre @ n # post)"
    and v: "visit (node_kv kv (b + 16 + nodes_len pre) n) x = (stop, x')"
    and Q: "\<And>db'. stored s m f db' \<Longrightarrow> io_frame db db' \<Longrightarrow> stop \<Longrightarrow>
        Q (True, node_kv kv (b + 16 + nodes_len pre) n, x', db')"
      "\<And>db'. stored s m f db' \<Longrightarrow> io_frame db db' \<Longrightarrow> \<not> stop \<Longrightarrow> post = [] \<Longrightarrow>
        Q (False, (node_kv kv (b + 16 + nodes_len pre) n)\<lparr>kv_addr_start := FAILED_ADDR\<rparr>, x', db')"
      "\<And>db'. stored s m f db' \<Longrightarrow> io_frame db db' \<Longrightarrow> \<not> stop \<Longrightarrow> post \<noteq> [] \<Longrightarrow>
        holds (kv_iterator_sector db' sector ((node_kv kv (b + 16 + nodes_len pre) n)
          \<lparr>kv_addr_start := b + 16 + nodes_len pre + node_len n\<rparr>) x' cb) Q"
  shows "holds (kv_iterator_sector db sector (kv\<lparr>kv_addr_start := b + 16 + nodes_len pre\<rparr>) x cb) Q"
proof -
  let ?a = "b + 16 + nodes_len pre"
  note i = storedD [OF st] and bd = sector_bounds [OF st sh b]
  have n: "node_at f ?a n" "node_ok n" using sh by (auto simp: sector_holds_def nodes_at_append)
  have sec: "in_sector s m ?a (node_len n)"
    using in_sector_at [OF i(4) b, of "16 + nodes_len pre" "node_len n"] bd(2) by (simp add: log_end_def add.assoc)
  have ne: "?a + node_len n \<noteq> FAILED_ADDR" using bd stored_top [OF st] by (simp add: FAILED_ADDR_def log_end_def)
  have next1: "holds (get_next_kv_addr db1 sector (node_kv kv ?a n))
     (\<lambda>r. holds (case r of (a, db) \<Rightarrow> if a \<noteq> FAILED_ADDR
        then kv_iterator_sector db sector ((node_kv kv ?a n)\<lparr>kv_addr_start := a\<rparr>) x' cb
        else Some (False, (node_kv kv ?a n)\<lparr>kv_addr_start := a\<rparr>, x', db)) Q)"
    if d: "stored s m f db1" "io_frame db db1" and ns: "\<not> stop" for db1
    by (rule get_next_node [OF d(1) sh b info])
       (use ca Q ns ne d end_cached_frame [OF d(2)] io_frame_trans [OF d(2)] in auto)
  show ?thesis
    by (subst kv_iterator_sector.simps, unfold holds_bind, rule read_kv_node [OF st n sec])
       (use next1 Q(1) in \<open>auto simp: cb_visit v cong: if_cong\<close>)
qed

lemma walk_sector:
  assumes "stored s m f db" "sector_holds s f b sst d (pre @ n # post)" "b mod s = 0" "b < m"
    and "sec_addr sector = b" "sec_store sector \<noteq> FDB_SECTOR_STORE_EMPTY" "end_cached db b (pre @ n # post)"
    and "\<And>db' stop kv' x'. stored s m f db' \<Longrightarrow> io_frame db db' \<Longrightarrow>
      visit_nodes visit kv (b + 16 + nodes_len pre) (n # post) x = (stop, kv', x') \<Longrightarrow> Q (stop, kv', x', db')"
  shows "holds (kv_iterator_sector db sector (kv\<lparr>kv_addr_start := b + 16 + nodes_len pre\<rparr>) x cb) Q"
  using assms
proof (induction post arbitrary: pre n kv x db)
  case Nil
  obtain stop x' where v: "visit (node_kv kv (b + 16 + nodes_len pre) n) x = (stop, x')" by fastforce
  show ?case by (rule walk_step [OF Nil.prems(1-7) v]) (use Nil.prems(8) v in auto)
next
  case (Cons n' post)
  obtain stop x' where v: "visit (node_kv kv (b + 16 + nodes_len pre) n) x = (stop, x')" by fastforce
  show ?case
  proof (rule walk_step [OF Cons.prems(1-7) v], goal_cases)
    case (1 db')
    then show ?case using Cons.prems(8) v by auto
  next
    case (3 db')
    have "holds (kv_iterator_sector db' sector ((node_kv kv (b + 16 + nodes_len pre) n)
        \<lparr>kv_addr_start := b + 16 + nodes_len (pre @ [n])\<rparr>) x' cb) Q"
      by (rule Cons.IH) (use 3 Cons.prems v end_cached_frame [OF 3(2)] io_frame_trans [OF 3(2)] in \<open>auto simp: add.assoc\<close>)
    then show ?case by (simp add: add.assoc)
  qed simp
qed

end

end
