(* ===== verification/KvDb.thy ===== *)
theory KvDb
  imports KvSector
begin

text \<open>
  The whole key-value database as a list of sectors with their nodes. \<open>kv_rel\<close> is the invariant that
  ties the bytes, the sector cache and this list together; reading a sector and iterating over all nodes
  keep it and compute the same as on the list.
\<close>

section \<open>The sector cache as a table\<close>

lemma sector_cache_index_Some:
  "sector_cache_index t a k = Some i \<Longrightarrow> \<exists>j < length t. i = k + j \<and> sec_addr (t ! j) = a"
proof (induction t arbitrary: k)
  case (Cons e t)
  show ?case
  proof (cases "sec_addr e = a")
    case True
    with Cons.prems show ?thesis by auto
  next
    case False
    with Cons.prems have "sector_cache_index t a (Suc k) = Some i" by simp
    from Cons.IH [OF this] obtain j where "j < length t" "i = Suc k + j" "sec_addr (t ! j) = a" by auto
    then show ?thesis by (intro exI [of _ "Suc j"]) simp
  qed
qed simp

lemma sector_cache_index_None: "sector_cache_index t a k = None \<longleftrightarrow> a \<notin> sec_addr ` set t"
  by (induction t arbitrary: k) auto

lemma get_sector_Some:
  assumes "get_sector_from_cache db a = Some i"
  shows "i < length (kvdb_sector_cache_table db)" "sec_addr (kvdb_sector_cache_table db ! i) = a"
  using sector_cache_index_Some [OF assms [unfolded get_sector_from_cache_def]] by auto

lemma update_scan_found:
  "sector_cache_index t a k = Some i \<Longrightarrow> update_sector_cache_scan t a k e = Inl i"
  by (induction t arbitrary: k e) (auto split: if_splits)

lemma update_scan_free:
  "sector_cache_index t a k = None \<Longrightarrow> \<exists>i. update_sector_cache_scan t a k e = Inr i \<and>
     (i = e \<or> (\<exists>j < length t. i = k + j \<and> sec_addr (t ! j) = FDB_DATA_UNUSED))"
proof (induction t arbitrary: k e)
  case (Cons x t)
  let ?e = "if sec_addr x = FDB_DATA_UNUSED then k else e"
  from Cons.prems have ne: "sec_addr x \<noteq> a" and "sector_cache_index t a (Suc k) = None" by (auto split: if_splits)
  from Cons.IH [OF this(2), of ?e] obtain i where i: "update_sector_cache_scan t a (Suc k) ?e = Inr i"
    "i = ?e \<or> (\<exists>j < length t. i = Suc k + j \<and> sec_addr (t ! j) = FDB_DATA_UNUSED)" by blast
  from i(2) consider "i = e" | "sec_addr x = FDB_DATA_UNUSED" "i = k"
    | j where "j < length t" "i = Suc k + j" "sec_addr (t ! j) = FDB_DATA_UNUSED" by (auto split: if_splits)
  then have "i = e \<or> (\<exists>j < length (x # t). i = k + j \<and> sec_addr ((x # t) ! j) = FDB_DATA_UNUSED)"
  proof cases
    case 2
    then show ?thesis by (intro disjI2 exI [of _ 0]) simp
  next
    case (3 j)
    then show ?thesis by (intro disjI2 exI [of _ "Suc j"]) simp
  qed simp
  with ne i(1) show ?case by simp
qed simp


section \<open>The abstract database\<close>

text \<open>
  A table is right about the sectors \<open>L\<close>: every entry in use describes one of them, none twice.
\<close>

type_synonym sector_log = "fdb_sector_store_status \<times> fdb_sector_dirty_status \<times> kv_node list"

definition entry_ok :: "nat \<Rightarrow> nat \<Rightarrow> (nat \<Rightarrow> sector_log) \<Rightarrow> kvdb_sec_info \<Rightarrow> bool" where
  "entry_ok s m L e \<longleftrightarrow> sec_addr e = FDB_DATA_UNUSED \<or>
     (\<exists>i < m div s. case L i of (st, d, ns) \<Rightarrow> sec_info_ok s (i * s) st d ns e)"

definition once_each :: "kvdb_sec_info list \<Rightarrow> bool" where
  "once_each t \<longleftrightarrow> (\<forall>i < length t. \<forall>j < length t. sec_addr (t ! i) = sec_addr (t ! j) \<longrightarrow> i = j
     \<or> sec_addr (t ! i) = FDB_DATA_UNUSED)"

definition table_ok :: "nat \<Rightarrow> nat \<Rightarrow> (nat \<Rightarrow> sector_log) \<Rightarrow> kvdb_sec_info list \<Rightarrow> bool" where
  "table_ok s m L t \<longleftrightarrow> length t = FDB_SECTOR_CACHE_TABLE_SIZE \<and> (\<forall>e \<in> set t. entry_ok s m L e) \<and> once_each t"

definition sectors_hold :: "nat \<Rightarrow> nat \<Rightarrow> (addr \<Rightarrow> byte) \<Rightarrow> (nat \<Rightarrow> sector_log) \<Rightarrow> bool" where
  "sectors_hold s m f L \<longleftrightarrow> (\<forall>i < m div s. case L i of (st, d, ns) \<Rightarrow> sector_holds s f (i * s) st d ns)"

definition kv_rel :: "nat \<Rightarrow> nat \<Rightarrow> (addr \<Rightarrow> byte) \<Rightarrow> (nat \<Rightarrow> sector_log) \<Rightarrow> fdb_kvdb \<Rightarrow> bool" where
  "kv_rel s m f L db \<longleftrightarrow> stored s m f db \<and> sectors_hold s m f L \<and> table_ok s m L (kvdb_sector_cache_table db)
     \<and> db_oldest_addr db < m \<and> db_oldest_addr db mod s = 0"

lemma kv_relD:
  assumes "kv_rel s m f L db"
  shows "stored s m f db" "sectors_hold s m f L" "table_ok s m L (kvdb_sector_cache_table db)"
    "db_oldest_addr db < m" "db_oldest_addr db mod s = 0"
  using assms by (simp_all add: kv_rel_def)

lemma sector_addr:
  assumes "stored s m f db" "i < m div s"
  shows "i * s mod s = 0" "i * s < m" "i * s div s = i" "i * s \<noteq> FDB_DATA_UNUSED" "i * s + s \<le> m"
    "i * s \<noteq> FAILED_ADDR"
proof -
  note st = storedD [OF assms(1)]
  show "i * s mod s = 0" "i * s div s = i" using st(3) by simp_all
  obtain q where q: "m = q * s" using st(4) by (metis dvdE mult.commute)
  then have "Suc i \<le> q" using assms(2) st(3) by simp
  then have "Suc i * s \<le> m" unfolding q by (rule mult_le_mono1)
  then show "i * s < m" "i * s + s \<le> m" using st(3) by simp_all
  then show "i * s \<noteq> FDB_DATA_UNUSED" "i * s \<noteq> FAILED_ADDR"
    using stored_top [OF assms(1)] by (simp_all add: FDB_DATA_UNUSED_def FAILED_ADDR_def)
qed

lemma cached_entry:
  assumes "kv_rel s m f L db" "get_sector_from_cache db (i * s) = Some k" "i < m div s" "L i = (st, d, ns)"
  shows "sec_info_ok s (i * s) st d ns (kvdb_sector_cache_table db ! k)"
proof -
  note r = kv_relD [OF assms(1)] and g = get_sector_Some [OF assms(2)]
  have e: "entry_ok s m L (kvdb_sector_cache_table db ! k)" using r(3) g(1) by (simp add: table_ok_def)
  then obtain j where j: "j < m div s" "case L j of (st, d, ns) \<Rightarrow> sec_info_ok s (j * s) st d ns (kvdb_sector_cache_table db ! k)"
    using g(2) sector_addr(4) [OF r(1) assms(3)] by (auto simp: entry_ok_def)
  then have "j * s = i * s" using g(2) by (auto simp: sec_info_ok_def split: prod.splits)
  then have "j = i" using storedD(3) [OF r(1)] by simp
  with j(2) assms(4) show ?thesis by simp
qed

lemma end_cached_rel:
  "kv_rel s m f L db \<Longrightarrow> i < m div s \<Longrightarrow> L i = (st, d, ns) \<Longrightarrow> end_cached db (i * s) ns"
  using cached_entry [of s m f L db i _ st d ns] by (auto simp: end_cached_def sec_info_ok_def split: option.split)


lemma table_put:
  assumes "table_ok s m L t" "k < length t" "entry_ok s m L e"
    and "sec_addr (t ! k) = sec_addr e \<or> sec_addr e \<notin> sec_addr ` set t"
  shows "table_ok s m L (t[k := e])"
proof -
  have "entry_ok s m L e'" if "e' \<in> set (t[k := e])" for e'
    using that assms(1,3) set_update_subset_insert [of t k e] by (auto simp: table_ok_def)
  moreover have "once_each (t[k := e])"
    unfolding once_each_def
  proof (intro allI impI)
    fix i j
    assume ij: "i < length (t[k := e])" "j < length (t[k := e])" and eq: "sec_addr (t[k := e] ! i) = sec_addr (t[k := e] ! j)"
    have in_t: "sec_addr (t ! l) \<in> sec_addr ` set t" if "l < length t" for l using that by simp
    have o: "sec_addr (t ! i) = sec_addr (t ! j) \<Longrightarrow> i = j \<or> sec_addr (t ! i) = FDB_DATA_UNUSED"
      using assms(1) ij by (simp add: table_ok_def once_each_def)
    show "i = j \<or> sec_addr (t[k := e] ! i) = FDB_DATA_UNUSED"
      by (cases "i = k"; cases "j = k") (use ij eq assms(4) o in_t [of i] in_t [of j] in auto)
  qed
  ultimately show ?thesis using assms(1) by (simp add: table_ok_def)
qed

lemma update_sector_cache_rel:
  assumes "table_ok s m L (kvdb_sector_cache_table db)" "entry_ok s m L e" "sec_check_ok e" "sec_addr e \<noteq> FDB_DATA_UNUSED"
  shows "table_ok s m L (kvdb_sector_cache_table (update_sector_cache db e))"
proof (cases "sector_cache_index (kvdb_sector_cache_table db) (sec_addr e) 0")
  case None
  note no = None [unfolded sector_cache_index_None]
  from update_scan_free [OF None, of FDB_SECTOR_CACHE_TABLE_SIZE] obtain k where
    k: "update_sector_cache_scan (kvdb_sector_cache_table db) (sec_addr e) 0 FDB_SECTOR_CACHE_TABLE_SIZE = Inr k"
    "k = FDB_SECTOR_CACHE_TABLE_SIZE \<or> k < length (kvdb_sector_cache_table db)" by auto
  show ?thesis
    using k no assms table_put [OF assms(1) _ assms(2), of k]
    by (auto simp: update_sector_cache_def Let_def)
next
  case (Some k)
  have k: "k < length (kvdb_sector_cache_table db)" "sec_addr (kvdb_sector_cache_table db ! k) = sec_addr e"
    using sector_cache_index_Some [OF Some] by auto
  show ?thesis
    using assms table_put [OF assms(1) k(1) assms(2)] k update_scan_found [OF Some]
    by (simp add: update_sector_cache_def Let_def)
qed

lemma kv_rel_update_sector_cache:
  assumes "kv_rel s m f L db" "i < m div s" "L i = (st, d, ns)" "sec_info_ok s (i * s) st d ns e"
  shows "kv_rel s m f L (update_sector_cache db e)"
proof -
  note r = kv_relD [OF assms(1)]
  have "entry_ok s m L e" using assms(2-4) by (auto simp: entry_ok_def intro!: exI [of _ i])
  moreover have "sec_check_ok e" "sec_addr e \<noteq> FDB_DATA_UNUSED"
    using assms(4) sector_addr(4) [OF r(1) assms(2)] by (simp_all add: sec_info_ok_def)
  ultimately have "table_ok s m L (kvdb_sector_cache_table (update_sector_cache db e))"
    by (rule update_sector_cache_rel [OF r(3)])
  moreover have "db_oldest_addr (update_sector_cache db e) = db_oldest_addr db"
    by (simp add: update_sector_cache_def Let_def split: sum.split)
  ultimately show ?thesis using r by (simp add: kv_rel_def)
qed

lemma kv_rel_frame: "kv_rel s m f L db \<Longrightarrow> stored s m f db' \<Longrightarrow> io_frame db db' \<Longrightarrow> kv_rel s m f L db'"
  by (simp add: kv_rel_def io_frame_kv io_frameD)


section \<open>Reading a sector header\<close>

lemma decode_hdr:
  assumes "hdr_at f b st d"
  shows "sh_magic (sector_hdr_of (rd f b 16)) = SECTOR_MAGIC_WORD"
    "sh_combined (sector_hdr_of (rd f b 16)) = SECTOR_NOT_COMBINED"
    "store_status_of (fdb_get_status FDB_WRITE_GRAN (sh_store (sector_hdr_of (rd f b 16))) FDB_SECTOR_STORE_STATUS_NUM) = st"
    "dirty_status_of (fdb_get_status FDB_WRITE_GRAN (sh_dirty (sector_hdr_of (rd f b 16))) FDB_SECTOR_DIRTY_STATUS_NUM) = d"
proof -
  have m: "take 4 (drop 4 (rd f b 16)) = rd f (b + 4) 4" "take 4 (drop 8 (rd f b 16)) = rd f (b + 8) 4"
    "take 1 (rd f b 16) = [f b]" "take 1 (drop 1 (rd f b 16)) = [f (b + 1)]"
    by (simp_all add: take_rd drop_rd)
  show "sh_magic (sector_hdr_of (rd f b 16)) = SECTOR_MAGIC_WORD" "sh_combined (sector_hdr_of (rd f b 16)) = SECTOR_NOT_COMBINED"
    using assms by (simp_all add: sector_hdr_of_def m hdr_at_def SECTOR_MAGIC_WORD_def SECTOR_NOT_COMBINED_def)
  show "store_status_of (fdb_get_status FDB_WRITE_GRAN (sh_store (sector_hdr_of (rd f b 16))) FDB_SECTOR_STORE_STATUS_NUM) = st"
    "dirty_status_of (fdb_get_status FDB_WRITE_GRAN (sh_dirty (sector_hdr_of (rd f b 16))) FDB_SECTOR_DIRTY_STATUS_NUM) = d"
    using assms store_enum.stored_byte dirty_enum.stored_byte
    by (simp_all add: sector_hdr_of_def m hdr_at_def FDB_WRITE_GRAN_def status_byte_def)
qed

lemma read_sector_plain:
  assumes r: "kv_rel s m f L db" and i: "i < m div s" "L i = (st, d, ns)"
    and Q: "\<And>sec' db'. sec_info_ok s (i * s) st d ns sec' \<Longrightarrow> kv_rel s m f L db' \<Longrightarrow> kv_frame db db' \<Longrightarrow>
       kvdb_kv_cache_table db' = kvdb_kv_cache_table db \<Longrightarrow> Q (FDB_NO_ERR, sec', db')"
  shows "holds (kv_read_sector_info db (i * s) sector False) Q"
proof -
  note rel = kv_relD [OF r] and sa = sector_addr [OF kv_relD(1) [OF r] i(1)] and sd = storedD [OF kv_relD(1) [OF r]]
  have sh: "sector_holds s f (i * s) st d ns" using rel(2) i by (auto simp: sectors_hold_def split: prod.splits)
  then have h: "hdr_at f (i * s) st d" "16 \<le> s" by (auto simp: sector_holds_def)
  have geo: "db_sec_size db = s" using rel(1) by simp
  show ?thesis
  proof (cases "get_sector_from_cache db (i * s)")
    case (Some k)
    show ?thesis
      using Some cached_entry [OF r Some i] Q [OF _ r kv_frame_io] sd(3) by (simp add: kv_read_sector_info_def geo)
  next
    case None
    have sec: "in_sector s m (i * s) 16" by (rule in_sector_base [OF sd(4) sa(1,2) h(2)])
    show ?thesis
      using None sd(3)
      apply (simp add: kv_read_sector_info_def geo)
      apply (rule stored_read [OF rel(1) sec])
      apply (simp add: decode_hdr [OF h(1)] Let_def get_sector_from_cache_def io_frame_kv)
      apply (rule Q)
      subgoal for _ db1 by (simp add: sec_info_ok_def)
      subgoal for _ db1
        by (rule kv_rel_update_sector_cache [OF kv_rel_frame [OF r] i]) (simp_all add: sec_info_ok_def)
      subgoal by (simp add: kv_frame_io)
      subgoal by (simp add: io_frame_kv)
      done
  qed
qed



section \<open>The ring of sectors\<close>

text \<open>The sectors in the order of the iterators: from the oldest one on, around the end.\<close>

definition ring :: "nat \<Rightarrow> nat \<Rightarrow> nat \<Rightarrow> nat list" where
  "ring q start k = map (\<lambda>j. (start + j) mod q) [k..<q]"

lemma ring_Cons: "k < q \<Longrightarrow> ring q start k = (start + k) mod q # ring q start (Suc k)"
  by (simp add: ring_def upt_conv_Cons)

lemma ring_Nil [simp]: "q \<le> k \<Longrightarrow> ring q start k = []"
  by (simp add: ring_def)

lemma length_ring [simp]: "length (ring q start k) = q - k"
  by (simp add: ring_def)

lemma set_ring:
  assumes "start < q"
  shows "set (ring q start 0) = {..<q}"
proof
  show "set (ring q start 0) \<subseteq> {..<q}" using assms by (auto simp: ring_def)
  show "{..<q} \<subseteq> set (ring q start 0)"
  proof
    fix i
    assume "i \<in> {..<q}"
    then have i: "i < q" by simp
    show "i \<in> set (ring q start 0)"
    proof (cases "start \<le> i")
      case True
      then have "i = (start + (i - start)) mod q" "i - start < q" using i by simp_all
      then show ?thesis unfolding ring_def by (auto intro: image_eqI [of _ _ "i - start"])
    next
      case False
      then have "(start + (q + i - start)) mod q = (q + i) mod q" using assms by simp
      also have "\<dots> = i" using i by simp
      finally have "i = (start + (q + i - start)) mod q" by simp
      moreover have "q + i - start < q" using False assms by simp
      ultimately show ?thesis unfolding ring_def by (auto intro: image_eqI [of _ _ "q + i - start"])
    qed
  qed
qed

lemma distinct_ring: "start < q \<Longrightarrow> distinct (ring q start 0)"
  using set_ring [of start q] by (intro card_distinct) simp

text \<open>The address of the next sector, while not all have been visited.\<close>

lemma next_sector:
  assumes st: "stored s m f db" and big: "m + s < 2 ^ 32"
    and info: "sec_combined sec = SECTOR_NOT_COMBINED" "sec_addr sec = i * s" and i: "i < m div s" and k: "k \<le> m div s"
  shows "kv_get_next_sector_addr db sec (k * s) = (if k < m div s then (Suc i mod (m div s)) * s else FAILED_ADDR)"
proof -
  note sd = storedD [OF st]
  obtain q where q: "m = q * s" using sd(4) by (metis dvdE mult.commute)
  then have mq: "m div s = q" using sd(3) by simp
  have geo: "db_sec_size db = s" "db_max_size db = m" using st by simp_all
  have ks: "k * s + s \<le> m + s" using k mq q by simp
  have u1: "u32 (k * s + s) = k * s + s" using ks big by (simp add: u32_def)
  have c1: "k * s + s \<le> m \<longleftrightarrow> k < q"
  proof -
    have "k * s + s = Suc k * s" by simp
    then have "k * s + s \<le> m \<longleftrightarrow> Suc k \<le> q" using sd(3) q by (metis mult_le_cancel2)
    then show ?thesis by auto
  qed
  have i': "Suc i \<le> q" using i mq by simp
  have u2: "u32 (i * s + s) = Suc i * s"
  proof -
    have "Suc i * s \<le> m" unfolding q using i' by (rule mult_le_mono1)
    then show ?thesis using big by (simp add: u32_def)
  qed
  have c2: "Suc i * s < m \<longleftrightarrow> Suc i < q" using q sd(3) by (metis mult_less_cancel2)
  have e: "Suc i mod q = (if Suc i < q then Suc i else 0)" using i' by auto
  show ?thesis
    unfolding kv_get_next_sector_addr_def info geo Let_def mq e
    using c2 by (auto simp: u1 u2 c1)
qed



section \<open>Iterating over all nodes\<close>

text \<open>The iteration as a function on the list of sectors.\<close>

fun visit_sectors ::
  "(fdb_kv \<Rightarrow> 'x \<Rightarrow> bool \<times> 'x) \<Rightarrow> fdb_kv \<Rightarrow> nat \<Rightarrow> (nat \<Rightarrow> sector_log) \<Rightarrow> nat list \<Rightarrow> 'x \<Rightarrow> bool \<times> fdb_kv \<times> 'x"
where
  "visit_sectors visit kv s L [] x = (False, kv, x)"
| "visit_sectors visit kv s L (i # is) x =
     (case L i of (st, d, ns) \<Rightarrow>
        if ns = [] then visit_sectors visit kv s L is x
        else case visit_nodes visit kv (i * s + 16) ns x of (stop, kv', x') \<Rightarrow>
          if stop then (True, kv', x') else visit_sectors visit kv' s L is x')"

lemma sectors_holdD:
  "sectors_hold s m f L \<Longrightarrow> i < m div s \<Longrightarrow> L i = (st, d, ns) \<Longrightarrow> sector_holds s f (i * s) st d ns"
  by (auto simp: sectors_hold_def split: prod.splits)

context node_reader
begin

lemma iterate_sector:
  assumes r: "kv_rel s m f L db" and i: "i < m div s" "L i = (st, d, ns)" "sec_info_ok s (i * s) st d ns sec"
    and Q: "\<And>stop kv' x' db'. kv_rel s m f L db' \<Longrightarrow> io_frame db db' \<Longrightarrow>
      (stop, kv', x') = (if ns = [] then (False, kv, x) else visit_nodes visit kv (i * s + 16) ns x) \<Longrightarrow> Q (stop, kv', x', db')"
  shows "holds (if sec_store sec = FDB_SECTOR_STORE_USING \<or> sec_store sec = FDB_SECTOR_STORE_FULL
     then kv_iterator_sector db sec (kv\<lparr>kv_addr_start := u32 (sec_addr sec + SECTOR_HDR_DATA_SIZE)\<rparr>) x cb
     else Some (False, kv, x, db)) Q"
proof -
  note rel = kv_relD [OF r] and sa = sector_addr [OF kv_relD(1) [OF r] i(1)]
  have sh: "sector_holds s f (i * s) st d ns" by (rule sectors_holdD [OF rel(2) i(1,2)])
  have sto: "sec_store sec = st" "sec_addr sec = i * s" using i(3) by (simp_all add: sec_info_ok_def)
  show ?thesis
  proof (cases ns)
    case Nil
    with sh have "st = FDB_SECTOR_STORE_EMPTY" by (simp add: sector_holds_def)
    then show ?thesis using sto Nil Q [OF r io_frame_refl, of False kv x] by simp
  next
    case (Cons n post)
    with sh have st: "st = FDB_SECTOR_STORE_USING" by (simp add: sector_holds_def)
    have "16 \<le> s" using sh by (simp add: sector_holds_def)
    then have u: "u32 (i * s + SECTOR_HDR_DATA_SIZE) = i * s + 16 + nodes_len []"
      using stored_u32_le [OF rel(1), of "i * s + 16"] sa(5) by (simp add: SECTOR_HDR_DATA_SIZE_def)
    have "holds (kv_iterator_sector db sec (kv\<lparr>kv_addr_start := i * s + 16 + nodes_len []\<rparr>) x cb) Q"
      by (rule walk_sector [OF rel(1), where pre = "[]" and n = n and post = post])
         (use sh sa sto st Cons end_cached_rel [OF r i(1,2)] Q kv_rel_frame [OF r] in auto)
    then show ?thesis using sto st by (simp add: u)
  qed
qed

lemma iterate_loop:
  assumes "kv_rel s m f L db" "m + s < 2 ^ 32" "start < m div s" "k < m div s"
    and "\<And>stop kv' x' db'. kv_rel s m f L db' \<Longrightarrow> kv_frame db db' \<Longrightarrow> kvdb_kv_cache_table db' = kvdb_kv_cache_table db \<Longrightarrow>
      visit_sectors visit kv s L (ring (m div s) start k) x = (stop, kv', x') \<Longrightarrow> Q (kv', x', db')"
  shows "holds (kv_iterator_loop db sector ((start + k) mod (m div s) * s) (k * s) kv x (Some cb)) Q"
  using assms
proof (induction "m div s - k" arbitrary: k db sector kv x)
  case 0
  then show ?case by simp
next
  case (Suc rest)
  let ?q = "m div s"
  let ?i = "(start + k) mod ?q"
  note rel = kv_relD [OF Suc.prems(1)] and sd = storedD [OF kv_relD(1) [OF Suc.prems(1)]]
  have q: "0 < ?q" using Suc.prems(4) by simp
  then have i: "?i < ?q" by simp
  obtain st d ns where L: "L ?i = (st, d, ns)" by (cases "L ?i")
  have geo: "db_sec_size db = s" using rel(1) by simp
  have km: "k * s + s \<le> m"
  proof -
    have "Suc k * s \<le> ?q * s" using Suc.prems(4) by (intro mult_le_mono1) simp
    then show ?thesis using sd(4) by simp
  qed
  have tl: "u32 (k * s + s) = Suc k * s" using km sd(5) by (simp add: u32_def)
  have after: "holds (if stop then Some (kv', x', db2) else
        let a = kv_get_next_sector_addr db2 sec (Suc k * s) in
        if a \<noteq> FAILED_ADDR then kv_iterator_loop db2 sec a (Suc k * s) kv' x' (Some cb) else Some (kv', x', db2)) Q"
    if info: "sec_info_ok s (?i * s) st d ns sec" and r2: "kv_rel s m f L db2" "kv_frame db db2"
      "kvdb_kv_cache_table db2 = kvdb_kv_cache_table db"
      and v: "(stop, kv', x') = (if ns = [] then (False, kv, x) else visit_nodes visit kv (?i * s + 16) ns x)"
    for sec db2 stop kv' x'
  proof (cases stop)
    case True
    with v L Suc.prems(4) have "visit_sectors visit kv s L (ring ?q start k) x = (True, kv', x')"
      by (auto simp: ring_Cons split: if_splits prod.splits)
    with Suc.prems(5) [OF r2] True show ?thesis by simp
  next
    case False
    with v L Suc.prems(4) have vs: "visit_sectors visit kv s L (ring ?q start k) x
        = visit_sectors visit kv' s L (ring ?q start (Suc k)) x'"
      by (auto simp: ring_Cons split: if_splits prod.splits)
    have nx: "kv_get_next_sector_addr db2 sec (Suc k * s) = (if Suc k < ?q then (Suc ?i mod ?q) * s else FAILED_ADDR)"
      by (rule next_sector [OF kv_relD(1) [OF r2(1)] Suc.prems(2) _ _ i])
         (use info Suc.prems(4) in \<open>auto simp: sec_info_ok_def\<close>)
    show ?thesis
    proof (cases "Suc k < ?q")
      case True
      have ia: "Suc ?i mod ?q = (start + Suc k) mod ?q" by (simp add: mod_Suc_eq)
      have "(start + Suc k) mod ?q * s \<noteq> FAILED_ADDR"
        by (rule sector_addr(6) [OF rel(1)]) (use q in simp)
      moreover have "holds (kv_iterator_loop db2 sec ((start + Suc k) mod ?q * s) (Suc k * s) kv' x' (Some cb)) Q"
        by (rule Suc.hyps(1)) (use Suc.hyps(2) True Suc.prems r2 vs kv_frame_trans [OF r2(2)] in auto)
      ultimately show ?thesis using False True nx ia by simp
    next
      case c: False
      with vs have "visit_sectors visit kv s L (ring ?q start k) x = (False, kv', x')" by simp
      with Suc.prems(5) [OF r2] False c nx show ?thesis by simp
    qed
  qed
  have it: "holds (if sec_store sec = FDB_SECTOR_STORE_USING \<or> sec_store sec = FDB_SECTOR_STORE_FULL
     then kv_iterator_sector db1 sec (kv\<lparr>kv_addr_start := u32 (sec_addr sec + SECTOR_HDR_DATA_SIZE)\<rparr>) x cb
     else Some (False, kv, x, db1))
      (\<lambda>(stop, kv, x, db). holds (if stop then Some (kv, x, db) else
        let a = kv_get_next_sector_addr db sec (Suc k * s) in
        if a \<noteq> FAILED_ADDR then kv_iterator_loop db sec a (Suc k * s) kv x (Some cb) else Some (kv, x, db)) Q)"
    if info: "sec_info_ok s (?i * s) st d ns sec" and r1: "kv_rel s m f L db1" "kv_frame db db1"
      "kvdb_kv_cache_table db1 = kvdb_kv_cache_table db" for sec db1
  proof (rule iterate_sector [OF r1(1) i L info], goal_cases)
    case (1 stop kv' x' db')
    have "kvdb_kv_cache_table db' = kvdb_kv_cache_table db" using r1(3) io_frame_kv(2) [OF 1(2)] by simp
    from after [OF info 1(1) kv_frame_trans [OF r1(2) kv_frame_io [OF 1(2)]] this 1(3)]
    show ?case by (simp only: prod.case)
  qed
  show ?case
  proof (subst kv_iterator_loop.simps, unfold Let_def holds_bind geo tl,
      rule read_sector_plain [OF Suc.prems(1) i L], goal_cases)
    case (1 sec' db')
    from it [OF 1] show ?case by (simp add: split_def Let_def cong: if_cong)
  qed
qed

end

end
