(* ===== verification/KvFind.thy ===== *)
theory KvFind
  imports KvDb
begin

text \<open>
  Looking up a key without the cache is the search in the list of all nodes.
\<close>

section \<open>The list of all nodes\<close>

fun addr_nodes :: "addr \<Rightarrow> kv_node list \<Rightarrow> (addr \<times> kv_node) list" where
  "addr_nodes a [] = []"
| "addr_nodes a (n # ns) = (a, n) # addr_nodes (a + node_len n) ns"

definition log_nodes :: "sector_log \<Rightarrow> kv_node list" where
  "log_nodes l = snd (snd l)"

definition db_nodes :: "nat \<Rightarrow> (nat \<Rightarrow> sector_log) \<Rightarrow> nat list \<Rightarrow> (addr \<times> kv_node) list" where
  "db_nodes s L is = concat (map (\<lambda>i. addr_nodes (i * s + 16) (log_nodes (L i))) is)"

lemma db_nodes_simps [simp]:
  "db_nodes s L [] = []" "db_nodes s L (i # is) = addr_nodes (i * s + 16) (log_nodes (L i)) @ db_nodes s L is"
  by (simp_all add: db_nodes_def)

lemma find_append:
  "List.find P (xs @ ys) = (case List.find P xs of None \<Rightarrow> List.find P ys | Some x \<Rightarrow> Some x)"
  by (induction xs) auto

context node_reader
begin

lemma iterate_all:
  assumes r: "kv_rel s m f L db" and big: "m + s < 2 ^ 32"
    and Q: "\<And>stop kv' x' db'. kv_rel s m f L db' \<Longrightarrow> kv_frame db db' \<Longrightarrow> kvdb_kv_cache_table db' = kvdb_kv_cache_table db \<Longrightarrow>
      visit_sectors visit kv s L (ring (m div s) (db_oldest_addr db div s) 0) x = (stop, kv', x') \<Longrightarrow> Q (kv', x', db')"
  shows "holds (kv_iterator db kv x (Some cb)) Q"
proof -
  note rel = kv_relD [OF r] and sd = storedD [OF kv_relD(1) [OF r]]
  let ?o = "db_oldest_addr db div s"
  have o: "?o < m div s" using rel(4) sd(3,4) by (simp add: less_mult_imp_div_less)
  have "?o * s = db_oldest_addr db" using rel(5) by auto
  then have "((?o + 0) mod (m div s)) * s = db_oldest_addr db" using o by simp
  then show ?thesis
    using iterate_loop [OF r big o, where k = 0 and kv = kv and x = x and Q = Q] o Q
    by (simp add: kv_iterator_def)
qed

end


section \<open>Looking for a key\<close>

definition find_visit :: "byte list \<Rightarrow> fdb_kv \<Rightarrow> bool \<Rightarrow> bool \<times> bool" where
  "find_visit key kv found =
     (if strlen key = kv_name_len kv \<and> kv_crc_is_ok kv \<and> kv_status kv = FDB_KV_WRITE
         \<and> strncmp_eq (kv_name kv) key (strlen key)
      then (True, True) else (False, found))"

interpretation find_reader: node_reader "find_kv_cb key" "find_visit key" for key
  by unfold_locales (simp add: find_kv_cb_def find_visit_def Let_def)

definition live :: "byte list \<Rightarrow> kv_node \<Rightarrow> bool" where
  "live key n \<longleftrightarrow> nd_status n = FDB_KV_WRITE \<and> nd_key n = key"

lemma char_at_node_name:
  assumes "i < length key" "length key < 64"
  shows "char_at (node_name key old) i = key ! i"
proof -
  have "node_name key old ! i = key ! i"
    using assms by (simp add: node_name_def FDB_KV_NAME_MAX_def nth_append)
  moreover have "i < length (node_name key old)" using assms by (simp add: node_name_def)
  ultimately show ?thesis by (simp add: char_at_def)
qed

lemma node_name_matches:
  assumes "node_ok n" "length key = length (nd_key n)" "length (nd_key n) < 64"
  shows "strncmp_eq (node_name (nd_key n) old) key (length key) \<longleftrightarrow> nd_key n = key"
proof
  assume eq: "strncmp_eq (node_name (nd_key n) old) key (length key)"
  show "nd_key n = key"
  proof (rule nth_equalityI)
    show "length (nd_key n) = length key" using assms by simp
    fix i
    assume i: "i < length (nd_key n)"
    have "char_at (node_name (nd_key n) old) i = char_at key i"
      by (rule strncmp_eq_fromD [OF eq [unfolded strncmp_eq_def]])
         (use i assms in \<open>auto simp: char_at_node_name node_ok_def c_string_def list_all_length\<close>)
    with i assms show "nd_key n ! i = key ! i" by (simp add: char_at_node_name) (simp add: char_at_def)
  qed
next
  assume eq: "nd_key n = key"
  have "length key < 64" using assms(2,3) by simp
  then have "char_at (node_name key old) j = char_at key j" if "j < length key" for j
    using that by (simp add: char_at_node_name) (simp add: char_at_def)
  then show "strncmp_eq (node_name (nd_key n) old) key (length key)"
    unfolding eq strncmp_eq_def by (intro strncmp_eq_fromI) simp
qed

lemma find_visit_node:
  assumes "node_ok n" "c_string key" "length key < 64"
  shows "find_visit key (node_kv kv a n) found = (if live key n then (True, True) else (False, found))"
proof (cases "length key = length (nd_key n)")
  case True
  have "strncmp_eq (node_name (nd_key n) (kv_name kv)) key (length key) \<longleftrightarrow> nd_key n = key"
    by (rule node_name_matches) (use assms True in simp_all)
  with True assms(2) show ?thesis by (auto simp: find_visit_def live_def)
next
  case False
  with assms(2) show ?thesis by (auto simp: find_visit_def live_def)
qed

lemma visit_find_nodes:
  assumes "\<forall>n \<in> set ns. node_ok n" "c_string key" "length key < 64"
  shows "case List.find (\<lambda>(a, n). live key n) (addr_nodes a ns) of
      None \<Rightarrow> \<exists>kv'. visit_nodes (find_visit key) kv a ns x = (False, kv', x)
    | Some (b, n) \<Rightarrow> \<exists>kv0. visit_nodes (find_visit key) kv a ns x = (True, node_kv kv0 b n, True)"
  using assms(1)
proof (induction ns arbitrary: kv a)
  case (Cons n ns)
  then have n: "node_ok n" by simp
  have step: "visit_nodes (find_visit key) kv a (n # ns) x = (if live key n then (True, node_kv kv a n, True)
      else visit_nodes (find_visit key) (node_kv kv a n) (a + node_len n) ns x)"
    by (simp add: find_visit_node [OF n assms(2,3)] Let_def)
  show ?case
    unfolding step using Cons.IH [of "node_kv kv a n" "a + node_len n"] Cons.prems
    by (auto split: option.splits)
qed auto

lemma visit_find_sectors:
  assumes "\<forall>i \<in> set is. \<forall>n \<in> set (log_nodes (L i)). node_ok n" "c_string key" "length key < 64"
  shows "case List.find (\<lambda>(a, n). live key n) (db_nodes s L is) of
      None \<Rightarrow> \<exists>kv'. visit_sectors (find_visit key) kv s L is x = (False, kv', x)
    | Some (b, n) \<Rightarrow> \<exists>kv0. visit_sectors (find_visit key) kv s L is x = (True, node_kv kv0 b n, True)"
  using assms(1)
proof (induction "is" arbitrary: kv)
  case (Cons i "is")
  obtain st d ns where L: "L i = (st, d, ns)" by (cases "L i")
  have ns: "\<forall>n \<in> set ns. node_ok n" using Cons.prems L by (auto simp: log_nodes_def)
  show ?case
  proof (cases "List.find (\<lambda>(a, n). live key n) (addr_nodes (i * s + 16) ns)")
    case None
    then obtain kv' where "ns \<noteq> [] \<Longrightarrow> visit_nodes (find_visit key) kv (i * s + 16) ns x = (False, kv', x)"
      using visit_find_nodes [OF ns assms(2,3), of kv "i * s + 16" x] by auto
    with None Cons.IH [of kv] Cons.IH [of kv'] Cons.prems L show ?thesis
      by (cases "ns = []") (auto simp: log_nodes_def find_append split: option.splits)
  next
    case (Some p)
    then have "ns \<noteq> []" by auto
    with Some visit_find_nodes [OF ns assms(2,3), of kv "i * s + 16" x] L show ?thesis
      by (cases p) (auto simp: log_nodes_def find_append split: option.splits)
  qed
qed simp


lemma nodes_at_ok: "nodes_at f a ns \<Longrightarrow> n \<in> set ns \<Longrightarrow> node_ok n"
  by (induction ns arbitrary: a) auto

lemma sectors_nodes_ok: "sectors_hold s m f L \<Longrightarrow> i < m div s \<Longrightarrow> n \<in> set (log_nodes (L i)) \<Longrightarrow> node_ok n"
  using sectors_holdD [of s m f L i] by (cases "L i") (auto simp: log_nodes_def sector_holds_def intro: nodes_at_ok)

text \<open>All nodes of the database in the order of the iteration.\<close>

definition all_nodes :: "nat \<Rightarrow> nat \<Rightarrow> addr \<Rightarrow> (nat \<Rightarrow> sector_log) \<Rightarrow> (addr \<times> kv_node) list" where
  "all_nodes s m oldest L = db_nodes s L (ring (m div s) (oldest div s) 0)"

definition first_live :: "byte list \<Rightarrow> (addr \<times> kv_node) list \<Rightarrow> (addr \<times> kv_node) option" where
  "first_live key ps = List.find (\<lambda>(a, n). live key n) ps"

lemma find_no_cache_ok:
  assumes r: "kv_rel s m f L db" and big: "m + s < 2 ^ 32" and key: "c_string key" "length key < 64"
    and none: "\<And>kv' db'. first_live key (all_nodes s m (db_oldest_addr db) L) = None \<Longrightarrow> kv_rel s m f L db' \<Longrightarrow>
        kv_frame db db' \<Longrightarrow> kvdb_kv_cache_table db' = kvdb_kv_cache_table db \<Longrightarrow> Q (False, kv', db')"
    and some: "\<And>a n kv0 db'. first_live key (all_nodes s m (db_oldest_addr db) L) = Some (a, n) \<Longrightarrow> kv_rel s m f L db' \<Longrightarrow>
        kv_frame db db' \<Longrightarrow> kvdb_kv_cache_table db' = kvdb_kv_cache_table db \<Longrightarrow> Q (True, node_kv kv0 a n, db')"
  shows "holds (find_kv_no_cache db key kv) Q"
proof -
  note rel = kv_relD [OF r] and sd = storedD [OF kv_relD(1) [OF r]]
  let ?ring = "ring (m div s) (db_oldest_addr db div s) 0"
  have "db_oldest_addr db div s < m div s" using rel(4) sd(3,4) by (simp add: less_mult_imp_div_less)
  then have "\<forall>i \<in> set ?ring. \<forall>n \<in> set (log_nodes (L i)). node_ok n"
    using sectors_nodes_ok [OF rel(2)] by (simp add: set_ring)
  note v = visit_find_sectors [OF this key, where s = s and kv = kv and x = False, folded all_nodes_def, folded first_live_def]
  show ?thesis
    unfolding find_kv_no_cache_def holds_bind
  proof (rule find_reader.iterate_all [OF r big], goal_cases)
    case (1 stop kv' x' db')
    show ?case
    proof (cases "first_live key (all_nodes s m (db_oldest_addr db) L)")
      case None
      with v 1(4) have "x' = False" by auto
      with none [OF None 1(1-3)] show ?thesis by simp
    next
      case (Some p)
      obtain a n where p: "p = (a, n)" by (cases p)
      with Some v 1(4) obtain kv0 where "x' = True" "kv' = node_kv kv0 a n" by auto
      with some [OF Some [unfolded p] 1(1-3)] show ?thesis by simp
    qed
  qed
qed

end
