(* ===== verification/KvAlloc.thy ===== *)
theory KvAlloc
  imports KvFind
begin

text \<open>
  The traversal of a sector, the iteration over sectors and the allocation, on the list of sectors.
\<close>

section \<open>Reading a sector with its nodes\<close>

lemma sector_node:
  assumes r: "kv_rel s m f L db" and i: "i < m div s" "L i = (st, d, pre @ n # post)"
  shows "node_at f (i * s + 16 + nodes_len pre) n" "node_ok n"
    "in_sector s m (i * s + 16 + nodes_len pre) (node_len n)" "st = FDB_SECTOR_STORE_USING"
    "sector_holds s f (i * s) st d (pre @ n # post)" "end_cached db (i * s) (pre @ n # post)"
    "i * s + 16 + nodes_len pre + node_len n + 88 \<le> i * s + s"
    "i * s + 16 + nodes_len pre + node_len n \<noteq> FAILED_ADDR"
proof -
  note rel = kv_relD [OF r] and sa = sector_addr [OF kv_relD(1) [OF r] i(1)]
  show sh: "sector_holds s f (i * s) st d (pre @ n # post)" by (rule sectors_holdD [OF rel(2) i])
  note bd = sector_bounds [OF rel(1) sh sa(1,2)]
  show "node_at f (i * s + 16 + nodes_len pre) n" "node_ok n" "st = FDB_SECTOR_STORE_USING"
    using sh by (auto simp: sector_holds_def nodes_at_append)
  show "in_sector s m (i * s + 16 + nodes_len pre) (node_len n)"
    using in_sector_at [OF storedD(4) [OF rel(1)] sa(1,2), of "16 + nodes_len pre" "node_len n"] bd(2)
    by (simp add: log_end_def add.assoc)
  show "end_cached db (i * s) (pre @ n # post)" by (rule end_cached_rel [OF r i])
  show le: "i * s + 16 + nodes_len pre + node_len n + 88 \<le> i * s + s" using bd(2) by (simp add: log_end_def)
  show "i * s + 16 + nodes_len pre + node_len n \<noteq> FAILED_ADDR"
    using le bd(1) stored_top [OF rel(1)] by (simp add: FAILED_ADDR_def)
qed

lemma read_sector_step:
  assumes r: "kv_rel s m f L db" and i: "i < m div s" "L i = (st, d, pre @ n # post)"
    and sec: "sec_addr sec = i * s" "sec_store sec = st" "sec_empty_kv sec = i * s + 16 + nodes_len pre"
      "sec_remain sec = s - (16 + nodes_len pre)"
    and sec': "sec' = sec\<lparr>sec_empty_kv := i * s + 16 + nodes_len (pre @ [n]), sec_remain := s - (16 + nodes_len (pre @ [n]))\<rparr>"
    and Q: "\<And>db'. kv_rel s m f L db' \<Longrightarrow> io_frame db db' \<Longrightarrow> post = [] \<Longrightarrow> Q (FDB_NO_ERR, sec', db')"
      "\<And>db'. kv_rel s m f L db' \<Longrightarrow> io_frame db db' \<Longrightarrow> post \<noteq> [] \<Longrightarrow>
        holds (kv_read_sector_loop db' sec' ((node_kv kv (i * s + 16 + nodes_len pre) n)
          \<lparr>kv_addr_start := i * s + 16 + nodes_len (pre @ [n])\<rparr>)) Q"
  shows "holds (kv_read_sector_loop db sec (kv\<lparr>kv_addr_start := i * s + 16 + nodes_len pre\<rparr>)) Q"
proof -
  note rel = kv_relD [OF r] and sa = sector_addr [OF kv_relD(1) [OF r] i(1)] and nd = sector_node [OF r i]
  let ?a = "i * s + 16 + nodes_len pre"
  have u: "u32 (?a + node_len n) = ?a + node_len n" using stored_u32_le [OF rel(1)] nd(7) sa(5) by simp
  have sub: "sub64 (s - (16 + nodes_len pre)) (node_len n) = s - (16 + nodes_len (pre @ [n]))" using nd(7) by simp
  have eq: "sec\<lparr>sec_empty_kv := ?a + node_len n, sec_remain := sub64 (s - (16 + nodes_len pre)) (node_len n)\<rparr> = sec'"
    unfolding sec' sub by (simp add: add.assoc)
  have nxt: "holds (get_next_kv_addr db2 sec' (node_kv kv ?a n))
      (\<lambda>r. holds (case r of (a, db) \<Rightarrow> if a \<noteq> FAILED_ADDR
         then kv_read_sector_loop db sec' ((node_kv kv ?a n)\<lparr>kv_addr_start := a\<rparr>)
         else Some (FDB_NO_ERR, sec', db)) Q)"
    if d2: "stored s m f db2" "io_frame db db2" for db2
  proof (rule get_next_node [OF d2(1) nd(5) sa(1,2)], goal_cases)
    case (7 db')
    have "kv_rel s m f L db'" by (rule kv_rel_frame [OF r 7(1) io_frame_trans [OF d2(2) 7(2)]])
    with Q io_frame_trans [OF d2(2) 7(2)] nd(8) show ?case by (simp add: add.assoc)
  qed (use nd end_cached_frame [OF d2(2)] sec sec' in auto)
  show ?thesis
  proof (subst kv_read_sector_loop.simps, unfold holds_bind, rule read_kv_node [OF rel(1) nd(1-3)], goal_cases)
    case (1 db2)
    then show ?case using nxt by (simp add: Let_def sec u eq cong: if_cong)
  qed
qed

lemma read_sector_loop_ok:
  assumes "kv_rel s m f L db" "i < m div s" "L i = (st, d, pre @ n # post)"
    and "sec_addr sec = i * s" "sec_store sec = st" "sec_empty_kv sec = i * s + 16 + nodes_len pre"
    and "sec_remain sec = s - (16 + nodes_len pre)"
    and "\<And>db'. kv_rel s m f L db' \<Longrightarrow> io_frame db db' \<Longrightarrow> Q (FDB_NO_ERR,
        sec\<lparr>sec_empty_kv := log_end (i * s) (pre @ n # post), sec_remain := s - (16 + nodes_len (pre @ n # post))\<rparr>, db')"
  shows "holds (kv_read_sector_loop db sec (kv\<lparr>kv_addr_start := i * s + 16 + nodes_len pre\<rparr>)) Q"
  using assms
proof (induction post arbitrary: pre n kv db sec)
  case Nil
  show ?case by (rule read_sector_step [OF Nil.prems(1-7) refl]) (use Nil.prems(8) in \<open>simp_all add: log_end_def add.assoc\<close>)
next
  case (Cons n' post)
  show ?case
  proof (rule read_sector_step [OF Cons.prems(1-7) refl], goal_cases)
    case (2 db')
    show ?case
      by (rule Cons.IH) (use 2 Cons.prems io_frame_trans [OF 2(2)] in auto)
  qed simp
qed


text \<open>The information about a sector whose nodes have been counted.\<close>

definition sec_full ::
  "nat \<Rightarrow> addr \<Rightarrow> fdb_sector_store_status \<Rightarrow> fdb_sector_dirty_status \<Rightarrow> kv_node list \<Rightarrow> kvdb_sec_info \<Rightarrow> bool"
where
  "sec_full s b st d ns e \<longleftrightarrow> sec_info_ok s b st d ns e \<and> sec_empty_kv e = log_end b ns
     \<and> sec_remain e = s - (16 + nodes_len ns)"

lemma erased_from_start:
  assumes "erased_tail f b e r" "\<And>x. b \<le> x \<Longrightarrow> x < e \<Longrightarrow> f x = FDB_BYTE_ERASED" "b \<le> e"
  shows "r = b"
  using assms by (intro erased_tail_unique [OF assms(1)]) (simp add: erased_tail_def)

lemma traverse_ok:
  assumes r: "kv_rel s m f L db" and i: "i < m div s" "L i = (st, d, ns)"
    and sec: "sec_addr sec = i * s" "sec_store sec = st" "sec_check_ok sec" "sec_dirty sec = d" "sec_combined sec = SECTOR_NOT_COMBINED"
    and Q: "\<And>sec' db'. sec_full s (i * s) st d ns sec' \<Longrightarrow> kv_rel s m f L db' \<Longrightarrow> io_frame db db' \<Longrightarrow> Q (FDB_NO_ERR, sec', db')"
  shows "holds (kv_read_sector_traverse db sec) Q"
proof -
  note rel = kv_relD [OF r] and sa = sector_addr [OF kv_relD(1) [OF r] i(1)]
  have sh: "sector_holds s f (i * s) st d ns" by (rule sectors_holdD [OF rel(2) i])
  note bd = sector_bounds [OF rel(1) sh sa(1,2)]
  have geo: "db_sec_size db = s" using rel(1) by simp
  have s16: "16 \<le> s" using sh by (simp add: sector_holds_def)
  have u: "u32 (i * s + SECTOR_HDR_DATA_SIZE) = i * s + 16"
    using stored_u32_le [OF rel(1), of "i * s + 16"] sa(5) s16 by (simp add: SECTOR_HDR_DATA_SIZE_def)
  have us: "u32 (i * s + s) = i * s + s" using stored_u32_le [OF rel(1)] sa(5) by simp
  have rem: "sub64 s SECTOR_HDR_DATA_SIZE = s - 16" using s16 by (simp add: SECTOR_HDR_DATA_SIZE_def)
  show ?thesis
  proof (cases ns)
    case Nil
    with sh have "st = FDB_SECTOR_STORE_EMPTY" by (simp add: sector_holds_def)
    then show ?thesis using Q [OF _ r io_frame_refl] sec Nil
      by (simp add: kv_read_sector_traverse_def Let_def geo u rem sec_full_def sec_info_ok_def log_end_def)
  next
    case (Cons n post)
    with sh have st: "st = FDB_SECTOR_STORE_USING" by (simp add: sector_holds_def)
    define sec0 where "sec0 = sec\<lparr>sec_empty_kv := i * s + 16, sec_remain := s - 16\<rparr>"
    let ?sec = "sec0\<lparr>sec_empty_kv := log_end (i * s) ns, sec_remain := s - (16 + nodes_len ns)\<rparr>"
    have full: "sec_full s (i * s) st d ns ?sec" using sec by (simp add: sec_full_def sec_info_ok_def sec0_def)
    have ff: "holds (fdb_continue_ff_addr db1 (log_end (i * s) ns) (u32 (i * s + db_sec_size db1)))
        (\<lambda>(r, db'). r = log_end (i * s) ns \<and> kv_rel s m f L db' \<and> io_frame db db')"
      if d1: "kv_rel s m f L db1" "io_frame db db1" for db1
    proof -
      note rel1 = kv_relD [OF d1(1)]
      have g1: "db_sec_size db1 = s" using rel1(1) by simp
      have "holds (fdb_continue_ff_addr db1 (log_end (i * s) ns) (i * s + s))
        (\<lambda>(r, db'). r = log_end (i * s) ns \<and> kv_rel s m f L db' \<and> io_frame db db')"
      proof (rule stored_continue_ff [OF rel1(1)], goal_cases)
        case 3
        have "(i * s + (16 + nodes_len ns)) mod s = 16 + nodes_len ns"
          using bd(2) by (simp add: log_end_def)
        then show ?case using bd(2) by (simp add: log_end_def add.assoc)
      next
        case (4 r db')
        have "r = log_end (i * s) ns"
          by (rule erased_from_start [OF 4(1)]) (use sh bd in \<open>auto simp: sector_holds_def log_end_def\<close>)
        then show ?case using kv_rel_frame [OF d1(1) 4(2,3)] io_frame_trans [OF d1(2) 4(3)] by simp
      qed (use bd in auto)
      then show ?thesis using g1 us by simp
    qed
    have loop: "holds (kv_read_sector_loop db sec0 ((kvdb_stack_kv db)\<lparr>kv_addr_start := i * s + 16 + nodes_len []\<rparr>))
        (\<lambda>r. holds (case r of (result, sector, db) \<Rightarrow> do {
           (ff_addr, db) \<leftarrow> fdb_continue_ff_addr db (sec_empty_kv sector) (u32 (sec_addr sector + db_sec_size db));
           Some (result, if sec_empty_kv sector \<noteq> ff_addr
             then sector\<lparr>sec_empty_kv := ff_addr, sec_remain := sub32 (db_sec_size db) (sub32 ff_addr (sec_addr sector))\<rparr>
             else sector, db) }) Q)"
    proof (rule read_sector_loop_ok [where pre = "[]" and n = n and post = post, OF r i(1)], goal_cases)
      case (6 db1)
      have e: "sec_empty_kv ?sec = log_end (i * s) ns" "sec_addr ?sec = i * s" using sec by (simp_all add: sec0_def)
      show ?case
        unfolding append_Nil Cons [symmetric] prod.case holds_bind e
        by (rule holds_mono [OF ff [OF 6]]) (use Q [OF full] e in auto)
    qed (use i sec Cons in \<open>simp_all add: sec0_def\<close>)
    then show ?thesis
      using sec st by (simp add: kv_read_sector_traverse_def Let_def geo u rem sec0_def split_def split del: if_split)
  qed
qed


lemma read_sector_full:
  assumes r: "kv_rel s m f L db" and i: "i < m div s" "L i = (st, d, ns)"
    and Q: "\<And>sec' db'. sec_full s (i * s) st d ns sec' \<Longrightarrow> kv_rel s m f L db' \<Longrightarrow> kv_frame db db' \<Longrightarrow>
       kvdb_kv_cache_table db' = kvdb_kv_cache_table db \<Longrightarrow> Q (FDB_NO_ERR, sec', db')"
  shows "holds (kv_read_sector_info db (i * s) sector True) Q"
proof -
  note rel = kv_relD [OF r] and sa = sector_addr [OF kv_relD(1) [OF r] i(1)] and sd = storedD [OF kv_relD(1) [OF r]]
  have sh: "sector_holds s f (i * s) st d ns" by (rule sectors_holdD [OF rel(2) i])
  then have h: "hdr_at f (i * s) st d" "16 \<le> s" by (auto simp: sector_holds_def)
  have geo: "db_sec_size db = s" using rel(1) by simp
  let ?hit = "case get_sector_from_cache db (i * s) of None \<Rightarrow> False
    | Some k \<Rightarrow> sec_empty_kv (kvdb_sector_cache_table db ! k) \<noteq> FAILED_ADDR"
  show ?thesis
  proof (cases ?hit)
    case True
    then obtain k where k: "get_sector_from_cache db (i * s) = Some k"
      "sec_empty_kv (kvdb_sector_cache_table db ! k) \<noteq> FAILED_ADDR" by (auto split: option.splits)
    then have "sec_full s (i * s) st d ns (kvdb_sector_cache_table db ! k)"
      using cached_entry [OF r k(1) i] by (auto simp: sec_full_def sec_info_ok_def)
    with Q [OF _ r kv_frame_io] k sd(3) show ?thesis by (simp add: kv_read_sector_info_def geo)
  next
    case False
    have sec: "in_sector s m (i * s) 16" by (rule in_sector_base [OF sd(4) sa(1,2) h(2)])
    have miss: "(case get_sector_from_cache db (i * s) of None \<Rightarrow> False
        | Some k \<Rightarrow> \<not> True \<or> sec_empty_kv (kvdb_sector_cache_table db ! k) \<noteq> FAILED_ADDR) = False"
      using False by (auto split: option.splits)
    have go: "holds (kv_read_sector_traverse db1 sec0) (\<lambda>r. Q (fst r, fst (snd r), update_sector_cache (snd (snd r)) (fst (snd r))))"
      if d1: "stored s m f db1" "io_frame db db1"
        and s0: "sec_addr sec0 = i * s" "sec_store sec0 = st" "sec_check_ok sec0" "sec_dirty sec0 = d" "sec_combined sec0 = SECTOR_NOT_COMBINED"
      for db1 sec0
    proof (rule traverse_ok [OF kv_rel_frame [OF r d1] i s0], goal_cases)
      case (1 sec' db2)
      have "sec_info_ok s (i * s) st d ns sec'" using 1(1) by (simp add: sec_full_def)
      from kv_rel_update_sector_cache [OF 1(2) i this] Q [OF 1(1)] kv_frame_io [OF io_frame_trans [OF d1(2) 1(3)]]
        io_frame_kv [OF io_frame_trans [OF d1(2) 1(3)]] show ?case by simp
    qed
    show ?thesis
      unfolding kv_read_sector_info_def geo Let_def miss
      using sd(3)
      apply simp
      apply (rule stored_read [OF rel(1) sec])
      apply (simp add: decode_hdr [OF h(1)] split_def)
      apply (rule go, assumption, assumption, simp_all)
      done
  qed
qed



section \<open>Iterating over sectors\<close>

text \<open>
  The iteration on the list of sectors, over those with status \<open>flt\<close> (all for \<open>UNUSED\<close>): the sector at
  which the visitor stopped, and the argument it leaves.
\<close>

fun visit_ring ::
  "(nat \<Rightarrow> sector_log \<Rightarrow> 'x \<Rightarrow> bool \<times> 'x) \<Rightarrow> fdb_sector_store_status \<Rightarrow> (nat \<Rightarrow> sector_log) \<Rightarrow> nat list \<Rightarrow> 'x
     \<Rightarrow> nat option \<times> 'x"
where
  "visit_ring visit flt L [] x = (None, x)"
| "visit_ring visit flt L (i # is) x =
     (if flt = FDB_SECTOR_STORE_UNUSED \<or> flt = fst (L i) then
        case visit i (L i) x of (stop, x') \<Rightarrow> if stop then (Some i, x') else visit_ring visit flt L is x'
      else visit_ring visit flt L is x)"

text \<open>What the callback is given for a sector, with or without its nodes counted.\<close>

definition sec_seen :: "bool \<Rightarrow> nat \<Rightarrow> nat \<Rightarrow> sector_log \<Rightarrow> kvdb_sec_info \<Rightarrow> bool" where
  "sec_seen full s i l e \<longleftrightarrow> (case l of (st, d, ns) \<Rightarrow>
     if full then sec_full s (i * s) st d ns e else sec_info_ok s (i * s) st d ns e)"

text \<open>Without a garbage collection no sector carries its mark.\<close>

definition marks_ok :: "bool \<Rightarrow> nat \<Rightarrow> (nat \<Rightarrow> sector_log) \<Rightarrow> bool" where
  "marks_ok gc q L \<longleftrightarrow> gc \<or> (\<forall>i < q. fst (snd (L i)) \<noteq> FDB_SECTOR_DIRTY_GC)"

lemma marks_okD: "marks_ok gc q L \<Longrightarrow> i < q \<Longrightarrow> gc \<or> fst (snd (L i)) \<noteq> FDB_SECTOR_DIRTY_GC"
  by (auto simp: marks_ok_def)

locale sector_reader =
  fixes cb :: "'x sec_callback"
    and visit :: "nat \<Rightarrow> sector_log \<Rightarrow> 'x \<Rightarrow> bool \<times> 'x"
    and full :: bool and s :: nat and gc :: bool
  assumes cb_visit: "sec_seen full s i l e \<Longrightarrow> gc \<or> fst (snd l) \<noteq> FDB_SECTOR_DIRTY_GC \<Longrightarrow> kvdb_gc_request db = gc \<Longrightarrow>
      cb e x db = Some (fst (visit i l x), snd (visit i l x), db)"
begin

lemma visit_one:
  assumes r: "kv_rel s m f L db" "kvdb_gc_request db = gc" and mk: "marks_ok gc (m div s) L" and i: "i < m div s"
    and info: "sec_seen False s i (L i) sec" and v: "visit i (L i) x = (stop, x')"
    and Q: "\<And>sec' db'. kv_rel s m f L db' \<Longrightarrow> kv_frame db db' \<Longrightarrow> kvdb_kv_cache_table db' = kvdb_kv_cache_table db \<Longrightarrow>
      sec_seen full s i (L i) sec' \<Longrightarrow> Q (stop, sec', x', db')"
  shows "holds (do { (sector, db) \<leftarrow> (if full then do {
                                (_, sector, db) \<leftarrow> kv_read_sector_info db (i * s) sec True;
                                Some (sector, db)
                              } else Some (sec, db));
             case Some cb of
               None \<Rightarrow> Some (False, sector, x, db)
             | Some cb \<Rightarrow> do {
                 (stop, arg, db) \<leftarrow> cb sector x db;
                 Some (stop, sector, arg, db)
               } }) Q"
proof (cases full)
  case False
  have "cb sec x db = Some (stop, x', db)" using cb_visit [OF _ marks_okD [OF mk i] r(2)] info v False by simp
  with Q [OF r(1) kv_frame_io] info False show ?thesis by simp
next
  case True
  obtain st d ns where L: "L i = (st, d, ns)" by (cases "L i")
  have "holds (kv_read_sector_info db (i * s) sec True) (\<lambda>p. holds (cb (fst (snd p)) x (snd (snd p)))
      (\<lambda>q. Q (fst q, fst (snd p), fst (snd q), snd (snd q))))"
  proof (rule read_sector_full [OF r(1) i L], goal_cases)
    case (1 sec' db')
    have seen: "sec_seen full s i (L i) sec'" using 1(1) True L by (simp add: sec_seen_def)
    have "kvdb_gc_request db' = gc" using kv_frameD(2) [OF 1(3)] r(2) by simp
    from cb_visit [OF seen marks_okD [OF mk i] this] v Q [OF 1(2-4) seen] show ?case by simp
  qed
  then show ?thesis using True by (simp add: split_def)
qed

lemma sector_loop:
  assumes "kv_rel s m f L db" "kvdb_gc_request db = gc" "m + s < 2 ^ 32" "start < m div s" "k < m div s"
    and "\<And>res sec' x' db'. kv_rel s m f L db' \<Longrightarrow> kv_frame db db' \<Longrightarrow> kvdb_kv_cache_table db' = kvdb_kv_cache_table db \<Longrightarrow>
      visit_ring visit flt L (ring (m div s) start k) x = (res, x') \<Longrightarrow>
      (case res of None \<Rightarrow> True | Some i \<Rightarrow> sec_seen full s i (L i) sec') \<Longrightarrow> Q (sec', x', db')"
    and mk: "marks_ok gc (m div s) L"
  shows "holds (kv_sector_iterator_loop db sector ((start + k) mod (m div s) * s) (k * s) flt x (Some cb) full) Q"
  using assms(1-6)
proof (induction "m div s - k" arbitrary: k db sector x)
  case 0
  then show ?case by simp
next
  case (Suc rest)
  let ?q = "m div s"
  let ?i = "(start + k) mod ?q"
  note rel = kv_relD [OF Suc.prems(1)] and sd = storedD [OF kv_relD(1) [OF Suc.prems(1)]]
  have q: "0 < ?q" using Suc.prems(5) by simp
  then have i: "?i < ?q" by simp
  obtain st d ns where L: "L ?i = (st, d, ns)" by (cases "L ?i")
  obtain stop1 x1 where v: "visit ?i (L ?i) x = (stop1, x1)" by fastforce
  have geo: "db_sec_size db = s" using rel(1) by simp
  have km: "k * s + s \<le> m"
  proof -
    have "Suc k * s \<le> ?q * s" using Suc.prems(5) by (intro mult_le_mono1) simp
    then show ?thesis using sd(4) by simp
  qed
  have tl: "u32 (k * s + s) = Suc k * s" using km sd(5) by (simp add: u32_def)
  let ?act = "flt = FDB_SECTOR_STORE_UNUSED \<or> flt = fst (L ?i)"
  have after: "holds (if stop then Some (sec, x', db2) else
        let a = kv_get_next_sector_addr db2 sec (Suc k * s) in
        if a \<noteq> FAILED_ADDR then kv_sector_iterator_loop db2 sec a (Suc k * s) flt x' (Some cb) full else Some (sec, x', db2)) Q"
    if info: "sec_info_ok s (?i * s) st d ns sec" "stop \<Longrightarrow> sec_seen full s ?i (L ?i) sec"
      and r2: "kv_rel s m f L db2" "kv_frame db db2" "kvdb_kv_cache_table db2 = kvdb_kv_cache_table db"
      and vv: "(stop, x') = (if ?act then (stop1, x1) else (False, x))"
    for sec db2 stop x'
  proof (cases stop)
    case True
    with vv have act: ?act and "stop1" "x' = x1" by (auto split: if_splits)
    with v Suc.prems(5) have "visit_ring visit flt L (ring ?q start k) x = (Some ?i, x')"
      by (simp add: ring_Cons)
    with Suc.prems(6) [OF r2] info(2) True show ?thesis by simp
  next
    case False
    with vv v Suc.prems(5) have vs: "visit_ring visit flt L (ring ?q start k) x = visit_ring visit flt L (ring ?q start (Suc k)) x'"
      by (auto simp: ring_Cons split: if_splits)
    have nx: "kv_get_next_sector_addr db2 sec (Suc k * s) = (if Suc k < ?q then (Suc ?i mod ?q) * s else FAILED_ADDR)"
      by (rule next_sector [OF kv_relD(1) [OF r2(1)] Suc.prems(3) _ _ i])
         (use info(1) Suc.prems(5) in \<open>auto simp: sec_info_ok_def\<close>)
    show ?thesis
    proof (cases "Suc k < ?q")
      case True
      have ia: "Suc ?i mod ?q = (start + Suc k) mod ?q" by (simp add: mod_Suc_eq)
      have "(start + Suc k) mod ?q * s \<noteq> FAILED_ADDR"
        by (rule sector_addr(6) [OF rel(1)]) (use q in simp)
      moreover have "holds (kv_sector_iterator_loop db2 sec ((start + Suc k) mod ?q * s) (Suc k * s) flt x' (Some cb) full) Q"
        by (rule Suc.hyps(1))
           (use Suc.hyps(2) True Suc.prems r2 vs kv_frame_trans [OF r2(2)] kv_frameD(2) [OF r2(2)] in auto)
      ultimately show ?thesis using False True nx ia by simp
    next
      case c: False
      with vs have "visit_ring visit flt L (ring ?q start k) x = (None, x')" by simp
      with Suc.prems(6) [OF r2] False c nx show ?thesis by simp
    qed
  qed
  show ?case
  proof (subst kv_sector_iterator_loop.simps, unfold Let_def holds_bind geo tl,
      rule read_sector_plain [OF Suc.prems(1) i L], goal_cases)
    case (1 sec' db1)
    have st': "sec_store sec' = fst (L ?i)" using 1(1) L by (simp add: sec_info_ok_def)
    have seen: "sec_seen False s ?i (L ?i) sec'" using 1(1) L by (simp add: sec_seen_def)
    have gc1: "kvdb_gc_request db1 = gc" using kv_frameD(2) [OF 1(3)] Suc.prems(2) by simp
    have "holds (if ?act then do { (sector, db) \<leftarrow> (if full then do {
                                (_, sector, db) \<leftarrow> kv_read_sector_info db1 (?i * s) sec' True;
                                Some (sector, db)
                              } else Some (sec', db1));
             case Some cb of
               None \<Rightarrow> Some (False, sector, x, db)
             | Some cb \<Rightarrow> do {
                 (stop, arg, db) \<leftarrow> cb sector x db;
                 Some (stop, sector, arg, db)
               } } else Some (False, sec', x, db1))
        (\<lambda>p. holds (if fst p then Some (fst (snd p), fst (snd (snd p)), snd (snd (snd p))) else
          let a = kv_get_next_sector_addr (snd (snd (snd p))) (fst (snd p)) (Suc k * s) in
          if a \<noteq> FAILED_ADDR
          then kv_sector_iterator_loop (snd (snd (snd p))) (fst (snd p)) a (Suc k * s) flt (fst (snd (snd p))) (Some cb) full
          else Some (fst (snd p), fst (snd (snd p)), snd (snd (snd p)))) Q)"
    proof (cases ?act)
      case True
      show ?thesis
        unfolding if_P [OF True]
      proof (rule visit_one [OF 1(2) gc1 mk i seen v], goal_cases)
        case (1 sec2 db2)
        have info: "sec_info_ok s (?i * s) st d ns sec2" using 1(4) L by (auto simp: sec_seen_def sec_full_def split: if_splits)
        have "kvdb_kv_cache_table db2 = kvdb_kv_cache_table db" using 1(3) \<open>kvdb_kv_cache_table db1 = kvdb_kv_cache_table db\<close> by simp
        from after [OF info _ 1(1) kv_frame_trans [OF \<open>kv_frame db db1\<close> 1(2)] this, of stop1 x1] 1(4) True
        show ?case by (simp add: Let_def cong: if_cong)
      qed
    next
      case False
      from after [OF 1(1) _ 1(2-4), of False x] False show ?thesis by (simp add: Let_def cong: if_cong)
    qed
    then show ?case by (simp add: st' split_def Let_def cong: if_cong)
  qed
qed

lemma iterate_sectors:
  assumes r: "kv_rel s m f L db" and gc: "kvdb_gc_request db = gc" and big: "m + s < 2 ^ 32" and mk: "marks_ok gc (m div s) L"
    and Q: "\<And>res sec' x' db'. kv_rel s m f L db' \<Longrightarrow> kv_frame db db' \<Longrightarrow> kvdb_kv_cache_table db' = kvdb_kv_cache_table db \<Longrightarrow>
      visit_ring visit flt L (ring (m div s) (db_oldest_addr db div s) 0) x = (res, x') \<Longrightarrow>
      (case res of None \<Rightarrow> True | Some i \<Rightarrow> sec_seen full s i (L i) sec') \<Longrightarrow> Q (sec', x', db')"
  shows "holds (kv_sector_iterator db sector flt x (Some cb) full) Q"
proof -
  note rel = kv_relD [OF r] and sd = storedD [OF kv_relD(1) [OF r]]
  let ?o = "db_oldest_addr db div s"
  have o: "?o < m div s" using rel(4) sd(3,4) by (simp add: less_mult_imp_div_less)
  have "?o * s = db_oldest_addr db" using rel(5) by auto
  then have "((?o + 0) mod (m div s)) * s = db_oldest_addr db" using o by simp
  then show ?thesis
    using sector_loop [OF r gc big o _ _ mk, where k = 0 and x = x and Q = Q and flt = flt and sector = sector] o Q
    by (simp add: kv_sector_iterator_def)
qed

end


section \<open>Allocation\<close>

definition stat_visit :: "nat \<Rightarrow> sector_log \<Rightarrow> nat \<times> nat \<Rightarrow> bool \<times> nat \<times> nat" where
  "stat_visit i l x = (False, if fst l = FDB_SECTOR_STORE_EMPTY then (fst x + 1, snd x)
     else if fst l = FDB_SECTOR_STORE_USING then (fst x, snd x + 1) else x)"

definition has_room :: "nat \<Rightarrow> bool \<Rightarrow> nat \<Rightarrow> sector_log \<Rightarrow> bool" where
  "has_room s gc n l \<longleftrightarrow> s - (16 + nodes_len (log_nodes l)) > u64 (n + FDB_SEC_REMAIN_THRESHOLD)
     \<and> (fst (snd l) = FDB_SECTOR_DIRTY_FALSE \<or> fst (snd l) = FDB_SECTOR_DIRTY_TRUE \<and> \<not> gc)"

definition alloc_visit :: "nat \<Rightarrow> bool \<Rightarrow> nat \<Rightarrow> nat \<Rightarrow> sector_log \<Rightarrow> addr \<Rightarrow> bool \<times> addr" where
  "alloc_visit s gc n i l x = (if has_room s gc n l then (True, log_end (i * s) (log_nodes l)) else (False, x))"

interpretation stat_reader: sector_reader sector_statistics_cb stat_visit False s gc for s gc
  by unfold_locales
     (auto simp: sector_statistics_cb_def stat_visit_def sec_seen_def sec_info_ok_def split: prod.splits)

interpretation alloc_reader: sector_reader "alloc_kv_cb n" "alloc_visit s gc n" True s gc for s gc n
  by unfold_locales
     (auto simp: alloc_kv_cb_def alloc_visit_def has_room_def sec_seen_def sec_full_def sec_info_ok_def log_nodes_def
       dirty_seen_def split: prod.splits)

definition count_store :: "fdb_sector_store_status \<Rightarrow> (nat \<Rightarrow> sector_log) \<Rightarrow> nat list \<Rightarrow> nat" where
  "count_store st L is = length (filter (\<lambda>i. fst (L i) = st) is)"

lemma visit_ring_stat:
  "visit_ring stat_visit FDB_SECTOR_STORE_UNUSED L is x
     = (None, (fst x + count_store FDB_SECTOR_STORE_EMPTY L is, snd x + count_store FDB_SECTOR_STORE_USING L is))"
  by (induction "is" arbitrary: x) (auto simp: stat_visit_def count_store_def)

lemma visit_ring_alloc:
  "visit_ring (alloc_visit s gc n) flt L is x =
     (case List.find (\<lambda>i. (flt = FDB_SECTOR_STORE_UNUSED \<or> fst (L i) = flt) \<and> has_room s gc n (L i)) is of
        None \<Rightarrow> (None, x) | Some i \<Rightarrow> (Some i, log_end (i * s) (log_nodes (L i))))"
  by (induction "is") (auto simp: alloc_visit_def)

text \<open>
  The sector in which a node of \<open>n\<close> bytes is put: the first one in use that has room, or the first empty
  one when more than one is left (or a garbage collection is requested).
\<close>

definition alloc_choice :: "nat \<Rightarrow> bool \<Rightarrow> nat \<Rightarrow> (nat \<Rightarrow> sector_log) \<Rightarrow> nat list \<Rightarrow> nat option" where
  "alloc_choice s gc n L is =
     (case List.find (\<lambda>i. fst (L i) = FDB_SECTOR_STORE_USING \<and> has_room s gc n (L i)) is of
        Some i \<Rightarrow> Some i
      | None \<Rightarrow> if count_store FDB_SECTOR_STORE_EMPTY L is > FDB_GC_EMPTY_SEC_THRESHOLD \<or> gc
                then List.find (\<lambda>i. fst (L i) = FDB_SECTOR_STORE_EMPTY \<and> has_room s gc n (L i)) is
                else None)"

lemma find_Some_iff': "List.find P xs = Some x \<Longrightarrow> x \<in> set xs \<and> P x"
  by (induction xs) (auto split: if_splits)

lemma count_store_0: "count_store st L is = 0 \<longleftrightarrow> (\<forall>i \<in> set is. fst (L i) \<noteq> st)"
  by (auto simp: count_store_def filter_empty_conv)

lemma find_store_None: "count_store st L is = 0 \<Longrightarrow> List.find (\<lambda>i. fst (L i) = st \<and> P i) is = None"
  by (auto simp: count_store_0 find_None_iff)

lemma log_end_not_failed:
  assumes "kv_rel s m f L db" "i < m div s"
  shows "log_end (i * s) (log_nodes (L i)) \<noteq> FAILED_ADDR"
proof -
  note rel = kv_relD [OF assms(1)] and sa = sector_addr [OF kv_relD(1) [OF assms(1)] assms(2)]
  obtain st d ns where L: "L i = (st, d, ns)" by (cases "L i")
  from sector_bounds [OF rel(1) sectors_holdD [OF rel(2) assms(2) L] sa(1,2)] stored_top [OF rel(1)] L
  show ?thesis by (simp add: FAILED_ADDR_def log_nodes_def)
qed


lemma alloc_kv_ok:
  fixes s m n :: nat and L :: "nat \<Rightarrow> sector_log" and db :: fdb_kvdb
  defines "is \<equiv> ring (m div s) (db_oldest_addr db div s) 0" and "gc \<equiv> kvdb_gc_request db"
  assumes r: "kv_rel s m f L db" and big: "m + s < 2 ^ 32" and mk: "marks_ok gc (m div s) L"
    and some: "\<And>i sec' db'. alloc_choice s gc n L is = Some i \<Longrightarrow> i < m div s \<Longrightarrow> kv_rel s m f L db' \<Longrightarrow> kv_frame db db' \<Longrightarrow>
      kvdb_kv_cache_table db' = kvdb_kv_cache_table db \<Longrightarrow> sec_seen True s i (L i) sec' \<Longrightarrow>
      Q (log_end (i * s) (log_nodes (L i)), sec', db')"
    and none: "\<And>sec' db'. alloc_choice s gc n L is = None \<Longrightarrow> kv_rel s m f L db' \<Longrightarrow> kv_frame db db' \<Longrightarrow>
      kvdb_kv_cache_table db' = kvdb_kv_cache_table db \<Longrightarrow>
      Q (FAILED_ADDR, sec', if count_store FDB_SECTOR_STORE_EMPTY L is = 1 \<and> \<not> gc then db'\<lparr>kvdb_gc_request := True\<rparr> else db')"
  shows "holds (alloc_kv db sector n) Q"
proof -
  let ?e = "count_store FDB_SECTOR_STORE_EMPTY L is" and ?u = "count_store FDB_SECTOR_STORE_USING L is"
  let ?fu = "List.find (\<lambda>i. fst (L i) = FDB_SECTOR_STORE_USING \<and> has_room s gc n (L i)) is"
  let ?fe = "List.find (\<lambda>i. fst (L i) = FDB_SECTOR_STORE_EMPTY \<and> has_room s gc n (L i)) is"
  note rel = kv_relD [OF r] and sd = storedD [OF kv_relD(1) [OF r]]
  have "db_oldest_addr db div s < m div s" using rel(4) sd(3,4) by (simp add: less_mult_imp_div_less)
  then have mem: "i \<in> set is \<Longrightarrow> i < m div s" for i using set_ring unfolding is_def by blast
  define same where "same = (\<lambda>db'. kv_rel s m f L db' \<and> kv_frame db db' \<and> kvdb_kv_cache_table db' = kvdb_kv_cache_table db)"
  have same0: "same db" using r kv_frame_io [OF io_frame_refl] by (simp add: same_def)
  have ring1: "same db1 \<Longrightarrow> ring (m div s) (db_oldest_addr db1 div s) 0 = is" "same db1 \<Longrightarrow> kvdb_gc_request db1 = gc" for db1
    using kv_frameD(1,2) [of db db1] unfolding same_def is_def gc_def by simp_all
  have same_step: "same db2" if "same db1" "kv_rel s m f L db2" "kv_frame db1 db2" "kvdb_kv_cache_table db2 = kvdb_kv_cache_table db1" for db1 db2
    using that kv_frame_trans by (auto simp: same_def)
  have one: "holds (kv_sector_iterator db1 sec1 FDB_SECTOR_STORE_UNUSED (0, 0) (Some sector_statistics_cb) False)
      (\<lambda>(sec', x', db'). x' = (?e, ?u) \<and> same db')" if "same db1" for db1 sec1
    by (rule stat_reader.iterate_sectors [where gc = gc, OF _ _ big mk])
       (use that ring1 same_step visit_ring_stat [of L "is" "(0, 0)"] in \<open>auto simp: same_def\<close>)
  have two: "holds (kv_sector_iterator db1 sec1 flt FAILED_ADDR (Some (alloc_kv_cb n)) True)
      (\<lambda>(sec', a, db'). same db' \<and> (case List.find (\<lambda>i. fst (L i) = flt \<and> has_room s gc n (L i)) is of
          None \<Rightarrow> a = FAILED_ADDR
        | Some i \<Rightarrow> i < m div s \<and> a = log_end (i * s) (log_nodes (L i)) \<and> a \<noteq> FAILED_ADDR \<and> sec_seen True s i (L i) sec'))"
    if d1: "same db1" and flt: "flt \<noteq> FDB_SECTOR_STORE_UNUSED" for db1 sec1 flt
  proof (rule alloc_reader.iterate_sectors [where gc = gc and f = f and L = L, OF _ _ big mk], goal_cases)
    case (3 res sec' x' db')
    have "same db'" by (rule same_step [OF d1 3(1-3)])
    moreover have "i < m div s \<and> log_end (i * s) (log_nodes (L i)) \<noteq> FAILED_ADDR"
      if "List.find (\<lambda>i. fst (L i) = flt \<and> has_room s gc n (L i)) is = Some i" for i
      using find_Some_iff' [OF that] mem log_end_not_failed [OF r] by blast
    ultimately show ?case using 3(4,5) flt unfolding ring1(1) [OF d1]
      by (auto simp: visit_ring_alloc split: option.splits)
  qed (use d1 ring1 in \<open>auto simp: same_def\<close>)
  have thr: "?e > 0 \<and> \<not> (?e > FDB_GC_EMPTY_SEC_THRESHOLD \<or> gc) \<longleftrightarrow> ?e = 1 \<and> \<not> gc"
    by (auto simp: FDB_GC_EMPTY_SEC_THRESHOLD_def)
  have fin: "holds (if ?e > 0 \<and> a = FAILED_ADDR then
         if ?e > FDB_GC_EMPTY_SEC_THRESHOLD \<or> kvdb_gc_request db2 then do {
           (sector, empty_kv, db) \<leftarrow> kv_sector_iterator db2 sec2 FDB_SECTOR_STORE_EMPTY a (Some (alloc_kv_cb n)) True;
           Some (empty_kv, sector, db)
         }
         else Some (a, sec2, db2\<lparr>kvdb_gc_request := True\<rparr>)
       else Some (a, sec2, db2)) Q"
    if d2: "same db2" and a: "case ?fu of None \<Rightarrow> a = FAILED_ADDR
        | Some i \<Rightarrow> i < m div s \<and> a = log_end (i * s) (log_nodes (L i)) \<and> a \<noteq> FAILED_ADDR \<and> sec_seen True s i (L i) sec2"
    for a sec2 db2
  proof (cases ?fu)
    case (Some i)
    with a some [of i db2 sec2] d2 show ?thesis by (auto simp: alloc_choice_def same_def)
  next
    case None
    have gc2: "kvdb_gc_request db2 = gc" by (rule ring1(2) [OF d2])
    show ?thesis
    proof (cases "?e > 0 \<and> (?e > FDB_GC_EMPTY_SEC_THRESHOLD \<or> gc)")
      case True
      have "holds (kv_sector_iterator db2 sec2 FDB_SECTOR_STORE_EMPTY FAILED_ADDR (Some (alloc_kv_cb n)) True)
        (\<lambda>(sec', a, db'). Q (a, sec', db'))"
      proof (rule holds_mono [OF two [OF d2]], simp, clarify, goal_cases)
        case (1 sec' a db')
        have ne: "\<not> (?e = 1 \<and> \<not> gc)" using True thr by blast
        show ?case
        proof (cases ?fe)
          case None
          then have "alloc_choice s gc n L is = None" using \<open>?fu = None\<close> by (simp add: alloc_choice_def)
          from none [OF this, of db' sec'] 1 None ne show ?thesis by (auto simp: same_def)
        next
          case (Some i)
          then have "alloc_choice s gc n L is = Some i" using \<open>?fu = None\<close> True by (simp add: alloc_choice_def)
          from some [OF this, of db' sec'] 1 Some show ?thesis by (auto simp: same_def)
        qed
      qed
      with True None a gc2 show ?thesis by (simp add: split_def)
    next
      case False
      have "?fe = None" if "?e = 0" by (rule find_store_None [OF that])
      with False None have "alloc_choice s gc n L is = None" by (auto simp: alloc_choice_def)
      from none [OF this, of db2 sec2] d2 False None a gc2 thr show ?thesis by (auto simp: same_def)
    qed
  qed
  have mid: "holds (if ?u > 0 then kv_sector_iterator db1 sec1 FDB_SECTOR_STORE_USING FAILED_ADDR (Some (alloc_kv_cb n)) True
      else Some (sec1, FAILED_ADDR, db1)) (\<lambda>(sec', a, db'). same db' \<and> (case ?fu of None \<Rightarrow> a = FAILED_ADDR
        | Some i \<Rightarrow> i < m div s \<and> a = log_end (i * s) (log_nodes (L i)) \<and> a \<noteq> FAILED_ADDR \<and> sec_seen True s i (L i) sec'))"
    if "same db1" for db1 sec1
    using two [OF that, of FDB_SECTOR_STORE_USING sec1] that find_store_None [of FDB_SECTOR_STORE_USING L "is"] by auto
  show ?thesis
    unfolding alloc_kv_def holds_bind
    apply (rule holds_mono [OF one [OF same0]])
    apply (clarify, simp only: prod.case prod.inject holds_bind)
    apply (rule holds_mono [OF mid], assumption)
    apply (elim case_prodE conjE, simp only: prod.case)
    apply (rule fin, assumption+)
    done
qed

end
