(* ===== verification/KvFormat.thy ===== *)
theory KvFormat
  imports KvAlloc
begin

text \<open>
  Formatting: one sector, and all of them with \<open>fdb_kv_set_default\<close>. A formatted sector is an empty
  list of nodes and is no longer in the sector cache; a formatted database satisfies \<open>kv_rel\<close> with all
  sectors empty.
\<close>

section \<open>Dropping a sector from the cache\<close>

definition drop_entry :: "kvdb_sec_info list \<Rightarrow> addr \<Rightarrow> kvdb_sec_info list" where
  "drop_entry t a = (case sector_cache_index t a 0 of None \<Rightarrow> t | Some i \<Rightarrow> t[i := (t ! i)\<lparr>sec_addr := FDB_DATA_UNUSED\<rparr>])"

lemma scan_None: "sector_cache_index t a k = None \<Longrightarrow> \<exists>j. update_sector_cache_scan t a k e = Inr j"
  using update_scan_free [of t a k e] by auto

lemma update_sector_cache_drop:
  assumes "\<not> sec_check_ok e"
  shows "update_sector_cache db e = db\<lparr>kvdb_sector_cache_table := drop_entry (kvdb_sector_cache_table db) (sec_addr e)\<rparr>"
proof (cases "sector_cache_index (kvdb_sector_cache_table db) (sec_addr e) 0")
  case None
  with scan_None [OF None, of FDB_SECTOR_CACHE_TABLE_SIZE] assms show ?thesis
    by (auto simp: update_sector_cache_def drop_entry_def Let_def)
next
  case (Some i)
  with update_scan_found [OF Some] assms show ?thesis
    by (simp add: update_sector_cache_def drop_entry_def Let_def)
qed

lemma length_drop_entry [simp]: "length (drop_entry t a) = length t"
  by (simp add: drop_entry_def split: option.split)

text \<open>The other entries stay, the sector's own is gone.\<close>

lemma drop_entry_nth:
  assumes "once_each t" "j < length t"
  shows "drop_entry t a ! j = (if sec_addr (t ! j) = a \<and> a \<noteq> FDB_DATA_UNUSED then (t ! j)\<lparr>sec_addr := FDB_DATA_UNUSED\<rparr> else t ! j)"
proof (cases "sector_cache_index t a 0")
  case None
  with assms(2) have "sec_addr (t ! j) \<noteq> a" by (auto simp: sector_cache_index_None)
  with None show ?thesis by (simp add: drop_entry_def)
next
  case (Some i)
  then have i: "i < length t" "sec_addr (t ! i) = a" using sector_cache_index_Some [OF Some] by auto
  show ?thesis
  proof (cases "j = i")
    case True
    then show ?thesis using Some i by (cases "t ! i") (auto simp: drop_entry_def)
  next
    case False
    with assms i have "sec_addr (t ! j) = a \<Longrightarrow> a = FDB_DATA_UNUSED" by (auto simp: once_each_def)
    with False Some show ?thesis by (auto simp: drop_entry_def)
  qed
qed

lemma once_each_drop_entry: "once_each t \<Longrightarrow> once_each (drop_entry t a)"
  unfolding once_each_def [of "drop_entry t a"]
proof (intro allI impI)
  fix i j
  assume o: "once_each t" and ij: "i < length (drop_entry t a)" "j < length (drop_entry t a)"
    and eq: "sec_addr (drop_entry t a ! i) = sec_addr (drop_entry t a ! j)"
  have "sec_addr (t ! i) = sec_addr (t ! j) \<Longrightarrow> i = j \<or> sec_addr (t ! i) = FDB_DATA_UNUSED"
    using o ij unfolding once_each_def by simp
  with eq ij show "i = j \<or> sec_addr (drop_entry t a ! i) = FDB_DATA_UNUSED"
    by (auto simp: drop_entry_nth [OF o] split: if_splits)
qed

lemma drop_entry_addrs:
  assumes "once_each t" "a \<noteq> FDB_DATA_UNUSED"
  shows "sec_addr ` set (drop_entry t a) \<subseteq> insert FDB_DATA_UNUSED (sec_addr ` set t - {a})"
proof
  fix x
  assume "x \<in> sec_addr ` set (drop_entry t a)"
  then obtain j where "j < length t" "x = sec_addr (drop_entry t a ! j)" by (auto simp: in_set_conv_nth)
  with assms show "x \<in> insert FDB_DATA_UNUSED (sec_addr ` set t - {a})"
    by (auto simp: drop_entry_nth)
qed

text \<open>So the table stays right when that sector changes.\<close>

lemma table_ok_drop:
  assumes t: "table_ok s m L t" and b: "b = i * s" "b \<noteq> FDB_DATA_UNUSED" "0 < s"
  shows "table_ok s m (L(i := l)) (drop_entry t b)"
proof -
  have "entry_ok s m (L(i := l)) e" if e: "e \<in> set (drop_entry t b)" for e
  proof -
    from e obtain j where j: "j < length t" "e = drop_entry t b ! j" by (auto simp: in_set_conv_nth)
    have "entry_ok s m L (t ! j)" "once_each t" using t j by (auto simp: table_ok_def)
    moreover have "i' \<noteq> i" if "sec_addr (t ! j) \<noteq> b" "sec_info_ok s (i' * s) st d ns (t ! j)" for i' st d ns
      using that b by (auto simp: sec_info_ok_def)
    ultimately show ?thesis using j b by (fastforce simp: drop_entry_nth entry_ok_def)
  qed
  then show ?thesis using t once_each_drop_entry [of t b] by (simp add: table_ok_def)
qed

lemma table_ok_unused:
  "length t = FDB_SECTOR_CACHE_TABLE_SIZE \<Longrightarrow> \<forall>e \<in> set t. sec_addr e = FDB_DATA_UNUSED \<Longrightarrow> table_ok s m L t"
  by (auto simp: table_ok_def entry_ok_def once_each_def)


section \<open>Formatting a sector\<close>

definition blank_sector :: "nat \<Rightarrow> (addr \<Rightarrow> byte) \<Rightarrow> addr \<Rightarrow> addr \<Rightarrow> byte" where
  "blank_sector s f b = wr (wr f b (replicate s FDB_BYTE_ERASED)) b
     ([status_byte 1, status_byte 1, FDB_BYTE_ERASED, FDB_BYTE_ERASED] @ le32 SECTOR_MAGIC_WORD
       @ le32 SECTOR_NOT_COMBINED @ le32 FDB_DATA_UNUSED)"

lemma blank_sector_out: "16 \<le> s \<Longrightarrow> x < b \<or> b + s \<le> x \<Longrightarrow> blank_sector s f b x = f x"
  by (auto simp: blank_sector_def wr_out)

lemma blank_sector_holds:
  assumes "104 \<le> s"
  shows "sector_holds s (blank_sector s f b) b FDB_SECTOR_STORE_EMPTY FDB_SECTOR_DIRTY_FALSE []"
proof -
  let ?g = "wr f b (replicate s FDB_BYTE_ERASED)"
  let ?h = "[status_byte 1, status_byte 1, FDB_BYTE_ERASED, FDB_BYTE_ERASED] @ le32 SECTOR_MAGIC_WORD
       @ le32 SECTOR_NOT_COMBINED @ le32 FDB_DATA_UNUSED"
  have "rd (blank_sector s f b) b 16 = ?h" unfolding blank_sector_def by (rule rd_wr_same) simp
  then have "blank_sector s f b b = ?h ! 0" "blank_sector s f b (b + 1) = ?h ! 1"
    "rd (blank_sector s f b) (b + 4) 4 = take 4 (drop 4 ?h)" "rd (blank_sector s f b) (b + 8) 4 = take 4 (drop 8 ?h)"
    using nth_rd [of 0 16 "blank_sector s f b" b] nth_rd [of 1 16 "blank_sector s f b" b]
      take_rd [of 4 "blank_sector s f b" "b + 4" 12] take_rd [of 4 "blank_sector s f b" "b + 8" 8]
      drop_rd [of 4 "blank_sector s f b" b 16] drop_rd [of 8 "blank_sector s f b" b 16] by simp_all
  moreover have "blank_sector s f b x = FDB_BYTE_ERASED" if "b + 16 \<le> x" "x < b + s" for x
    using that by (simp add: blank_sector_def wr_out wr_in)
  ultimately show ?thesis using assms
    by (simp add: sector_holds_def hdr_at_def FDB_SEC_REMAIN_THRESHOLD_def KV_HDR_DATA_SIZE_def FDB_KV_NAME_MAX_def)
qed

lemma set_status_byte: "0 < i \<Longrightarrow> i < num \<Longrightarrow> num \<le> 8 \<Longrightarrow> snd (fdb_set_status FDB_WRITE_GRAN num i) = [status_byte i]"
  using set_status_bit [of i num] by (simp add: status_byte_def FDB_WRITE_GRAN_def)

lemma format_sector_ok:
  assumes st: "stored s m f db" and b: "b < m" "b mod s = 0" and s: "16 \<le> s"
    and Q: "\<And>db'. stored s m (blank_sector s f b) db' \<Longrightarrow> kv_frame db db' \<Longrightarrow>
      kvdb_kv_cache_table db' = kvdb_kv_cache_table db \<Longrightarrow>
      kvdb_sector_cache_table db' = drop_entry (kvdb_sector_cache_table db) b \<Longrightarrow> Q (FDB_NO_ERR, db')"
  shows "holds (kv_format_sector db b SECTOR_NOT_COMBINED) Q"
proof -
  note i = storedD [OF st]
  have geo: "db_sec_size db = s" using st by simp
  let ?h = "[status_byte 1, status_byte 1, FDB_BYTE_ERASED, FDB_BYTE_ERASED] @ le32 SECTOR_MAGIC_WORD
       @ le32 SECTOR_NOT_COMBINED @ le32 FDB_DATA_UNUSED"
  have hb: "sector_hdr_bytes \<lparr>sh_store = snd (fdb_set_status FDB_WRITE_GRAN FDB_SECTOR_STORE_STATUS_NUM (store_status_num FDB_SECTOR_STORE_EMPTY)),
      sh_dirty = snd (fdb_set_status FDB_WRITE_GRAN FDB_SECTOR_DIRTY_STATUS_NUM (dirty_status_num FDB_SECTOR_DIRTY_FALSE)),
      sh_pad = replicate 2 FDB_BYTE_ERASED, sh_magic = SECTOR_MAGIC_WORD, sh_combined = SECTOR_NOT_COMBINED,
      sh_reserved = FDB_DATA_UNUSED\<rparr> = ?h"
    by (simp add: sector_hdr_bytes_def set_status_byte FDB_SECTOR_STORE_STATUS_NUM_def FDB_SECTOR_DIRTY_STATUS_NUM_def
        numeral_2_eq_2)
  have sec: "in_sector s m b (length ?h)" by (rule in_sector_base [OF i(4) b(2,1)]) (use s in simp)
  show ?thesis
    unfolding kv_format_sector_def geo Let_def hb
    using i(3) b(2)
    apply simp
    apply (rule stored_erase [OF st b])
    apply simp
    apply (rule stored_write, assumption, use sec in simp, simp)
    apply (simp add: update_sector_cache_drop)
    apply (rule Q)
    subgoal by (simp add: blank_sector_def)
    subgoal by (auto intro: kv_frame_io io_frame_trans)
    subgoal by (simp add: io_frame_kv)
    subgoal by (simp add: io_frame_kv)
    done
qed

text \<open>Formatting one sector of a database in order empties that sector.\<close>

lemma sector_disjoint:
  fixes i j s x :: nat
  assumes "i \<noteq> j" "i * s \<le> x" "x < i * s + s"
  shows "x < j * s \<or> j * s + s \<le> x"
proof -
  from assms(1) consider "Suc i \<le> j" | "Suc j \<le> i" by linarith
  then show ?thesis
  proof cases
    case 1
    then have "Suc i * s \<le> j * s" by (rule mult_le_mono1)
    then show ?thesis using assms(3) by simp
  next
    case 2
    then have "Suc j * s \<le> i * s" by (rule mult_le_mono1)
    then show ?thesis using assms(2) by simp
  qed
qed

lemma sectors_hold_update:
  assumes h: "sectors_hold s m f L" and new: "case l of (st, d, ns) \<Rightarrow> sector_holds s g (i * s) st d ns"
    and out: "\<And>x. x < i * s \<or> i * s + s \<le> x \<Longrightarrow> g x = f x"
  shows "sectors_hold s m g (L(i := l))"
  unfolding sectors_hold_def
proof (intro allI impI)
  fix j
  assume j: "j < m div s"
  show "case (L(i := l)) j of (st, d, ns) \<Rightarrow> sector_holds s g (j * s) st d ns"
  proof (cases "j = i")
    case True
    with new show ?thesis by simp
  next
    case False
    obtain st d ns where L: "L j = (st, d, ns)" by (cases "L j")
    have "g x = f x" if "j * s \<le> x" "x < j * s + s" for x
      by (rule out) (use sector_disjoint [OF False that] in auto)
    with sector_holds_cong [OF sectors_holdD [OF h j L]] L False show ?thesis by simp
  qed
qed

lemma format_rel:
  assumes r: "kv_rel s m f L db" and i: "i < m div s"
    and Q: "\<And>db'. kv_rel s m (blank_sector s f (i * s)) (L(i := (FDB_SECTOR_STORE_EMPTY, FDB_SECTOR_DIRTY_FALSE, []))) db'
       \<Longrightarrow> kv_frame db db' \<Longrightarrow> kvdb_kv_cache_table db' = kvdb_kv_cache_table db \<Longrightarrow> Q (FDB_NO_ERR, db')"
  shows "holds (kv_format_sector db (i * s) SECTOR_NOT_COMBINED) Q"
proof -
  note rel = kv_relD [OF r] and sa = sector_addr [OF kv_relD(1) [OF r] i] and sd = storedD [OF kv_relD(1) [OF r]]
  obtain st d ns where L: "L i = (st, d, ns)" by (cases "L i")
  have s: "104 \<le> s" using sectors_holdD [OF rel(2) i L]
    by (simp add: sector_holds_def FDB_SEC_REMAIN_THRESHOLD_def KV_HDR_DATA_SIZE_def FDB_KV_NAME_MAX_def)
  have sh: "sectors_hold s m (blank_sector s f (i * s)) (L(i := (FDB_SECTOR_STORE_EMPTY, FDB_SECTOR_DIRTY_FALSE, [])))"
    by (rule sectors_hold_update [OF rel(2)]) (use s blank_sector_holds blank_sector_out in auto)
  show ?thesis
  proof (rule format_sector_ok [OF rel(1) sa(2,1)], use s in simp, rule Q, goal_cases)
    case (1 db')
    have "table_ok s m (L(i := (FDB_SECTOR_STORE_EMPTY, FDB_SECTOR_DIRTY_FALSE, []))) (kvdb_sector_cache_table db')"
      unfolding 1(4) by (rule table_ok_drop [OF rel(3) refl sa(4) sd(3)])
    with 1 sh rel kv_frameD(1) [OF 1(2)] show ?case by (simp add: kv_rel_def)
  qed
qed


section \<open>Formatting everything\<close>

definition no_logs :: "nat \<Rightarrow> sector_log" where
  "no_logs = (\<lambda>_. (FDB_SECTOR_STORE_EMPTY, FDB_SECTOR_DIRTY_FALSE, []))"

lemma format_all_ok:
  assumes "stored s m f db" "104 \<le> s" "m + s < 2 ^ 32" "k \<le> m div s"
    and "\<forall>i < k. sector_holds s f (i * s) FDB_SECTOR_STORE_EMPTY FDB_SECTOR_DIRTY_FALSE []"
    and "once_each (kvdb_sector_cache_table db)"
    and "sec_addr ` set (kvdb_sector_cache_table db) \<subseteq> insert FDB_DATA_UNUSED ((\<lambda>i. i * s) ` {k..<m div s})"
    and "\<And>g db'. stored s m g db' \<Longrightarrow> sectors_hold s m g no_logs \<Longrightarrow> kv_frame db db' \<Longrightarrow>
      kvdb_kv_cache_table db' = kvdb_kv_cache_table db \<Longrightarrow>
      length (kvdb_sector_cache_table db') = length (kvdb_sector_cache_table db) \<Longrightarrow>
      \<forall>e \<in> set (kvdb_sector_cache_table db'). sec_addr e = FDB_DATA_UNUSED \<Longrightarrow> Q (FDB_NO_ERR, db')"
  shows "holds (format_all_loop db (k * s)) Q"
  using assms
proof (induction "m div s - k" arbitrary: k f db)
  case 0
  note i = storedD [OF 0(2)]
  have "k = m div s" using 0(1,5) by linarith
  then have "k * s = m" using dvd_div_mult_self [OF i(4)] by simp
  then have "format_all_loop db (k * s) = Some (FDB_NO_ERR, db)"
    using stored_geometry(2) [OF 0(2)] by (subst format_all_loop.simps) simp
  moreover have "sectors_hold s m f no_logs" using 0 by (simp add: sectors_hold_def no_logs_def)
  moreover have "\<forall>e \<in> set (kvdb_sector_cache_table db). sec_addr e = FDB_DATA_UNUSED" using 0(1,8) by auto
  ultimately show ?case using 0(9) [OF 0(2) _ kv_frame_io [OF io_frame_refl] refl refl] by simp
next
  case (Suc n)
  note i = storedD [OF Suc.prems(1)]
  have k: "k < m div s" using Suc.hyps(2) by simp
  note sa = sector_addr [OF Suc.prems(1) k]
  have geo: "db_max_size db = m" "db_sec_size db = s" using Suc.prems(1) by simp_all
  have u: "u32 (k * s + s) = Suc k * s" using sa(5) i(5) by simp
  have next_one: "holds (format_all_loop db1 (Suc k * s)) Q"
    if st: "stored s m (blank_sector s f (k * s)) db1" and fr: "kv_frame db db1"
      and kc: "kvdb_kv_cache_table db1 = kvdb_kv_cache_table db"
      and t: "kvdb_sector_cache_table db1 = drop_entry (kvdb_sector_cache_table db) (k * s)" for db1
  proof (rule Suc.hyps(1) [OF _ st Suc.prems(2,3)])
    show "n = m div s - Suc k" "Suc k \<le> m div s" using Suc.hyps(2) k by simp_all
    show "\<forall>j < Suc k. sector_holds s (blank_sector s f (k * s)) (j * s) FDB_SECTOR_STORE_EMPTY FDB_SECTOR_DIRTY_FALSE []"
    proof (intro allI impI)
      fix j
      assume "j < Suc k"
      show "sector_holds s (blank_sector s f (k * s)) (j * s) FDB_SECTOR_STORE_EMPTY FDB_SECTOR_DIRTY_FALSE []"
      proof (cases "j = k")
        case True
        with blank_sector_holds [OF Suc.prems(2)] show ?thesis by simp
      next
        case False
        have "blank_sector s f (k * s) x = f x" if "j * s \<le> x" "x < j * s + s" for x
          by (rule blank_sector_out) (use sector_disjoint [OF False that] Suc.prems(2) in auto)
        moreover have "j < k" using False \<open>j < Suc k\<close> by simp
        ultimately show ?thesis using sector_holds_cong [OF Suc.prems(5) [rule_format]] by blast
      qed
    qed
    show "once_each (kvdb_sector_cache_table db1)" unfolding t by (rule once_each_drop_entry [OF Suc.prems(6)])
    have "{k..<m div s} = insert k {Suc k..<m div s}" using k by auto
    then show "sec_addr ` set (kvdb_sector_cache_table db1) \<subseteq> insert FDB_DATA_UNUSED ((\<lambda>i. i * s) ` {Suc k..<m div s})"
      unfolding t using drop_entry_addrs [OF Suc.prems(6) sa(4)] Suc.prems(7) by auto
  qed (use Suc.prems(8) kv_frame_trans [OF fr] kc t in auto)
  have m0: "k * s < m" by (rule sa(2))
  show ?case
    unfolding format_all_loop.simps [of db] geo if_P [OF m0] holds_bind
  proof (rule format_sector_ok [OF Suc.prems(1) sa(2,1)], goal_cases)
    case (2 db1)
    then show ?case using next_one [OF 2] stored_geometry(1) [OF 2(1)] u by simp
  qed (use Suc.prems(2) in simp)
qed

text \<open>
  \<open>fdb_kv_set_default\<close> without default values formats the database: all sectors are empty, and both
  caches.
\<close>

definition keys_unused :: "fdb_kvdb \<Rightarrow> bool" where
  "keys_unused db \<longleftrightarrow> length (kvdb_kv_cache_table db) = FDB_KV_CACHE_TABLE_SIZE
     \<and> (\<forall>c \<in> set (kvdb_kv_cache_table db). kc_addr c = FDB_DATA_UNUSED)"

lemma set_default_ok:
  assumes st: "stored s m f db" and s: "104 \<le> s" "m + s < 2 ^ 32" "0 < m" and kvs: "kvdb_default_kvs db = []"
    and t: "length (kvdb_sector_cache_table db) = FDB_SECTOR_CACHE_TABLE_SIZE" "once_each (kvdb_sector_cache_table db)"
      "sec_addr ` set (kvdb_sector_cache_table db) \<subseteq> insert FDB_DATA_UNUSED ((\<lambda>i. i * s) ` {0..<m div s})"
    and kt: "length (kvdb_kv_cache_table db) = FDB_KV_CACHE_TABLE_SIZE"
    and Q: "\<And>g db'. kv_rel s m g no_logs db' \<Longrightarrow> keys_unused db' \<Longrightarrow> db_oldest_addr db' = 0 \<Longrightarrow>
      kvdb_gc_request db' = kvdb_gc_request db \<Longrightarrow> kvdb_last_is_complete_del db' = kvdb_last_is_complete_del db \<Longrightarrow>
      kvdb_in_recovery_check db' = kvdb_in_recovery_check db \<Longrightarrow> Q (FDB_NO_ERR, db')"
  shows "holds (fdb_kv_set_default db) Q"
proof -
  let ?db1 = "(db_lock db)\<lparr>kvdb_kv_cache_table := map (\<lambda>c. c\<lparr>kc_addr := FDB_DATA_UNUSED\<rparr>) (kvdb_kv_cache_table (db_lock db))\<rparr>"
  have t1: "kvdb_sector_cache_table ?db1 = kvdb_sector_cache_table db" by (simp add: db_lock_def)
  have all: "holds (format_all_loop ?db1 (0 * s)) (\<lambda>(r, db'). r = FDB_NO_ERR \<and> (\<exists>g. stored s m g db' \<and> sectors_hold s m g no_logs)
      \<and> kv_frame ?db1 db' \<and> keys_unused db' \<and> table_ok s m no_logs (kvdb_sector_cache_table db'))"
  proof (rule format_all_ok [where f = f and m = m], goal_cases)
    case (8 g db')
    then show ?case using table_ok_unused [of "kvdb_sector_cache_table db'" s m no_logs] t kt t1
      by (auto simp: keys_unused_def db_lock_def)
  qed (use st s t in \<open>simp_all add: t1\<close>)
  show ?thesis
    unfolding fdb_kv_set_default_def Let_def holds_bind
    using all
    apply (simp only: mult_0)
    apply (erule holds_mono)
    apply (clarsimp simp: kv_frameD(9))
    apply (simp add: db_lock_def kvs)
    subgoal premises p for db' g
      apply (rule Q [of g])
    subgoal using s(3) p by (simp add: kv_rel_def [of s m g] db_unlock_def)
    subgoal using p by (simp add: keys_unused_def db_unlock_def)
    subgoal by (simp add: db_unlock_def)
    subgoal using kv_frameD(2) [OF p(1)] by (simp add: db_unlock_def)
    subgoal using kv_frameD(4) [OF p(1)] by (simp add: db_unlock_def)
    subgoal using kv_frameD(3) [OF p(1)] by (simp add: db_unlock_def)
    done
    done
qed

end
