(* ===== verification/KvChange.thy ===== *)
theory KvChange
  imports KvFormat
begin

text \<open>
  What the write operations do to the list of sectors: creating a node appends it to the nodes of its
  sector, deleting changes the status of a node and marks its sector dirty.
\<close>

section \<open>The sector cache when one sector changes\<close>

lemma once_eachD:
  "once_each t \<Longrightarrow> i < length t \<Longrightarrow> j < length t \<Longrightarrow> sec_addr (t ! i) = sec_addr (t ! j) \<Longrightarrow>
     i = j \<or> sec_addr (t ! i) = FDB_DATA_UNUSED"
  unfolding once_each_def by blast

lemma table_change:
  assumes t: "table_ok s m L t" and i: "i < m div s" "i * s \<noteq> FDB_DATA_UNUSED" "0 < s"
    and t': "case sector_cache_index t (i * s) 0 of None \<Rightarrow> t' = t
      | Some j \<Rightarrow> \<exists>e. t' = t[j := e] \<and> (case l of (st, d, ns) \<Rightarrow> sec_info_ok s (i * s) st d ns e)"
  shows "table_ok s m (L(i := l)) t'"
proof -
  have other: "entry_ok s m (L(i := l)) e" if "entry_ok s m L e" "sec_addr e \<noteq> i * s" for e
  proof (cases "sec_addr e = FDB_DATA_UNUSED")
    case False
    with that have "\<exists>j < m div s. case L j of (st, d, ns) \<Rightarrow> sec_info_ok s (j * s) st d ns e" by (simp add: entry_ok_def)
    then obtain j where j: "j < m div s" "case L j of (st, d, ns) \<Rightarrow> sec_info_ok s (j * s) st d ns e" by (elim exE conjE)
    then have "sec_addr e = j * s" by (cases "L j") (simp add: sec_info_ok_def)
    with that(2) have "j \<noteq> i" by metis
    with j show ?thesis unfolding entry_ok_def by (intro disjI2 exI [of _ j]) simp
  qed (simp add: entry_ok_def)
  show ?thesis
  proof (cases "sector_cache_index t (i * s) 0")
    case None
    then have "\<forall>e \<in> set t. sec_addr e \<noteq> i * s" unfolding sector_cache_index_None by (metis imageI)
    then have "\<forall>e \<in> set t. entry_ok s m (L(i := l)) e" using other t unfolding table_ok_def by blast
    moreover have "t' = t" using t' None by simp
    ultimately show ?thesis using t by (simp add: table_ok_def)
  next
    case (Some j)
    with t' obtain e where e: "t' = t[j := e]" "case l of (st, d, ns) \<Rightarrow> sec_info_ok s (i * s) st d ns e" by auto
    have j: "j < length t" "sec_addr (t ! j) = i * s" using sector_cache_index_Some [OF Some] by auto
    have ok: "entry_ok s m (L(i := l)) e" using e(2) i(1) by (auto simp: entry_ok_def)
    have addr: "sec_addr e = i * s" using e(2) by (auto simp: sec_info_ok_def split: prod.splits)
    have "entry_ok s m (L(i := l)) (t' ! k)" if "k < length t" for k
    proof (cases "k = j")
      case True
      with ok e(1) that show ?thesis by simp
    next
      case False
      have "once_each t" using t by (simp add: table_ok_def)
      then have "sec_addr (t ! k) \<noteq> i * s" using once_eachD [of t k j] False that j i(2) by auto
      with other [of "t ! k"] t that False e(1) show ?thesis by (simp add: table_ok_def)
    qed
    then have "\<forall>e \<in> set t'. entry_ok s m (L(i := l)) e" by (auto simp: in_set_conv_nth e(1))
    moreover have same: "sec_addr (t' ! k) = sec_addr (t ! k)" if "k < length t" for k
      using that addr j e(1) by (cases "k = j") simp_all
    have "once_each t'" unfolding once_each_def
    proof (intro allI impI)
      fix k k'
      assume kk: "k < length t'" "k' < length t'" "sec_addr (t' ! k) = sec_addr (t' ! k')"
      then have l: "k < length t" "k' < length t" using e(1) by simp_all
      have "once_each t" using t by (simp add: table_ok_def)
      from once_eachD [OF this l] kk(3) show "k = k' \<or> sec_addr (t' ! k) = FDB_DATA_UNUSED"
        unfolding same [OF l(1)] same [OF l(2)] .
    qed
    ultimately show ?thesis using t e(1) by (simp add: table_ok_def)
  qed
qed


lemma sector_index_update:
  "j < length t \<Longrightarrow> sec_addr e = sec_addr (t ! j) \<Longrightarrow> sector_cache_index (t[j := e]) a k = sector_cache_index t a k"
proof (induction t arbitrary: j k)
  case (Cons x t)
  then show ?case by (cases j) auto
qed simp

lemma table_entry:
  assumes "table_ok s m L t" "sector_cache_index t (i * s) 0 = Some j" "i < m div s" "i * s \<noteq> FDB_DATA_UNUSED"
    "L i = (st, d, ns)" "0 < s"
  shows "sec_info_ok s (i * s) st d ns (t ! j)"
proof -
  have j: "j < length t" "sec_addr (t ! j) = i * s" using sector_cache_index_Some [OF assms(2)] by auto
  then have "entry_ok s m L (t ! j)" using assms(1) by (simp add: table_ok_def)
  then obtain k where k: "case L k of (st, d, ns) \<Rightarrow> sec_info_ok s (k * s) st d ns (t ! j)"
    using j(2) assms(4) unfolding entry_ok_def by metis
  then have "k * s = i * s" using j(2) by (auto simp: sec_info_ok_def split: prod.splits)
  then have "k = i" using assms(6) by simp
  with k assms(5) show ?thesis by simp
qed


section \<open>Appending a node\<close>

lemma sec_used_out: "x \<noteq> sec_addr sec \<Longrightarrow> sec_used sec f x = f x"
  by (cases "x < sec_addr sec") (auto simp: sec_used_def wr_out)

text \<open>Any image that has the node at the end and is otherwise the old one, with the sector in use.\<close>

lemma append_holds:
  assumes sh: "sector_holds s f b st d ns" and n: "node_ok n"
    and room: "16 + nodes_len ns + node_len n + FDB_SEC_REMAIN_THRESHOLD \<le> s"
    and sec: "sec_addr sec = b" "sec_store sec = st" and at: "node_at g (log_end b ns) n"
    and same: "\<And>x. x < log_end b ns \<or> log_end b ns + node_len n \<le> x \<Longrightarrow> g x = sec_used sec f x"
  shows "sector_holds s g b FDB_SECTOR_STORE_USING d (ns @ [n])"
proof -
  have out: "g x = f x" if "x \<noteq> b" "x < log_end b ns \<or> log_end b ns + node_len n \<le> x" for x
    using that sec(1) same by (simp add: sec_used_out)
  have "g b = sec_used sec f b" by (rule same) (simp add: log_end_def)
  moreover have "sec_used sec f b = status_byte (store_status_num FDB_SECTOR_STORE_USING)"
    using sh sec by (auto simp: sec_used_def sector_holds_def hdr_at_def wr_in)
  moreover have "g (b + 1) = f (b + 1)" "rd g (b + 4) 4 = rd f (b + 4) 4" "rd g (b + 8) 4 = rd f (b + 8) 4"
    by (rule out rd_cong; simp add: log_end_def out [unfolded log_end_def])+
  ultimately have hdr: "hdr_at g b FDB_SECTOR_STORE_USING d" using sh by (simp add: sector_holds_def hdr_at_def)
  have "nodes_at g (b + 16) ns"
    by (rule nodes_at_cong [where f = f]) (use sh out in \<open>auto simp: sector_holds_def log_end_def\<close>)
  then have nodes: "nodes_at g (b + 16) (ns @ [n])" using n at by (simp add: nodes_at_append log_end_def)
  have "g x = FDB_BYTE_ERASED" if "b + 16 + nodes_len (ns @ [n]) \<le> x" "x < b + s" for x
    using that sh out [of x] by (simp add: sector_holds_def log_end_def)
  with hdr nodes room show ?thesis by (simp add: sector_holds_def)
qed

lemma append_sectors:
  assumes h: "sectors_hold s m f L" and i: "i < m div s" "L i = (st, d, ns)" and n: "node_ok n"
    and room: "16 + nodes_len ns + node_len n + FDB_SEC_REMAIN_THRESHOLD \<le> s"
    and sec: "sec_addr sec = i * s" "sec_store sec = st" and at: "node_at g (log_end (i * s) ns) n"
    and same: "\<And>x. x < log_end (i * s) ns \<or> log_end (i * s) ns + node_len n \<le> x \<Longrightarrow> g x = sec_used sec f x"
  shows "sectors_hold s m g (L(i := (FDB_SECTOR_STORE_USING, d, ns @ [n])))"
proof (rule sectors_hold_update [OF h])
  show "case (FDB_SECTOR_STORE_USING, d, ns @ [n]) of (st, d, ns) \<Rightarrow> sector_holds s g (i * s) st d ns"
    using append_holds [OF sectors_holdD [OF h i] n room sec at same] by simp
  show "g x = f x" if "x < i * s \<or> i * s + s \<le> x" for x
    using that same [of x] room sec(1) by (auto simp: log_end_def sec_used_out)
qed

lemma append_table:
  assumes t: "table_ok s m L (kvdb_sector_cache_table db)" and L: "L i = (st, d, ns)" and i: "i < m div s" "i * s \<noteq> FDB_DATA_UNUSED"
    and s: "0 < s" "db_sec_size db = s" and sec: "sec_addr sec = i * s" "sec_store sec = st"
    and st: "st = FDB_SECTOR_STORE_EMPTY \<or> st = FDB_SECTOR_STORE_USING"
    and e: "16 + nodes_len ns + k \<le> s" "k = node_len n"
  shows "table_ok s m (L(i := (FDB_SECTOR_STORE_USING, d, ns @ [n]))) (kvdb_sector_cache_table
     (update_sector_empty_addr_cache (sec_used_db sec db) (i * s) (log_end (i * s) ns + k)))"
proof -
  let ?t = "kvdb_sector_cache_table db" and ?a = "log_end (i * s) ns + k"
  have e': "16 + nodes_len (ns @ [n]) \<le> s" using e by simp
  have sub: "sub32 s (sub32 ?a (i * s)) = s - 16 - nodes_len (ns @ [n])" "?a = log_end (i * s) (ns @ [n])"
    using e by (simp_all add: log_end_def)
  show ?thesis
  proof (cases "sector_cache_index ?t (i * s) 0")
    case None
    with t i s show ?thesis
      by (intro table_change [OF t]) (simp_all add: sec_used_db_def update_sector_empty_addr_cache_def
          update_sector_status_store_cache_def get_sector_from_cache_def sec)
  next
    case (Some j)
    then have j: "j < length ?t" "sec_addr (?t ! j) = i * s" using sector_cache_index_Some [OF Some] by auto
    let ?e = "(?t ! j)\<lparr>sec_store := FDB_SECTOR_STORE_USING, sec_empty_kv := ?a, sec_remain := s - 16 - nodes_len (ns @ [n])\<rparr>"
    have old: "sec_info_ok s (i * s) st d ns (?t ! j)"
      by (rule table_entry [OF t Some i L s(1)])
    have "kvdb_sector_cache_table (update_sector_empty_addr_cache (sec_used_db sec db) (i * s) ?a) = ?t[j := ?e]"
    proof (cases "st = FDB_SECTOR_STORE_EMPTY")
      case True
      with Some j s sub show ?thesis
        by (simp add: sec_used_db_def update_sector_empty_addr_cache_def update_sector_status_store_cache_def
            get_sector_from_cache_def sec Let_def sector_index_update)
    next
      case False
      with old st have "(?t ! j)\<lparr>sec_store := FDB_SECTOR_STORE_USING\<rparr> = ?t ! j" by (cases "?t ! j") (simp add: sec_info_ok_def)
      then have "?e = (?t ! j)\<lparr>sec_empty_kv := ?a, sec_remain := s - 16 - nodes_len (ns @ [n])\<rparr>" by simp
      with False Some j s sub show ?thesis
        by (simp add: sec_used_db_def update_sector_empty_addr_cache_def get_sector_from_cache_def sec Let_def)
    qed
    then show ?thesis
      using Some i s old sub(2) by (intro table_change [OF t]) (auto simp: sec_info_ok_def)
  qed
qed

text \<open>
  \<open>create_kv_write\<close> with the address and the sector information of an allocation.
\<close>

lemma create_rel:
  assumes r: "kv_rel s m f L db" and i: "i < m div s" "L i = (st, d, ns)"
    and sec: "sec_addr sec = i * s" "sec_store sec = st" "sec_remain sec = s - (16 + nodes_len ns)"
    and n: "node_ok n" "nd_status n = FDB_KV_WRITE"
    and room: "16 + nodes_len ns + node_len n + FDB_SEC_REMAIN_THRESHOLD \<le> s"
    and Q: "\<And>g db'. kv_rel s m g (L(i := (FDB_SECTOR_STORE_USING, d, ns @ [n]))) db' \<Longrightarrow> kv_frame db db' \<Longrightarrow>
      kvdb_kv_cache_table db' = kvdb_kv_cache_table (update_kv_cache db (nd_key n) (log_end (i * s) ns)) \<Longrightarrow> Q (FDB_NO_ERR, db')"
  shows "holds (create_kv_write db sec (log_end (i * s) ns) (kv_hdr_init (length (nd_key n)) (length (nd_val n))) (nd_key n) (nd_val n)) Q"
proof -
  note rel = kv_relD [OF r] and sa = sector_addr [OF kv_relD(1) [OF r] i(1)] and sd = storedD [OF kv_relD(1) [OF r]]
  have sh: "sector_holds s f (i * s) st d ns" by (rule sectors_holdD [OF rel(2) i])
  have st: "st = FDB_SECTOR_STORE_EMPTY \<or> st = FDB_SECTOR_STORE_USING" using sh by (auto simp: sector_holds_def)
  have in_s: "in_sector s m (log_end (i * s) ns) (node_len n)"
    using in_sector_at [OF sd(4) sa(1,2), of "16 + nodes_len ns" "node_len n"] room
    by (simp add: log_end_def add.assoc FDB_SEC_REMAIN_THRESHOLD_def FDB_KV_NAME_MAX_def)
  let ?g = "node_write (sec_used sec f) (log_end (i * s) ns) n"
  have holds: "sectors_hold s m ?g (L(i := (FDB_SECTOR_STORE_USING, d, ns @ [n])))"
    by (rule append_sectors [OF rel(2) i n(1) room sec(1,2) node_write_at node_write_out])
  show ?thesis
  proof (rule create_kv_write_ok [OF rel(1) n in_s], goal_cases)
    case (3 db')
    have "table_ok s m (L(i := (FDB_SECTOR_STORE_USING, d, ns @ [n]))) (kvdb_sector_cache_table db')"
      unfolding 3(3) sec(1)
      by (rule append_table [OF rel(3) i(2,1) sa(4) sd(3)]) (use rel(1) sec st room in simp_all)
    with 3 holds rel kv_frameD(1) [OF 3(2)] show ?case by (intro Q [of ?g]) (simp_all add: kv_rel_def)
  qed (use sec sa st room in auto)
qed


section \<open>Changing the status of a node\<close>

lemma node_status_simps [simp]:
  "node_len (n\<lparr>nd_status := x\<rparr>) = node_len n" "node_ok (n\<lparr>nd_status := x\<rparr>) = node_ok n"
  by (simp_all add: node_len_def node_ok_def)

lemma status_holds:
  assumes sh: "sector_holds s f b st d (pre @ n # post)" and a: "a = b + 16 + nodes_len pre"
  shows "sector_holds s (wr f a [status_byte (kv_status_num x)]) b st d (pre @ n\<lparr>nd_status := x\<rparr> # post)"
proof -
  let ?g = "wr f a [status_byte (kv_status_num x)]"
  have nodes: "nodes_at f (b + 16) pre" "node_at f a n" "node_ok n" "nodes_at f (a + node_len n) post"
    using sh a by (auto simp: sector_holds_def nodes_at_append add.assoc)
  have out: "?g y = f y" if "y < a \<or> a < y" for y by (rule wr_out) (use that in auto)
  have len: "0 < node_len n" by (simp add: node_len_def KV_HDR_DATA_SIZE_def)
  have "hdr_at ?g b st d" by (rule hdr_at_cong [where f = f]) (use sh a out in \<open>auto simp: sector_holds_def\<close>)
  moreover have "nodes_at ?g (b + 16) pre" by (rule nodes_at_cong [OF nodes(1)]) (use a out in auto)
  moreover have "nodes_at ?g (a + node_len n) post" by (rule nodes_at_cong [OF nodes(4)]) (use len out in auto)
  moreover have "node_at ?g a (n\<lparr>nd_status := x\<rparr>)"
    using nodes(2) by (simp add: node_at_def wr_in rd_wr_disjoint)
  moreover have "?g y = FDB_BYTE_ERASED" if "b + 16 + nodes_len (pre @ n # post) \<le> y" "y < b + s" for y
    using that sh a len by (subst out) (auto simp: sector_holds_def)
  ultimately show ?thesis using sh nodes(3) a by (simp add: sector_holds_def nodes_at_append add.assoc)
qed

lemma status_rel:
  assumes r: "kv_rel s m f L db" and i: "i < m div s" "L i = (st, d, pre @ n # post)" and a: "a = i * s + 16 + nodes_len pre"
    and x: "x \<noteq> FDB_KV_UNUSED"
    and Q: "\<And>g db'. kv_rel s m g (L(i := (st, d, pre @ n\<lparr>nd_status := x\<rparr> # post))) db' \<Longrightarrow> io_frame db db' \<Longrightarrow> Q (FDB_NO_ERR, db')"
  shows "holds (fdb_write_status db a FDB_KV_STATUS_NUM (kv_status_num x) sync) Q"
proof -
  note rel = kv_relD [OF r] and nd = sector_node [OF r i] and sd = storedD [OF kv_relD(1) [OF r]]
    and sa = sector_addr [OF kv_relD(1) [OF r] i(1)]
  let ?L = "L(i := (st, d, pre @ n\<lparr>nd_status := x\<rparr> # post))" and ?g = "wr f a [status_byte (kv_status_num x)]"
  have am: "a < m" using nd(3) a by (simp add: in_sector_def)
  have k: "0 < kv_status_num x" "kv_status_num x < FDB_KV_STATUS_NUM" "FDB_KV_STATUS_NUM \<le> 8"
    using x by (cases x; simp add: FDB_KV_STATUS_NUM_def)+
  have "sectors_hold s m ?g ?L"
  proof (rule sectors_hold_update [OF rel(2)])
    show "?g y = f y" if "y < i * s \<or> i * s + s \<le> y" for y
      by (rule wr_out) (use that a nd(7) in auto)
  qed (use status_holds [OF nd(5) a] in simp)
  moreover have "table_ok s m ?L (kvdb_sector_cache_table db)"
    by (rule table_change [OF rel(3) i(1) sa(4) sd(3)])
       (auto split: option.split dest: table_entry [OF rel(3) _ i(1) sa(4) i(2) sd(3)]
         intro!: exI [of _ "kvdb_sector_cache_table db ! _"] simp: sec_info_ok_def log_end_def)
  ultimately show ?thesis
    by (intro stored_write_status [OF rel(1) am k] Q [of ?g]) (use rel in \<open>auto simp: kv_rel_def io_frame_kv io_frameD\<close>)
qed


section \<open>Marking a sector dirty\<close>

fun dirtied :: "fdb_sector_dirty_status \<Rightarrow> fdb_sector_dirty_status" where
  "dirtied FDB_SECTOR_DIRTY_FALSE = FDB_SECTOR_DIRTY_TRUE"
| "dirtied d = d"

lemma dirty_holds:
  assumes sh: "sector_holds s f b st d ns"
  shows "sector_holds s (wr f (b + 1) [status_byte (dirty_status_num x)]) b st x ns"
proof -
  let ?g = "wr f (b + 1) [status_byte (dirty_status_num x)]"
  have out: "?g y = f y" if "y < b + 1 \<or> b + 1 < y" for y by (rule wr_out) (use that in auto)
  have "hdr_at ?g b st x"
    using sh out by (simp add: sector_holds_def hdr_at_def wr_in rd_wr_disjoint)
  moreover have "nodes_at ?g (b + 16) ns"
    by (rule nodes_at_cong [where f = f]) (use sh out in \<open>auto simp: sector_holds_def\<close>)
  ultimately show ?thesis using sh out by (auto simp: sector_holds_def)
qed

lemma dirty_rel:
  assumes r: "kv_rel s m f L db" and i: "i < m div s" "L i = (st, d, ns)" and x: "x \<noteq> FDB_SECTOR_DIRTY_UNUSED"
    and Q: "\<And>g db'. stored s m g db' \<Longrightarrow> sectors_hold s m g (L(i := (st, x, ns))) \<Longrightarrow> io_frame db db' \<Longrightarrow> Q (FDB_NO_ERR, db')"
  shows "holds (fdb_write_status db (i * s + 1) FDB_SECTOR_DIRTY_STATUS_NUM (dirty_status_num x) sync) Q"
proof -
  note rel = kv_relD [OF r] and sa = sector_addr [OF kv_relD(1) [OF r] i(1)]
  have sh: "sector_holds s f (i * s) st d ns" by (rule sectors_holdD [OF rel(2) i])
  let ?g = "wr f (i * s + 1) [status_byte (dirty_status_num x)]"
  have s: "2 \<le> s" using sh by (simp add: sector_holds_def)
  have am: "i * s + 1 < m" using sa(5) s by simp
  have k: "0 < dirty_status_num x" "dirty_status_num x < FDB_SECTOR_DIRTY_STATUS_NUM" "FDB_SECTOR_DIRTY_STATUS_NUM \<le> 8"
    using x by (cases x; simp add: FDB_SECTOR_DIRTY_STATUS_NUM_def)+
  have "sectors_hold s m ?g (L(i := (st, x, ns)))"
  proof (rule sectors_hold_update [OF rel(2)])
    show "?g y = f y" if "y < i * s \<or> i * s + s \<le> y" for y
      by (rule wr_out) (use that s in auto)
  qed (use dirty_holds [OF sh] in simp)
  then show ?thesis by (intro stored_write_status [OF rel(1) am k] Q [of ?g]) auto
qed

lemma mark_dirty_rel:
  assumes r: "kv_rel s m f L db" and i: "i < m div s" "L i = (st, d, ns)" and a: "i * s \<le> a" "a < i * s + s"
    and t: "length t = 1"
    and Q: "\<And>g db'. kv_rel s m g (L(i := (st, dirtied d, ns))) db' \<Longrightarrow> kv_frame db db' \<Longrightarrow>
      kvdb_kv_cache_table db' = kvdb_kv_cache_table db \<Longrightarrow> Q (FDB_NO_ERR, db')"
  shows "holds (del_kv_mark_dirty db a t) Q"
proof -
  note rel = kv_relD [OF r] and sa = sector_addr [OF kv_relD(1) [OF r] i(1)] and sd = storedD [OF kv_relD(1) [OF r]]
  have geo: "db_sec_size db = s" using rel(1) by simp
  have sh: "sector_holds s f (i * s) st d ns" by (rule sectors_holdD [OF rel(2) i])
  have al: "FDB_ALIGN_DOWN a s = i * s" by (rule align_down_sector) (use sa a in auto)
  have am: "i * s + 1 < m" using sa(5) sh by (simp add: sector_holds_def)
  have u: "u32 (i * s + SECTOR_DIRTY_OFFSET) = i * s + 1" using am sd(5) by (simp add: SECTOR_DIRTY_OFFSET_def)
  have b: "f (i * s + 1) = status_byte (dirty_status_num d)" using sh by (simp add: sector_holds_def hdr_at_def)
  have num: "fdb_get_status 1 [f (i * s + 1)] FDB_SECTOR_DIRTY_STATUS_NUM = dirty_status_num d"
    unfolding b by (rule get_status_byte) (cases d; simp add: FDB_SECTOR_DIRTY_STATUS_NUM_def)+
  have wrd: "holds (fdb_write_status db1 (i * s + 1) FDB_SECTOR_DIRTY_STATUS_NUM (dirty_status_num FDB_SECTOR_DIRTY_TRUE) True)
     (\<lambda>(result, db). Q (result, (case get_sector_from_cache db (i * s) of None \<Rightarrow> db
             | Some i \<Rightarrow> db\<lparr>kvdb_sector_cache_table := (kvdb_sector_cache_table db)
                             [i := (kvdb_sector_cache_table db ! i)\<lparr>sec_dirty := FDB_SECTOR_DIRTY_TRUE\<rparr>]\<rparr>)))"
    if d1: "kv_rel s m f L db1" "io_frame db db1" and d: "d = FDB_SECTOR_DIRTY_FALSE" for db1
  proof (rule dirty_rel [OF d1(1) i], simp, goal_cases)
    case (1 g db2)
    note rel1 = kv_relD [OF d1(1)]
    let ?db = "case get_sector_from_cache db2 (i * s) of None \<Rightarrow> db2
             | Some i \<Rightarrow> db2\<lparr>kvdb_sector_cache_table := (kvdb_sector_cache_table db2)
                             [i := (kvdb_sector_cache_table db2 ! i)\<lparr>sec_dirty := FDB_SECTOR_DIRTY_TRUE\<rparr>]\<rparr>"
    have t2: "table_ok s m L (kvdb_sector_cache_table db2)" using rel1(3) io_frame_kv(1) [OF 1(3)] by simp
    have "table_ok s m (L(i := (st, dirtied d, ns))) (kvdb_sector_cache_table ?db)"
      by (rule table_change [OF t2 i(1) sa(4) sd(3)])
         (auto split: option.split dest!: table_entry [OF t2 _ i(1) sa(4) i(2) sd(3)]
           simp: get_sector_from_cache_def sec_info_ok_def d)
    moreover have "db_oldest_addr ?db = db_oldest_addr db1" using 1(3) by (simp add: io_frameD split: option.split)
    ultimately have "kv_rel s m g (L(i := (st, dirtied d, ns))) ?db"
      using rel1 1 d by (simp add: kv_rel_def split: option.splits)
    moreover have "kv_frame db ?db" using kv_frame_io [OF io_frame_trans [OF d1(2) 1(3)]] by (simp split: option.split)
    moreover have "kvdb_kv_cache_table ?db = kvdb_kv_cache_table db"
      using io_frame_kv(2) [OF d1(2)] io_frame_kv(2) [OF 1(3)] by (simp split: option.split)
    ultimately show ?case using Q by simp
  qed
  show ?thesis
    unfolding del_kv_mark_dirty_def geo al u Let_def holds_bind
  proof (rule stored_read_status [OF rel(1) am], goal_cases)
    case (4 db1)
    have r1: "kv_rel s m f L db1" by (rule kv_rel_frame [OF r 4])
    show ?case
    proof (cases "d = FDB_SECTOR_DIRTY_FALSE")
      case True
      from wrd [OF r1 4(2) True] show ?thesis using True by (simp add: num split_def)
    next
      case False
      then have "dirty_status_num d \<noteq> dirty_status_num FDB_SECTOR_DIRTY_FALSE" "dirtied d = d" by (cases d; simp)+
      moreover have "L(i := (st, d, ns)) = L" using i(2) by (simp add: fun_upd_idem)
      ultimately show ?thesis using Q [of f db1] r1 kv_frame_io [OF 4(2)] io_frame_kv(2) [OF 4(2)] by (simp add: num)
    qed
  qed (use t in \<open>simp_all add: FDB_SECTOR_DIRTY_STATUS_NUM_def\<close>)
qed


section \<open>Deleting a node\<close>

definition deleted :: "bool \<Rightarrow> fdb_kv_status" where
  "deleted complete_del = (if complete_del then FDB_KV_DELETED else FDB_KV_PRE_DELETE)"

definition del_name :: "byte list option \<Rightarrow> fdb_kv \<Rightarrow> byte list" where
  "del_name key kv = (case key of Some k \<Rightarrow> take (strlen k) k | None \<Rightarrow> take (kv_name_len kv) (kv_name kv))"

lemma kv_rel_updates [simp]:
  "kv_rel s m f L (db\<lparr>kvdb_kv_cache_table := t\<rparr>) = kv_rel s m f L db"
  "kv_rel s m f L (db\<lparr>kvdb_gc_request := b\<rparr>) = kv_rel s m f L db"
  "kv_rel s m f L (db\<lparr>kvdb_last_is_complete_del := b\<rparr>) = kv_rel s m f L db"
  "kv_rel s m f L (db\<lparr>kvdb_cur_kv := kv\<rparr>) = kv_rel s m f L db"
  "kv_rel s m f L (db\<lparr>kvdb_cur_sector := sec\<rparr>) = kv_rel s m f L db"
  "kv_rel s m f L (db_lock db) = kv_rel s m f L db" "kv_rel s m f L (db_unlock db) = kv_rel s m f L db"
  by (simp_all add: kv_rel_def db_lock_def db_unlock_def)

lemma kv_rel_update_kv_cache [simp]: "kv_rel s m f L (update_kv_cache db name a) = kv_rel s m f L db"
  by (simp add: update_kv_cache_def split: prod.split)

lemma kv_frame_last: "kv_frame db db' \<Longrightarrow> kv_frame (db\<lparr>kvdb_last_is_complete_del := b\<rparr>) (db'\<lparr>kvdb_last_is_complete_del := b\<rparr>)"
  by (cases db; cases db') (simp add: kv_frame_def io_frame_def)

lemma update_kv_cache_only: "update_kv_cache db name a = db\<lparr>kvdb_kv_cache_table := kvdb_kv_cache_table (update_kv_cache db name a)\<rparr>"
  by (simp add: update_kv_cache_def split: prod.split)

lemma del_node_rel:
  assumes r: "kv_rel s m f L db" and i: "i < m div s" "L i = (st, d, pre @ n # post)"
    and kv: "kv_addr_start kv = i * s + 16 + nodes_len pre"
    and Q: "\<And>g db'. kv_rel s m g (L(i := (st, dirtied d, pre @ n\<lparr>nd_status := deleted complete\<rparr> # post))) db' \<Longrightarrow>
      kv_frame (db\<lparr>kvdb_last_is_complete_del := \<not> complete\<rparr>) db' \<Longrightarrow>
      kvdb_kv_cache_table db' = (if complete \<and> \<not> kvdb_last_is_complete_del db
        then kvdb_kv_cache_table (update_kv_cache db (del_name key kv) FDB_DATA_UNUSED) else kvdb_kv_cache_table db) \<Longrightarrow> Q (FDB_NO_ERR, db')"
  shows "holds (del_kv_node db key kv complete) Q"
proof -
  note nd = sector_node [OF r i]
  let ?L = "L(i := (st, d, pre @ n\<lparr>nd_status := deleted complete\<rparr> # post))"
  define db2 where "db2 = (\<lambda>db1. (if complete \<and> \<not> kvdb_last_is_complete_del db1
      then update_kv_cache db1 (del_name key kv) FDB_DATA_UNUSED else db1)\<lparr>kvdb_last_is_complete_del := \<not> complete\<rparr>)"
  have up: "(?L)(i := (st, x, pre @ n\<lparr>nd_status := deleted complete\<rparr> # post))
      = L(i := (st, x, pre @ n\<lparr>nd_status := deleted complete\<rparr> # post))" for x by simp
  have len: "length (snd (fdb_set_status FDB_WRITE_GRAN FDB_KV_STATUS_NUM (kv_status_num (deleted complete)))) = 1"
    by (subst set_status_byte) (simp_all add: deleted_def FDB_KV_STATUS_NUM_def)
  have rest: "holds (del_kv_mark_dirty (db2 db1) (i * s + 16 + nodes_len pre)
        (snd (fdb_set_status FDB_WRITE_GRAN FDB_KV_STATUS_NUM (kv_status_num (deleted complete))))) Q"
    if d1: "kv_rel s m g ?L db1" "io_frame db db1" for g db1
  proof (rule mark_dirty_rel [where i = i and L = ?L and f = g and m = m and s = s and st = st and d = d
      and ns = "pre @ n\<lparr>nd_status := deleted complete\<rparr> # post"], goal_cases)
    case (7 g' db')
    have fr: "kv_frame (db\<lparr>kvdb_last_is_complete_del := \<not> complete\<rparr>) (db2 db1)"
      unfolding db2_def by (rule kv_frame_last) (simp add: kv_frame_io d1(2))
    have last: "kvdb_last_is_complete_del db1 = kvdb_last_is_complete_del db" by (rule io_frame_kv(5) [OF d1(2)])
    have "kvdb_kv_cache_table (update_kv_cache db1 x a) = kvdb_kv_cache_table (update_kv_cache db x a)" for x a
      by (rule cache_table_cong(4)) (simp add: io_frame_kv [OF d1(2)])
    with 7 kv_frame_trans [OF fr] last io_frame_kv(2) [OF d1(2)] show ?case
      by (intro Q [of g']) (simp_all add: db2_def)
  qed (use d1 i nd(7) len in \<open>auto simp: db2_def\<close>)
  have st: "(if complete then FDB_KV_DELETED else FDB_KV_PRE_DELETE) = deleted complete" by (simp add: deleted_def)
  show ?thesis
    unfolding del_kv_node_def st Let_def kv holds_bind
    by (rule status_rel [OF r i refl])
       (use rest in \<open>simp_all add: deleted_def [of complete] db2_def del_name_def cong: if_cong\<close>)
qed

end
