(* ===== verification/KvKeys.thy ===== *)
theory KvKeys
  imports KvChange
begin

text \<open>
  The cache of key addresses. Its entries that are in use are a partial map from the 16-bit checksum of
  a name to an address; \<open>update_kv_cache\<close> changes that map at the name's checksum only (it may lose
  other entries, never change them), and a hit of \<open>get_kv_from_cache\<close> is an entry of it.
\<close>

section \<open>The entries in use\<close>

definition entry_of :: "kv_cache_node \<Rightarrow> nat \<times> addr" where
  "entry_of c = (kc_name_crc c, kc_addr c)"

lemma entry_of_simps [simp]:
  "entry_of (c\<lparr>kc_active := x\<rparr>) = entry_of c" "fst (entry_of c) = kc_name_crc c" "snd (entry_of c) = kc_addr c"
  "entry_of (kv_cache_touch c) = entry_of c" "entry_of \<lparr>kc_name_crc = w, kc_active = x, kc_addr = a\<rparr> = (w, a)"
  "entry_of (c\<lparr>kc_addr := a\<rparr>) = (kc_name_crc c, a)"
  by (simp_all add: entry_of_def kv_cache_touch_def)

text \<open>
  The table as a list of pairs: every entry in use satisfies \<open>P\<close> and is the first one with its checksum.
\<close>

definition entries_ok :: "(nat \<Rightarrow> addr \<Rightarrow> bool) \<Rightarrow> (nat \<times> addr) list \<Rightarrow> bool" where
  "entries_ok P ps \<longleftrightarrow> (\<forall>j < length ps. snd (ps ! j) \<noteq> FDB_DATA_UNUSED \<longrightarrow>
     P (fst (ps ! j)) (snd (ps ! j)) \<and> (\<forall>i < j. fst (ps ! i) \<noteq> fst (ps ! j)))"

definition keys_ok :: "(nat \<Rightarrow> addr \<Rightarrow> bool) \<Rightarrow> kv_cache_node list \<Rightarrow> bool" where
  "keys_ok P t \<longleftrightarrow> length t = FDB_KV_CACHE_TABLE_SIZE \<and> entries_ok P (map entry_of t)"

lemma keys_okD: "keys_ok P t \<Longrightarrow> c \<in> set t \<Longrightarrow> kc_addr c \<noteq> FDB_DATA_UNUSED \<Longrightarrow> P (kc_name_crc c) (kc_addr c)"
  by (fastforce simp: keys_ok_def entries_ok_def in_set_conv_nth)

lemma keys_ok_mono:
  "keys_ok P t \<Longrightarrow> (\<And>c. c \<in> set t \<Longrightarrow> kc_addr c \<noteq> FDB_DATA_UNUSED \<Longrightarrow> P (kc_name_crc c) (kc_addr c) \<Longrightarrow> P' (kc_name_crc c) (kc_addr c)) \<Longrightarrow> keys_ok P' t"
  by (auto simp: keys_ok_def entries_ok_def)

lemma keys_unused_ok: "keys_unused db \<Longrightarrow> keys_ok P (kvdb_kv_cache_table db)"
  by (auto simp: keys_unused_def keys_ok_def entries_ok_def)

text \<open>Replacing the first entry of a checksum, or one where the checksum does not occur.\<close>

lemma entries_set:
  assumes ok: "entries_ok P ps" and k: "k < length ps" and first: "\<And>i. i < k \<Longrightarrow> fst (ps ! i) \<noteq> w"
    and other: "fst (ps ! k) = w \<or> w \<notin> fst ` set ps" and a: "a \<noteq> FDB_DATA_UNUSED \<Longrightarrow> P' w a"
    and P: "\<And>w' b. w' \<noteq> w \<Longrightarrow> P w' b \<Longrightarrow> P' w' b"
  shows "entries_ok P' (ps[k := (w, a)])"
  unfolding entries_ok_def
proof (intro allI impI)
  fix j
  assume j: "j < length (ps[k := (w, a)])" and used: "snd (ps[k := (w, a)] ! j) \<noteq> FDB_DATA_UNUSED"
  show "P' (fst (ps[k := (w, a)] ! j)) (snd (ps[k := (w, a)] ! j)) \<and> (\<forall>i < j. fst (ps[k := (w, a)] ! i) \<noteq> fst (ps[k := (w, a)] ! j))"
  proof (cases "j = k")
    case True
    with k used a first show ?thesis by simp
  next
    case False
    with j used have u: "snd (ps ! j) \<noteq> FDB_DATA_UNUSED" "j < length ps" by simp_all
    with ok have o: "P (fst (ps ! j)) (snd (ps ! j))" "\<forall>i < j. fst (ps ! i) \<noteq> fst (ps ! j)" by (auto simp: entries_ok_def)
    have "fst (ps ! j) \<noteq> w"
    proof
      assume w: "fst (ps ! j) = w"
      then have "w \<in> fst ` set ps" using u(2) by force
      with other have kw: "fst (ps ! k) = w" by simp
      from first [of j] w False have "k < j" by (meson linorder_neqE_nat)
      with o(2) kw w show False by auto
    qed
    with P o False k u(2) show ?thesis by (auto simp: nth_list_update)
  qed
qed


section \<open>The update\<close>

lemma update_loop_miss:
  assumes "w \<notin> kc_name_crc ` set t"
  shows "\<not> fst (update_kv_cache_loop t w a i e mi act)
    \<and> map entry_of (fst (snd (update_kv_cache_loop t w a i e mi act))) = map entry_of t"
  using assms
proof (induction t arbitrary: i e mi act)
  case (Cons c t)
  then show ?case by (auto simp: Let_def)
qed simp

lemma update_loop_hit:
  assumes "w \<notin> kc_name_crc ` set xs" "kc_name_crc c = w"
  shows "\<exists>t' e' mi'. update_kv_cache_loop (xs @ c # ys) w a i e mi act = (True, t', e', mi')
     \<and> map entry_of t' = (map entry_of (xs @ c # ys))[length xs := (w, a)]"
  using assms(1)
proof (induction xs arbitrary: i e mi act)
  case Nil
  then show ?case using assms(2) by (auto simp: entry_of_def)
next
  case (Cons x xs)
  let ?t = "xs @ c # ys"
  have IH: "\<exists>t' e' mi'. update_kv_cache_loop ?t w a i e mi act = (True, t', e', mi')
     \<and> map entry_of t' = (map entry_of ?t)[length xs := (w, a)]" for i e mi act using Cons by simp
  have ne: "kc_name_crc x \<noteq> w" using Cons.prems by auto
  show ?case
    using ne IH [of "Suc i" i mi act] IH [of "Suc i" e i "kc_active x"] IH [of "Suc i" e i "kc_active x - 1"] IH [of "Suc i" e mi act]
    by (auto simp: Let_def)
qed

text \<open>Every update puts the pair at one place where it may stand, or nowhere.\<close>

lemma update_kv_cache_entries:
  assumes len: "length (kvdb_kv_cache_table db) = FDB_KV_CACHE_TABLE_SIZE"
  obtains "length (kvdb_kv_cache_table (update_kv_cache db name a)) = FDB_KV_CACHE_TABLE_SIZE"
      "map entry_of (kvdb_kv_cache_table (update_kv_cache db name a)) = map entry_of (kvdb_kv_cache_table db)"
      "name_crc16 name \<notin> kc_name_crc ` set (kvdb_kv_cache_table db)"
    | k where "k < FDB_KV_CACHE_TABLE_SIZE" "length (kvdb_kv_cache_table (update_kv_cache db name a)) = FDB_KV_CACHE_TABLE_SIZE"
      "map entry_of (kvdb_kv_cache_table (update_kv_cache db name a)) = (map entry_of (kvdb_kv_cache_table db))[k := (name_crc16 name, a)]"
      "\<And>i. i < k \<Longrightarrow> kc_name_crc (kvdb_kv_cache_table db ! i) \<noteq> name_crc16 name"
      "kc_name_crc (kvdb_kv_cache_table db ! k) = name_crc16 name \<or> name_crc16 name \<notin> kc_name_crc ` set (kvdb_kv_cache_table db)"
proof (cases "name_crc16 name \<in> kc_name_crc ` set (kvdb_kv_cache_table db)")
  case True
  let ?t = "kvdb_kv_cache_table db"
  from True obtain x where "x \<in> set ?t" "kc_name_crc x = name_crc16 name" by auto
  then obtain xs c ys where t: "?t = xs @ c # ys" "kc_name_crc c = name_crc16 name" "\<forall>x \<in> set xs. kc_name_crc x \<noteq> name_crc16 name"
    using split_list_first_prop [of ?t "\<lambda>x. kc_name_crc x = name_crc16 name"] by blast
  have "name_crc16 name \<notin> kc_name_crc ` set xs" using t(3) by auto
  from update_loop_hit [OF this t(2), where ys = ys and a = a and i = 0 and e = FDB_KV_CACHE_TABLE_SIZE
      and mi = FDB_KV_CACHE_TABLE_SIZE and act = "0xFFFF"]
  obtain t' e' mi' where u: "update_kv_cache_loop ?t (name_crc16 name) a 0 FDB_KV_CACHE_TABLE_SIZE FDB_KV_CACHE_TABLE_SIZE 0xFFFF = (True, t', e', mi')"
    "map entry_of t' = (map entry_of ?t)[length xs := (name_crc16 name, a)]" unfolding t(1) by blast
  have l: "length t' = length ?t" using arg_cong [OF u(2), of length] by simp
  show thesis
  proof (rule that(2) [of "length xs"])
    show "length xs < FDB_KV_CACHE_TABLE_SIZE" using len t(1) by simp
    show "kc_name_crc (?t ! i) \<noteq> name_crc16 name" if "i < length xs" for i using that t by (simp add: nth_append)
  qed (use u l len t in \<open>simp_all add: update_kv_cache_def nth_append\<close>)
next
  case False
  let ?t = "kvdb_kv_cache_table db"
  obtain ret t' e mi where u: "update_kv_cache_loop ?t (name_crc16 name) a 0 FDB_KV_CACHE_TABLE_SIZE FDB_KV_CACHE_TABLE_SIZE 0xFFFF = (ret, t', e, mi)"
    by (metis prod_cases4)
  from update_loop_miss [OF False, where a = a and i = 0 and e = FDB_KV_CACHE_TABLE_SIZE
      and mi = FDB_KV_CACHE_TABLE_SIZE and act = "0xFFFF"]
  have m: "\<not> ret" "map entry_of t' = map entry_of ?t" unfolding u by auto
  then have l: "length t' = length ?t" by (metis length_map)
  have no: "kc_name_crc (?t ! i) \<noteq> name_crc16 name" if "i < length ?t" for i using False that by (metis imageI nth_mem)
  have put: "map entry_of (kv_cache_put t' k w a) = (map entry_of ?t)[k := (w, a)]" for k w
    by (simp add: kv_cache_put_def map_update m(2))
  have tab: "kvdb_kv_cache_table (update_kv_cache db name a) = (if e < FDB_KV_CACHE_TABLE_SIZE then kv_cache_put t' e (name_crc16 name) a
      else if mi < FDB_KV_CACHE_TABLE_SIZE then kv_cache_put t' mi (name_crc16 name) a else t')"
    using u m(1) by (simp add: update_kv_cache_def)
  have cases: "length (kvdb_kv_cache_table (update_kv_cache db name a)) = FDB_KV_CACHE_TABLE_SIZE"
    using tab l len by (simp add: kv_cache_put_def)
  consider "e < FDB_KV_CACHE_TABLE_SIZE" | "\<not> e < FDB_KV_CACHE_TABLE_SIZE" "mi < FDB_KV_CACHE_TABLE_SIZE"
    | "\<not> e < FDB_KV_CACHE_TABLE_SIZE" "\<not> mi < FDB_KV_CACHE_TABLE_SIZE" by blast
  then show thesis
    by cases (use that False tab put m(2) no len cases in auto)
qed

lemma update_keys_ok:
  assumes ok: "keys_ok P (kvdb_kv_cache_table db)" and a: "a \<noteq> FDB_DATA_UNUSED \<Longrightarrow> P' (name_crc16 name) a"
    and P: "\<And>w b. w \<noteq> name_crc16 name \<Longrightarrow> P w b \<Longrightarrow> P' w b"
  shows "keys_ok P' (kvdb_kv_cache_table (update_kv_cache db name a))"
proof -
  let ?t = "kvdb_kv_cache_table db"
  have len: "length ?t = FDB_KV_CACHE_TABLE_SIZE" using ok by (simp add: keys_ok_def)
  show ?thesis
  proof (rule update_kv_cache_entries [OF len, of name a])
    assume p: "length (kvdb_kv_cache_table (update_kv_cache db name a)) = FDB_KV_CACHE_TABLE_SIZE"
      "map entry_of (kvdb_kv_cache_table (update_kv_cache db name a)) = map entry_of ?t" "name_crc16 name \<notin> kc_name_crc ` set ?t"
    have "keys_ok P' ?t" by (rule keys_ok_mono [OF ok]) (use P p(3) in \<open>metis imageI\<close>)
    with p show ?thesis by (simp add: keys_ok_def)
  next
    fix k
    assume p: "k < FDB_KV_CACHE_TABLE_SIZE" "length (kvdb_kv_cache_table (update_kv_cache db name a)) = FDB_KV_CACHE_TABLE_SIZE"
      "map entry_of (kvdb_kv_cache_table (update_kv_cache db name a)) = (map entry_of ?t)[k := (name_crc16 name, a)]"
      "\<And>i. i < k \<Longrightarrow> kc_name_crc (?t ! i) \<noteq> name_crc16 name"
      "kc_name_crc (?t ! k) = name_crc16 name \<or> name_crc16 name \<notin> kc_name_crc ` set ?t"
    have "entries_ok P' ((map entry_of ?t)[k := (name_crc16 name, a)])"
      by (rule entries_set [where P = P]) (use ok p len a P in \<open>auto simp: keys_ok_def image_image\<close>)
    with p show ?thesis by (simp add: keys_ok_def)
  qed
qed

end
