(* ===== verification/KvLookup.thy ===== *)
theory KvLookup
  imports KvKeys
begin

text \<open>
  Looking up a key, with the cache in front: \<open>find_kv\<close> returns the live node of a key, when there is
  one, and the lookup functions return its value.
\<close>

section \<open>The nodes of a database\<close>

definition node_in :: "nat \<Rightarrow> nat \<Rightarrow> (nat \<Rightarrow> sector_log) \<Rightarrow> addr \<Rightarrow> kv_node \<Rightarrow> bool" where
  "node_in s m L a n \<longleftrightarrow> (\<exists>i st d pre post. i < m div s \<and> L i = (st, d, pre @ n # post) \<and> a = i * s + 16 + nodes_len pre)"

lemma addr_nodes_mem:
  "(a, n) \<in> set (addr_nodes b ns) \<longleftrightarrow> (\<exists>pre post. ns = pre @ n # post \<and> a = b + nodes_len pre)"
proof (induction ns arbitrary: b)
  case (Cons x ns)
  have "(\<exists>pre post. x # ns = pre @ n # post \<and> a = b + nodes_len pre) \<longleftrightarrow>
      (x = n \<and> a = b) \<or> (\<exists>pre post. ns = pre @ n # post \<and> a = b + node_len x + nodes_len pre)"
    by (auto simp: Cons_eq_append_conv) (metis add.assoc nodes_len.simps(2))+
  with Cons.IH [of "b + node_len x"] show ?case by auto
qed simp

lemma all_nodes_mem:
  assumes "oldest div s < m div s"
  shows "(a, n) \<in> set (all_nodes s m oldest L) \<longleftrightarrow> node_in s m L a n"
proof -
  have "(a, n) \<in> set (all_nodes s m oldest L) \<longleftrightarrow> (\<exists>i < m div s. (a, n) \<in> set (addr_nodes (i * s + 16) (log_nodes (L i))))"
    unfolding all_nodes_def db_nodes_def using set_ring [OF assms] by auto
  also have "\<dots> \<longleftrightarrow> node_in s m L a n"
    unfolding node_in_def addr_nodes_mem
  proof (intro iffI; elim exE conjE)
    fix i pre post
    assume "i < m div s" "log_nodes (L i) = pre @ n # post" "a = i * s + 16 + nodes_len pre"
    then show "\<exists>i st d pre post. i < m div s \<and> L i = (st, d, pre @ n # post) \<and> a = i * s + 16 + nodes_len pre"
      by (intro exI [of _ i] exI [of _ "fst (L i)"] exI [of _ "fst (snd (L i))"] exI [of _ pre] exI [of _ post])
         (cases "L i", simp add: log_nodes_def)
  next
    fix i st d pre post
    assume "i < m div s" "L i = (st, d, pre @ n # post)" "a = i * s + 16 + nodes_len pre"
    then show "\<exists>i < m div s. \<exists>pre post. log_nodes (L i) = pre @ n # post \<and> a = i * s + 16 + nodes_len pre"
      by (intro exI [of _ i] conjI exI [of _ pre] exI [of _ post]) (simp_all add: log_nodes_def)
  qed
  finally show ?thesis .
qed

lemma node_in_facts:
  assumes r: "kv_rel s m f L db" and a: "node_in s m L a n"
  shows "node_at f a n" "node_ok n" "in_sector s m a (node_len n)" "in_sector s m (a + 24) 64" "a < m" "a + node_len n + 88 \<le> m"
proof -
  from a obtain i st d pre post where i: "i < m div s" "L i = (st, d, pre @ n # post)" and eq: "a = i * s + 16 + nodes_len pre"
    by (auto simp: node_in_def)
  note nd = sector_node [OF r i] and sa = sector_addr [OF kv_relD(1) [OF r] i(1)] and sd = storedD [OF kv_relD(1) [OF r]]
  show "node_at f a n" "node_ok n" "in_sector s m a (node_len n)" using nd eq by simp_all
  then show "a < m" by (simp add: in_sector_def)
  show "in_sector s m (a + 24) 64"
    using in_sector_at [OF sd(4) sa(1,2), of "16 + nodes_len pre + 24" 64] nd(7) node_len_ge [OF nd(2)] eq by (simp add: add.assoc)
  show "a + node_len n + 88 \<le> m" using nd(7) sa(5) eq by simp
qed

lemma nodes_split_unique:
  "pre @ n # post = pre' @ n' # post' \<Longrightarrow> nodes_len pre = nodes_len pre' \<Longrightarrow> pre = pre'"
proof (induction pre arbitrary: pre')
  case Nil
  then show ?case by (cases pre') (auto simp: node_len_def KV_HDR_DATA_SIZE_def)
next
  case (Cons x pre)
  then show ?case by (cases pre') (auto simp: node_len_def KV_HDR_DATA_SIZE_def)
qed

text \<open>The address determines the place.\<close>

lemma node_place:
  assumes r: "kv_rel s m f L db" and i: "i < m div s" "L i = (st, d, pre @ n # post)"
    and j: "j < m div s" "L j = (st', d', pre' @ n' # post')" and eq: "i * s + 16 + nodes_len pre = j * s + 16 + nodes_len pre'"
  shows "i = j \<and> pre = pre' \<and> n = n' \<and> post = post'"
proof -
  note a = sector_node(7) [OF r i] sector_node(7) [OF r j]
  have "i = j"
    by (rule ccontr) (use sector_disjoint [of i j s "i * s + 16 + nodes_len pre"] a eq in auto)
  with i j eq have ns: "pre @ n # post = pre' @ n' # post'" "nodes_len pre = nodes_len pre'" by simp_all
  from nodes_split_unique [OF this] ns(1) \<open>i = j\<close> show ?thesis by simp
qed

lemma node_in_unique: "kv_rel s m f L db \<Longrightarrow> node_in s m L a n \<Longrightarrow> node_in s m L a n' \<Longrightarrow> n = n'"
  unfolding node_in_def by (elim exE conjE) (drule (4) node_place, simp_all)


section \<open>The cache in front\<close>

text \<open>What an entry of the cache stands for: a live node whose name has the checksum.\<close>

definition key_entry :: "nat \<Rightarrow> nat \<Rightarrow> (nat \<Rightarrow> sector_log) \<Rightarrow> nat \<Rightarrow> addr \<Rightarrow> bool" where
  "key_entry s m L w a \<longleftrightarrow> (\<exists>n. node_in s m L a n \<and> nd_status n = FDB_KV_WRITE \<and> name_crc16 (nd_key n) = w)"

lemma keys_touch:
  assumes "keys_ok P t" "i < length t"
  shows "keys_ok P (t[i := kv_cache_touch (t ! i)])"
proof -
  have "map entry_of (t[i := kv_cache_touch (t ! i)]) = map entry_of t"
    using assms(2) by (simp add: map_update list_update_same_conv)
  then show ?thesis using assms(1) by (simp add: keys_ok_def)
qed

lemma cache_lookup_loop:
  assumes "kv_rel s m f L db" "keys_ok (key_entry s m L) (kvdb_kv_cache_table db)"
    and "\<And>hit db'. kv_rel s m f L db' \<Longrightarrow> kv_frame db db' \<Longrightarrow> keys_ok (key_entry s m L) (kvdb_kv_cache_table db') \<Longrightarrow>
      (case hit of None \<Rightarrow> True | Some a \<Rightarrow> \<exists>n. node_in s m L a n \<and> nd_status n = FDB_KV_WRITE
         \<and> name_crc16 (nd_key n) = name_crc16 name \<and> strncmp_eq name (rd f (a + 24) 64) (length name)) \<Longrightarrow> Q (hit, db')"
  shows "holds (get_kv_from_cache_loop db name i) Q"
  using assms
proof (induction "FDB_KV_CACHE_TABLE_SIZE - i" arbitrary: i db)
  case 0
  then show ?case using kv_frame_io [OF io_frame_refl] by (subst get_kv_from_cache_loop.simps) simp
next
  case (Suc k)
  let ?c = "kvdb_kv_cache_table db ! i"
  have i: "i < FDB_KV_CACHE_TABLE_SIZE" using Suc.hyps(2) by simp
  then have len: "i < length (kvdb_kv_cache_table db)" using Suc.prems(2) by (simp add: keys_ok_def)
  have next_one: "holds (get_kv_from_cache_loop db1 name (Suc i)) Q" if "kv_rel s m f L db1" "io_frame db db1" for db1
    by (rule Suc.hyps(1)) (use Suc that io_frame_kv(2) [OF that(2)] kv_frame_trans [OF kv_frame_io [OF that(2)]] in auto)
  show ?case
  proof (cases "kc_addr ?c \<noteq> FDB_DATA_UNUSED \<and> kc_name_crc ?c = name_crc16 name")
    case False
    then show ?thesis using next_one [OF Suc.prems(1) io_frame_refl] i
      by (subst get_kv_from_cache_loop.simps) (auto simp: Let_def)
  next
    case True
    have "key_entry s m L (kc_name_crc ?c) (kc_addr ?c)"
      by (rule keys_okD [OF Suc.prems(2)]) (use len True in auto)
    then obtain n where n: "node_in s m L (kc_addr ?c) n" "nd_status n = FDB_KV_WRITE" "name_crc16 (nd_key n) = name_crc16 name"
      using True by (auto simp: key_entry_def)
    note nf = node_in_facts [OF Suc.prems(1) n(1)]
    have u: "u32 (kc_addr ?c + KV_HDR_DATA_SIZE) = kc_addr ?c + 24"
      using stored_u32 [OF kv_relD(1) [OF Suc.prems(1)]] nf(4) by (simp add: KV_HDR_DATA_SIZE_def in_sector_def)
    show ?thesis
      unfolding get_kv_from_cache_loop.simps [of db name i] if_P [OF i] Let_def if_P [OF True] holds_bind u FDB_KV_NAME_MAX_def
    proof (rule stored_read [OF kv_relD(1) [OF Suc.prems(1)] nf(4)], goal_cases)
      case (1 r db1)
      have rel1: "kv_rel s m f L db1" by (rule kv_rel_frame [OF Suc.prems(1) 1(1,2)])
      note tab = io_frame_kv(2) [OF 1(2)]
      show ?case
      proof (cases "strncmp_eq name (rd f (kc_addr ?c + 24) 64) (length name)")
        case False
        then show ?thesis using next_one [OF rel1 1(2)] by simp
      next
        case True
        with Suc.prems(3) [of "db1\<lparr>kvdb_kv_cache_table := (kvdb_kv_cache_table db1)[i := kv_cache_touch ?c]\<rparr>" "Some (kc_addr ?c)"]
        show ?thesis using rel1 kv_frame_io [OF 1(2)] keys_touch [OF Suc.prems(2) len] n tab by auto
      qed
    qed
  qed
qed


section \<open>Finding a key\<close>

text \<open>No other live key has the checksum of this one.\<close>

definition no_clash :: "nat \<Rightarrow> nat \<Rightarrow> (nat \<Rightarrow> sector_log) \<Rightarrow> byte list \<Rightarrow> bool" where
  "no_clash s m L key \<longleftrightarrow> (\<forall>a n. node_in s m L a n \<longrightarrow> nd_status n = FDB_KV_WRITE \<longrightarrow>
     name_crc16 (nd_key n) = name_crc16 key \<longrightarrow> nd_key n = key)"

definition no_live :: "nat \<Rightarrow> nat \<Rightarrow> (nat \<Rightarrow> sector_log) \<Rightarrow> byte list \<Rightarrow> bool" where
  "no_live s m L key \<longleftrightarrow> (\<forall>a n. node_in s m L a n \<longrightarrow> \<not> live key n)"

lemma oldest_index: "kv_rel s m f L db \<Longrightarrow> db_oldest_addr db div s < m div s"
  using kv_relD(4) [of s m f L db] storedD(3,4) [OF kv_relD(1)] by (simp add: less_mult_imp_div_less)

lemma first_live_None: "kv_rel s m f L db \<Longrightarrow> first_live key (all_nodes s m (db_oldest_addr db) L) = None \<longleftrightarrow> no_live s m L key"
  using all_nodes_mem [OF oldest_index, of s m f L db] by (auto simp: first_live_def find_None_iff no_live_def)

lemma first_live_Some:
  "kv_rel s m f L db \<Longrightarrow> first_live key (all_nodes s m (db_oldest_addr db) L) = Some (a, n) \<Longrightarrow> node_in s m L a n \<and> live key n"
  using all_nodes_mem [OF oldest_index, of s m f L db a n] by (auto simp: first_live_def dest!: find_Some_iff')

lemma find_kv_ok:
  assumes r: "kv_rel s m f L db" and big: "m + s < 2 ^ 32" and key: "c_string key" "length key < 64"
    and keys: "keys_ok (key_entry s m L) (kvdb_kv_cache_table db)" and clash: "no_clash s m L key"
    and none: "\<And>kv' db'. no_live s m L key \<Longrightarrow> kv_rel s m f L db' \<Longrightarrow> kv_frame db db' \<Longrightarrow>
        keys_ok (key_entry s m L) (kvdb_kv_cache_table db') \<Longrightarrow> Q (False, kv', db')"
    and some: "\<And>a n kv0 db'. node_in s m L a n \<Longrightarrow> live key n \<Longrightarrow> kv_rel s m f L db' \<Longrightarrow> kv_frame db db' \<Longrightarrow>
        keys_ok (key_entry s m L) (kvdb_kv_cache_table db') \<Longrightarrow> Q (True, node_kv kv0 a n, db')"
  shows "holds (find_kv db key kv) Q"
proof -
  have len: "strlen key = length key" using key(1) by simp
  show ?thesis
    unfolding find_kv_def Let_def len take_all [OF le_refl] get_kv_from_cache_def holds_bind
  proof (rule cache_lookup_loop [OF r keys], goal_cases)
    case (1 hit db1)
    have o: "db_oldest_addr db1 = db_oldest_addr db" by (rule kv_frameD(1) [OF 1(2)])
    show ?case
    proof (cases hit)
      case None
      have "holds (find_kv_no_cache db1 key kv) (\<lambda>(found, kv', db'). Q (found, kv',
          if found then update_kv_cache db' key (kv_addr_start kv') else db'))"
      proof (rule find_no_cache_ok [OF 1(1) big key], goal_cases)
        case (1 kv' db')
        then show ?case using none [of db' kv'] first_live_None [OF \<open>kv_rel s m f L db1\<close>]
          kv_frame_trans [OF \<open>kv_frame db db1\<close>] \<open>keys_ok _ (kvdb_kv_cache_table db1)\<close> by simp
      next
        case (2 a n kv0 db')
        have n: "node_in s m L a n" "live key n" using first_live_Some [OF \<open>kv_rel s m f L db1\<close> 2(1)] by simp_all
        have "keys_ok (key_entry s m L) (kvdb_kv_cache_table (update_kv_cache db' key a))"
          by (rule update_keys_ok [where P = "key_entry s m L"])
             (use 2(4) \<open>keys_ok _ (kvdb_kv_cache_table db1)\<close> n in \<open>auto simp: key_entry_def live_def\<close>)
        with some [OF n, of "update_kv_cache db' key a" kv0] 2 kv_frame_trans [OF \<open>kv_frame db db1\<close> 2(3)]
        show ?case by simp
      qed
      then show ?thesis using None by (simp add: split_def cong: if_cong)
    next
      case (Some a)
      with 1(4) obtain n where n: "node_in s m L a n" "nd_status n = FDB_KV_WRITE" "name_crc16 (nd_key n) = name_crc16 key" by auto
      then have lv: "live key n" using clash by (auto simp: no_clash_def live_def)
      note nf = node_in_facts [OF 1(1) n(1)]
      have "holds (read_kv db1 (kv\<lparr>kv_addr_start := a\<rparr>)) (\<lambda>(r, kv', db'). Q (True, kv', db'))"
      proof (rule read_kv_node [OF kv_relD(1) [OF 1(1)] nf(1-3)], goal_cases)
        case (1 db2)
        show ?case
          using some [OF n(1) lv kv_rel_frame [OF \<open>kv_rel s m f L db1\<close> 1(1,2)] kv_frame_trans [OF \<open>kv_frame db db1\<close> kv_frame_io [OF 1(2)]]]
            io_frame_kv(2) [OF 1(2)] \<open>keys_ok _ (kvdb_kv_cache_table db1)\<close> by simp
      qed
      then show ?thesis using Some by (simp add: split_def)
    qed
  qed
qed

end
