(* ===== verification/KvMap.thy ===== *)
theory KvMap
  imports KvLookup
begin

text \<open>
  The key-value database as a finite map. \<open>kv_store\<close> is the map from keys to values that the nodes stand
  for; setting, deleting and getting a key refine the update, the removal and the lookup in it.
\<close>

section \<open>How the nodes change\<close>

lemma addr_nodes_append [simp]: "addr_nodes b (xs @ ys) = addr_nodes b xs @ addr_nodes (b + nodes_len xs) ys"
  by (induction xs arbitrary: b) (auto simp: add.assoc)

lemma addr_nodes_less: "(a, n) \<in> set (addr_nodes b ns) \<Longrightarrow> b \<le> a \<and> a < b + nodes_len ns"
  by (induction ns arbitrary: b) (auto simp: node_len_def KV_HDR_DATA_SIZE_def Suc_le_eq, force+)

lemma node_inI: "i < m div s \<Longrightarrow> L i = (st, d, pre @ n # post) \<Longrightarrow> node_in s m L (i * s + 16 + nodes_len pre) n"
  unfolding node_in_def by blast

lemma node_in_iff:
  "node_in s m L a n \<longleftrightarrow> (\<exists>i < m div s. (a, n) \<in> set (addr_nodes (i * s + 16) (log_nodes (L i))))"
  unfolding node_in_def addr_nodes_mem
proof (intro iffI; elim exE conjE)
  fix i pre post
  assume "i < m div s" "log_nodes (L i) = pre @ n # post" "a = i * s + 16 + nodes_len pre"
  then show "\<exists>i st d pre post. i < m div s \<and> L i = (st, d, pre @ n # post) \<and> a = i * s + 16 + nodes_len pre"
    by (intro exI [of _ i] exI [of _ "fst (L i)"] exI [of _ "fst (snd (L i))"] exI [of _ pre] exI [of _ post])
       (cases "L i", simp add: log_nodes_def)
next
  fix i st d pre post
  assume "i < m div s" "L i = (st, d, pre @ n # post)" "a = i * s + 16 + nodes_len pre"
  then show "\<exists>i < m div s. \<exists>pre post. log_nodes (L i) = pre @ n # post \<and> a = i * s + 16 + nodes_len pre"
    by (intro exI [of _ i] conjI exI [of _ pre] exI [of _ post]) (simp_all add: log_nodes_def)
qed

lemma log_nodes_simp [simp]: "log_nodes (st, d, ns) = ns"
  by (simp add: log_nodes_def)

lemma node_in_append:
  assumes "i < m div s" "log_nodes (L i) = ns"
  shows "node_in s m (L(i := (st, d, ns @ [n]))) a x \<longleftrightarrow> node_in s m L a x \<or> (a = log_end (i * s) ns \<and> x = n)"
  unfolding node_in_iff
proof
  assume "\<exists>j < m div s. (a, x) \<in> set (addr_nodes (j * s + 16) (log_nodes ((L(i := (st, d, ns @ [n]))) j)))"
  then obtain j where j: "j < m div s" "(a, x) \<in> set (addr_nodes (j * s + 16) (log_nodes ((L(i := (st, d, ns @ [n]))) j)))" by blast
  then show "(\<exists>j < m div s. (a, x) \<in> set (addr_nodes (j * s + 16) (log_nodes (L j)))) \<or> a = log_end (i * s) ns \<and> x = n"
    using assms by (cases "j = i") (auto simp: log_end_def add.assoc)
next
  assume "(\<exists>j < m div s. (a, x) \<in> set (addr_nodes (j * s + 16) (log_nodes (L j)))) \<or> a = log_end (i * s) ns \<and> x = n"
  then show "\<exists>j < m div s. (a, x) \<in> set (addr_nodes (j * s + 16) (log_nodes ((L(i := (st, d, ns @ [n]))) j)))"
  proof
    assume "\<exists>j < m div s. (a, x) \<in> set (addr_nodes (j * s + 16) (log_nodes (L j)))"
    then obtain j where j: "j < m div s" "(a, x) \<in> set (addr_nodes (j * s + 16) (log_nodes (L j)))" by blast
    then show ?thesis using assms by (intro exI [of _ j]) auto
  next
    assume "a = log_end (i * s) ns \<and> x = n"
    then show ?thesis using assms by (intro exI [of _ i]) (simp add: log_end_def)
  qed
qed

lemma sector_addr_of:
  assumes r: "kv_rel s m f L db" and j: "j < m div s" "(a, x) \<in> set (addr_nodes (j * s + 16) (log_nodes (L j)))"
  shows "j * s \<le> a" "a < j * s + s"
proof -
  obtain st d ns where L: "L j = (st, d, ns)" by (cases "L j")
  have "16 + nodes_len ns \<le> s" using sectors_holdD [OF kv_relD(2) [OF r] j(1) L] by (simp add: sector_holds_def)
  with addr_nodes_less [OF j(2)] L show "j * s \<le> a" "a < j * s + s" by auto
qed

lemma node_in_replace:
  assumes r: "kv_rel s m f L db" and i: "i < m div s" "L i = (st, d, pre @ n # post)" and n': "node_len n' = node_len n"
  shows "node_in s m (L(i := (st', d', pre @ n' # post))) a x \<longleftrightarrow>
    (if a = i * s + 16 + nodes_len pre then x = n' else node_in s m L a x)"
proof -
  let ?a = "i * s + 16 + nodes_len pre" and ?L = "L(i := (st', d', pre @ n' # post))"
  have pos: "0 < node_len n" by (simp add: node_len_def KV_HDR_DATA_SIZE_def)
  have here: "(a, x) \<in> set (addr_nodes (i * s + 16) (log_nodes (?L i))) \<longleftrightarrow>
      (if a = ?a then x = n' else (a, x) \<in> set (addr_nodes (i * s + 16) (log_nodes (L i))))"
    using addr_nodes_less [of a x "i * s + 16" pre] addr_nodes_less [of a x "?a + node_len n" post] i(2) n' pos
    by (auto simp: add.assoc)
  have i_bound: "i * s \<le> ?a" "?a < i * s + s" using sector_node(7) [OF r i] by simp_all
  have there: "a \<noteq> ?a" if "j < m div s" "j \<noteq> i" "(a, x) \<in> set (addr_nodes (j * s + 16) (log_nodes (L j)))" for j
    using sector_addr_of [OF r that(1,3)] sector_disjoint [OF that(2), of s a] i_bound by auto
  show ?thesis
    unfolding node_in_iff
  proof (intro iffI)
    assume "\<exists>j < m div s. (a, x) \<in> set (addr_nodes (j * s + 16) (log_nodes (?L j)))"
    then obtain j where j: "j < m div s" "(a, x) \<in> set (addr_nodes (j * s + 16) (log_nodes (?L j)))" by blast
    show "if a = ?a then x = n' else \<exists>j < m div s. (a, x) \<in> set (addr_nodes (j * s + 16) (log_nodes (L j)))"
    proof (cases "j = i")
      case True
      with j here i(1) show ?thesis by (auto split: if_splits)
    next
      case False
      with j there [of j] show ?thesis by auto
    qed
  next
    assume a: "if a = ?a then x = n' else \<exists>j < m div s. (a, x) \<in> set (addr_nodes (j * s + 16) (log_nodes (L j)))"
    show "\<exists>j < m div s. (a, x) \<in> set (addr_nodes (j * s + 16) (log_nodes (?L j)))"
    proof (cases "a = ?a")
      case True
      with a here i(1) show ?thesis by auto
    next
      case False
      with a obtain j where j: "j < m div s" "(a, x) \<in> set (addr_nodes (j * s + 16) (log_nodes (L j)))" by auto
      show ?thesis
      proof (cases "j = i")
        case True
        with j here False i(1) show ?thesis by auto
      next
        case c: False
        with j show ?thesis by (intro exI [of _ j]) simp
      qed
    qed
  qed
qed


section \<open>The map\<close>

definition kv_store :: "nat \<Rightarrow> nat \<Rightarrow> (nat \<Rightarrow> sector_log) \<Rightarrow> byte list \<rightharpoonup> byte list" where
  "kv_store s m L key = map_option (\<lambda>(a, n). nd_val n) (first_live key (all_nodes s m 0 L))"

definition one_live :: "nat \<Rightarrow> nat \<Rightarrow> (nat \<Rightarrow> sector_log) \<Rightarrow> bool" where
  "one_live s m L \<longleftrightarrow> (\<forall>a n a' n'. node_in s m L a n \<longrightarrow> node_in s m L a' n' \<longrightarrow> nd_status n = FDB_KV_WRITE \<longrightarrow>
     nd_status n' = FDB_KV_WRITE \<longrightarrow> nd_key n = nd_key n' \<longrightarrow> a = a')"

lemma sectors_pos: "kv_rel s m f L db \<Longrightarrow> 0 < m div s"
  using oldest_index [of s m f L db] by simp

lemma store_None: "0 < m div s \<Longrightarrow> kv_store s m L key = None \<longleftrightarrow> no_live s m L key"
  using all_nodes_mem [of 0 s m _ _ L] by (auto simp: kv_store_def first_live_def find_None_iff no_live_def)

lemma store_Some:
  assumes r: "kv_rel s m f L db" and u: "one_live s m L"
  shows "kv_store s m L key = Some v \<longleftrightarrow> (\<exists>a n. node_in s m L a n \<and> live key n \<and> nd_val n = v)"
proof -
  have one: "n = n'" if "node_in s m L a n" "live key n" "node_in s m L a' n'" "live key n'" for a n a' n'
    using that u node_in_unique [OF r] unfolding one_live_def live_def by metis
  note m = sectors_pos [OF r]
  show ?thesis
  proof (cases "first_live key (all_nodes s m 0 L)")
    case None
    then have "kv_store s m L key = None" by (simp add: kv_store_def)
    moreover from this have "no_live s m L key" using store_None [OF m] by simp
    ultimately show ?thesis by (auto simp: no_live_def)
  next
    case (Some p)
    obtain a n where p: "p = (a, n)" by (cases p)
    have n: "node_in s m L a n" "live key n"
      using find_Some_iff' [OF Some [unfolded first_live_def p]] all_nodes_mem [of 0 s m a n L] m by auto
    have "kv_store s m L key = Some (nd_val n)" using Some p by (simp add: kv_store_def)
    moreover have "(\<exists>a n. node_in s m L a n \<and> live key n \<and> nd_val n = v) \<longleftrightarrow> nd_val n = v"
      using one [OF n] n by blast
    ultimately show ?thesis by simp
  qed
qed

text \<open>
  The invariant between two calls. \<open>K\<close> is a set of keys with different 16-bit checksums that contains
  every key in use; a sector in use keeps more than the threshold free; an empty sector is clean, and there
  is one.
\<close>

definition snug :: "nat \<Rightarrow> nat \<Rightarrow> (nat \<Rightarrow> sector_log) \<Rightarrow> bool" where
  "snug s m L \<longleftrightarrow> (\<forall>i < m div s. log_nodes (L i) \<noteq> [] \<longrightarrow> 16 + nodes_len (log_nodes (L i)) + FDB_SEC_REMAIN_THRESHOLD < s)"

definition key_ok :: "byte list \<Rightarrow> bool" where
  "key_ok key \<longleftrightarrow> key \<noteq> [] \<and> length key < FDB_KV_NAME_MAX \<and> c_string key"

definition logs_ok :: "byte list set \<Rightarrow> nat \<Rightarrow> nat \<Rightarrow> (nat \<Rightarrow> sector_log) \<Rightarrow> bool" where
  "logs_ok K s m L \<longleftrightarrow> one_live s m L \<and> snug s m L \<and> inj_on name_crc16 K \<and> (\<forall>k \<in> K. key_ok k)
     \<and> (\<forall>a n. node_in s m L a n \<longrightarrow> nd_status n = FDB_KV_WRITE \<longrightarrow> nd_key n \<in> K)
     \<and> (\<forall>i < m div s. fst (L i) = FDB_SECTOR_STORE_EMPTY \<longrightarrow> snd (L i) = (FDB_SECTOR_DIRTY_FALSE, []))"

text \<open>No node is left half deleted or half written, but for those at the addresses \<open>A\<close>.\<close>

definition settled :: "nat \<Rightarrow> nat \<Rightarrow> addr set \<Rightarrow> (nat \<Rightarrow> sector_log) \<Rightarrow> bool" where
  "settled s m A L \<longleftrightarrow> (\<forall>a n. node_in s m L a n \<longrightarrow> a \<in> A \<or> nd_status n = FDB_KV_WRITE \<or> nd_status n = FDB_KV_DELETED)"

definition has_empty :: "nat \<Rightarrow> nat \<Rightarrow> (nat \<Rightarrow> sector_log) \<Rightarrow> bool" where
  "has_empty s m L \<longleftrightarrow> (\<exists>i < m div s. fst (L i) = FDB_SECTOR_STORE_EMPTY)"

definition kv_inv :: "byte list set \<Rightarrow> nat \<Rightarrow> nat \<Rightarrow> (addr \<Rightarrow> byte) \<Rightarrow> (nat \<Rightarrow> sector_log) \<Rightarrow> fdb_kvdb \<Rightarrow> bool" where
  "kv_inv K s m f L db \<longleftrightarrow> kv_rel s m f L db \<and> m + s < 2 ^ 32 \<and> logs_ok K s m L \<and> settled s m {} L \<and> has_empty s m L
     \<and> marks_ok False (m div s) L
     \<and> keys_ok (key_entry s m L) (kvdb_kv_cache_table db)
     \<and> \<not> kvdb_gc_request db \<and> \<not> kvdb_last_is_complete_del db \<and> \<not> kvdb_in_recovery_check db"

lemma kv_invD:
  assumes "kv_inv K s m f L db"
  shows "kv_rel s m f L db" "m + s < 2 ^ 32" "logs_ok K s m L" "keys_ok (key_entry s m L) (kvdb_kv_cache_table db)"
    "\<not> kvdb_gc_request db" "\<not> kvdb_last_is_complete_del db" "settled s m {} L" "has_empty s m L"
    "\<not> kvdb_in_recovery_check db" "marks_ok False (m div s) L"
  using assms by (simp_all add: kv_inv_def)

lemma no_clashI: "logs_ok K s m L \<Longrightarrow> key \<in> K \<Longrightarrow> no_clash s m L key"
  by (auto simp: logs_ok_def no_clash_def inj_on_def)

lemma store_live:
  assumes "kv_rel s m f L db" "logs_ok K s m L" "node_in s m L a n" "live key n"
  shows "kv_store s m L key = Some (nd_val n)"
proof -
  have "one_live s m L" using assms(2) by (simp add: logs_ok_def)
  from store_Some [OF assms(1) this] assms(3,4) show ?thesis by blast
qed

end
