(* ===== verification/KvLock.thy ===== *)
theory KvLock
  imports KvFrame
begin

text \<open>
  The operations of the key-value database keep the configuration: one rule per operation, through the
  visitors of the iterators, up to the public functions. Over any sequence of public calls the lock is
  released as often as it is taken, and the configuration of an initialised database stays as it is.
\<close>

section \<open>Lookup\<close>

interpretation find_visitor: node_visitor "find_kv_cb key" for key
  by unfold_locales (simp add: find_kv_cb_def Let_def)

declare find_visitor.kv_iterator_wp [wp_rules]

lemma find_no_cache_meta [wp_rules]:
  "(\<And>ok kv' db'. meta db' = meta db \<Longrightarrow> Q (ok, kv', db')) \<Longrightarrow> yields (find_kv_no_cache db key kv) Q"
  by (auto simp: find_kv_no_cache_def Let_def intro!: wp_rules)

lemma find_kv_meta [wp_rules]:
  "(\<And>ok kv' db'. meta db' = meta db \<Longrightarrow> Q (ok, kv', db')) \<Longrightarrow> yields (find_kv db key kv) Q"
  by (auto simp: find_kv_def Let_def intro!: wp_rules split: option.split)

lemma get_kv_meta [wp_rules]:
  "(\<And>n l buf' db'. meta db' = meta db \<Longrightarrow> Q (n, l, buf', db')) \<Longrightarrow> yields (get_kv db key buf n0) Q"
  by (auto simp: get_kv_def Let_def intro!: wp_rules split: option.split)


section \<open>Allocation and deletion\<close>

lemma write_kv_hdr_meta [wp_rules]:
  "(\<And>r db'. meta db' = meta db \<Longrightarrow> Q (r, db')) \<Longrightarrow> yields (write_kv_hdr db a h) Q"
  by (auto simp: write_kv_hdr_def Let_def intro!: wp_rules)

lemma format_sector_meta [wp_rules]:
  "(\<And>r db'. meta db' = meta db \<Longrightarrow> Q (r, db')) \<Longrightarrow> yields (kv_format_sector db a c) Q"
  by (auto simp: kv_format_sector_def Let_def intro!: wp_rules)

lemma update_sec_status_meta [wp_rules]:
  "(\<And>r full' db'. meta db' = meta db \<Longrightarrow> Q (r, full', db')) \<Longrightarrow> yields (kv_update_sec_status db sector n full) Q"
  by (auto simp: kv_update_sec_status_def Let_def intro!: wp_rules)

interpretation statistics_visitor: sector_visitor sector_statistics_cb
  by unfold_locales (simp add: sector_statistics_cb_def split: prod.split)

interpretation alloc_visitor: sector_visitor "alloc_kv_cb n" for n
  by unfold_locales (simp add: alloc_kv_cb_def)

declare statistics_visitor.kv_sector_iterator_wp [wp_rules] alloc_visitor.kv_sector_iterator_wp [wp_rules]

lemma alloc_kv_meta [wp_rules]:
  "(\<And>a sector' db'. meta db' = meta db \<Longrightarrow> Q (a, sector', db')) \<Longrightarrow> yields (alloc_kv db sector n) Q"
  by (auto simp: alloc_kv_def Let_def intro!: wp_rules)

lemma mark_dirty_meta [wp_rules]:
  "(\<And>r db'. meta db' = meta db \<Longrightarrow> Q (r, db')) \<Longrightarrow> yields (del_kv_mark_dirty db a t) Q"
  by (auto simp: del_kv_mark_dirty_def Let_def intro!: wp_rules split: option.split)

lemma del_node_meta [wp_rules]:
  "(\<And>r db'. meta db' = meta db \<Longrightarrow> Q (r, db')) \<Longrightarrow> yields (del_kv_node db key kv c) Q"
  by (auto simp: del_kv_node_def Let_def intro!: wp_rules)

lemma del_kv_meta [wp_rules]:
  "(\<And>r db'. meta db' = meta db \<Longrightarrow> Q (r, db')) \<Longrightarrow> yields (del_kv db key kv c) Q"
  by (auto simp: del_kv_def Let_def intro!: wp_rules split: option.split)


section \<open>Moving and garbage collection\<close>

lemma move_kv_copy_meta:
  assumes "move_kv_copy db buf src dst n k res = Some r"
  shows "meta (snd r) = meta db"
  apply (rule move_kv_copy.raw_induct [where P = "\<lambda>db buf src dst n k res r. meta (snd r) = meta db", OF _ assms])
  subgoal premises p for f db buf src dst n k res r
  proof -
    have IH: "yields (f db buf src dst n k res) (\<lambda>r. meta (snd r) = meta db)" for db buf src dst n k res
      by (rule yieldsI) (erule p(1))
    show ?thesis
      by (rule yieldsD [OF p(2)]) (auto simp: Let_def intro!: wp_rules yields_mono [OF IH])
  qed
  done

lemma move_kv_copy_wp [wp_rules]:
  "(\<And>r. meta (snd r) = meta db \<Longrightarrow> Q r) \<Longrightarrow> yields (move_kv_copy db buf src dst n k res) Q"
  by (rule yields_rec) (erule move_kv_copy_meta)

lemma move_write_meta [wp_rules]:
  "(\<And>r db'. meta db' = meta db \<Longrightarrow> Q (r, db')) \<Longrightarrow> yields (move_kv_write db sector kv a) Q"
  by (auto simp: move_kv_write_def Let_def intro!: wp_rules)

lemma move_kv_meta [wp_rules]:
  "(\<And>r db'. meta db' = meta db \<Longrightarrow> Q (r, db')) \<Longrightarrow> yields (move_kv db kv) Q"
  by (auto simp: move_kv_def Let_def intro!: wp_rules)

interpretation gc_check_visitor: sector_visitor gc_check_cb
  by unfold_locales (simp add: gc_check_cb_def)

declare gc_check_visitor.kv_sector_iterator_wp [wp_rules]

lemma do_gc_loop_meta:
  assumes "do_gc_loop db sector kv = Some r"
  shows "meta (r) = meta db"
  apply (rule do_gc_loop.raw_induct [where P = "\<lambda>db sector kv r. meta (r) = meta db", OF _ assms])
  subgoal premises p for f db sector kv r
  proof -
    have IH: "yields (f db sector kv) (\<lambda>r. meta (r) = meta db)" for db sector kv
      by (rule yieldsI) (erule p(1))
    show ?thesis
      by (rule yieldsD [OF p(2)]) (auto simp: Let_def intro!: wp_rules yields_mono [OF IH])
  qed
  done

lemma do_gc_loop_wp [wp_rules]:
  "(\<And>r. meta (r) = meta db \<Longrightarrow> Q r) \<Longrightarrow> yields (do_gc_loop db sector kv) Q"
  by (rule yields_rec) (erule do_gc_loop_meta)

interpretation gc_visitor: sector_visitor "do_gc n" for n
  by unfold_locales (auto simp: do_gc_def Let_def intro!: wp_rules)

declare gc_visitor.kv_sector_iterator_wp [wp_rules]

lemma gc_by_size_meta [wp_rules]:
  "(\<And>db'. meta db' = meta db \<Longrightarrow> Q db') \<Longrightarrow> yields (gc_collect_by_free_size db n) Q"
  by (auto simp: gc_collect_by_free_size_def Let_def intro!: wp_rules)

lemma gc_collect_meta [wp_rules]:
  "(\<And>db'. meta db' = meta db \<Longrightarrow> Q db') \<Longrightarrow> yields (gc_collect db) Q"
  by (auto simp: gc_collect_def Let_def intro!: wp_rules)

lemma new_kv_meta [wp_rules]:
  "(\<And>a sector' db'. meta db' = meta db \<Longrightarrow> Q (a, sector', db')) \<Longrightarrow> yields (new_kv db sector n) Q"
  by (auto simp: new_kv_def Let_def intro!: wp_rules)

lemma new_kv_ex_meta [wp_rules]:
  "(\<And>a sector' db'. meta db' = meta db \<Longrightarrow> Q (a, sector', db')) \<Longrightarrow> yields (new_kv_ex db sector k n) Q"
  by (auto simp: new_kv_ex_def Let_def intro!: wp_rules)


section \<open>Setting a key and the default values\<close>

lemma create_write_meta [wp_rules]:
  "(\<And>r db'. meta db' = meta db \<Longrightarrow> Q (r, db')) \<Longrightarrow> yields (create_kv_write db sector a h key v) Q"
  by (auto simp: create_kv_write_def Let_def intro!: wp_rules)

lemma create_blob_meta [wp_rules]:
  "(\<And>r sector' db'. meta db' = meta db \<Longrightarrow> Q (r, sector', db')) \<Longrightarrow> yields (create_kv_blob db sector key v n) Q"
  by (auto simp: create_kv_blob_def Let_def intro!: wp_rules)

lemma set_kv_meta [wp_rules]:
  "(\<And>r db'. meta db' = meta db \<Longrightarrow> Q (r, db')) \<Longrightarrow> yields (set_kv db key v n) Q"
  by (auto simp: set_kv_def set_kv_write_def Let_def intro!: wp_rules split: option.split)

lemma format_all_loop_meta:
  assumes "format_all_loop db a = Some r"
  shows "meta (snd r) = meta db"
  apply (rule format_all_loop.raw_induct [where P = "\<lambda>db a r. meta (snd r) = meta db", OF _ assms])
  subgoal premises p for f db a r
  proof -
    have IH: "yields (f db a) (\<lambda>r. meta (snd r) = meta db)" for db a
      by (rule yieldsI) (erule p(1))
    show ?thesis
      by (rule yieldsD [OF p(2)]) (auto simp: Let_def intro!: wp_rules yields_mono [OF IH])
  qed
  done

lemma format_all_loop_wp [wp_rules]:
  "(\<And>r. meta (snd r) = meta db \<Longrightarrow> Q r) \<Longrightarrow> yields (format_all_loop db a) Q"
  by (rule yields_rec) (erule format_all_loop_meta)

lemma create_defaults_meta: "yields (create_defaults db sector ds) (\<lambda>db'. meta db' = meta db)"
proof (induction ds arbitrary: db sector)
  case (Cons d ds)
  show ?case by (auto intro!: wp_rules yields_mono [OF Cons.IH])
qed simp

lemma create_defaults_wp [wp_rules]:
  "(\<And>db'. meta db' = meta db \<Longrightarrow> Q db') \<Longrightarrow> yields (create_defaults db sector ds) Q"
  by (rule yields_mono [OF create_defaults_meta])

section \<open>The public functions\<close>

text \<open>A lock function is installed exactly when an unlock function is.\<close>

definition lock_pair :: "'a fdb_db_scheme \<Rightarrow> bool" where
  "lock_pair db \<longleftrightarrow> db_lock_fn db = db_unlock_fn db"

lemma lock_pair_meta:
  fixes db db' :: "'a fdb_db_scheme"
  shows "lock_pair db \<Longrightarrow> meta db' = meta db \<Longrightarrow> lock_pair db'"
  by (simp add: meta_def lock_pair_def)

lemma unlock_meta [simp]:
  "lock_pair db \<Longrightarrow> meta db' = meta (db_lock db) \<Longrightarrow> meta (db_unlock db') = meta db"
  by (auto simp: meta_def lock_pair_def db_lock_def db_unlock_def)

lemma lock_unlock_meta [simp]: "lock_pair db \<Longrightarrow> meta (db_unlock (db_lock db)) = meta db"
  by simp

lemma set_default_meta [wp_rules]:
  "lock_pair db \<Longrightarrow> (\<And>r db'. meta db' = meta db \<Longrightarrow> Q (r, db')) \<Longrightarrow> yields (fdb_kv_set_default db) Q"
  by (auto simp: fdb_kv_set_default_def Let_def intro!: wp_rules)

interpretation hdr_check_visitor: sector_visitor kv_check_sec_hdr_cb
  by unfold_locales (auto simp: kv_check_sec_hdr_cb_def intro!: wp_rules)

interpretation gc_recovery_visitor: sector_visitor check_and_recovery_gc_cb
  by unfold_locales (auto simp: check_and_recovery_gc_cb_def intro!: wp_rules)

interpretation kv_recovery_visitor: node_visitor check_and_recovery_kv_cb
  by unfold_locales (auto simp: check_and_recovery_kv_cb_def intro!: wp_rules)

interpretation oldest_visitor: sector_visitor check_oldest_addr_cb
  by unfold_locales (auto simp: check_oldest_addr_cb_def)

declare hdr_check_visitor.kv_sector_iterator_wp [wp_rules] gc_recovery_visitor.kv_sector_iterator_wp [wp_rules]
  kv_recovery_visitor.kv_iterator_wp [wp_rules] oldest_visitor.kv_sector_iterator_wp [wp_rules]

lemma fdb_kv_load_retry_meta:
  assumes "fdb_kv_load_retry db kv = Some r"
  shows "meta (r) = meta db"
  apply (rule fdb_kv_load_retry.raw_induct [where P = "\<lambda>db kv r. meta (r) = meta db", OF _ assms])
  subgoal premises p for f db kv r
  proof -
    have IH: "yields (f db kv) (\<lambda>r. meta (r) = meta db)" for db kv
      by (rule yieldsI) (erule p(1))
    show ?thesis
      by (rule yieldsD [OF p(2)]) (auto simp: Let_def intro!: wp_rules yields_mono [OF IH])
  qed
  done

lemma fdb_kv_load_retry_wp [wp_rules]:
  "(\<And>r. meta (r) = meta db \<Longrightarrow> Q r) \<Longrightarrow> yields (fdb_kv_load_retry db kv) Q"
  by (rule yields_rec) (erule fdb_kv_load_retry_meta)

lemma load_meta [wp_rules]:
  "lock_pair db \<Longrightarrow> (\<And>r db'. meta db' = meta db \<Longrightarrow> Q (r, db')) \<Longrightarrow> yields (fdb_kv_load db) Q"
  by (auto simp: fdb_kv_load_def Let_def intro!: wp_rules) (erule (1) lock_pair_meta)+

lemma print_value_loop_meta:
  assumes "print_value_loop db buf kv k p out = Some r"
  shows "meta (snd (snd (snd r))) = meta db"
  apply (rule print_value_loop.raw_induct [where P = "\<lambda>db buf kv k p out r. meta (snd (snd (snd r))) = meta db", OF _ assms])
  subgoal premises p for f db buf kv k p out r
  proof -
    have IH: "yields (f db buf kv k p out) (\<lambda>r. meta (snd (snd (snd r))) = meta db)" for db buf kv k p out
      by (rule yieldsI) (erule p(1))
    show ?thesis
      by (rule yieldsD [OF p(2)]) (auto simp: Let_def intro!: wp_rules yields_mono [OF IH])
  qed
  done

lemma print_value_loop_wp [wp_rules]:
  "(\<And>r. meta (snd (snd (snd r))) = meta db \<Longrightarrow> Q r) \<Longrightarrow> yields (print_value_loop db buf kv k p out) Q"
  by (rule yields_rec) (erule print_value_loop_meta)

interpretation print_visitor: node_visitor print_kv_cb
  by unfold_locales (auto simp: print_kv_cb_def Let_def intro!: wp_rules)

declare print_visitor.kv_iterator_wp [wp_rules]

lemma find_oldest_meta [wp_rules]:
  "(\<And>db'. meta db' = meta db \<Longrightarrow> Q db') \<Longrightarrow> yields (kvdb_find_oldest db) Q"
  by (auto simp: kvdb_find_oldest_def Let_def intro!: wp_rules)

lemma kv_iterate_sector_meta:
  assumes "kv_iterate_sector db sector itr = Some r"
  shows "meta (snd (snd r)) = meta db"
  apply (rule kv_iterate_sector.raw_induct [where P = "\<lambda>db sector itr r. meta (snd (snd r)) = meta db", OF _ assms])
  subgoal premises p for f db sector itr r
  proof -
    have IH: "yields (f db sector itr) (\<lambda>r. meta (snd (snd r)) = meta db)" for db sector itr
      by (rule yieldsI) (erule p(1))
    show ?thesis
      by (rule yieldsD [OF p(2)]) (auto simp: Let_def intro!: wp_rules yields_mono [OF IH])
  qed
  done

lemma kv_iterate_sector_wp [wp_rules]:
  "(\<And>r. meta (snd (snd r)) = meta db \<Longrightarrow> Q r) \<Longrightarrow> yields (kv_iterate_sector db sector itr) Q"
  by (rule yields_rec) (erule kv_iterate_sector_meta)

lemma iterate_start_meta [wp_rules]:
  "(\<And>ok itr' db'. meta db' = meta db \<Longrightarrow> Q (ok, itr', db')) \<Longrightarrow> yields (kv_iterate_start db sector itr) Q"
  by (auto simp: kv_iterate_start_def Let_def intro!: wp_rules)

lemma kv_iterate_loop_meta:
  assumes "kv_iterate_loop db sector itr = Some r"
  shows "meta (snd (snd r)) = meta db"
  apply (rule kv_iterate_loop.raw_induct [where P = "\<lambda>db sector itr r. meta (snd (snd r)) = meta db", OF _ assms])
  subgoal premises p for f db sector itr r
  proof -
    have IH: "yields (f db sector itr) (\<lambda>r. meta (snd (snd r)) = meta db)" for db sector itr
      by (rule yieldsI) (erule p(1))
    show ?thesis
      by (rule yieldsD [OF p(2)]) (auto simp: Let_def intro!: wp_rules yields_mono [OF IH])
  qed
  done

lemma kv_iterate_loop_wp [wp_rules]:
  "(\<And>r. meta (snd (snd r)) = meta db \<Longrightarrow> Q r) \<Longrightarrow> yields (kv_iterate_loop db sector itr) Q"
  by (rule yields_rec) (erule kv_iterate_loop_meta)

lemma iterate_meta [wp_rules]:
  "(\<And>ok itr' db'. meta db' = meta db \<Longrightarrow> Q (ok, itr', db')) \<Longrightarrow> yields (fdb_kv_iterate db itr) Q"
  by (auto simp: fdb_kv_iterate_def Let_def intro!: wp_rules)

lemma kvdb_check_sector_meta:
  assumes "kvdb_check_sector db sector kv = Some r"
  shows "meta (snd (snd r)) = meta db"
  apply (rule kvdb_check_sector.raw_induct [where P = "\<lambda>db sector kv r. meta (snd (snd r)) = meta db", OF _ assms])
  subgoal premises p for f db sector kv r
  proof -
    have IH: "yields (f db sector kv) (\<lambda>r. meta (snd (snd r)) = meta db)" for db sector kv
      by (rule yieldsI) (erule p(1))
    show ?thesis
      by (rule yieldsD [OF p(2)]) (auto simp: Let_def intro!: wp_rules yields_mono [OF IH])
  qed
  done

lemma kvdb_check_sector_wp [wp_rules]:
  "(\<And>r. meta (snd (snd r)) = meta db \<Longrightarrow> Q r) \<Longrightarrow> yields (kvdb_check_sector db sector kv) Q"
  by (rule yields_rec) (erule kvdb_check_sector_meta)

lemma kvdb_check_loop_meta:
  assumes "kvdb_check_loop db sector kv a t = Some r"
  shows "meta (snd r) = meta db"
  apply (rule kvdb_check_loop.raw_induct [where P = "\<lambda>db sector kv a t r. meta (snd r) = meta db", OF _ assms])
  subgoal premises p for f db sector kv a t r
  proof -
    have IH: "yields (f db sector kv a t) (\<lambda>r. meta (snd r) = meta db)" for db sector kv a t
      by (rule yieldsI) (erule p(1))
    show ?thesis
      by (rule yieldsD [OF p(2)]) (auto simp: Let_def intro!: wp_rules yields_mono [OF IH])
  qed
  done

lemma kvdb_check_loop_wp [wp_rules]:
  "(\<And>r. meta (snd r) = meta db \<Longrightarrow> Q r) \<Longrightarrow> yields (kvdb_check_loop db sector kv a t) Q"
  by (rule yields_rec) (erule kvdb_check_loop_meta)


section \<open>Sequences of public calls\<close>

datatype kv_call =
    Kv_init string string "fdb_default_kv_node list option" nat
  | Kv_deinit
  | Kv_control int ctrl_arg
  | Kv_set_blob "byte list" fdb_blob
  | Kv_set "byte list" "byte list option" fdb_blob
  | Kv_del "byte list"
  | Kv_get_obj "byte list" fdb_kv
  | Kv_get_blob "byte list" fdb_blob
  | Kv_get "byte list" "byte list" fdb_blob
  | Kv_set_default
  | Kv_print
  | Kv_iterate fdb_kv_iterator
  | Kv_check

fun kv_exec :: "fdb_kvdb \<Rightarrow> kv_call \<Rightarrow> fdb_kvdb option" where
  "kv_exec db (Kv_init name path kvs ud) = map_option snd (fdb_kvdb_init db name path kvs ud)"
| "kv_exec db Kv_deinit = map_option snd (fdb_kvdb_deinit db)"
| "kv_exec db (Kv_control cmd arg) = map_option snd (fdb_kvdb_control db cmd arg)"
| "kv_exec db (Kv_set_blob key blob) = map_option snd (fdb_kv_set_blob db key blob)"
| "kv_exec db (Kv_set key v blob) = map_option snd (fdb_kv_set db key v blob)"
| "kv_exec db (Kv_del key) = map_option snd (fdb_kv_del db key)"
| "kv_exec db (Kv_get_obj key kv) = map_option (snd \<circ> snd) (fdb_kv_get_obj db key kv)"
| "kv_exec db (Kv_get_blob key blob) = map_option (snd \<circ> snd) (fdb_kv_get_blob db key blob)"
| "kv_exec db (Kv_get key buf blob) = map_option (snd \<circ> snd) (fdb_kv_get db key buf blob)"
| "kv_exec db Kv_set_default = map_option snd (fdb_kv_set_default db)"
| "kv_exec db Kv_print = map_option snd (fdb_kv_print db)"
| "kv_exec db (Kv_iterate itr) = map_option (snd \<circ> snd) (fdb_kv_iterate db itr)"
| "kv_exec db Kv_check = map_option snd (fdb_kvdb_check db)"

fun kv_run :: "fdb_kvdb \<Rightarrow> kv_call list \<Rightarrow> fdb_kvdb option" where
  "kv_run db [] = Some db"
| "kv_run db (c # cs) = do { db \<leftarrow> kv_exec db c; kv_run db cs }"

text \<open>A call that does not change which lock functions are installed.\<close>

fun keeps_lock_fns :: "kv_call \<Rightarrow> bool" where
  "keeps_lock_fns (Kv_control cmd arg) \<longleftrightarrow> cmd \<noteq> FDB_KVDB_CTRL_SET_LOCK \<and> cmd \<noteq> FDB_KVDB_CTRL_SET_UNLOCK"
| "keeps_lock_fns _ \<longleftrightarrow> True"

lemma yields_map_option [simp]: "yields (map_option f m) Q = yields m (\<lambda>r. Q (f r))"
  by (cases m) simp_all

lemma public_meta:
  assumes "lock_pair db"
  shows "yields (fdb_kv_set_blob db key blob) (\<lambda>(r, db'). meta db' = meta db)"
    "yields (fdb_kv_del db key) (\<lambda>(r, db'). meta db' = meta db)"
    "yields (fdb_kv_get_obj db key kv) (\<lambda>(f, kv', db'). meta db' = meta db)"
    "yields (fdb_kv_get_blob db key blob) (\<lambda>(n, b, db'). meta db' = meta db)"
    "yields (fdb_kv_print db) (\<lambda>(out, db'). meta db' = meta db)"
    "yields (fdb_kvdb_check db) (\<lambda>(r, db'). meta db' = meta db)"
  using assms
  by (auto simp: fdb_kv_set_blob_def fdb_kv_del_def fdb_kv_get_obj_def fdb_kv_get_blob_def
      fdb_kv_print_def fdb_kvdb_check_def Let_def intro!: wp_rules)

text \<open>The lock functions and the counter.\<close>

definition locks :: "'a fdb_db_scheme \<Rightarrow> bool \<times> bool \<times> int" where
  "locks db = (db_lock_fn db, db_unlock_fn db, db_lock_cnt db)"

lemma locks_meta:
  fixes db db' :: "'a fdb_db_scheme"
  shows "meta db' = meta db \<Longrightarrow> locks db' = locks db"
  by (simp add: meta_def locks_def)

lemma lock_pair_locks: "lock_pair db \<Longrightarrow> locks db' = locks db \<Longrightarrow> lock_pair db'"
  by (simp add: lock_pair_def locks_def)

lemma init_ex_locks [wp_rules]:
  "(\<And>r db'. locks db' = locks db \<Longrightarrow> (db_init_ok db \<Longrightarrow> db' = db) \<Longrightarrow> Q (r, db'))
     \<Longrightarrow> yields (fdb_init_ex db name path type ud) Q"
  by (auto simp: fdb_init_ex_def locks_def Let_def)

lemma init_finish_locks [simp]:
  "locks (fdb_init_finish db r) = locks db" "db_init_ok db \<Longrightarrow> fdb_init_finish db r = db"
  by (cases db, auto simp: fdb_init_finish_def locks_def)

lemma clear_caches_meta [simp]: "meta (kvdb_clear_caches db) = meta db"
  by (simp add: kvdb_clear_caches_def)

lemma kvdb_init_body:
  assumes "lock_pair db"
  shows "yields (kvdb_find_oldest (db_lock db\<lparr>kvdb_gc_request := False, kvdb_in_recovery_check := False,
             kvdb_default_kvs := kvs\<rparr>))
     (\<lambda>db1. yields (fdb_kv_load (db_unlock (kvdb_clear_caches db1))) (\<lambda>(r, db2). meta db2 = meta db))"
  using assms by (auto intro!: wp_rules) (rule lock_pair_meta, assumption, simp)

lemma kvdb_init_keeps:
  assumes "lock_pair db"
  shows "yields (fdb_kvdb_init db name path kvs ud)
     (\<lambda>(r, db'). locks db' = locks db \<and> (db_init_ok db \<longrightarrow> meta db' = meta db))"
proof -
  have "yields (kvdb_find_oldest (db_lock db1\<lparr>kvdb_gc_request := False, kvdb_in_recovery_check := False,
             kvdb_default_kvs := k\<rparr>))
     (\<lambda>db2. yields (fdb_kv_load (db_unlock (kvdb_clear_caches db2)))
        (\<lambda>(r, db3). locks (db_unlock (db_lock db3)) = locks db
            \<and> (db_init_ok db \<longrightarrow> meta (fdb_init_finish (db_unlock (db_lock db3)) r) = meta db)))"
    if "locks db1 = locks db" "db_init_ok db \<Longrightarrow> db1 = db" for db1 k
  proof -
    note L = lock_pair_locks [OF assms that(1)]
    have "locks (db_unlock (db_lock db3)) = locks db
        \<and> (db_init_ok db \<longrightarrow> meta (fdb_init_finish (db_unlock (db_lock db3)) r) = meta db)"
      if m: "meta db3 = meta db1" for db3 :: fdb_kvdb and r
    proof -
      have "meta (db_unlock (db_lock db3)) = meta db1"
        using m lock_pair_meta [OF L m] by simp
      then show ?thesis
        using \<open>locks db1 = locks db\<close> \<open>db_init_ok db \<Longrightarrow> db1 = db\<close> locks_meta [of "db_unlock (db_lock db3)" db1]
        by (auto simp: meta_def)
    qed
    then show ?thesis by (rule_tac yields_mono [OF kvdb_init_body [OF L]]) (auto elim!: yields_mono)
  qed
  note body = this
  show ?thesis
    by (auto simp: fdb_kvdb_init_def Let_def
        intro!: init_ex_locks yields_mono [OF body] elim!: yields_mono)
qed

lemma deinit_locks: "yields (fdb_deinit db) (\<lambda>db'. locks db' = locks db)"
  by (auto simp: fdb_deinit_def locks_def intro: yields_pure)

lemma control_keeps:
  "cmd \<noteq> FDB_KVDB_CTRL_SET_LOCK \<Longrightarrow> cmd \<noteq> FDB_KVDB_CTRL_SET_UNLOCK \<Longrightarrow>
   yields (fdb_kvdb_control db cmd arg) (\<lambda>(a, db'). locks db' = locks db \<and> (db_init_ok db \<longrightarrow> meta db' = meta db))"
  by (auto simp: fdb_kvdb_control_def locks_def meta_def split: ctrl_arg.split)

lemma get_meta: "lock_pair db \<Longrightarrow> yields (fdb_kv_get db key buf blob) (\<lambda>(v, b, db'). meta db' = meta db)"
  by (auto simp: fdb_kv_get_def Let_def elim!: public_meta(4) [THEN yields_mono])

lemma set_meta: "lock_pair db \<Longrightarrow> yields (fdb_kv_set db key v blob) (\<lambda>(r, db'). meta db' = meta db)"
  by (auto simp: fdb_kv_set_def elim!: public_meta(1,2) [THEN yields_mono] split: option.split)

lemma kv_exec_keeps:
  assumes "lock_pair db" "keeps_lock_fns c"
  shows "yields (kv_exec db c)
    (\<lambda>db'. locks db' = locks db \<and> (db_init_ok db \<and> c \<noteq> Kv_deinit \<longrightarrow> meta db' = meta db))"
  using assms
  by (cases c)
     (auto simp: fdb_kvdb_deinit_def intro: locks_meta intro!: wp_rules
         public_meta [THEN yields_mono] get_meta [THEN yields_mono] set_meta [THEN yields_mono]
         kvdb_init_keeps [THEN yields_mono] control_keeps [THEN yields_mono] deinit_locks [THEN yields_mono])


section \<open>Properties\<close>

text \<open>
  C32: over any sequence of public calls of the key-value database that leave the pair of lock
  functions alone, errors and early returns included, the lock is released exactly as often as it is
  taken.
\<close>

theorem kv_calls_balance_lock:
  assumes "db_lock_fn db = db_unlock_fn db" "list_all keeps_lock_fns cs"
  shows "yields (kv_run db cs) (\<lambda>db'. db_lock_cnt db' = db_lock_cnt db)"
proof -
  have "lock_pair db" using assms(1) by (simp add: lock_pair_def)
  then have "yields (kv_run db cs) (\<lambda>db'. locks db' = locks db)"
    using assms(2)
  proof (induction cs arbitrary: db)
    case (Cons c cs)
    have "yields (kv_run db1 cs) (\<lambda>db'. locks db' = locks db)" if "locks db1 = locks db" for db1
      using Cons.IH [OF lock_pair_locks [OF Cons.prems(1) that]] Cons.prems(2) that by simp
    with kv_exec_keeps [OF Cons.prems(1), of c] Cons.prems(2) show ?case
      by (auto elim!: yields_mono)
  qed simp
  then show ?thesis by (rule yields_mono) (simp add: locks_def)
qed

theorem kv_calls_balance_lock_witness:
  "yields (kv_run demo_kvdb [Kv_set_blob [107] \<lparr>blob_buf = Some [1, 2], blob_size = 2, blob_meta_addr = 0, blob_addr = 0, blob_len = 0\<rparr>, Kv_del [107], Kv_check])
     (\<lambda>db'. db_lock_cnt db' = db_lock_cnt demo_kvdb)"
  by (rule kv_calls_balance_lock) (simp_all add: demo_kvdb_def)



end
