(* ===== verification/KvOps.thy ===== *)
theory KvOps
  imports KvMap KvLock
begin

text \<open>
  Getting, deleting and setting a key on a database in order (\<open>kv_inv\<close>).
\<close>

section \<open>Getting\<close>

lemma kv_inv_frame:
  assumes "kv_inv K s m f L db" "kv_rel s m f L db'" "kv_frame db db'" "keys_ok (key_entry s m L) (kvdb_kv_cache_table db')"
  shows "kv_inv K s m f L db'"
  using assms kv_frameD(2-4) [OF assms(3)] by (simp add: kv_inv_def)

lemma kv_inv_io: "kv_inv K s m f L db \<Longrightarrow> stored s m f db' \<Longrightarrow> io_frame db db' \<Longrightarrow> kv_inv K s m f L db'"
  by (rule kv_inv_frame) (auto simp: io_frame_kv kv_frame_io kv_inv_def elim: kv_rel_frame)

lemma kv_inv_locks [simp]:
  "kv_inv K s m f L (db_lock db) = kv_inv K s m f L db" "kv_inv K s m f L (db_unlock db) = kv_inv K s m f L db"
  by (simp_all add: kv_inv_def) (simp_all add: db_lock_def db_unlock_def)

text \<open>The lookup on the map.\<close>

lemma find_kv_inv:
  assumes inv: "kv_inv K s m f L db" and key: "key_ok key" "key \<in> K"
    and none: "\<And>kv' db'. no_live s m L key \<Longrightarrow> kv_inv K s m f L db' \<Longrightarrow> kv_frame db db' \<Longrightarrow> Q (False, kv', db')"
    and some: "\<And>a n kv0 db'. node_in s m L a n \<Longrightarrow> live key n \<Longrightarrow> kv_inv K s m f L db' \<Longrightarrow> kv_frame db db' \<Longrightarrow>
       Q (True, node_kv kv0 a n, db')"
  shows "holds (find_kv db key kv) Q"
proof -
  note i = kv_invD [OF inv]
  have k: "c_string key" "length key < 64" using key(1) by (simp_all add: key_ok_def FDB_KV_NAME_MAX_def)
  show ?thesis
    by (rule find_kv_ok [OF i(1,2) k i(4) no_clashI [OF i(3) key(2)]])
       (use none some kv_inv_frame [OF inv] in blast)+
qed

lemma node_value:
  assumes r: "kv_rel s m f L db" and n: "node_in s m L a n" and k: "k \<le> length (nd_val n)"
  shows "rd f (a + 24 + length (nd_key n)) k = take k (nd_val n)"
    and "in_sector s m (a + 24 + length (nd_key n)) k"
proof -
  note nf = node_in_facts [OF r n] and sd = storedD [OF kv_relD(1) [OF r]]
  have v: "rd f (a + 24 + length (nd_key n)) (length (nd_val n)) = nd_val n" using nf(1) by (simp add: node_at_def)
  show "rd f (a + 24 + length (nd_key n)) k = take k (nd_val n)"
    using arg_cong [OF v, of "take k"] k by (simp add: take_rd min_absorb1)
  show "in_sector s m (a + 24 + length (nd_key n)) k"
  proof (cases "k = 0")
    case True
    then show ?thesis using nf(6) sd(3) mod_le_sector [OF sd(3)]
      by (simp add: in_sector_def node_len_def KV_HDR_DATA_SIZE_def less_imp_le)
  next
    case False
    then have "nd_val n \<noteq> []" using k by auto
    then show ?thesis using in_sector_sub [OF nf(3) sd(4,3), of "24 + length (nd_key n)" k] k
      by (simp add: node_len_def KV_HDR_DATA_SIZE_def add.assoc)
  qed
qed

text \<open>
  The buffer after a value of \<open>v\<close> has been read into \<open>buf\<close> of which \<open>sz\<close> bytes may be used.
\<close>

definition got :: "byte list option \<Rightarrow> nat \<Rightarrow> byte list \<Rightarrow> byte list option" where
  "got buf sz v = map_option (\<lambda>b. take (min sz (length v)) v @ drop (min sz (length v)) b) buf"

lemma get_kv_inv:
  assumes inv: "kv_inv K s m f L db" and key: "key_ok key" "key \<in> K"
    and buf: "case buf of None \<Rightarrow> True | Some b \<Rightarrow> sz \<le> length b"
    and Q: "\<And>db'. kv_inv K s m f L db' \<Longrightarrow> (case kv_store s m L key of
        None \<Rightarrow> Q (0, 0, buf, db')
      | Some v \<Rightarrow> Q (min sz (length v), length v, got buf sz v, db'))"
  shows "holds (get_kv db key buf sz) Q"
proof -
  note i = kv_invD [OF inv]
  show ?thesis
    unfolding get_kv_def holds_bind
  proof (rule find_kv_inv [OF inv key], goal_cases)
    case (1 kv' db')
    then have "kv_store s m L key = None" using store_None [OF sectors_pos [OF i(1)]] by simp
    with Q [OF 1(2)] show ?case by simp
  next
    case (2 a n kv0 db')
    note r = kv_invD(1) [OF 2(3)]
    have st: "kv_store s m L key = Some (nd_val n)" by (rule store_live [OF i(1,3) 2(1,2)])
    let ?k = "min sz (length (nd_val n))"
    have k: "(if sz > length (nd_val n) then length (nd_val n) else sz) = ?k" by simp
    note Qn = Q [unfolded st option.case]
    show ?case
    proof (cases buf)
      case None
      with Qn [OF 2(3)] show ?thesis by (simp add: Let_def got_def k cong: if_cong) 
    next
      case (Some b)
      with buf have fit: "\<not> ?k > length b" by simp
      have "holds (fdb_flash_read db' (a + 24 + length (nd_key n)) b ?k) (\<lambda>(r, b', db'). Q (?k, length (nd_val n), Some b', db'))"
        by (rule stored_read [OF kv_relD(1) [OF r] node_value(2) [OF r 2(1)]], simp)
           (use Qn [OF kv_inv_io [OF 2(3)]] Some node_value(1) [OF r 2(1), of ?k] in \<open>simp add: got_def\<close>)
      then show ?thesis using Some fit by (simp add: Let_def k split_def cong: if_cong)
    qed
  qed
qed


section \<open>One node deleted, one node created\<close>

definition same_shape :: "(nat \<Rightarrow> sector_log) \<Rightarrow> (nat \<Rightarrow> sector_log) \<Rightarrow> bool" where
  "same_shape L L' \<longleftrightarrow> (\<forall>i. fst (L' i) = fst (L i) \<and> nodes_len (log_nodes (L' i)) = nodes_len (log_nodes (L i))
     \<and> length (log_nodes (L' i)) = length (log_nodes (L i)) \<and> (fst (L i) = FDB_SECTOR_STORE_EMPTY \<longrightarrow> L' i = L i)
     \<and> (fst (snd (L' i)) = FDB_SECTOR_DIRTY_GC \<longleftrightarrow> fst (snd (L i)) = FDB_SECTOR_DIRTY_GC))"

lemma dirtied_GC [simp]: "dirtied d = FDB_SECTOR_DIRTY_GC \<longleftrightarrow> d = FDB_SECTOR_DIRTY_GC"
  by (cases d) simp_all

text \<open>\<open>L'\<close> is \<open>L\<close> with the node at \<open>a\<close> deleted.\<close>

definition node_gone :: "nat \<Rightarrow> nat \<Rightarrow> (nat \<Rightarrow> sector_log) \<Rightarrow> addr \<Rightarrow> kv_node \<Rightarrow> bool \<Rightarrow> (nat \<Rightarrow> sector_log) \<Rightarrow> bool" where
  "node_gone s m L a n c L' \<longleftrightarrow> same_shape L L' \<and>
     (\<forall>b x. node_in s m L' b x \<longleftrightarrow> (if b = a then x = n\<lparr>nd_status := deleted c\<rparr> else node_in s m L b x))"

lemma gone_at:
  assumes r: "kv_rel s m f L db" and i: "i < m div s" "L i = (st, d, pre @ n # post)"
  shows "node_gone s m L (i * s + 16 + nodes_len pre) n c (L(i := (st, dirtied d, pre @ n\<lparr>nd_status := deleted c\<rparr> # post)))"
  using node_in_replace [OF r i, of "n\<lparr>nd_status := deleted c\<rparr>" st "dirtied d"] i sector_node(4) [OF r i]
  by (simp add: node_gone_def same_shape_def)

lemma del_node_in:
  assumes r: "kv_rel s m f L db" and a: "node_in s m L a n" and kv: "kv_addr_start kv = a"
    and Q: "\<And>g L' db'. kv_rel s m g L' db' \<Longrightarrow> node_gone s m L a n complete L' \<Longrightarrow>
      kv_frame (db\<lparr>kvdb_last_is_complete_del := \<not> complete\<rparr>) db' \<Longrightarrow>
      kvdb_kv_cache_table db' = (if complete \<and> \<not> kvdb_last_is_complete_del db
        then kvdb_kv_cache_table (update_kv_cache db (del_name key kv) FDB_DATA_UNUSED) else kvdb_kv_cache_table db) \<Longrightarrow> Q (FDB_NO_ERR, db')"
  shows "holds (del_kv_node db key kv complete) Q"
proof -
  from a obtain i st d pre post where i: "i < m div s" "L i = (st, d, pre @ n # post)" and eq: "a = i * s + 16 + nodes_len pre"
    by (auto simp: node_in_def)
  show ?thesis by (rule del_node_rel [OF r i kv [unfolded eq]]) (use Q gone_at [OF r i, of complete] eq in blast)
qed

lemma gone_shape:
  assumes "node_gone s m L a n c L'"
  shows "fst (L' i) = fst (L i)" "nodes_len (log_nodes (L' i)) = nodes_len (log_nodes (L i))"
    "log_nodes (L' i) = [] \<longleftrightarrow> log_nodes (L i) = []" "snug s m L' = snug s m L"
proof -
  have *: "fst (L' i) = fst (L i) \<and> nodes_len (log_nodes (L' i)) = nodes_len (log_nodes (L i))
      \<and> (log_nodes (L' i) = [] \<longleftrightarrow> log_nodes (L i) = [])" for i
    using assms by (auto simp: node_gone_def same_shape_def) (metis length_0_conv)+
  then show "fst (L' i) = fst (L i)" "nodes_len (log_nodes (L' i)) = nodes_len (log_nodes (L i))"
    "log_nodes (L' i) = [] \<longleftrightarrow> log_nodes (L i) = []" "snug s m L' = snug s m L"
    by (auto simp: snug_def)
qed

lemma gone_nodes:
  "node_gone s m L a n c L' \<Longrightarrow> node_in s m L' b x \<longleftrightarrow> (if b = a then x = n\<lparr>nd_status := deleted c\<rparr> else node_in s m L b x)"
  by (simp add: node_gone_def)

lemma deleted_not_write [simp]: "deleted c \<noteq> FDB_KV_WRITE"
  by (simp add: deleted_def)

lemma gone_live:
  assumes "kv_rel s m f L db" "node_gone s m L a n c L'" "node_in s m L a n"
  shows "node_in s m L' b x \<and> nd_status x = FDB_KV_WRITE \<longleftrightarrow> b \<noteq> a \<and> node_in s m L b x \<and> nd_status x = FDB_KV_WRITE"
  using gone_nodes [OF assms(2)] by auto

text \<open>Deleting a live node removes its key from the map.\<close>

lemma gone_logs:
  assumes r: "kv_rel s m f L db" and g: "node_gone s m L a n c L'" and n: "node_in s m L a n" and ok: "logs_ok K s m L"
  shows "logs_ok K s m L'"
proof -
  have "one_live s m L'" using ok gone_live [OF r g n] unfolding logs_ok_def one_live_def by metis
  moreover have "\<forall>a n. node_in s m L' a n \<longrightarrow> nd_status n = FDB_KV_WRITE \<longrightarrow> nd_key n \<in> K"
    using ok gone_live [OF r g n] unfolding logs_ok_def by metis
  moreover have "snd (L' i) = snd (L i)" if "fst (L' i) = FDB_SECTOR_STORE_EMPTY" for i
    using g that by (simp add: node_gone_def same_shape_def)
  ultimately show ?thesis using ok gone_shape [OF g] by (simp add: logs_ok_def)
qed

lemma gone_settled:
  assumes "node_gone s m L a n c L'" "settled s m A L"
  shows "settled s m (if c then A - {a} else insert a A) L'"
  using assms gone_nodes [OF assms(1)] by (auto simp: settled_def deleted_def)

lemma gone_marks: "node_gone s m L a n c L' \<Longrightarrow> marks_ok gc q L' = marks_ok gc q L"
  by (simp add: node_gone_def same_shape_def marks_ok_def)

lemma gone_empty: "node_gone s m L a n c L' \<Longrightarrow> has_empty s m L' = has_empty s m L"
  by (simp add: has_empty_def gone_shape)

lemma gone_store:
  assumes r: "kv_rel s m f L db" and g: "node_gone s m L a n c L'" and n: "node_in s m L a n" "live key n"
    and ok: "logs_ok K s m L" and r': "kv_rel s m f' L' db'"
  shows "kv_store s m L' = (kv_store s m L)(key := None)"
proof
  fix k
  have one: "one_live s m L" "one_live s m L'" using ok gone_logs [OF r g n(1) ok] by (simp_all add: logs_ok_def)
  have lv: "node_in s m L' b x \<and> live k x \<longleftrightarrow> b \<noteq> a \<and> node_in s m L b x \<and> live k x" for b x
    using gone_live [OF r g n(1), of b x] by (auto simp: live_def)
  show "kv_store s m L' k = ((kv_store s m L)(key := None)) k"
  proof (cases "k = key")
    case True
    have "no_live s m L' key" unfolding no_live_def using lv n one(1) True unfolding one_live_def live_def by metis
    then show ?thesis using True store_None [OF sectors_pos [OF r]] by simp
  next
    case False
    then have "node_in s m L b x \<and> live k x \<Longrightarrow> b \<noteq> a" for b x using n node_in_unique [OF r] by (auto simp: live_def)
    with lv have "node_in s m L' b x \<and> live k x \<longleftrightarrow> node_in s m L b x \<and> live k x" for b x by blast
    then have "kv_store s m L' k = Some v \<longleftrightarrow> kv_store s m L k = Some v" for v
      using store_Some [OF r one(1), of k v] store_Some [OF r' one(2), of k v] by blast
    then show ?thesis using False by (metis fun_upd_other option.exhaust)
  qed
qed


lemma gone_entry:
  assumes r: "kv_rel s m f L db" and g: "node_gone s m L a n c L'" and n: "node_in s m L a n" and w: "w \<noteq> name_crc16 (nd_key n)"
    and e: "key_entry s m L w b"
  shows "key_entry s m L' w b"
proof -
  from e obtain x where x: "node_in s m L b x" "nd_status x = FDB_KV_WRITE" "name_crc16 (nd_key x) = w" by (auto simp: key_entry_def)
  have "b \<noteq> a" using node_in_unique [OF r x(1)] n x(3) w by blast
  then show ?thesis using x gone_live [OF r g n] unfolding key_entry_def by blast
qed

section \<open>Deleting\<close>

lemma kv_inv_del:
  assumes inv: "kv_inv K s m f L db" and n: "node_in s m L a n" "live key n" and key: "key_ok key"
    and r': "kv_rel s m g L' db'" and gone: "node_gone s m L a n True L'"
    and fr: "kv_frame (db\<lparr>kvdb_last_is_complete_del := \<not> True\<rparr>) db'"
    and tab: "kvdb_kv_cache_table db' = kvdb_kv_cache_table (update_kv_cache db key FDB_DATA_UNUSED)"
  shows "kv_inv K s m g L' db'"
proof -
  note i = kv_invD [OF inv]
  have "keys_ok (key_entry s m L') (kvdb_kv_cache_table db')"
    unfolding tab
    by (rule update_keys_ok [OF i(4)]) (use gone_entry [OF i(1) gone n(1)] n(2) in \<open>auto simp: live_def\<close>)
  then show ?thesis
    using r' i(2,5,8,9) gone_logs [OF i(1) gone n(1) i(3)] kv_frameD(2-4) [OF fr] gone_settled [OF gone i(7)] gone_empty [OF gone]
      gone_marks [OF gone] i(10)
    by (simp add: kv_inv_def)
qed

lemma del_kv_inv:
  assumes inv: "kv_inv K s m f L db" and key: "key_ok key" "key \<in> K"
    and none: "\<And>db'. kv_store s m L key = None \<Longrightarrow> kv_inv K s m f L db' \<Longrightarrow> Q (FDB_KV_NAME_ERR, db')"
    and some: "\<And>g L' db'. kv_store s m L key \<noteq> None \<Longrightarrow> kv_inv K s m g L' db' \<Longrightarrow>
      kv_store s m L' = (kv_store s m L)(key := None) \<Longrightarrow> Q (FDB_NO_ERR, db')"
  shows "holds (del_kv db (Some key) None True) Q"
proof -
  note i = kv_invD [OF inv]
  have len: "strlen key = length key" using key(1) by (simp add: key_ok_def)
  show ?thesis
    unfolding del_kv_def option.case holds_bind
  proof (rule find_kv_inv [OF inv key], goal_cases)
    case (1 kv' db')
    then have "kv_store s m L key = None" using store_None [OF sectors_pos [OF i(1)]] by simp
    with none 1(2) show ?case by simp
  next
    case (2 a n kv0 db1)
    note j = kv_invD [OF 2(3)]
    have st: "kv_store s m L key \<noteq> None" using store_live [OF i(1,3) 2(1,2)] by simp
    have "holds (del_kv_node db1 (Some key) (node_kv kv0 a n) True) Q"
    proof (rule del_node_in [OF j(1) 2(1)], simp add: node_kv_def, goal_cases)
      case (1 g L' db')
      have "kvdb_kv_cache_table db' = kvdb_kv_cache_table (update_kv_cache db1 key FDB_DATA_UNUSED)"
        using 1(4) j(6) by (simp add: del_name_def len)
      from kv_inv_del [OF \<open>kv_inv K s m f L db1\<close> \<open>node_in s m L a n\<close> \<open>live key n\<close> key(1) 1(1-3) this]
      show ?case using some st gone_store [OF j(1) 1(2) \<open>node_in s m L a n\<close> \<open>live key n\<close> j(3) 1(1)] by blast
    qed
    then show ?case by simp
  qed
qed


section \<open>Setting\<close>

text \<open>\<open>L'\<close> is \<open>L\<close> with the node \<open>n\<close> appended to the nodes of sector \<open>i\<close>.\<close>

lemma create_node_in:
  assumes r: "kv_rel s m f L db" and i: "i < m div s"
    and sec: "sec_addr sec = i * s" "sec_store sec = fst (L i)" "sec_remain sec = s - (16 + nodes_len (log_nodes (L i)))"
      "sec_empty_kv sec = log_end (i * s) (log_nodes (L i))"
    and n: "node_ok n" "nd_status n = FDB_KV_WRITE" and v: "nd_val n = take len v" "len \<le> length v"
    and room: "16 + nodes_len (log_nodes (L i)) + node_len n + FDB_SEC_REMAIN_THRESHOLD \<le> s"
    and Q: "\<And>g db'. kv_rel s m g (L(i := (FDB_SECTOR_STORE_USING, fst (snd (L i)), log_nodes (L i) @ [n]))) db' \<Longrightarrow> kv_frame db db' \<Longrightarrow>
      kvdb_kv_cache_table db' = kvdb_kv_cache_table (update_kv_cache db (nd_key n) (log_end (i * s) (log_nodes (L i)))) \<Longrightarrow>
      Q (FDB_NO_ERR, sec, db')"
  shows "holds (create_kv_blob db sec (nd_key n) v len) Q"
proof -
  note rel = kv_relD [OF r] and sd = storedD [OF kv_relD(1) [OF r]] and sa = sector_addr [OF kv_relD(1) [OF r] i]
  obtain st d ns where L: "L i = (st, d, ns)" by (cases "L i")
  let ?key = "nd_key n" and ?h = "kv_hdr_init (length (nd_key n)) len"
  have key: "strlen ?key = length ?key" "length ?key \<le> 64" using n(1) by (simp_all add: node_ok_def FDB_KV_NAME_MAX_def)
  have nl: "node_len n = 24 + length ?key + len" using v by (simp add: node_len_def KV_HDR_DATA_SIZE_def)
  have small: "node_len n < 2 ^ 32" using room sa(5) sd(5) by simp
  then have len32: "len < 2 ^ 32" using nl by simp
  have h: "kh_value_len ?h = len" "kh_name_len ?h = length ?key" "kh_len ?h = node_len n"
    using len32 key(2) small nl by (simp_all add: kv_hdr_init_def Let_def KV_HDR_DATA_SIZE_def)
  have fits: "\<not> kh_len ?h > sub64 (db_sec_size db) SECTOR_HDR_DATA_SIZE"
    using rel(1) room by (simp add: h SECTOR_HDR_DATA_SIZE_def)
  have ne: "log_end (i * s) ns \<noteq> FAILED_ADDR" using log_end_not_failed [OF r i] L by simp
  have tk: "create_kv_write db sec a ?h ?key v = create_kv_write db sec a (kv_hdr_init (length ?key) (length (nd_val n))) ?key (nd_val n)" for a
    using v h by (simp add: create_kv_write_def kv_hdr_crc_def Let_def min_absorb1 cong: if_cong)
  have wr: "holds (create_kv_write db sec (log_end (i * s) ns) ?h ?key v) (\<lambda>(r, db'). Q (r, sec, db'))"
    unfolding tk
    by (rule create_rel [OF r i L sec(1) _ _ n]) (use sec L room Q in auto)
  show ?thesis
    unfolding create_kv_blob_def key(1) Let_def
    using key(2) fits h v(2) ne sec(4) L wr
    by (simp add: FDB_KV_NAME_MAX_def split_def cong: if_cong)
qed


text \<open>Deleting a node that is not live changes nothing visible.\<close>

lemma gone_dead:
  assumes r: "kv_rel s m f L db" and g: "node_gone s m L a n c L'" and n: "node_in s m L a n" "nd_status n \<noteq> FDB_KV_WRITE"
  shows "node_in s m L' b x \<and> nd_status x = FDB_KV_WRITE \<longleftrightarrow> node_in s m L b x \<and> nd_status x = FDB_KV_WRITE"
    "key_entry s m L w b \<Longrightarrow> key_entry s m L' w b"
proof -
  have "b \<noteq> a" if "node_in s m L b x" "nd_status x = FDB_KV_WRITE" for b x using node_in_unique [OF r that(1)] n that(2) by blast
  with gone_live [OF r g n(1)]
  show *: "node_in s m L' b x \<and> nd_status x = FDB_KV_WRITE \<longleftrightarrow> node_in s m L b x \<and> nd_status x = FDB_KV_WRITE" for b x by blast
  then show "key_entry s m L w b \<Longrightarrow> key_entry s m L' w b" unfolding key_entry_def by blast
qed

lemma same_live_store:
  assumes r: "kv_rel s m f L db" and r': "kv_rel s m f' L' db'" and one: "one_live s m L"
    and lv: "\<And>b x. node_in s m L' b x \<and> nd_status x = FDB_KV_WRITE \<longleftrightarrow> node_in s m L b x \<and> nd_status x = FDB_KV_WRITE"
  shows "kv_store s m L' = kv_store s m L" "one_live s m L'"
proof -
  show one': "one_live s m L'" using one lv unfolding one_live_def by metis
  have "kv_store s m L' k = Some v \<longleftrightarrow> kv_store s m L k = Some v" for k v
    unfolding store_Some [OF r one, of k v] store_Some [OF r' one', of k v] using lv unfolding live_def by metis
  then show "kv_store s m L' = kv_store s m L" by (intro ext) (metis option.exhaust)
qed

text \<open>Appending a live node for a key that has none.\<close>

lemma append_fresh:
  assumes r: "kv_rel s m f L db" and i: "i < m div s"
  shows "\<not> node_in s m L (log_end (i * s) (log_nodes (L i))) x"
proof
  assume "node_in s m L (log_end (i * s) (log_nodes (L i))) x"
  then obtain j where j: "j < m div s" "(log_end (i * s) (log_nodes (L i)), x) \<in> set (addr_nodes (j * s + 16) (log_nodes (L j)))"
    by (auto simp: node_in_iff)
  note a = sector_addr_of [OF r j]
  obtain st d ns where L: "L i = (st, d, ns)" by (cases "L i")
  note b = sector_bounds(2) [OF kv_relD(1) [OF r] sectors_holdD [OF kv_relD(2) [OF r] i L] sector_addr(1,2) [OF kv_relD(1) [OF r] i]]
  have "j = i" by (rule ccontr) (use sector_disjoint [of i j s "log_end (i * s) ns"] a b L in \<open>auto simp: log_end_def\<close>)
  with addr_nodes_less [OF j(2)] show False by (simp add: log_end_def)
qed

lemma append_logs:
  assumes r: "kv_rel s m f L db" and i: "i < m div s" and ok: "logs_ok K s m L" and no: "no_live s m L (nd_key n)"
    and n: "nd_key n \<in> K" "nd_status n = FDB_KV_WRITE" and room: "16 + nodes_len (log_nodes (L i)) + node_len n + FDB_SEC_REMAIN_THRESHOLD < s"
    and L': "L' = L(i := (FDB_SECTOR_STORE_USING, d, log_nodes (L i) @ [n]))" and r': "kv_rel s m f' L' db'"
  shows "logs_ok K s m L'" "kv_store s m L' = (kv_store s m L)(nd_key n \<mapsto> nd_val n)"
    "key_entry s m L w b \<Longrightarrow> key_entry s m L' w b" "key_entry s m L' (name_crc16 (nd_key n)) (log_end (i * s) (log_nodes (L i)))"
proof -
  let ?a = "log_end (i * s) (log_nodes (L i))"
  have nodes: "node_in s m L' b x \<longleftrightarrow> node_in s m L b x \<or> (b = ?a \<and> x = n)" for b x
    unfolding L' by (rule node_in_append [OF i refl])
  have one: "one_live s m L" using ok by (simp add: logs_ok_def)
  have one': "one_live s m L'" using one no n(2) unfolding one_live_def nodes no_live_def live_def by metis
  moreover have "snug s m L'" using ok room by (auto simp: logs_ok_def snug_def L')
  moreover have "fst (L' j) = FDB_SECTOR_STORE_EMPTY \<longrightarrow> snd (L' j) = (FDB_SECTOR_DIRTY_FALSE, [])" if "j < m div s" for j
    using ok that by (auto simp: logs_ok_def L')
  ultimately show "logs_ok K s m L'" using ok n(1) unfolding logs_ok_def nodes by blast
  have "kv_store s m L' k = Some v \<longleftrightarrow> ((kv_store s m L)(nd_key n \<mapsto> nd_val n)) k = Some v" for k v
  proof (cases "k = nd_key n")
    case True
    have "live k n" using True n(2) by (simp add: live_def)
    then show ?thesis using True no unfolding store_Some [OF r' one', of k v] nodes no_live_def by auto
  next
    case False
    then have "\<not> live k n" by (simp add: live_def)
    then show ?thesis using False unfolding store_Some [OF r' one', of k v] nodes
      using store_Some [OF r one, of k v] by auto
  qed
  then show "kv_store s m L' = (kv_store s m L)(nd_key n \<mapsto> nd_val n)" by (intro ext) (metis option.exhaust)
  show "key_entry s m L w b \<Longrightarrow> key_entry s m L' w b" unfolding key_entry_def nodes by blast
  show "key_entry s m L' (name_crc16 (nd_key n)) ?a" unfolding key_entry_def nodes using n(2) by blast
qed


text \<open>The place for the new node: a sector with room, and another one stays empty.\<close>

definition place_ok :: "nat \<Rightarrow> nat \<Rightarrow> (nat \<Rightarrow> sector_log) \<Rightarrow> nat \<Rightarrow> nat \<Rightarrow> kvdb_sec_info \<Rightarrow> bool" where
  "place_ok s m L i k sec \<longleftrightarrow> i < m div s \<and> sec_addr sec = i * s \<and> sec_store sec = fst (L i)
     \<and> sec_remain sec = s - (16 + nodes_len (log_nodes (L i))) \<and> sec_empty_kv sec = log_end (i * s) (log_nodes (L i))
     \<and> 16 + nodes_len (log_nodes (L i)) + k + FDB_SEC_REMAIN_THRESHOLD < s
     \<and> (\<exists>j < m div s. j \<noteq> i \<and> fst (L j) = FDB_SECTOR_STORE_EMPTY)"

lemma place_gone: "node_gone s m L a n c L' \<Longrightarrow> place_ok s m L' i k sec = place_ok s m L i k sec"
  by (simp add: place_ok_def gone_shape log_end_def)

lemma create_step:
  assumes r: "kv_rel s m f L db" and ok: "logs_ok K s m L" and no: "no_live s m L key" and key: "key_ok key" "key \<in> K"
    and keys: "keys_ok P (kvdb_kv_cache_table db)" "\<And>w b. w \<noteq> name_crc16 key \<Longrightarrow> P w b \<Longrightarrow> key_entry s m L w b"
    and v: "len \<le> length v" and pl: "place_ok s m L i (24 + length key + len) sec"
    and Q: "\<And>g L' db'. kv_rel s m g L' db' \<Longrightarrow> logs_ok K s m L' \<Longrightarrow> kv_store s m L' = (kv_store s m L)(key \<mapsto> take len v) \<Longrightarrow>
      keys_ok (key_entry s m L') (kvdb_kv_cache_table db') \<Longrightarrow> kv_frame db db' \<Longrightarrow>
      (\<And>b x. node_in s m L b x \<Longrightarrow> node_in s m L' b x) \<Longrightarrow>
      (\<And>A. settled s m A L \<Longrightarrow> settled s m A L') \<Longrightarrow> has_empty s m L' \<Longrightarrow>
      marks_ok False (m div s) L' = marks_ok False (m div s) L \<Longrightarrow> (\<And>j. j \<noteq> i \<Longrightarrow> L' j = L j) \<Longrightarrow> Q (FDB_NO_ERR, sec, db')"
  shows "holds (create_kv_blob db sec key v len) Q"
proof -
  let ?n = "\<lparr>nd_status = FDB_KV_WRITE, nd_key = key, nd_val = take len v\<rparr>"
  have n: "node_ok ?n" "node_len ?n = 24 + length key + len"
    using key(1) v by (simp_all add: node_ok_def key_ok_def node_len_def KV_HDR_DATA_SIZE_def)
  note p = pl [unfolded place_ok_def]
  have i: "i < m div s" and room: "16 + nodes_len (log_nodes (L i)) + node_len ?n + FDB_SEC_REMAIN_THRESHOLD < s"
    using p n(2) by simp_all
  have "holds (create_kv_blob db sec (nd_key ?n) v len) Q"
  proof (rule create_node_in [OF r i], goal_cases)
    case (10 g db')
    note al = append_logs [OF r i ok _ _ _ room refl 10(1)]
    have "keys_ok (key_entry s m (L(i := (FDB_SECTOR_STORE_USING, fst (snd (L i)), log_nodes (L i) @ [?n])))) (kvdb_kv_cache_table db')"
      unfolding 10(3)
      by (rule update_keys_ok [OF keys(1)]) (use al(3,4) keys(2) no key p in auto)
    with 10 show ?case
      by (intro Q [of g "L(i := (FDB_SECTOR_STORE_USING, fst (snd (L i)), log_nodes (L i) @ [?n]))"])
         (use al(1,2) no key p node_in_append [OF i refl] in \<open>auto simp: settled_def has_empty_def marks_ok_def\<close>)
  qed (use p n v room in simp_all)
  then show ?thesis by simp
qed

lemma set_write_inv:
  assumes inv: "kv_inv K s m f L db" and key: "key_ok key" "key \<in> K" and v: "len \<le> length v"
    and pl: "place_ok s m L i (24 + length key + len) (kvdb_cur_sector db)"
    and Q: "\<And>g L' db'. kv_inv K s m g L' db' \<Longrightarrow> kv_store s m L' = (kv_store s m L)(key \<mapsto> take len v) \<Longrightarrow> Q (FDB_NO_ERR, db')"
  shows "holds (set_kv_write db key v len) Q"
proof -
  note i = kv_invD [OF inv]
  have len: "strlen key = length key" using key(1) by (simp add: key_ok_def)
  show ?thesis
    unfolding set_kv_write_def Let_def holds_bind
  proof (rule find_kv_inv [OF inv key], goal_cases)
    case (1 kv db1)
    note j = kv_invD [OF 1(2)]
    have sec: "kvdb_cur_sector db1 = kvdb_cur_sector db" by (rule kv_frameD(5) [OF 1(3)])
    have "holds (create_kv_blob (db1\<lparr>kvdb_cur_kv := kv\<rparr>) (kvdb_cur_sector db) key v len)
      (\<lambda>(r, sec', db'). r = FDB_NO_ERR \<and> \<not> kvdb_gc_request db' \<and> Q (FDB_NO_ERR, db'\<lparr>kvdb_cur_sector := sec'\<rparr>))"
    proof (rule create_step [OF _ j(3) 1(1) key _ _ v pl], goal_cases)
      case (4 g L' db')
      have fl: "\<not> kvdb_gc_request db'" "\<not> kvdb_last_is_complete_del db'" "\<not> kvdb_in_recovery_check db'"
        using kv_frameD(2-4) [OF 4(5)] j(5,6,9) by simp_all
      then have "kv_inv K s m g L' (db'\<lparr>kvdb_cur_sector := kvdb_cur_sector db\<rparr>)" using 4 j(2,7,10) by (simp add: kv_inv_def)
      with fl Q [OF _ 4(3)] show ?case by simp
    qed (use j(1,4) in auto)
    then show ?case using sec by (auto elim!: holds_mono)
  next
    case (2 a n kv0 db1)
    note j = kv_invD [OF 2(3)]
    let ?kv = "node_kv kv0 a n"
    have ka: "kv_addr_start ?kv = a" by (simp add: node_kv_def)
    have sec: "kvdb_cur_sector db1 = kvdb_cur_sector db" by (rule kv_frameD(5) [OF 2(4)])
    have del: "del_kv d (Some key) (Some kv) c = del_kv_node d (Some key) kv c" for d kv c by (simp add: del_kv_def)
    have "holds (del_kv_node (db1\<lparr>kvdb_cur_kv := ?kv\<rparr>) (Some key) ?kv False)
      (\<lambda>(r, db2). r = FDB_NO_ERR \<and> holds (create_kv_blob db2 (kvdb_cur_sector db2) key v len)
        (\<lambda>(r, sec', db3). r = FDB_NO_ERR \<and> holds (del_kv_node (db3\<lparr>kvdb_cur_sector := sec'\<rparr>) (Some key) (kvdb_cur_kv db3) True)
          (\<lambda>(r, db4). r = FDB_NO_ERR \<and> \<not> kvdb_gc_request db4 \<and> Q (FDB_NO_ERR, db4))))"
    proof (rule del_node_in [OF _ 2(1) ka], use j(1) in simp, goal_cases)
      case (1 g1 L1 db2)
      note n = \<open>node_in s m L a n\<close> \<open>live key n\<close> and g1 = 1(2)
      have fr2: "kvdb_cur_sector db2 = kvdb_cur_sector db" "kvdb_cur_kv db2 = ?kv" "\<not> kvdb_gc_request db2" "kvdb_last_is_complete_del db2"
          "\<not> kvdb_in_recovery_check db2"
        using kv_frameD [OF 1(3)] sec j(5,9) by simp_all
      have st1: "kv_store s m L1 = (kv_store s m L)(key := None)" by (rule gone_store [OF j(1) g1 n j(3) 1(1)])
      then have no1: "no_live s m L1 key" using store_None [OF sectors_pos [OF j(1)], of L1 key] by simp
      have n1: "node_in s m L1 a (n\<lparr>nd_status := deleted False\<rparr>)" using gone_nodes [OF g1] by simp
      have pl1: "place_ok s m L1 i (24 + length key + len) (kvdb_cur_sector db)" using pl place_gone [OF g1] by simp
      have keys1: "keys_ok (key_entry s m L) (kvdb_kv_cache_table db2)" using 1(4) j(4) by simp
      have "holds (create_kv_blob db2 (kvdb_cur_sector db) key v len)
        (\<lambda>(r, sec', db3). r = FDB_NO_ERR \<and> holds (del_kv_node (db3\<lparr>kvdb_cur_sector := sec'\<rparr>) (Some key) (kvdb_cur_kv db3) True)
          (\<lambda>(r, db4). r = FDB_NO_ERR \<and> \<not> kvdb_gc_request db4 \<and> Q (FDB_NO_ERR, db4)))"
      proof (rule create_step [OF 1(1) gone_logs [OF j(1) g1 n(1) j(3)] no1 key keys1 _ v pl1], goal_cases)
        case (1 w b)
        then show ?case using gone_entry [OF j(1) g1 n(1)] n(2) by (simp add: live_def)
      next
        case (2 g2 L2 db3)
        note n2 = 2(6) [OF n1]
        have fr3: "kvdb_cur_kv db3 = ?kv" "\<not> kvdb_gc_request db3" "kvdb_last_is_complete_del db3" "\<not> kvdb_in_recovery_check db3"
          using kv_frameD(2-4,6) [OF 2(5)] fr2 by simp_all
        have "holds (del_kv_node (db3\<lparr>kvdb_cur_sector := kvdb_cur_sector db\<rparr>) (Some key) ?kv True)
          (\<lambda>(r, db4). r = FDB_NO_ERR \<and> \<not> kvdb_gc_request db4 \<and> Q (FDB_NO_ERR, db4))"
        proof (rule del_node_in [OF _ n2 ka], use 2(1) in simp, goal_cases)
          case (1 g3 L3 db4)
          have dead: "nd_status (n\<lparr>nd_status := deleted False\<rparr>) \<noteq> FDB_KV_WRITE" by simp
          note gd = gone_dead [OF 2(1) 1(2) n2 dead]
          have one: "one_live s m L2" using 2(2) by (simp add: logs_ok_def)
          have st3: "kv_store s m L3 = kv_store s m L2" by (rule same_live_store [OF 2(1) 1(1) one gd(1)])
          have "keys_ok (key_entry s m L3) (kvdb_kv_cache_table db4)"
            using keys_ok_mono [OF 2(4), of "key_entry s m L3"] gd(2) 1(4) fr3 by simp
          moreover have "\<not> kvdb_gc_request db4" "\<not> kvdb_last_is_complete_del db4" "\<not> kvdb_in_recovery_check db4"
            using kv_frameD(2-4) [OF 1(3)] fr3 by simp_all
          moreover have "settled s m {} L3"
            using gone_settled [OF 1(2) 2(7) [OF gone_settled [OF g1 j(7)]]] by simp
          ultimately have "kv_inv K s m g3 L3 db4"
            using 1(1) j(2) gone_logs [OF 2(1) 1(2) n2 2(2)] gone_empty [OF 1(2)] 2(8,9)
              gone_marks [OF 1(2)] gone_marks [OF g1] j(10) by (simp add: kv_inv_def)
          with Q [of g3 L3 db4] st3 2(3) st1 show ?case by (simp add: kv_inv_def)
        qed
        then show ?case using fr3 by simp
      qed
      then show ?case using fr2 by simp
    qed
    then show ?case
      by (auto simp: del split_def elim!: holds_mono)
  qed
qed

end
