(* ===== verification/KvMove.thy ===== *)
theory KvMove
  imports KvOps
begin

text \<open>
  Moving a live node to another sector, the step of the garbage collection: the copy is the same node,
  and the map of the database does not change.
\<close>

section \<open>Copying\<close>

lemma wr_rd_extend:
  "wr (wr f dst (rd f src k)) (dst + k) (rd f (src + k) j) = wr f dst (rd f src (k + j))"
  using wr_append [of f dst "rd f src k" "rd f (src + k) j"] by (simp add: rd_append)

lemma move_copy_ok:
  assumes st: "stored s m (wr f dst (rd f src k)) db" and src: "in_sector s m src n" and dst: "in_sector s m dst n"
    and dis: "src + n \<le> dst \<or> dst + n \<le> src" and k: "k \<le> n" "0 < n" "0 < k \<Longrightarrow> res = FDB_NO_ERR" and buf: "length buf = 32"
    and Q: "\<And>db'. stored s m (wr f dst (rd f src n)) db' \<Longrightarrow> io_frame db db' \<Longrightarrow> Q (FDB_NO_ERR, db')"
  shows "holds (move_kv_copy db buf src dst n k res) Q"
  using st k buf Q
proof (induction "n - k" arbitrary: k db buf res rule: less_induct)
  case less
  note i = storedD [OF less.prems(1)]
  show ?case
  proof (cases "k < n")
    case False
    with less.prems have "k = n" "res = FDB_NO_ERR" by auto
    with less.prems(6) [OF _ io_frame_refl] less.prems(1) show ?thesis by (subst move_kv_copy.simps) simp
  next
    case True
    define j where "j = (if k + 32 < n then 32 else n - k)"
    have j: "0 < j" "k + j \<le> n" "j \<le> 32" using True by (auto simp: j_def)
    have s1: "in_sector s m (src + k) j" by (rule in_sector_sub [OF src i(4,3)]) (use j True in auto)
    have d1: "in_sector s m (dst + k) j" by (rule in_sector_sub [OF dst i(4,3)]) (use j True in auto)
    have u: "u32 (src + k) = src + k" "u32 (dst + k) = dst + k"
      using stored_u32 [OF less.prems(1)] s1 d1 by (simp_all add: in_sector_def)
    have rd1: "rd (wr f dst (rd f src k)) (src + k) j = rd f (src + k) j"
      by (rule rd_wr_disjoint) (use dis j True in auto)
    have rest: "holds (move_kv_copy db2 (rd f (src + k) j @ drop j buf) src dst n (k + j) FDB_NO_ERR) Q"
      if "stored s m (wr f dst (rd f src (k + j))) db2" "io_frame db db2" for db2
      by (rule less.hyps) (use that j less.prems(5,6) io_frame_trans [OF that(2)] in auto)
    show ?thesis
      unfolding move_kv_copy.simps [of db buf src dst n k res] if_P [OF True] Let_def j_def [symmetric] holds_bind u
    proof (rule stored_read [OF less.prems(1)], use s1 in simp, goal_cases)
      case (1 r db1)
      have "holds (fdb_flash_write db1 (dst + k) (rd f (src + k) j) True)
          (\<lambda>(r, db2). holds (move_kv_copy db2 (rd f (src + k) j @ drop j buf) src dst n (k + j) r) Q)"
      proof (rule stored_write [OF 1(1)], goal_cases)
        case (3 db2)
        then show ?case using rest [of db2] io_frame_trans [OF 1(2)] by (simp add: wr_rd_extend)
      qed (use d1 j in \<open>auto dest: arg_cong [of _ _ length]\<close>)
      then show ?case using j by (simp add: rd1 split_def)
    qed
  qed
qed


section \<open>Writing the copy\<close>

definition copy_write :: "(addr \<Rightarrow> byte) \<Rightarrow> addr \<Rightarrow> addr \<Rightarrow> kv_node \<Rightarrow> addr \<Rightarrow> byte" where
  "copy_write f a b n = wr (wr (wr f b [status_byte 1]) (b + 4) (rd f (a + 4) (node_len n - 4))) b [status_byte 2]"

lemma copy_write_out: "x < b \<or> b + node_len n \<le> x \<Longrightarrow> copy_write f a b n x = f x"
  by (auto simp: copy_write_def node_len_def KV_HDR_DATA_SIZE_def wr_out)

lemma copy_write_at:
  assumes at: "node_at f a n"
  shows "node_at (copy_write f a b n) b (n\<lparr>nd_status := FDB_KV_WRITE\<rparr>)"
proof -
  let ?g = "copy_write f a b n"
  have "rd ?g (b + 4) (node_len n - 4) = rd f (a + 4) (node_len n - 4)"
    by (simp add: copy_write_def rd_wr_disjoint rd_wr_same)
  note all = this
  have part: "rd ?g (b + 4 + i) j = rd f (a + 4 + i) j" if "4 + i + j \<le> node_len n" for i j
    using arg_cong [where f = "\<lambda>xs. take j (drop i xs)", OF all] that by (simp add: take_rd drop_rd min_absorb1)
  have "?g b = status_byte 2" by (simp add: copy_write_def wr_in)
  then show ?thesis
    using at part [of 0 20] part [of 20 "length (nd_key n)"] part [of "20 + length (nd_key n)" "length (nd_val n)"]
    by (simp add: node_at_def node_len_def KV_HDR_DATA_SIZE_def add.assoc)
qed

lemma node_name_take: "length key < 64 \<Longrightarrow> take (length key) (node_name key old) = key"
  by (simp add: node_name_def FDB_KV_NAME_MAX_def)


lemma node_apart:
  assumes r: "kv_rel s m f L db" and a: "node_in s m L a x" and i: "i < m div s"
  shows "a + node_len x \<le> log_end (i * s) (log_nodes (L i)) \<or> i * s + s \<le> a" "i * s < a \<or> a + node_len x \<le> i * s"
proof -
  from a obtain j st d pre post where j: "j < m div s" "L j = (st, d, pre @ x # post)" and eq: "a = j * s + 16 + nodes_len pre"
    by (auto simp: node_in_def)
  note nd = sector_node [OF r j]
  show "a + node_len x \<le> log_end (i * s) (log_nodes (L i)) \<or> i * s + s \<le> a" "i * s < a \<or> a + node_len x \<le> i * s"
  proof (atomize(full), cases "j = i")
    case True
    with j eq show "(a + node_len x \<le> log_end (i * s) (log_nodes (L i)) \<or> i * s + s \<le> a) \<and> (i * s < a \<or> a + node_len x \<le> i * s)"
      by (simp add: log_end_def)
  next
    case False
    from False consider "Suc j \<le> i" | "Suc i \<le> j" by linarith
    then show "(a + node_len x \<le> log_end (i * s) (log_nodes (L i)) \<or> i * s + s \<le> a) \<and> (i * s < a \<or> a + node_len x \<le> i * s)"
    proof cases
      case 1
      then have "Suc j * s \<le> i * s" by (rule mult_le_mono1)
      then show ?thesis using nd(7) eq by (auto simp: log_end_def)
    next
      case 2
      then have "Suc i * s \<le> j * s" by (rule mult_le_mono1)
      then show ?thesis using eq by auto
    qed
  qed
qed

lemma move_write_rel:
  assumes r: "kv_rel s m f L db" and x: "node_in s m L a x" "length (nd_key x) < 64"
    and kv: "kv_addr_start kv = a" "kv_len kv = node_len x" "kv_name_len kv = length (nd_key x)"
      "kv_value_len kv = length (nd_val x)" "take (length (nd_key x)) (kv_name kv) = nd_key x"
    and i: "i < m div s"
    and sec: "sec_addr sec = i * s" "sec_store sec = fst (L i)" "sec_remain sec = s - (16 + nodes_len (log_nodes (L i)))"
    and room: "16 + nodes_len (log_nodes (L i)) + node_len x + FDB_SEC_REMAIN_THRESHOLD \<le> s"
    and Q: "\<And>g db'. kv_rel s m g (L(i := (FDB_SECTOR_STORE_USING, fst (snd (L i)), log_nodes (L i) @ [x\<lparr>nd_status := FDB_KV_WRITE\<rparr>]))) db' \<Longrightarrow>
      kv_frame db db' \<Longrightarrow> kvdb_kv_cache_table db' = kvdb_kv_cache_table (update_kv_cache db (nd_key x) (log_end (i * s) (log_nodes (L i)))) \<Longrightarrow>
      Q (FDB_NO_ERR, db')"
  shows "holds (move_kv_write db sec kv (log_end (i * s) (log_nodes (L i)))) Q"
proof -
  note rel = kv_relD [OF r] and sd = storedD [OF kv_relD(1) [OF r]] and sa = sector_addr [OF kv_relD(1) [OF r] i]
    and nf = node_in_facts [OF r x(1)] and ap = node_apart [OF r x(1) i]
  obtain st d ns where L: "L i = (st, d, ns)" by (cases "L i")
  have sh: "sector_holds s f (i * s) st d ns" by (rule sectors_holdD [OF rel(2) i L])
  let ?b = "log_end (i * s) ns" and ?F = "sec_used sec f" and ?len = "node_len x"
  let ?x = "x\<lparr>nd_status := FDB_KV_WRITE\<rparr>"
  let ?L = "L(i := (FDB_SECTOR_STORE_USING, d, ns @ [?x]))"
  have len: "25 \<le> ?len" "?len = 24 + length (nd_key x) + length (nd_val x)"
    using node_len_ge [OF nf(2)] by (simp_all add: node_len_def KV_HDR_DATA_SIZE_def)
  have room': "16 + nodes_len ns + ?len + 88 \<le> s"
    using room L by (simp add: FDB_SEC_REMAIN_THRESHOLD_def KV_HDR_DATA_SIZE_def FDB_KV_NAME_MAX_def)
  have in_b: "in_sector s m ?b ?len"
    using in_sector_at [OF sd(4) sa(1,2), of "16 + nodes_len ns" ?len] room' by (simp add: log_end_def add.assoc)
  have src: "in_sector s m (a + 4) (?len - 4)" by (rule in_sector_sub [OF nf(3) sd(4,3)]) (use len in auto)
  have dst: "in_sector s m (?b + 4) (?len - 4)" by (rule in_sector_sub [OF in_b sd(4,3)]) (use len in auto)
  have bm: "?b < m" using in_b by (simp add: in_sector_def)
  have dis: "a + ?len \<le> ?b \<or> ?b + ?len \<le> a" using ap(1) L room' by (auto simp: log_end_def)
  have Fa: "node_at ?F a x"
    by (rule node_at_cong [OF nf(1)]) (use ap(2) sec(1) sec_used_out [of _ sec f] in auto)
  have rdF: "rd (wr ?F ?b [status_byte 1]) (a + 4) (?len - 4) = rd ?F (a + 4) (?len - 4)"
    by (rule rd_wr_disjoint) (use dis len in auto)
  have img: "wr (wr (wr ?F ?b [status_byte 1]) (?b + 4) (rd (wr ?F ?b [status_byte 1]) (a + 4) (?len - 4))) ?b [status_byte 2]
      = copy_write ?F a ?b x" by (simp add: copy_write_def rdF)
  have holds: "sectors_hold s m (copy_write ?F a ?b x) ?L"
    by (rule append_sectors [OF rel(2) i L _ _ sec(1)])
       (use nf(2) room sec(2) L copy_write_at [OF Fa] copy_write_out in auto)
  have sto: "sec_store sec = FDB_SECTOR_STORE_EMPTY \<or>
      sec_store sec = FDB_SECTOR_STORE_USING \<and> ?len + FDB_SEC_REMAIN_THRESHOLD \<le> sec_remain sec"
    using sh sec(2,3) L room by (auto simp: sector_holds_def)
  have us: "u32 (?b + KV_HDR_DATA_SIZE + length (nd_key x) + length (nd_val x)) = ?b + ?len"
    using stored_u32_le [OF rel(1)] in_sector_end [OF in_b sd(4,3)] len by (simp add: KV_HDR_DATA_SIZE_def add.assoc)
  have al: "FDB_ALIGN_DOWN ?b s = i * s" by (rule align_down_sector) (use sa room' in \<open>auto simp: log_end_def\<close>)
  have sub: "sub64 ?len KV_MAGIC_OFFSET = ?len - 4" using len by (simp add: KV_MAGIC_OFFSET_def)
  have fin: "Q (FDB_NO_ERR, update_kv_cache (update_sector_empty_addr_cache db4 (FDB_ALIGN_DOWN ?b (db_sec_size db4)) (?b + ?len)) (nd_key x) ?b)"
    if d4: "stored s m (copy_write ?F a ?b x) db4" "kv_frame db db4"
      "kvdb_sector_cache_table db4 = kvdb_sector_cache_table (sec_used_db sec db)" "kvdb_kv_cache_table db4 = kvdb_kv_cache_table db" for db4
  proof -
    let ?db = "update_kv_cache (update_sector_empty_addr_cache db4 (FDB_ALIGN_DOWN ?b (db_sec_size db4)) (?b + ?len)) (nd_key x) ?b"
    have geo: "db_sec_size db4 = s" "db_sec_size (sec_used_db sec db) = s"
      using d4(1) rel(1) by (simp_all add: sec_used_db_def update_sector_status_store_cache_def Let_def split: option.split)
    have "kvdb_sector_cache_table ?db = kvdb_sector_cache_table (update_sector_empty_addr_cache (sec_used_db sec db) (i * s) (?b + ?len))"
      unfolding cache_tables geo al by (rule cache_table_cong(1)) (use d4(3) geo in simp_all)
    also have "table_ok s m ?L \<dots>"
      by (rule append_table [OF rel(3) L i sa(4) sd(3)]) (use rel(1) sec L sh room' in \<open>auto simp: sector_holds_def\<close>)
    finally have tab: "table_ok s m ?L (kvdb_sector_cache_table ?db)" .
    have fr: "kv_frame db ?db" using d4(2) by simp
    have "kv_rel s m (copy_write ?F a ?b x) ?L ?db"
      using tab holds d4(1) rel(4,5) kv_frameD(1) [OF fr] by (simp add: kv_rel_def)
    moreover have "kvdb_kv_cache_table ?db = kvdb_kv_cache_table (update_kv_cache db (nd_key x) ?b)"
      by (rule cache_table_cong(4)) (simp add: d4(4))
    ultimately show ?thesis using Q [of "copy_write ?F a ?b x" ?db] fr L by simp
  qed
  have copy: "holds (move_kv_copy db2 (uninit (db_io db2) 32) (a + 4) (?b + 4) (?len - 4) 0 FDB_NO_ERR)
      (\<lambda>(r, db3). r = FDB_NO_ERR \<and> stored s m (wr (wr ?F ?b [status_byte 1]) (?b + 4) (rd (wr ?F ?b [status_byte 1]) (a + 4) (?len - 4))) db3
        \<and> io_frame db2 db3)" if "stored s m (wr ?F ?b [status_byte 1]) db2" for db2
    by (rule move_copy_ok [where f = "wr ?F ?b [status_byte 1]"]) (use that src dst dis len in auto)
  show ?thesis
    unfolding move_kv_write_def L log_nodes_simp kv Let_def holds_bind
  proof (rule update_status_ok [OF rel(1) _ sto], use sec sa in simp, simp only: prod.case holds_bind,
      rule stored_write_status, assumption, rule bm, simp, simp add: FDB_KV_STATUS_NUM_def, simp add: FDB_KV_STATUS_NUM_def,
      goal_cases)
    case (1 full db1 db2)
    have fr2: "kv_frame db db2" using kv_frame_trans [OF 1(2) kv_frame_io [OF 1(7)]] .
    have "holds (move_kv_copy db2 (uninit (db_io db2) 32) (a + 4) (?b + 4) (?len - 4) 0 FDB_NO_ERR)
      (\<lambda>(r, db3). holds (fdb_write_status db3 ?b FDB_KV_STATUS_NUM (kv_status_num FDB_KV_WRITE) True) (\<lambda>(_, db4).
        Q (r, update_kv_cache (update_sector_empty_addr_cache db4 (FDB_ALIGN_DOWN ?b (db_sec_size db4)) (?b + ?len)) (nd_key x) ?b)))"
    proof (rule holds_mono [OF copy], use 1(6) in simp, clarify, rule stored_write_status, assumption, rule bm, simp,
        simp add: FDB_KV_STATUS_NUM_def, simp add: FDB_KV_STATUS_NUM_def, goal_cases)
      case (1 r db3 db4)
      have fr4: "io_frame db2 db4" by (rule io_frame_trans [OF 1(2,4)])
      have "stored s m (copy_write ?F a ?b x) db4" using 1(3) img by simp
      from fin [OF this kv_frame_trans [OF fr2 kv_frame_io [OF fr4]]] show ?case
        using io_frame_kv(1,2) [OF fr4] io_frame_kv(1,2) [OF \<open>io_frame db1 db2\<close>]
          \<open>kvdb_sector_cache_table db1 = _\<close> \<open>kvdb_kv_cache_table db1 = _\<close> by simp
    qed
    then show ?case by (simp add: split_def us sub [unfolded KV_MAGIC_OFFSET_def] KV_MAGIC_OFFSET_def)
  qed
qed

end
