(* ===== verification/KvGc.thy ===== *)
theory KvGc
  imports KvMove
begin

text \<open>
  Garbage collection: every live node of a dirty sector is moved to a clean one before the sector is
  erased, so the map of the database stays the same. The empty sector that the allocation keeps back is
  the room this needs.
\<close>

section \<open>Moving a node\<close>

definition gc_state :: "byte list set \<Rightarrow> nat \<Rightarrow> nat \<Rightarrow> (addr \<Rightarrow> byte) \<Rightarrow> (nat \<Rightarrow> sector_log) \<Rightarrow> fdb_kvdb \<Rightarrow> bool" where
  "gc_state K s m f L db \<longleftrightarrow> kv_rel s m f L db \<and> m + s < 2 ^ 32 \<and> logs_ok K s m L \<and> settled s m {} L
     \<and> keys_ok (key_entry s m L) (kvdb_kv_cache_table db) \<and> kvdb_gc_request db
     \<and> \<not> kvdb_last_is_complete_del db \<and> \<not> kvdb_in_recovery_check db"

lemma gc_stateD:
  assumes "gc_state K s m f L db"
  shows "kv_rel s m f L db" "m + s < 2 ^ 32" "logs_ok K s m L" "keys_ok (key_entry s m L) (kvdb_kv_cache_table db)"
    "kvdb_gc_request db" "\<not> kvdb_last_is_complete_del db" "settled s m {} L" "\<not> kvdb_in_recovery_check db"
  using assms by (simp_all add: gc_state_def)

text \<open>A clean sector with room for \<open>k\<close> more bytes of nodes.\<close>

definition clean_room :: "nat \<Rightarrow> (nat \<Rightarrow> sector_log) \<Rightarrow> nat \<Rightarrow> nat \<Rightarrow> bool" where
  "clean_room s L t k \<longleftrightarrow> fst (snd (L t)) = FDB_SECTOR_DIRTY_FALSE
     \<and> 16 + nodes_len (log_nodes (L t)) + k + FDB_SEC_REMAIN_THRESHOLD < s"

lemma clean_has_room:
  assumes "k + FDB_SEC_REMAIN_THRESHOLD < 2 ^ 64"
  shows "has_room s True k (L t) \<longleftrightarrow> clean_room s L t k"
  using assms by (auto simp: has_room_def clean_room_def)

lemma alloc_gc:
  assumes r: "kv_rel s m f L db" and t: "t < m div s" "clean_room s L t k" and k: "k + FDB_SEC_REMAIN_THRESHOLD < 2 ^ 64"
  shows "alloc_choice s True k L (ring (m div s) (db_oldest_addr db div s) 0) \<noteq> None"
proof -
  let ?is = "ring (m div s) (db_oldest_addr db div s) 0"
  obtain st d ns where L: "L t = (st, d, ns)" by (cases "L t")
  have mem: "t \<in> set ?is" using set_ring [OF oldest_index [OF r]] t(1) by simp
  have room: "has_room s True k (L t)" using t(2) clean_has_room [OF k] by simp
  have "fst (L t) = FDB_SECTOR_STORE_EMPTY \<or> fst (L t) = FDB_SECTOR_STORE_USING"
    using sectors_holdD [OF kv_relD(2) [OF r] t(1) L] L by (auto simp: sector_holds_def)
  then have "List.find (\<lambda>i. fst (L i) = FDB_SECTOR_STORE_USING \<and> has_room s True k (L i)) ?is \<noteq> None
     \<or> List.find (\<lambda>i. fst (L i) = FDB_SECTOR_STORE_EMPTY \<and> has_room s True k (L i)) ?is \<noteq> None"
    using mem room by (auto simp: find_None_iff)
  then show ?thesis by (auto simp: alloc_choice_def split: option.split)
qed

lemma alloc_choice_Some:
  assumes "alloc_choice s gc k L is = Some i"
  shows "i \<in> set is" "has_room s gc k (L i)" "fst (L i) = FDB_SECTOR_STORE_EMPTY \<or> fst (L i) = FDB_SECTOR_STORE_USING"
    "fst (L i) = FDB_SECTOR_STORE_EMPTY \<Longrightarrow> \<not> gc \<Longrightarrow> count_store FDB_SECTOR_STORE_EMPTY L is > 1"
proof -
  consider "List.find (\<lambda>i. fst (L i) = FDB_SECTOR_STORE_USING \<and> has_room s gc k (L i)) is = Some i"
    | "List.find (\<lambda>i. fst (L i) = FDB_SECTOR_STORE_EMPTY \<and> has_room s gc k (L i)) is = Some i"
      "count_store FDB_SECTOR_STORE_EMPTY L is > 1 \<or> gc"
    using assms by (auto simp: alloc_choice_def FDB_GC_EMPTY_SEC_THRESHOLD_def split: option.splits if_splits)
  then show "i \<in> set is" "has_room s gc k (L i)" "fst (L i) = FDB_SECTOR_STORE_EMPTY \<or> fst (L i) = FDB_SECTOR_STORE_USING"
    "fst (L i) = FDB_SECTOR_STORE_EMPTY \<Longrightarrow> \<not> gc \<Longrightarrow> count_store FDB_SECTOR_STORE_EMPTY L is > 1"
    by (cases; auto dest!: find_Some_iff')+
qed

text \<open>The sectors after the node \<open>n\<close> of sector \<open>g\<close> has been moved to sector \<open>i\<close>.\<close>

definition moved :: "(nat \<Rightarrow> sector_log) \<Rightarrow> nat \<Rightarrow> fdb_sector_store_status \<Rightarrow> kv_node list \<Rightarrow> kv_node \<Rightarrow> kv_node list \<Rightarrow> nat \<Rightarrow> nat \<Rightarrow> sector_log" where
  "moved L g st pre n post i = L(g := (st, FDB_SECTOR_DIRTY_GC, pre @ n\<lparr>nd_status := FDB_KV_DELETED\<rparr> # post),
     i := (FDB_SECTOR_STORE_USING, FDB_SECTOR_DIRTY_FALSE, log_nodes (L i) @ [n]))"

lemma move_logs:
  assumes r: "kv_rel s m f L db" and ok: "logs_ok K s m L" "settled s m {} L"
    and g: "g < m div s" "L g = (st, FDB_SECTOR_DIRTY_GC, pre @ n # post)" and n: "nd_status n = FDB_KV_WRITE"
    and i: "i < m div s" "i \<noteq> g" "clean_room s L i (node_len n)"
    and L1: "L1 = L(g := (st, FDB_SECTOR_DIRTY_GC, pre @ n\<lparr>nd_status := FDB_KV_PRE_DELETE\<rparr> # post))" and r1: "kv_rel s m f1 L1 db1"
    and L2: "L2 = L1(i := (FDB_SECTOR_STORE_USING, FDB_SECTOR_DIRTY_FALSE, log_nodes (L i) @ [n]))" and r2: "kv_rel s m f2 L2 db2"
    and r3: "kv_rel s m f3 (moved L g st pre n post i) db3"
  shows "logs_ok K s m (moved L g st pre n post i)" "settled s m {} (moved L g st pre n post i)"
    "kv_store s m (moved L g st pre n post i) = kv_store s m L"
    "w \<noteq> name_crc16 (nd_key n) \<Longrightarrow> key_entry s m L w b \<Longrightarrow> key_entry s m (moved L g st pre n post i) w b"
    "key_entry s m (moved L g st pre n post i) (name_crc16 (nd_key n)) (log_end (i * s) (log_nodes (L i)))"
proof -
  let ?a = "g * s + 16 + nodes_len pre" and ?n1 = "n\<lparr>nd_status := FDB_KV_PRE_DELETE\<rparr>" and ?L3 = "moved L g st pre n post i"
  have dl: "deleted False = FDB_KV_PRE_DELETE" "deleted True = FDB_KV_DELETED" by (simp_all add: deleted_def)
  have nin: "node_in s m L ?a n" by (rule node_inI) (use g in simp_all)
  have nlv: "live (nd_key n) n" using n by (simp add: live_def)
  have g1: "node_gone s m L ?a n False L1" using gone_at [OF r g, of False] by (simp add: L1 dl)
  have ok1: "logs_ok K s m L1" by (rule gone_logs [OF r g1 nin ok(1)])
  have st1: "kv_store s m L1 = (kv_store s m L)(nd_key n := None)" by (rule gone_store [OF r g1 nin nlv ok(1) r1])
  then have no1: "no_live s m L1 (nd_key n)" using store_None [OF sectors_pos [OF r], of L1 "nd_key n"] by simp
  have K: "nd_key n \<in> K" using ok(1) nin n by (auto simp: logs_ok_def)
  have Li: "L1 i = L i" using i(2) by (simp add: L1)
  have room: "16 + nodes_len (log_nodes (L1 i)) + node_len n + FDB_SEC_REMAIN_THRESHOLD < s"
    using i(3) Li by (simp add: clean_room_def)
  have L2': "L2 = L1(i := (FDB_SECTOR_STORE_USING, FDB_SECTOR_DIRTY_FALSE, log_nodes (L1 i) @ [n]))" using L2 Li by simp
  note al = append_logs [OF r1 i(1) ok1 no1 K n room L2' r2]
  have g2: "L2 g = (st, FDB_SECTOR_DIRTY_GC, pre @ ?n1 # post)" using i(2) by (simp add: L2 L1)
  have eq3: "L2(g := (st, FDB_SECTOR_DIRTY_GC, pre @ n\<lparr>nd_status := FDB_KV_DELETED\<rparr> # post)) = ?L3"
    using i(2) by (simp add: L2 L1 moved_def fun_upd_twist)
  have g3: "node_gone s m L2 ?a ?n1 True ?L3" using gone_at [OF r2 g(1) g2, of True] eq3 by (simp add: dl)
  have nin2: "node_in s m L2 ?a ?n1" by (rule node_inI) (use g g2 in simp_all)
  have dead: "nd_status ?n1 \<noteq> FDB_KV_WRITE" by simp
  note gd = gone_dead [OF r2 g3 nin2 dead]
  show "logs_ok K s m ?L3" by (rule gone_logs [OF r2 g3 nin2 al(1)])
  have "settled s m {?a} L1" using gone_settled [OF g1 ok(2)] by simp
  then have "settled s m {?a} L2"
    using n node_in_append [OF i(1) refl, of L1 _ _ n] unfolding L2' settled_def by blast
  then show "settled s m {} ?L3" using gone_settled [OF g3] by fastforce
  have one: "one_live s m L2" using al(1) by (simp add: logs_ok_def)
  have "kv_store s m ?L3 = kv_store s m L2" by (rule same_live_store(1) [OF r2 r3 one gd(1)])
  also have "\<dots> = (kv_store s m L)(nd_key n \<mapsto> nd_val n)" unfolding al(2) st1 by simp
  also have "\<dots> = kv_store s m L" using store_live [OF r ok(1) nin nlv] by (simp add: fun_upd_idem)
  finally show "kv_store s m ?L3 = kv_store s m L" .
  show "key_entry s m ?L3 w b" if "w \<noteq> name_crc16 (nd_key n)" "key_entry s m L w b"
    by (rule gd(2), rule al(3), rule gone_entry [OF r g1 nin that])
  show "key_entry s m ?L3 (name_crc16 (nd_key n)) (log_end (i * s) (log_nodes (L i)))"
    using gd(2) al(4) Li by simp
qed


lemma move_kv_ok:
  assumes gs: "gc_state K s m f L db" and g: "g < m div s" "L g = (st, FDB_SECTOR_DIRTY_GC, pre @ n # post)"
    and n: "nd_status n = FDB_KV_WRITE" and t: "t < m div s" "clean_room s L t (node_len n)"
    and Q: "\<And>f' i db'. gc_state K s m f' (moved L g st pre n post i) db' \<Longrightarrow>
      kv_store s m (moved L g st pre n post i) = kv_store s m L \<Longrightarrow> i < m div s \<Longrightarrow> i \<noteq> g \<Longrightarrow>
      fst (snd (L i)) = FDB_SECTOR_DIRTY_FALSE \<Longrightarrow> Q (FDB_NO_ERR, db')"
  shows "holds (move_kv db (node_kv kv0 (g * s + 16 + nodes_len pre) n)) Q"
proof -
  note j = gc_stateD [OF gs] and sd = storedD [OF kv_relD(1) [OF gc_stateD(1) [OF gs]]] and nd = sector_node [OF gc_stateD(1) [OF gs] g]
  let ?a = "g * s + 16 + nodes_len pre" and ?kv = "node_kv kv0 (g * s + 16 + nodes_len pre) n"
  let ?L1 = "L(g := (st, FDB_SECTOR_DIRTY_GC, pre @ n\<lparr>nd_status := FDB_KV_PRE_DELETE\<rparr> # post))"
  have dl: "deleted False = FDB_KV_PRE_DELETE" "deleted True = FDB_KV_DELETED" by (simp_all add: deleted_def)
  have nin: "node_in s m L ?a n" by (rule node_inI) (use g in simp_all)
  have "nd_key n \<in> K" using j(3) nin n by (auto simp: logs_ok_def)
  then have key: "length (nd_key n) < 64" "key_ok (nd_key n)" using j(3) by (auto simp: logs_ok_def key_ok_def FDB_KV_NAME_MAX_def)
  have small: "node_len n + FDB_SEC_REMAIN_THRESHOLD < 2 ^ 64"
    using nd(7) sector_addr(5) [OF kv_relD(1) [OF j(1)] g(1)] sd(5)
    by (simp add: FDB_SEC_REMAIN_THRESHOLD_def KV_HDR_DATA_SIZE_def FDB_KV_NAME_MAX_def)
  have kvs: "kv_addr_start ?kv = ?a" "kv_status ?kv = FDB_KV_WRITE" "kv_len ?kv = node_len n" "kv_name_len ?kv = length (nd_key n)"
    "kv_value_len ?kv = length (nd_val n)" "take (length (nd_key n)) (kv_name ?kv) = nd_key n"
    using n key(1) by (simp_all add: node_kv_def node_name_take)
  have del: "del_kv d None (Some kv) c = del_kv_node d None kv c" for d kv c by (simp add: del_kv_def)
  have tail: "holds (alloc_kv db1 (kvdb_stack_sector db1) (node_len n)) (\<lambda>(kv_addr, sector, db).
      kv_addr \<noteq> FAILED_ADDR \<and> \<not> kvdb_in_recovery_check db \<and> holds (move_kv_write db sector ?kv kv_addr)
        (\<lambda>(r, db). holds (del_kv_node db None ?kv True) (\<lambda>(_, db). Q (r, db))))"
    if d1: "kv_rel s m f1 ?L1 db1" "kv_frame (db\<lparr>kvdb_last_is_complete_del := True\<rparr>) db1"
      "kvdb_kv_cache_table db1 = kvdb_kv_cache_table db" for f1 db1
  proof -
    let ?is = "ring (m div s) (db_oldest_addr db1 div s) 0"
    have fr1: "kvdb_gc_request db1" "kvdb_last_is_complete_del db1" "\<not> kvdb_in_recovery_check db1"
      using kv_frameD(2-4) [OF d1(2)] j(5,8) by simp_all
    have tg: "t \<noteq> g" using t(2) g(2) by (auto simp: clean_room_def)
    then have "clean_room s ?L1 t (node_len n)" using t(2) by (simp add: clean_room_def)
    then have ch: "alloc_choice s True (node_len n) ?L1 ?is \<noteq> None" by (rule alloc_gc [OF d1(1) t(1) _ small])
    show ?thesis
    proof (rule alloc_kv_ok [OF d1(1) j(2)], goal_cases)
      case 1
      then show ?case using fr1(1) by (simp add: marks_ok_def)
    next
      case (2 i sec db2)
      have ac: "alloc_choice s True (node_len n) ?L1 ?is = Some i" using 2(1) fr1(1) by simp
      have cr1: "clean_room s ?L1 i (node_len n)" by (rule clean_has_room [OF small, THEN iffD1]) (rule alloc_choice_Some(2) [OF ac])
      then have ig: "i \<noteq> g" by (auto simp: clean_room_def)
      then have Li: "?L1 i = L i" and cr: "clean_room s L i (node_len n)" using cr1 by (simp_all add: clean_room_def)
      let ?b = "log_end (i * s) (log_nodes (L i))"
      have ne: "?b \<noteq> FAILED_ADDR" using log_end_not_failed [OF d1(1) 2(2)] Li by simp
      have seen: "sec_addr sec = i * s" "sec_store sec = fst (L i)" "sec_remain sec = s - (16 + nodes_len (log_nodes (L i)))"
        using 2(6) Li by (auto simp: sec_seen_def sec_full_def sec_info_ok_def split: prod.splits)
      have fr2: "kvdb_gc_request db2" "kvdb_last_is_complete_del db2" "\<not> kvdb_in_recovery_check db2"
        using kv_frameD(2-4) [OF 2(4)] fr1 by simp_all
      have n1: "node_in s m ?L1 ?a (n\<lparr>nd_status := FDB_KV_PRE_DELETE\<rparr>)" by (rule node_inI) (use g in simp_all)
      let ?L2 = "?L1(i := (FDB_SECTOR_STORE_USING, FDB_SECTOR_DIRTY_FALSE, log_nodes (L i) @ [n]))"
      have "holds (move_kv_write db2 sec ?kv (log_end (i * s) (log_nodes (?L1 i))))
        (\<lambda>(r, db). holds (del_kv_node db None ?kv True) (\<lambda>(_, db). Q (r, db)))"
      proof (rule move_write_rel [OF 2(3) n1], goal_cases)
        case (12 f2 db3)
        have d: "fst (snd (L i)) = FDB_SECTOR_DIRTY_FALSE" using cr by (simp add: clean_room_def)
        have nw: "n\<lparr>nd_status := FDB_KV_WRITE\<rparr> = n" using n by (cases n) simp
        have eq2: "?L1(i := (FDB_SECTOR_STORE_USING, fst (snd (?L1 i)), log_nodes (?L1 i) @ [n\<lparr>nd_status := FDB_KV_PRE_DELETE\<rparr>\<lparr>nd_status := FDB_KV_WRITE\<rparr>])) = ?L2"
          using ig d nw by (simp add: fun_upd_def)
        note r2 = 12(1) [unfolded eq2]
        have g2: "?L2 g = (st, FDB_SECTOR_DIRTY_GC, pre @ n\<lparr>nd_status := FDB_KV_PRE_DELETE\<rparr> # post)" using ig by simp
        have eq3: "?L2(g := (st, dirtied FDB_SECTOR_DIRTY_GC, pre @ n\<lparr>nd_status := FDB_KV_PRE_DELETE\<rparr>\<lparr>nd_status := deleted True\<rparr> # post)) = moved L g st pre n post i"
          using ig by (simp add: moved_def dl fun_upd_twist)
        have fr3: "kvdb_gc_request db3" "kvdb_last_is_complete_del db3" "\<not> kvdb_in_recovery_check db3"
          using kv_frameD(2-4) [OF 12(2)] fr2 by simp_all
        have "holds (del_kv_node db3 None ?kv True) (\<lambda>(_, db). Q (FDB_NO_ERR, db))"
        proof (rule del_node_rel [OF r2 g(1) g2 kvs(1)], goal_cases)
          case (1 f3 db4)
          note r3 = 1(1) [unfolded eq3]
          note ml = move_logs [OF j(1,3,7) g n \<open>i < m div s\<close> ig cr refl d1(1) refl r2 r3]
          have "kvdb_kv_cache_table db4 = kvdb_kv_cache_table (update_kv_cache db2 (nd_key n) ?b)"
            using 1(3) fr3(2) 12(3) ig by simp
          moreover have "keys_ok (key_entry s m L) (kvdb_kv_cache_table db2)" using j(4) d1(3) \<open>kvdb_kv_cache_table db2 = _\<close> by simp
          ultimately have "keys_ok (key_entry s m (moved L g st pre n post i)) (kvdb_kv_cache_table db4)"
            using update_keys_ok [of "key_entry s m L" db2 ?b "key_entry s m (moved L g st pre n post i)" "nd_key n"] ml(4,5) by auto
          moreover have "kvdb_gc_request db4" "\<not> kvdb_last_is_complete_del db4" "\<not> kvdb_in_recovery_check db4"
            using kv_frameD(2-4) [OF 1(2)] fr3 by simp_all
          ultimately have "gc_state K s m f3 (moved L g st pre n post i) db4" using r3 j(2) ml(1,2) by (simp add: gc_state_def)
          then show ?case using Q ml(3) \<open>i < m div s\<close> ig d by simp
        qed
        then show ?case by simp
      qed (use key seen kvs Li cr \<open>i < m div s\<close> in \<open>auto simp: clean_room_def\<close>)
      then show ?case using ne Li fr2(3) by simp
    next
      case (3 sec db2)
      then show ?case using ch fr1(1) by simp
    qed
  qed
  have "holds (del_kv_node db None ?kv False) (\<lambda>(_, db1). holds (alloc_kv db1 (kvdb_stack_sector db1) (node_len n)) (\<lambda>(kv_addr, sector, db).
      kv_addr \<noteq> FAILED_ADDR \<and> \<not> kvdb_in_recovery_check db \<and> holds (move_kv_write db sector ?kv kv_addr)
        (\<lambda>(r, db). holds (del_kv_node db None ?kv True) (\<lambda>(_, db). Q (r, db)))))"
    by (rule del_node_rel [OF j(1) g kvs(1)]) (use tail in \<open>simp add: dl\<close>)
  then show ?thesis
    unfolding move_kv_def kvs del by (auto simp: split_def elim!: holds_mono)
qed


section \<open>Emptying a sector\<close>

fun live_len :: "kv_node list \<Rightarrow> nat" where
  "live_len [] = 0"
| "live_len (n # ns) = (if nd_status n = FDB_KV_WRITE then node_len n else 0) + live_len ns"

lemma live_len_le: "live_len ns \<le> nodes_len ns"
  by (induction ns) auto

lemma clean_room_mono: "clean_room s L t k \<Longrightarrow> k' \<le> k \<Longrightarrow> clean_room s L t k'"
  by (simp add: clean_room_def)

lemma clean_room_moved:
  assumes "clean_room s L t (node_len n + k)" "t \<noteq> g"
  shows "clean_room s (moved L g st pre n post i) t k"
  using assms by (cases "t = i") (simp_all add: clean_room_def moved_def)

lemma gc_state_io:
  assumes "gc_state K s m f L db" "stored s m f db'" "io_frame db db'"
  shows "gc_state K s m f L db'"
  using assms kv_rel_frame [OF gc_stateD(1) [OF assms(1)] assms(2,3)] io_frame_kv [OF assms(3)] by (simp add: gc_state_def)

lemma gc_next:
  assumes gs: "gc_state K s m f L db" and g: "g < m div s" "L g = (st, FDB_SECTOR_DIRTY_GC, pre @ n # post)"
    and sec: "sec_addr sector = g * s" "sec_store sector \<noteq> FDB_SECTOR_STORE_EMPTY" and len: "node_len n = node_len n0"
    and Q: "\<And>db'. gc_state K s m f L db' \<Longrightarrow>
      Q (if post = [] then FAILED_ADDR else g * s + 16 + nodes_len (pre @ [n]), db')"
  shows "holds (get_next_kv_addr db sector (node_kv kv0 (g * s + 16 + nodes_len pre) n0)) Q"
proof -
  note j = gc_stateD [OF gs] and nd = sector_node [OF gc_stateD(1) [OF gs] g] and sa = sector_addr [OF kv_relD(1) [OF gc_stateD(1) [OF gs]] g(1)]
  show ?thesis
    by (rule get_next_node [OF kv_relD(1) [OF j(1)] nd(5) sa(1,2) sec _ _ _ nd(6)])
       (use gc_state_io [OF gs] Q in \<open>auto simp: node_kv_def len add.assoc\<close>)
qed

text \<open>No sector but \<open>g\<close> gets the mark of a garbage collection.\<close>

definition marks_within :: "nat \<Rightarrow> (nat \<Rightarrow> sector_log) \<Rightarrow> (nat \<Rightarrow> sector_log) \<Rightarrow> bool" where
  "marks_within g L L' \<longleftrightarrow> (\<forall>i. i \<noteq> g \<longrightarrow> fst (snd (L' i)) = FDB_SECTOR_DIRTY_GC \<longrightarrow> fst (snd (L i)) = FDB_SECTOR_DIRTY_GC)"

lemma marks_within_refl: "marks_within g L L"
  by (simp add: marks_within_def)

lemma marks_within_trans: "marks_within g L L' \<Longrightarrow> marks_within g L' L'' \<Longrightarrow> marks_within g L L''"
  by (auto simp: marks_within_def)

lemma marks_within_moved: "marks_within g L (moved L g st pre n post i)"
  by (simp add: marks_within_def moved_def)

lemma do_gc_step:
  assumes gs: "gc_state K s m f L db" and g: "g < m div s" "L g = (st, FDB_SECTOR_DIRTY_GC, pre @ n # post)"
    and t: "t < m div s" "clean_room s L t (live_len (n # post))"
    and sec: "sec_addr sector = g * s" "sec_store sector \<noteq> FDB_SECTOR_STORE_EMPTY"
    and Q: "\<And>f' L' x db' kv'. gc_state K s m f' L' db' \<Longrightarrow> kv_store s m L' = kv_store s m L \<Longrightarrow>
      L' g = (st, FDB_SECTOR_DIRTY_GC, (pre @ [x]) @ post) \<Longrightarrow> nd_status x \<noteq> FDB_KV_WRITE \<Longrightarrow> clean_room s L' t (live_len post) \<Longrightarrow> marks_within g L L' \<Longrightarrow>
      (if post = [] then Q db' else holds (do_gc_loop db' sector (kv'\<lparr>kv_addr_start := g * s + 16 + nodes_len (pre @ [x])\<rparr>)) Q)"
  shows "holds (do_gc_loop db sector (kv\<lparr>kv_addr_start := g * s + 16 + nodes_len pre\<rparr>)) Q"
proof -
  note j = gc_stateD [OF gs] and nd = sector_node [OF gc_stateD(1) [OF gs] g]
  let ?a = "g * s + 16 + nodes_len pre"
  let ?kv = "node_kv kv ?a n"
  have tg: "t \<noteq> g" using t(2) g(2) by (auto simp: clean_room_def)
  have nin: "node_in s m L ?a n" by (rule node_inI) (use g in simp_all)
  have nxt: "holds (get_next_kv_addr db1 sector ?kv) (\<lambda>(a, db). if a \<noteq> FAILED_ADDR
        then holds (do_gc_loop db sector (?kv\<lparr>kv_addr_start := a\<rparr>)) Q else Q db)"
    if d1: "gc_state K s m f1 L1 db1" "kv_store s m L1 = kv_store s m L" "L1 g = (st, FDB_SECTOR_DIRTY_GC, pre @ x # post)"
      "node_len x = node_len n" "nd_status x \<noteq> FDB_KV_WRITE" "clean_room s L1 t (live_len post)"
      "marks_within g L L1" for f1 L1 x db1
  proof (rule gc_next [OF d1(1) g(1) d1(3) sec d1(4)], goal_cases)
    case (1 db')
    have "g * s + 16 + nodes_len (pre @ [x]) \<noteq> FAILED_ADDR" using nd(8) d1(4) by (simp add: add.assoc)
    with Q [OF 1 d1(2) _ d1(5-7), of ?kv] d1(3) show ?case by (auto split: if_splits)
  qed
  have body: "holds (if kv_crc_is_ok ?kv \<and> (kv_status ?kv = FDB_KV_WRITE \<or> kv_status ?kv = FDB_KV_PRE_DELETE)
      then do { (_, db) \<leftarrow> move_kv db1 ?kv; Some db } else Some db1)
      (\<lambda>db. holds (get_next_kv_addr db sector ?kv) (\<lambda>(a, db). if a \<noteq> FAILED_ADDR
        then holds (do_gc_loop db sector (?kv\<lparr>kv_addr_start := a\<rparr>)) Q else Q db))"
    if d1: "gc_state K s m f L db1" for db1
  proof (cases "nd_status n = FDB_KV_WRITE")
    case True
    have room: "clean_room s L t (node_len n + live_len post)" using t(2) True by simp
    have "holds (move_kv db1 ?kv) (\<lambda>(_, db). holds (get_next_kv_addr db sector ?kv) (\<lambda>(a, db). if a \<noteq> FAILED_ADDR
        then holds (do_gc_loop db sector (?kv\<lparr>kv_addr_start := a\<rparr>)) Q else Q db))"
    proof (rule move_kv_ok [OF d1 g True t(1) clean_room_mono [OF room]], simp, goal_cases)
      case (1 f' i db')
      have "holds (get_next_kv_addr db' sector ?kv) (\<lambda>(a, db). if a \<noteq> FAILED_ADDR
        then holds (do_gc_loop db sector (?kv\<lparr>kv_addr_start := a\<rparr>)) Q else Q db)"
        by (rule nxt [OF 1(1,2), of "n\<lparr>nd_status := FDB_KV_DELETED\<rparr>"])
           (use 1(4) clean_room_moved [OF room tg] marks_within_moved in \<open>simp_all add: moved_def\<close>)
      then show ?case by simp
    qed
    then show ?thesis using True by (simp add: node_kv_def split_def)
  next
    case False
    then have "nd_status n = FDB_KV_DELETED" using j(7) nin by (auto simp: settled_def)
    moreover from this have "clean_room s L t (live_len post)" using t(2) by simp
    ultimately show ?thesis using nxt [OF d1 refl g(2) refl] marks_within_refl by (simp add: node_kv_def)
  qed
  show ?thesis
    unfolding do_gc_loop.simps [of db] holds_bind
  proof (rule read_kv_node [OF kv_relD(1) [OF j(1)] nd(1-3)], goal_cases)
    case (1 db1)
    from body [OF gc_state_io [OF gs 1]] show ?case by (auto simp: split_def elim!: holds_mono)
  qed
qed

lemma do_gc_loop_ok:
  assumes "gc_state K s m f L db" "g < m div s" "L g = (st, FDB_SECTOR_DIRTY_GC, pre @ n # post)"
    and "\<forall>x \<in> set pre. nd_status x \<noteq> FDB_KV_WRITE" and "t < m div s" "clean_room s L t (live_len (n # post))"
    and "sec_addr sector = g * s" "sec_store sector \<noteq> FDB_SECTOR_STORE_EMPTY"
    and "\<And>f' L' ns' db'. gc_state K s m f' L' db' \<Longrightarrow> kv_store s m L' = kv_store s m L \<Longrightarrow> L' g = (st, FDB_SECTOR_DIRTY_GC, ns') \<Longrightarrow>
      \<forall>x \<in> set ns'. nd_status x \<noteq> FDB_KV_WRITE \<Longrightarrow> marks_within g L L' \<Longrightarrow> Q db'"
  shows "holds (do_gc_loop db sector (kv\<lparr>kv_addr_start := g * s + 16 + nodes_len pre\<rparr>)) Q"
  using assms
proof (induction post arbitrary: pre n kv f L db)
  case Nil
  show ?case
    by (rule do_gc_step [OF Nil.prems(1-3,5-8)]) (use Nil.prems(4,9) in auto)
next
  case (Cons n' post)
  show ?case
  proof (rule do_gc_step [OF Cons.prems(1-3,5-8)], goal_cases)
    case (1 f' L' x db' kv')
    have "holds (do_gc_loop db' sector (kv'\<lparr>kv_addr_start := g * s + 16 + nodes_len (pre @ [x])\<rparr>)) Q"
      by (rule Cons.IH [OF 1(1) Cons.prems(2) 1(3)]) (use 1 Cons.prems(4-9) marks_within_trans [OF 1(6)] in auto)
    then show ?case by simp
  qed
qed

end
