(* ===== verification/KvCollect.thy ===== *)
theory KvCollect
  imports KvGc
begin

text \<open>
  The garbage collection as a whole: an iteration over the sectors whose callback changes the database.
  After it every key has the value it had before, and an empty sector is left.
\<close>

section \<open>Iterating with a callback that changes the database\<close>

text \<open>
  A worker keeps the invariant \<open>I\<close> of the bytes, the sectors, the argument of the callback and the database.
\<close>

locale sector_worker =
  fixes cb :: "'x sec_callback"
    and I :: "(addr \<Rightarrow> byte) \<Rightarrow> (nat \<Rightarrow> sector_log) \<Rightarrow> 'x \<Rightarrow> fdb_kvdb \<Rightarrow> bool"
    and s :: nat and m :: nat
  assumes worker_rel: "I f L x db \<Longrightarrow> kv_rel s m f L db"
    and worker_frame: "I f L x db \<Longrightarrow> kv_rel s m f L db' \<Longrightarrow> kv_frame db db' \<Longrightarrow>
      kvdb_kv_cache_table db' = kvdb_kv_cache_table db \<Longrightarrow> I f L x db'"
    and worker_step: "I f L x db \<Longrightarrow> i < m div s \<Longrightarrow> L i = (st, d, ns) \<Longrightarrow> sec_info_ok s (i * s) st d ns e \<Longrightarrow>
      holds (cb e x db) (\<lambda>(stop, x', db'). \<exists>f' L'. I f' L' x' db')"
begin

lemma worker_loop:
  assumes "I f L x db" "m + s < 2 ^ 32" "start < m div s" "k < m div s"
    and "\<And>f' L' sec' x' db'. I f' L' x' db' \<Longrightarrow> Q (sec', x', db')"
  shows "holds (kv_sector_iterator_loop db sector ((start + k) mod (m div s) * s) (k * s) flt x (Some cb) False) Q"
  using assms
proof (induction "m div s - k" arbitrary: k f L db sector x)
  case 0
  then show ?case by simp
next
  case (Suc rest)
  let ?q = "m div s"
  let ?i = "(start + k) mod ?q"
  note r = worker_rel [OF Suc.prems(1)]
  note rel = kv_relD [OF r] and sd = storedD [OF kv_relD(1) [OF r]]
  have q: "0 < ?q" using Suc.prems(4) by simp
  then have i: "?i < ?q" by simp
  obtain st d ns where L: "L ?i = (st, d, ns)" by (cases "L ?i")
  have geo: "db_sec_size db = s" using rel(1) by simp
  have km: "k * s + s \<le> m"
  proof -
    have "Suc k * s \<le> ?q * s" using Suc.prems(4) by (intro mult_le_mono1) simp
    then show ?thesis using sd(4) by simp
  qed
  have tl: "u32 (k * s + s) = Suc k * s" using km sd(5) by (simp add: u32_def)
  have after: "holds (if stop then Some (sec, x', db2) else
        let a = kv_get_next_sector_addr db2 sec (Suc k * s) in
        if a \<noteq> FAILED_ADDR then kv_sector_iterator_loop db2 sec a (Suc k * s) flt x' (Some cb) False else Some (sec, x', db2)) Q"
    if info: "sec_addr sec = ?i * s" "sec_combined sec = SECTOR_NOT_COMBINED" and inv: "I f2 L2 x' db2"
    for sec db2 stop x' f2 L2
  proof -
    have nx: "kv_get_next_sector_addr db2 sec (Suc k * s) = (if Suc k < ?q then (Suc ?i mod ?q) * s else FAILED_ADDR)"
      by (rule next_sector [OF kv_relD(1) [OF worker_rel [OF inv]] Suc.prems(2) info(2,1) i]) (use Suc.prems(4) in auto)
    have go: "holds (kv_sector_iterator_loop db2 sec ((start + Suc k) mod ?q * s) (Suc k * s) flt x' (Some cb) False) Q" if "Suc k < ?q"
      by (rule Suc.hyps(1) [OF _ inv]) (use Suc.hyps(2) that Suc.prems in auto)
    have "Suc ?i mod ?q = (start + Suc k) mod ?q" by (simp add: mod_Suc_eq)
    with go nx Suc.prems(5) [OF inv] show ?thesis by (simp add: Let_def)
  qed
  show ?case
  proof (subst kv_sector_iterator_loop.simps, unfold Let_def holds_bind geo tl,
      rule read_sector_plain [OF r i L], goal_cases)
    case (1 sec' db1)
    have st': "sec_store sec' = st" "sec_addr sec' = ?i * s" "sec_combined sec' = SECTOR_NOT_COMBINED"
      using 1(1) by (simp_all add: sec_info_ok_def)
    have inv1: "I f L x db1" by (rule worker_frame [OF Suc.prems(1) 1(2-4)])
    have "holds (cb sec' x db1) (\<lambda>(stop, x', db2). holds (if stop then Some (sec', x', db2) else
        let a = kv_get_next_sector_addr db2 sec' (Suc k * s) in
        if a \<noteq> FAILED_ADDR then kv_sector_iterator_loop db2 sec' a (Suc k * s) flt x' (Some cb) False else Some (sec', x', db2)) Q)"
      by (rule holds_mono [OF worker_step [OF inv1 i L 1(1)]]) (clarify, rule after [OF st'(2,3)])
    with after [OF st'(2,3) inv1, of False] show ?case by (simp add: split_def Let_def cong: if_cong)
  qed
qed

lemma run_worker:
  assumes inv: "I f L x db" and big: "m + s < 2 ^ 32" and Q: "\<And>f' L' sec' x' db'. I f' L' x' db' \<Longrightarrow> Q (sec', x', db')"
  shows "holds (kv_sector_iterator db sector flt x (Some cb) False) Q"
proof -
  note rel = kv_relD [OF worker_rel [OF inv]]
  let ?o = "db_oldest_addr db div s"
  have o: "?o < m div s" by (rule oldest_index [OF worker_rel [OF inv]])
  have "?o * s = db_oldest_addr db" using rel(5) by auto
  then have "((?o + 0) mod (m div s)) * s = db_oldest_addr db" using o by simp
  then show ?thesis
    using worker_loop [OF inv big o, where k = 0 and Q = Q and flt = flt and sector = sector] o Q
    by (simp add: kv_sector_iterator_def)
qed

end


section \<open>Marking and erasing a sector\<close>

lemma relabel:
  assumes "\<And>i. log_nodes (L' i) = log_nodes (L i)"
  shows "node_in s m L' = node_in s m L" "kv_store s m L' = kv_store s m L" "key_entry s m L' = key_entry s m L"
    "settled s m A L' = settled s m A L" "snug s m L' = snug s m L" "one_live s m L' = one_live s m L"
proof -
  show *: "node_in s m L' = node_in s m L" by (intro ext) (simp add: node_in_iff assms)
  show "kv_store s m L' = kv_store s m L" by (intro ext) (simp add: kv_store_def all_nodes_def db_nodes_def assms)
  show "key_entry s m L' = key_entry s m L" "settled s m A L' = settled s m A L" "snug s m L' = snug s m L"
    "one_live s m L' = one_live s m L"
    by (intro ext, simp_all add: key_entry_def settled_def snug_def one_live_def * assms)
qed

lemma mark_gc:
  assumes gs: "gc_state K s m f L db" and g: "g < m div s" "L g = (st, FDB_SECTOR_DIRTY_TRUE, ns)"
    and Q: "\<And>f' db'. gc_state K s m f' (L(g := (st, FDB_SECTOR_DIRTY_GC, ns))) db' \<Longrightarrow> Q (FDB_NO_ERR, db')"
  shows "holds (fdb_write_status db (g * s + 1) FDB_SECTOR_DIRTY_STATUS_NUM (dirty_status_num FDB_SECTOR_DIRTY_GC) True) Q"
proof -
  note j = gc_stateD [OF gs]
  note rel = kv_relD [OF j(1)] and sa = sector_addr [OF kv_relD(1) [OF j(1)] g(1)] and sd = storedD [OF kv_relD(1) [OF j(1)]]
  let ?L = "L(g := (st, FDB_SECTOR_DIRTY_GC, ns))"
  have nodes: "log_nodes (?L i) = log_nodes (L i)" for i using g(2) by simp
  note same = relabel [of ?L L s m, OF nodes]
  have "fst (L g) \<noteq> FDB_SECTOR_STORE_EMPTY" using j(3) g by (auto simp: logs_ok_def)
  then have ok: "logs_ok K s m ?L" using j(3) g(2) by (auto simp: logs_ok_def same)
  show ?thesis
  proof (rule dirty_rel [OF j(1) g], simp, goal_cases)
    case (1 f' db')
    have t: "table_ok s m ?L (kvdb_sector_cache_table db)"
      by (rule table_change [OF rel(3) g(1) sa(4) sd(3)])
         (auto split: option.split dest!: table_entry [OF rel(3) _ g(1) sa(4) g(2) sd(3)]
           simp: sec_info_ok_def dirty_seen_def intro!: exI [where P = "\<lambda>e. _ = _[_ := e] \<and> _ e"] list_update_id [symmetric])
    have "kv_rel s m f' ?L db'"
      using 1 t rel io_frame_kv(1) [OF 1(3)] by (simp add: kv_rel_def io_frameD)
    then have "gc_state K s m f' ?L db'"
      using j ok 1(3) kv_frameD(2-4) [OF kv_frame_io [OF 1(3)]] io_frame_kv(2) [OF 1(3)] by (simp add: gc_state_def same)
    then show ?case by (rule Q)
  qed
qed

lemma addr_nodes_snd: "(a, x) \<in> set (addr_nodes b ns) \<Longrightarrow> x \<in> set ns"
  by (induction ns arbitrary: b) auto

lemma erase_gc:
  assumes gs: "gc_state K s m f L db" and g: "g < m div s" "\<forall>x \<in> set (log_nodes (L g)). nd_status x \<noteq> FDB_KV_WRITE"
    and Q: "\<And>f' L' db'. gc_state K s m f' L' db' \<Longrightarrow> kv_store s m L' = kv_store s m L \<Longrightarrow> has_empty s m L' \<Longrightarrow>
      fst (snd (L' g)) = FDB_SECTOR_DIRTY_FALSE \<Longrightarrow> marks_within g L L' \<Longrightarrow> Q (FDB_NO_ERR, db')"
  shows "holds (kv_format_sector db (g * s) SECTOR_NOT_COMBINED) Q"
proof -
  note j = gc_stateD [OF gs]
  let ?L = "L(g := (FDB_SECTOR_STORE_EMPTY, FDB_SECTOR_DIRTY_FALSE, []))"
  have sub: "node_in s m L a x" if "node_in s m ?L a x" for a x
    using that by (auto simp: node_in_iff split: if_splits)
  have lv: "node_in s m ?L a x \<and> nd_status x = FDB_KV_WRITE \<longleftrightarrow> node_in s m L a x \<and> nd_status x = FDB_KV_WRITE" for a x
  proof
    assume n: "node_in s m L a x \<and> nd_status x = FDB_KV_WRITE"
    then obtain i where i: "i < m div s" "(a, x) \<in> set (addr_nodes (i * s + 16) (log_nodes (L i)))" by (auto simp: node_in_iff)
    then have "i \<noteq> g" using n g(2) addr_nodes_snd [OF i(2)] by auto
    with i n show "node_in s m ?L a x \<and> nd_status x = FDB_KV_WRITE" by (auto simp: node_in_iff)
  qed (use sub in blast)
  show ?thesis
  proof (rule format_rel [OF j(1) g(1)], goal_cases)
    case (1 db')
    have one: "one_live s m L" using j(3) by (simp add: logs_ok_def)
    note st = same_live_store [OF j(1) 1(1) one lv]
    have "\<forall>a n. node_in s m ?L a n \<longrightarrow> nd_status n = FDB_KV_WRITE \<longrightarrow> nd_key n \<in> K"
      using j(3) sub unfolding logs_ok_def by blast
    then have ok: "logs_ok K s m ?L" using j(3) st(2) by (simp add: logs_ok_def snug_def)
    have "settled s m {} ?L" using j(7) sub unfolding settled_def by blast
    moreover have "key_entry s m ?L = key_entry s m L" using lv by (intro ext) (auto simp: key_entry_def)
    ultimately have "gc_state K s m (blank_sector s f (g * s)) ?L db'"
      using 1 ok j kv_frameD(2-4) [OF 1(2)] by (simp add: gc_state_def)
    then show ?case by (rule Q) (use g(1) st(1) in \<open>auto simp: has_empty_def marks_within_def\<close>)
  qed
qed


section \<open>Collecting\<close>

text \<open>What holds between two sectors of a garbage collection; \<open>M\<close> is the map of the database.\<close>

definition gc_inv ::
  "byte list set \<Rightarrow> nat \<Rightarrow> nat \<Rightarrow> (byte list \<rightharpoonup> byte list) \<Rightarrow> (addr \<Rightarrow> byte) \<Rightarrow> (nat \<Rightarrow> sector_log) \<Rightarrow> addr \<Rightarrow> fdb_kvdb \<Rightarrow> bool"
where
  "gc_inv K s m M f L x db \<longleftrightarrow> gc_state K s m f L db \<and> kv_store s m L = M \<and> has_empty s m L
     \<and> marks_ok False (m div s) L \<and> (\<exists>j < m div s. x = j * s)"

lemma dirty_sector:
  assumes gs: "gc_state K s m f L db" and g: "g < m div s" "L g = (st, FDB_SECTOR_DIRTY_TRUE, ns)" and e: "has_empty s m L"
  obtains n post t where "ns = n # post" "st \<noteq> FDB_SECTOR_STORE_EMPTY" "t < m div s"
    "clean_room s (L(g := (st, FDB_SECTOR_DIRTY_GC, ns))) t (live_len ns)"
proof -
  note j = gc_stateD [OF gs]
  from e obtain t where t: "t < m div s" "fst (L t) = FDB_SECTOR_STORE_EMPTY" by (auto simp: has_empty_def)
  have Lt: "snd (L t) = (FDB_SECTOR_DIRTY_FALSE, [])" using j(3) t by (simp add: logs_ok_def)
  have tg: "t \<noteq> g" using Lt g(2) by auto
  have st: "st \<noteq> FDB_SECTOR_STORE_EMPTY" using j(3) g by (auto simp: logs_ok_def)
  then have ne: "ns \<noteq> []" using sectors_holdD [OF kv_relD(2) [OF j(1)] g] by (auto simp: sector_holds_def)
  have "snug s m L" using j(3) by (simp add: logs_ok_def)
  then have "16 + nodes_len ns + FDB_SEC_REMAIN_THRESHOLD < s" using g ne by (fastforce simp: snug_def)
  then have "clean_room s (L(g := (st, FDB_SECTOR_DIRTY_GC, ns))) t (live_len ns)"
    using live_len_le [of ns] Lt tg by (simp add: clean_room_def log_nodes_def)
  with st ne t(1) that show ?thesis by (cases ns) auto
qed

lemma collect_sector:
  assumes inv: "gc_inv K s m M f L x db" and g: "g < m div s" "L g = (st, d, ns)" and e: "sec_info_ok s (g * s) st d ns e"
  shows "holds (do_gc free_size e x db) (\<lambda>(stop, x', db'). \<exists>f' L'. gc_inv K s m M f' L' x' db')"
proof (cases "sec_dirty e = FDB_SECTOR_DIRTY_TRUE \<or> sec_dirty e = FDB_SECTOR_DIRTY_GC")
  case False
  then show ?thesis using inv by (auto simp: do_gc_def)
next
  case True
  note i = inv [unfolded gc_inv_def] and j = gc_stateD [OF inv [unfolded gc_inv_def, THEN conjunct1]]
  note sa = sector_addr [OF kv_relD(1) [OF j(1)] g(1)] and sd = storedD [OF kv_relD(1) [OF j(1)]]
  have nm: "fst (snd (L k)) \<noteq> FDB_SECTOR_DIRTY_GC" if "k < m div s" for k using i that by (auto simp: marks_ok_def)
  have dT: "d = FDB_SECTOR_DIRTY_TRUE" using True e nm [OF g(1)] g(2) by (auto simp: sec_info_ok_def dirty_seen_def)
  have es: "sec_addr e = g * s" "sec_check_ok e" "sec_store e = st" "sec_combined e = SECTOR_NOT_COMBINED"
    using e by (simp_all add: sec_info_ok_def)
  have gT: "L g = (st, FDB_SECTOR_DIRTY_TRUE, ns)" using g(2) dT by simp
  obtain n post t where ns: "ns = n # post" and st: "st \<noteq> FDB_SECTOR_STORE_EMPTY" and t: "t < m div s"
    "clean_room s (L(g := (st, FDB_SECTOR_DIRTY_GC, ns))) t (live_len ns)"
    using dirty_sector [OF i [THEN conjunct1] g(1) gT] i by blast
  obtain l where l: "l < m div s" "x = l * s" using i by auto
  let ?L = "L(g := (st, FDB_SECTOR_DIRTY_GC, ns))"
  have "16 \<le> s" using sectors_holdD [OF kv_relD(2) [OF j(1)] g] by (simp add: sector_holds_def)
  then have u: "u32 (g * s + SECTOR_DIRTY_OFFSET) = g * s + 1" "u32 (g * s + SECTOR_HDR_DATA_SIZE) = g * s + 16 + nodes_len []"
    using stored_u32_le [OF kv_relD(1) [OF j(1)], of "g * s + 1"] stored_u32_le [OF kv_relD(1) [OF j(1)], of "g * s + 16"] sa(5)
    by (simp_all add: SECTOR_DIRTY_OFFSET_def SECTOR_HDR_DATA_SIZE_def)
  have ul: "u32 (l * s) = l * s" using stored_u32_le [OF kv_relD(1) [OF j(1)], of "l * s"] sector_addr(5) [OF kv_relD(1) [OF j(1)] l(1)] by simp
  define fin where "fin = (\<lambda>db. do {
        let db = db\<lparr>db_oldest_addr := kv_get_next_sector_addr db e 0\<rparr>;
        (result, last_gc_sector, db) \<leftarrow> kv_read_sector_info db (l * s) (kvdb_stack_sector db) True;
        Some (result = FDB_NO_ERR \<and> sec_remain last_gc_sector > free_size, g * s, db) })"
  let ?Q = "\<lambda>(stop, x', db'). \<exists>f' L'. gc_inv K s m M f' L' x' db'"
  have nx0: "kv_get_next_sector_addr db1 e 0 = Suc g mod (m div s) * s" if "stored s m f1 db1" for f1 db1
    using next_sector [OF that j(2) es(4,1) g(1), of 0] g(1) by simp
  have last: "holds (fin db1) ?Q"
    if d1: "gc_state K s m f1 L1 db1" "kv_store s m L1 = M" "has_empty s m L1" "marks_ok False (m div s) L1" for f1 L1 db1
  proof -
    note j1 = gc_stateD [OF d1(1)]
    let ?o = "Suc g mod (m div s)"
    have o: "?o < m div s" using g(1) by simp
    let ?db = "db1\<lparr>db_oldest_addr := ?o * s\<rparr>"
    have r: "kv_rel s m f1 L1 ?db" using kv_relD [OF j1(1)] sector_addr(1,2) [OF kv_relD(1) [OF j1(1)] o] by (simp add: kv_rel_def)
    obtain st' d' ns' where Ll: "L1 l = (st', d', ns')" by (cases "L1 l")
    have "holds (kv_read_sector_info ?db (l * s) (kvdb_stack_sector ?db) True)
        (\<lambda>(result, last_gc_sector, db'). ?Q (result = FDB_NO_ERR \<and> sec_remain last_gc_sector > free_size, g * s, db'))"
    proof (rule read_sector_full [OF r l(1) Ll], goal_cases)
      case (1 sec' db')
      have "gc_state K s m f1 L1 db'" using j1 1 kv_frameD(2-4) [OF 1(3)] by (simp add: gc_state_def)
      with d1 g(1) show ?case by (auto simp: gc_inv_def)
    qed
    then show ?thesis unfolding fin_def nx0 [OF kv_relD(1) [OF j1(1)]] Let_def by (simp add: split_def)
  qed
  have fmt: "holds (kv_format_sector db1 (g * s) SECTOR_NOT_COMBINED) (\<lambda>(_, db). holds (fin db) ?Q)"
    if d1: "gc_state K s m f1 L1 db1" "kv_store s m L1 = kv_store s m ?L" "L1 g = (st, FDB_SECTOR_DIRTY_GC, ns')"
      "\<forall>x \<in> set ns'. nd_status x \<noteq> FDB_KV_WRITE" "marks_within g ?L L1" for f1 L1 ns' db1
  proof (rule erase_gc [OF d1(1) g(1)], use d1 in simp, goal_cases)
    case (1 f2 L2 db2)
    have "kv_store s m ?L = kv_store s m L" by (rule relabel) (use g(2) in simp)
    then have "kv_store s m L2 = M" using 1(2) d1(2) i by simp
    moreover have "fst (snd (L2 k)) \<noteq> FDB_SECTOR_DIRTY_GC" if "k < m div s" for k
      using 1(4) marks_within_trans [OF d1(5) 1(5)] nm [OF that] by (cases "k = g") (auto simp: marks_within_def)
    then have "marks_ok False (m div s) L2" by (simp add: marks_ok_def)
    ultimately show ?case using last [OF 1(1)] 1(3) by simp
  qed
  have "holds (fdb_write_status db (g * s + 1) FDB_SECTOR_DIRTY_STATUS_NUM (dirty_status_num FDB_SECTOR_DIRTY_GC) True)
    (\<lambda>(_, db). holds (do_gc_loop db e ((kvdb_stack_kv db)\<lparr>kv_addr_start := g * s + 16 + nodes_len []\<rparr>))
      (\<lambda>db. holds (kv_format_sector db (g * s) SECTOR_NOT_COMBINED) (\<lambda>(_, db). holds (fin db) ?Q)))"
  proof (rule mark_gc [OF i [THEN conjunct1] g(1) gT], goal_cases)
    case (1 f1 db1)
    have "holds (do_gc_loop db1 e ((kvdb_stack_kv db1)\<lparr>kv_addr_start := g * s + 16 + nodes_len []\<rparr>))
      (\<lambda>db. holds (kv_format_sector db (g * s) SECTOR_NOT_COMBINED) (\<lambda>(_, db). holds (fin db) ?Q))"
      by (rule do_gc_loop_ok [OF 1 g(1), where n = n and post = post and st = st])
         (use ns t es st fmt in auto)
    then show ?case by simp
  qed
  then show ?thesis
    using True es(2) unfolding do_gc_def es(1) u l(2) ul fin_def by (simp add: split_def Let_def cong: if_cong)
qed


interpretation collector: sector_worker "do_gc free_size" "gc_inv K s m M" s m for free_size K s m M
proof unfold_locales
  fix f L x db db' i st d ns e
  assume inv: "gc_inv K s m M f L x db"
  show "kv_rel s m f L db" using inv by (simp add: gc_inv_def gc_state_def)
  show "gc_inv K s m M f L x db'" if "kv_rel s m f L db'" "kv_frame db db'" "kvdb_kv_cache_table db' = kvdb_kv_cache_table db"
    using inv that kv_frameD(2-4) [OF that(2)] by (simp add: gc_inv_def gc_state_def)
  show "holds (do_gc free_size e x db) (\<lambda>(stop, x', db'). \<exists>f' L'. gc_inv K s m M f' L' x' db')"
    if "i < m div s" "L i = (st, d, ns)" "sec_info_ok s (i * s) st d ns e"
    by (rule collect_sector [OF inv that])
qed

text \<open>Counting the empty sectors and remembering the last one.\<close>

definition check_visit :: "nat \<Rightarrow> nat \<Rightarrow> sector_log \<Rightarrow> nat \<times> addr \<Rightarrow> bool \<times> nat \<times> addr" where
  "check_visit s i l x = (False, fst x + 1, i * s)"

interpretation check_reader: sector_reader gc_check_cb "check_visit s" False s gc for s gc
  by unfold_locales (auto simp: gc_check_cb_def check_visit_def sec_seen_def sec_info_ok_def split: prod.splits)

lemma visit_ring_check:
  "visit_ring (check_visit s) FDB_SECTOR_STORE_EMPTY L is x = (res, c, a) \<Longrightarrow>
     c = fst x + count_store FDB_SECTOR_STORE_EMPTY L is
     \<and> (a = snd x \<and> count_store FDB_SECTOR_STORE_EMPTY L is = 0 \<or> (\<exists>i \<in> set is. a = i * s))"
  by (induction "is" arbitrary: x) (force simp: check_visit_def count_store_def split: if_splits)+

lemma collect_ok:
  assumes gs: "gc_state K s m f L db" and e: "has_empty s m L" and mk: "marks_ok False (m div s) L"
    and Q: "\<And>f' L' db'. kv_inv K s m f' L' db' \<Longrightarrow> kv_store s m L' = kv_store s m L \<Longrightarrow> Q db'"
  shows "holds (gc_collect_by_free_size db n) Q"
proof -
  note j = gc_stateD [OF gs]
  let ?is = "ring (m div s) (db_oldest_addr db div s) 0"
  have mk': "marks_ok True (m div s) L" by (simp add: marks_ok_def)
  have fin: "Q (db1\<lparr>kvdb_gc_request := False\<rparr>)" if "gc_inv K s m (kv_store s m L) f1 L1 x db1" for f1 L1 x db1
    by (rule Q [of f1 L1]) (use that in \<open>simp_all add: gc_inv_def gc_state_def kv_inv_def\<close>)
  show ?thesis
    unfolding gc_collect_by_free_size_def holds_bind
  proof (rule check_reader.iterate_sectors [where gc = True, OF j(1) _ j(2) mk'], use j(5) in simp, goal_cases)
    case (1 res sec' x' db1)
    obtain c a where x: "x' = (c, a)" by (cases x')
    have "count_store FDB_SECTOR_STORE_EMPTY L ?is \<noteq> 0"
      using e set_ring [OF oldest_index [OF j(1)]] by (auto simp: count_store_0 has_empty_def)
    then obtain i where i: "i \<in> set ?is" "a = i * s" using visit_ring_check [OF 1(4) [unfolded x]] by auto
    have "gc_state K s m f L db1" using j 1(1,3) kv_frameD(2-4) [OF 1(2)] by (simp add: gc_state_def)
    with i e mk have inv: "gc_inv K s m (kv_store s m L) f L a db1"
      using set_ring [OF oldest_index [OF j(1)]] by (auto simp: gc_inv_def)
    have "holds (kv_sector_iterator db1 sec' FDB_SECTOR_STORE_UNUSED a (Some (do_gc n)) False)
       (\<lambda>(_, _, db). Q (db\<lparr>kvdb_gc_request := False\<rparr>))"
      by (rule collector.run_worker [OF inv j(2)]) (simp add: fin)
    with fin [OF inv] show ?case by (simp add: x split_def)
  qed
qed


section \<open>Finding a place for a node\<close>

lemma another_one: "distinct xs \<Longrightarrow> 1 < length xs \<Longrightarrow> \<exists>j \<in> set xs. j \<noteq> i"
  by (cases xs; cases "tl xs") auto

lemma another_empty:
  assumes r: "kv_rel s m f L db" and e: "has_empty s m L"
    and c: "alloc_choice s False k L (ring (m div s) (db_oldest_addr db div s) 0) = Some i"
  shows "\<exists>j < m div s. j \<noteq> i \<and> fst (L j) = FDB_SECTOR_STORE_EMPTY"
proof (cases "fst (L i) = FDB_SECTOR_STORE_EMPTY")
  case False
  with e show ?thesis by (auto simp: has_empty_def)
next
  case True
  let ?is = "ring (m div s) (db_oldest_addr db div s) 0"
  have "distinct (filter (\<lambda>i. fst (L i) = FDB_SECTOR_STORE_EMPTY) ?is)" using distinct_ring [OF oldest_index [OF r]] by simp
  from another_one [OF this, of i] alloc_choice_Some(4) [OF c True] set_ring [OF oldest_index [OF r]]
  show ?thesis by (auto simp: count_store_def)
qed

text \<open>
  There is a place for a node of \<open>k\<close> bytes without a garbage collection: a sector in use with room for it,
  or two empty ones.
\<close>

definition free_place :: "nat \<Rightarrow> nat \<Rightarrow> (nat \<Rightarrow> sector_log) \<Rightarrow> nat \<Rightarrow> bool" where
  "free_place s m L k \<longleftrightarrow> (\<exists>i < m div s. fst (L i) = FDB_SECTOR_STORE_USING \<and> has_room s False k (L i))
     \<or> (\<exists>i < m div s. \<exists>j < m div s. i \<noteq> j \<and> fst (L i) = FDB_SECTOR_STORE_EMPTY \<and> fst (L j) = FDB_SECTOR_STORE_EMPTY)
       \<and> 16 + k + FDB_SEC_REMAIN_THRESHOLD < s"

lemma two_in: "i \<in> set xs \<Longrightarrow> j \<in> set xs \<Longrightarrow> i \<noteq> j \<Longrightarrow> 1 < length xs"
  by (cases xs; cases "tl xs") auto

lemma free_place_choice:
  assumes r: "kv_rel s m f L db" and ok: "logs_ok K s m L" and k: "k + FDB_SEC_REMAIN_THRESHOLD < 2 ^ 64" and p: "free_place s m L k"
  shows "alloc_choice s False k L (ring (m div s) (db_oldest_addr db div s) 0) \<noteq> None"
proof -
  let ?is = "ring (m div s) (db_oldest_addr db div s) 0"
  have mem: "i \<in> set ?is" if "i < m div s" for i using that set_ring [OF oldest_index [OF r]] by simp
  from p consider i where "i < m div s" "fst (L i) = FDB_SECTOR_STORE_USING" "has_room s False k (L i)"
    | i j where "i < m div s" "j < m div s" "i \<noteq> j" "fst (L i) = FDB_SECTOR_STORE_EMPTY" "fst (L j) = FDB_SECTOR_STORE_EMPTY"
      "16 + k + FDB_SEC_REMAIN_THRESHOLD < s"
    unfolding free_place_def by blast
  then show ?thesis
  proof cases
    case (1 i)
    then have "List.find (\<lambda>i. fst (L i) = FDB_SECTOR_STORE_USING \<and> has_room s False k (L i)) ?is \<noteq> None"
      using mem by (auto simp: find_None_iff)
    then show ?thesis by (auto simp: alloc_choice_def)
  next
    case (2 i j)
    have "1 < count_store FDB_SECTOR_STORE_EMPTY L ?is"
      unfolding count_store_def by (rule two_in [of i _ j]) (use 2 mem in auto)
    moreover have "snd (L i) = (FDB_SECTOR_DIRTY_FALSE, [])" using ok 2 by (simp add: logs_ok_def)
    then have "has_room s False k (L i)" using 2(6) k by (simp add: has_room_def log_nodes_def) 
    then have "List.find (\<lambda>i. fst (L i) = FDB_SECTOR_STORE_EMPTY \<and> has_room s False k (L i)) ?is \<noteq> None"
      using mem 2 by (auto simp: find_None_iff)
    ultimately show ?thesis by (auto simp: alloc_choice_def FDB_GC_EMPTY_SEC_THRESHOLD_def split: option.split)
  qed
qed

lemma alloc_inv:
  assumes inv: "kv_inv K s m f L db" and k: "k + FDB_SEC_REMAIN_THRESHOLD < 2 ^ 64"
    and some: "\<And>i sec' db'. kv_inv K s m f L db' \<Longrightarrow> place_ok s m L i k sec' \<Longrightarrow>
      log_end (i * s) (log_nodes (L i)) \<noteq> FAILED_ADDR \<Longrightarrow> Q (log_end (i * s) (log_nodes (L i)), sec', db')"
    and none: "\<And>b sec' db'. \<not> free_place s m L k \<Longrightarrow> kv_inv K s m f L db' \<Longrightarrow> Q (FAILED_ADDR, sec', if b then db'\<lparr>kvdb_gc_request := True\<rparr> else db')"
  shows "holds (alloc_kv db sector k) Q"
proof -
  note j = kv_invD [OF inv]
  have gc: "kvdb_gc_request db = False" using j(5) by simp
  show ?thesis
  proof (rule alloc_kv_ok [OF j(1,2)], goal_cases)
    case 1
    show ?case using j(10) gc by simp
  next
    case (2 i sec' db')
    have inv': "kv_inv K s m f L db'" by (rule kv_inv_frame [OF inv 2(3,4)]) (use 2(5) j(4) in simp)
    have room: "16 + nodes_len (log_nodes (L i)) + k + FDB_SEC_REMAIN_THRESHOLD < s"
      using alloc_choice_Some(2) [OF 2(1)] k by (simp add: has_room_def) arith
    have "place_ok s m L i k sec'"
      unfolding place_ok_def using another_empty [OF j(1,8) 2(1) [unfolded gc]] 2(2,6) room
      by (auto simp: sec_seen_def sec_full_def sec_info_ok_def log_nodes_def split: prod.splits)
    from some [OF inv' this log_end_not_failed [OF j(1) 2(2)]] show ?case .
  next
    case (3 sec' db')
    have "kv_inv K s m f L db'" by (rule kv_inv_frame [OF inv 3(2,3)]) (use 3(4) j(4) in simp)
    moreover have "\<not> free_place s m L k" using free_place_choice [OF j(1,3) k] 3(1) gc by auto
    ultimately show ?case by (intro none)
  qed
qed

lemma new_kv_inv:
  assumes inv: "kv_inv K s m f L db" and k: "k + FDB_SEC_REMAIN_THRESHOLD < 2 ^ 64"
    and some: "\<And>f' L' i sec' db'. kv_inv K s m f' L' db' \<Longrightarrow> kv_store s m L' = kv_store s m L \<Longrightarrow> place_ok s m L' i k sec' \<Longrightarrow>
      log_end (i * s) (log_nodes (L' i)) \<noteq> FAILED_ADDR \<Longrightarrow> Q (log_end (i * s) (log_nodes (L' i)), sec', db')"
    and none: "\<And>f' L' sec' db'. \<not> free_place s m L k \<Longrightarrow> kv_inv K s m f' L' db' \<Longrightarrow> kv_store s m L' = kv_store s m L \<Longrightarrow> Q (FAILED_ADDR, sec', db')"
  shows "holds (new_kv db sector k) Q"
proof -
  let ?again = "\<lambda>db sector. do {
         db \<leftarrow> gc_collect_by_free_size db k;
         (empty_kv, sector, db) \<leftarrow> alloc_kv db sector k;
         Some (empty_kv, sector, if empty_kv = FAILED_ADDR then db\<lparr>kvdb_gc_request := False\<rparr> else db) }"
  have again: "holds (?again (db1\<lparr>kvdb_gc_request := True\<rparr>) sec1) Q" if np: "\<not> free_place s m L k" and d1: "kv_inv K s m f L db1" for db1 sec1
  proof -
    note j = kv_invD [OF d1]
    have gs: "gc_state K s m f L (db1\<lparr>kvdb_gc_request := True\<rparr>)" using d1 by (simp add: gc_state_def kv_inv_def)
    show ?thesis
      unfolding holds_bind
    proof (rule collect_ok [OF gs j(8,10)], goal_cases)
      case (1 f2 L2 db2)
      show ?case
      proof (rule alloc_inv [OF 1(1) k], goal_cases)
        case (1 i sec3 db3)
        with some \<open>kv_store s m L2 = _\<close> show ?case by simp
      next
        case (2 b sec3 db3)
        then have "kv_inv K s m f2 L2 (db3\<lparr>kvdb_gc_request := False\<rparr>)" by (simp add: kv_inv_def)
        with none [OF np] \<open>kv_store s m L2 = _\<close> show ?case by simp
      qed
    qed
  qed
  show ?thesis
    unfolding new_kv_def holds_bind
  proof (rule alloc_inv [OF inv k], goal_cases)
    case (1 i sec1 db1)
    with some [OF 1(1) refl 1(2,3)] show ?case by simp
  next
    case (2 b sec1 db1)
    show ?case using again [OF 2] none [OF 2 refl] kv_invD(5) [OF 2(2)] by simp
  qed
qed

lemma set_kv_inv:
  assumes inv: "kv_inv K s m f L db" and key: "key_ok key" "key \<in> K" and v: "len \<le> length v"
    and small: "24 + length key + len + FDB_SEC_REMAIN_THRESHOLD < 2 ^ 64"
    and ok: "\<And>g L' db'. 16 + (24 + length key + len) + FDB_SEC_REMAIN_THRESHOLD < s \<Longrightarrow> kv_inv K s m g L' db' \<Longrightarrow>
      kv_store s m L' = (kv_store s m L)(key \<mapsto> take len v) \<Longrightarrow> Q (FDB_NO_ERR, db')"
    and full: "\<And>g L' db'. \<not> free_place s m L (24 + length key + len) \<Longrightarrow> kv_inv K s m g L' db' \<Longrightarrow> kv_store s m L' = kv_store s m L \<Longrightarrow> Q (FDB_SAVED_FULL, db')"
  shows "holds (set_kv db key (Some v) len) Q"
proof -
  have n: "u64 (KV_HDR_DATA_SIZE + FDB_WG_ALIGN (strlen key) + FDB_WG_ALIGN len) = 24 + length key + len"
    using small key(1) by (simp add: KV_HDR_DATA_SIZE_def key_ok_def u64_def)
  have cur: "kv_inv K s m f1 L1 (db1\<lparr>kvdb_cur_sector := sec\<rparr>) = kv_inv K s m f1 L1 db1" for f1 L1 db1 sec
    by (simp add: kv_inv_def)
  show ?thesis
    unfolding set_kv_def option.case holds_bind new_kv_ex_def n
  proof (rule new_kv_inv [OF inv small], goal_cases)
    case (1 f1 L1 i sec1 db1)
    have fits: "16 + (24 + length key + len) + FDB_SEC_REMAIN_THRESHOLD < s" using 1(3) by (simp add: place_ok_def)
    have "holds (set_kv_write (db1\<lparr>kvdb_cur_sector := sec1\<rparr>) key v len) Q"
      by (rule set_write_inv [where i = i and f = f1 and L = L1, OF _ key v]) (use 1 cur ok [OF fits] in auto)
    with 1(4) show ?case by (simp add: Let_def)
  next
    case (2 f1 L1 sec1 db1)
    with full [OF 2(1) _ 2(3), of f1 "db1\<lparr>kvdb_cur_sector := sec1\<rparr>"] cur show ?case by (simp add: Let_def)
  qed
qed

end
