(* ===== verification/Service.thy ===== *)
theory Service
  imports FlashIo
begin

text \<open>
  Clients of a database: a list of requests served one after the other, and what it means that the answers
  are those of an abstract state. Both databases are instances.
\<close>

text \<open>A total and a partial result of the same program.\<close>

lemma holds_yields: "holds c P \<Longrightarrow> yields c R \<Longrightarrow> (\<And>r. P r \<Longrightarrow> R r \<Longrightarrow> Q r) \<Longrightarrow> holds c Q"
  by (cases c) simp_all


section \<open>Sessions\<close>

text \<open>Serving a list of requests one after the other, and the same on an abstract state.\<close>

fun serve_all :: "('c \<Rightarrow> 'q \<Rightarrow> ('r \<times> 'c) option) \<Rightarrow> 'c \<Rightarrow> 'q list \<Rightarrow> ('r list \<times> 'c) option" where
  "serve_all serve c [] = Some ([], c)"
| "serve_all serve c (q # qs) = do {
     (r, c) \<leftarrow> serve c q;
     (rs, c) \<leftarrow> serve_all serve c qs;
     Some (r # rs, c) }"

fun accepts :: "('m \<Rightarrow> 'q \<Rightarrow> 'r \<Rightarrow> 'm option) \<Rightarrow> 'm \<Rightarrow> 'q list \<Rightarrow> 'r list \<Rightarrow> 'm option" where
  "accepts answer M [] [] = Some M"
| "accepts answer M (q # qs) (r # rs) = (case answer M q r of None \<Rightarrow> None | Some M \<Rightarrow> accepts answer M qs rs)"
| "accepts answer M _ _ = None"

text \<open>
  A service implements an abstract state when each request is answered in a way that the abstract state
  allows, and the new states are related again.
\<close>

locale service =
  fixes R :: "'m \<Rightarrow> 'c \<Rightarrow> bool" and serve :: "'c \<Rightarrow> 'q \<Rightarrow> ('r \<times> 'c) option"
    and answer :: "'m \<Rightarrow> 'q \<Rightarrow> 'r \<Rightarrow> 'm option" and fine :: "'q \<Rightarrow> bool"
  assumes serve_one: "R M c \<Longrightarrow> fine q \<Longrightarrow> holds (serve c q) (\<lambda>(r, c'). \<exists>M'. answer M q r = Some M' \<and> R M' c')"
begin

lemma session:
  "R M c \<Longrightarrow> list_all fine qs \<Longrightarrow>
     holds (serve_all serve c qs) (\<lambda>(rs, c'). \<exists>M'. accepts answer M qs rs = Some M' \<and> R M' c')"
proof (induction qs arbitrary: M c)
  case (Cons q qs)
  have "holds (serve_all serve c' qs) (\<lambda>(rs, c''). \<exists>M''. accepts answer M (q # qs) (r # rs) = Some M'' \<and> R M'' c'')"
    if "answer M q r = Some M'" "R M' c'" for r M' c'
    using Cons.IH [OF that(2)] Cons.prems(2) that(1) by simp
  with serve_one [OF Cons.prems(1), of q] Cons.prems(2) show ?case
    by (auto simp: split_def elim!: holds_mono)
qed simp

end

text \<open>A blob before \<open>fdb_blob_make\<close>.\<close>

definition blob0 :: fdb_blob where
  "blob0 = \<lparr>blob_buf = None, blob_size = 0, blob_meta_addr = 0, blob_addr = 0, blob_len = 0\<rparr>"

end
