(* ===== verification/KvApi.thy ===== *)
theory KvApi
  imports KvCollect Service
begin

text \<open>
  The public functions of the key-value database as operations on a map from keys to values.
\<close>

section \<open>A database that represents a map\<close>

text \<open>
  \<open>K\<close> bounds the keys in use: they have different 16-bit checksums, are shorter than 64 bytes and have no
  NUL byte.
\<close>

definition kv_ready :: "byte list set \<Rightarrow> (byte list \<rightharpoonup> byte list) \<Rightarrow> fdb_kvdb \<Rightarrow> bool" where
  "kv_ready K M db \<longleftrightarrow> db_init_ok db \<and> lock_pair db \<and>
     (\<exists>f L. kv_inv K (db_sec_size db) (db_max_size db) f L db \<and> kv_store (db_sec_size db) (db_max_size db) L = M)"

lemma kv_inv_geometry:
  assumes "kv_inv K s m f L db"
  shows "db_sec_size db = s" "db_max_size db = m"
  using kv_relD(1) [OF kv_invD(1) [OF assms]] by simp_all

lemma kv_readyE:
  assumes "kv_ready K M db"
  obtains s m f L where "db_init_ok db" "lock_pair db" "kv_inv K s m f L db" "kv_store s m L = M" "db_sec_size db = s"
  using assms by (auto simp: kv_ready_def)

lemma kv_readyI:
  fixes db :: fdb_kvdb
  assumes "kv_inv K s m f L db'" "kv_store s m L = M" "meta db' = meta db" "db_init_ok db" "lock_pair db"
  shows "kv_ready K M db'"
  using assms kv_inv_geometry [OF assms(1)] lock_pair_meta [OF assms(5,3)] by (auto simp: kv_ready_def meta_def)

lemma kv_ready_key: "kv_ready K M db \<Longrightarrow> key \<in> K \<Longrightarrow> key_ok key"
  by (auto simp: kv_ready_def kv_inv_def logs_ok_def)


section \<open>The operations\<close>

lemma set_blob_inv:
  assumes inv: "kv_inv K s m f L db" and i: "db_init_ok db" and key: "key_ok key" "key \<in> K"
    and v: "blob_buf blob = Some v" "blob_size blob \<le> length v"
    and small: "24 + length key + blob_size blob + FDB_SEC_REMAIN_THRESHOLD < 2 ^ 64"
  shows "holds (fdb_kv_set_blob db key blob) (\<lambda>(r, db'). \<exists>g L'. kv_inv K s m g L' db' \<and>
     (if r = FDB_NO_ERR then kv_store s m L' = (kv_store s m L)(key \<mapsto> take (blob_size blob) v)
        \<and> 16 + (24 + length key + blob_size blob) + FDB_SEC_REMAIN_THRESHOLD < s
      else r = FDB_SAVED_FULL \<and> kv_store s m L' = kv_store s m L \<and> \<not> free_place s m L (24 + length key + blob_size blob)))"
  unfolding fdb_kv_set_blob_def using i
  apply (simp add: v(1) split del: if_split)
  apply (rule set_kv_inv [where f = f and L = L and s = s and m = m, OF _ key v(2) small])
  subgoal using inv by simp
  subgoal by auto
  subgoal by auto
  done

lemma set_blob_ready:
  assumes r: "kv_ready K M db" and key: "key \<in> K" and v: "blob_buf blob = Some v" "blob_size blob \<le> length v"
    and small: "24 + length key + blob_size blob + FDB_SEC_REMAIN_THRESHOLD < 2 ^ 64"
  shows "holds (fdb_kv_set_blob db key blob) (\<lambda>(r, db').
    if r = FDB_NO_ERR then kv_ready K (M(key \<mapsto> take (blob_size blob) v)) db'
      \<and> 16 + (24 + length key + blob_size blob) + FDB_SEC_REMAIN_THRESHOLD < db_sec_size db
    else r = FDB_SAVED_FULL \<and> kv_ready K M db')"
proof -
  from r obtain s m f L where i: "db_init_ok db" "lock_pair db" "kv_inv K s m f L db" "kv_store s m L = M" "db_sec_size db = s"
    by (rule kv_readyE)
  note ok = kv_readyI [OF _ _ _ i(1,2)]
  show ?thesis
    by (rule holds_yields [OF set_blob_inv [OF i(3,1) kv_ready_key [OF r key] key v small] public_meta(1) [OF i(2)]])
       (use ok i(4,5) in \<open>fastforce split: if_splits\<close>)
qed

lemma del_ready:
  assumes r: "kv_ready K M db" and key: "key \<in> K"
  shows "holds (fdb_kv_del db key) (\<lambda>(r, db'). r = (if M key = None then FDB_KV_NAME_ERR else FDB_NO_ERR)
    \<and> kv_ready K (M(key := None)) db')"
proof -
  from r obtain s m f L where i: "db_init_ok db" "lock_pair db" "kv_inv K s m f L db" "kv_store s m L = M" "db_sec_size db = s"
    by (rule kv_readyE)
  note ok = kv_readyI [OF _ _ _ i(1,2)]
  have "holds (fdb_kv_del db key) (\<lambda>(r, db'). r = (if M key = None then FDB_KV_NAME_ERR else FDB_NO_ERR)
      \<and> (\<exists>g L'. kv_inv K s m g L' db' \<and> kv_store s m L' = M(key := None)))"
    unfolding fdb_kv_del_def using i(1)
    apply (simp split del: if_split)
    apply (rule del_kv_inv [where f = f and L = L and s = s and m = m, OF _ kv_ready_key [OF r key] key])
    subgoal using i(3) by simp
    subgoal using i(4) by (auto simp: fun_upd_idem)
    subgoal using i(4) by auto
    done
  then show ?thesis by (rule holds_yields [OF _ public_meta(2) [OF i(2)]]) (use ok in fastforce)
qed

lemma get_blob_ready:
  assumes r: "kv_ready K M db" and key: "key \<in> K" and buf: "blob_buf blob = Some b" "blob_size blob \<le> length b"
  shows "holds (fdb_kv_get_blob db key blob) (\<lambda>(n, blob', db'). kv_ready K M db' \<and> (case M key of
      None \<Rightarrow> n = 0 \<and> blob' = blob\<lparr>blob_len := 0\<rparr>
    | Some v \<Rightarrow> n = min (blob_size blob) (length v)
        \<and> blob' = blob\<lparr>blob_buf := Some (take n v @ drop n b), blob_len := length v\<rparr>))"
proof -
  from r obtain s m f L where i: "db_init_ok db" "lock_pair db" "kv_inv K s m f L db" "kv_store s m L = M" "db_sec_size db = s"
    by (rule kv_readyE)
  have "holds (fdb_kv_get_blob db key blob) (\<lambda>(n, blob', db'). kv_inv K s m f L db' \<and> (case M key of
      None \<Rightarrow> n = 0 \<and> blob' = blob\<lparr>blob_len := 0\<rparr>
    | Some v \<Rightarrow> n = min (blob_size blob) (length v)
        \<and> blob' = blob\<lparr>blob_buf := Some (take n v @ drop n b), blob_len := length v\<rparr>))"
    unfolding fdb_kv_get_blob_def using i(1)
    apply simp
    apply (rule get_kv_inv [where f = f and L = L and s = s and m = m, OF _ kv_ready_key [OF r key] key])
    subgoal using i(3) by simp
    subgoal using buf by simp
    subgoal using i(4) buf by (auto simp: got_def split: option.split)
    done
  then show ?thesis by (rule holds_yields [OF _ public_meta(4) [OF i(2)]]) (use kv_readyI [OF _ i(4) _ i(1,2)] in auto)
qed

text \<open>Formatting gives the empty map.\<close>

lemma set_default_inv:
  assumes st: "file_ok db" and s: "104 \<le> db_sec_size db" "db_max_size db + db_sec_size db < 2 ^ 32" "0 < db_max_size db"
    and kvs: "kvdb_default_kvs db = []"
    and t: "length (kvdb_sector_cache_table db) = FDB_SECTOR_CACHE_TABLE_SIZE"
      "\<forall>e \<in> set (kvdb_sector_cache_table db). sec_addr e = FDB_DATA_UNUSED"
    and kt: "length (kvdb_kv_cache_table db) = FDB_KV_CACHE_TABLE_SIZE"
    and fl: "\<not> kvdb_gc_request db" "\<not> kvdb_last_is_complete_del db" "\<not> kvdb_in_recovery_check db"
    and i: "db_init_ok db" "lock_pair db" and K: "inj_on name_crc16 K" "\<forall>k \<in> K. key_ok k"
  shows "holds (fdb_kv_set_default db) (\<lambda>(r, db'). r = FDB_NO_ERR \<and> meta db' = meta db
    \<and> (\<exists>g. kv_inv K (db_sec_size db) (db_max_size db) g no_logs db'))"
    "kv_store (db_sec_size db) (db_max_size db) no_logs = Map.empty"
proof -
  let ?s = "db_sec_size db" and ?m = "db_max_size db"
  note sd = storedD [OF storedI [OF st]]
  have q: "0 < ?m div ?s" using sd(3,4) s(3) by (simp add: dvd_imp_le div_greater_zero_iff)
  have "once_each (kvdb_sector_cache_table db)" using t(2) by (auto simp: once_each_def)
  have sub: "sec_addr ` set (kvdb_sector_cache_table db) \<subseteq> insert FDB_DATA_UNUSED ((\<lambda>i. i * ?s) ` {0..<?m div ?s})"
    using t(2) by auto
  have nodes: "\<not> node_in ?s ?m no_logs a n" for a n by (auto simp: node_in_iff no_logs_def)
  have ok: "logs_ok K ?s ?m no_logs" "settled ?s ?m {} no_logs" "has_empty ?s ?m no_logs" "marks_ok False (?m div ?s) no_logs"
    using K q nodes by (auto simp: logs_ok_def one_live_def snug_def settled_def has_empty_def marks_ok_def no_logs_def)
  show "kv_store ?s ?m no_logs = Map.empty"
    by (intro ext) (use store_None [OF q] nodes in \<open>auto simp: no_live_def\<close>)
  have "holds (fdb_kv_set_default db) (\<lambda>(r, db'). r = FDB_NO_ERR \<and> (\<exists>g. kv_inv K ?s ?m g no_logs db'))"
  proof (rule set_default_ok [OF storedI [OF st] s kvs t(1) \<open>once_each _\<close> sub kt], goal_cases)
    case (1 g db')
    then show ?case using ok s(2) keys_unused_ok [OF 1(2)] fl by (auto simp: kv_inv_def)
  qed
  moreover have "yields (fdb_kv_set_default db) (\<lambda>(r, db'). meta db' = meta db)" by (rule set_default_meta [OF i(2)]) simp
  ultimately show "holds (fdb_kv_set_default db) (\<lambda>(r, db'). r = FDB_NO_ERR \<and> meta db' = meta db
    \<and> (\<exists>g. kv_inv K (db_sec_size db) (db_max_size db) g no_logs db'))" by (rule holds_yields) auto
qed


section \<open>Requests\<close>

datatype kv_req = Set_req "byte list" "byte list" | Del_req "byte list" | Get_req "byte list" nat

datatype kv_resp = Result fdb_err_t | Value nat nat "byte list"

text \<open>A request as a call of the public function; a lookup passes a buffer of \<open>n\<close> bytes.\<close>

fun kv_serve :: "fdb_kvdb \<Rightarrow> kv_req \<Rightarrow> (kv_resp \<times> fdb_kvdb) option" where
  "kv_serve db (Set_req key v) = do {
     (r, db) \<leftarrow> fdb_kv_set_blob db key (fdb_blob_make blob0 (Some v) (length v));
     Some (Result r, db) }"
| "kv_serve db (Del_req key) = do {
     (r, db) \<leftarrow> fdb_kv_del db key;
     Some (Result r, db) }"
| "kv_serve db (Get_req key n) = do {
     (len, blob, db) \<leftarrow> fdb_kv_get_blob db key (fdb_blob_make blob0 (Some (replicate n 0)) n);
     Some (Value len (blob_len blob) (take len (the (blob_buf blob))), db) }"

text \<open>
  The answers that a map allows. A request to set may be refused for lack of space, and is when the node
  cannot fit into a sector of \<open>s\<close> bytes: its header, the key and the value, next to the header of the sector
  and the reserve of 88 bytes.
\<close>

fun kv_answer :: "nat \<Rightarrow> (byte list \<rightharpoonup> byte list) \<Rightarrow> kv_req \<Rightarrow> kv_resp \<Rightarrow> (byte list \<rightharpoonup> byte list) option" where
  "kv_answer s M (Set_req key v) r =
     (if r = Result FDB_NO_ERR \<and> 128 + length key + length v < s then Some (M(key \<mapsto> v))
      else if r = Result FDB_SAVED_FULL then Some M else None)"
| "kv_answer s M (Del_req key) r =
     (if r = Result (if M key = None then FDB_KV_NAME_ERR else FDB_NO_ERR) then Some (M(key := None)) else None)"
| "kv_answer s M (Get_req key n) r =
     (if r = (case M key of None \<Rightarrow> Value 0 0 [] | Some v \<Rightarrow> Value (min n (length v)) (length v) (take n v))
      then Some M else None)"

fun req_ok :: "byte list set \<Rightarrow> kv_req \<Rightarrow> bool" where
  "req_ok K (Set_req key v) \<longleftrightarrow> key \<in> K \<and> length v < 2 ^ 32"
| "req_ok K (Del_req key) \<longleftrightarrow> key \<in> K"
| "req_ok K (Get_req key n) \<longleftrightarrow> key \<in> K"

lemma meta_sec_size: "meta db' = meta db \<Longrightarrow> db_sec_size db' = db_sec_size db"
  by (simp add: meta_def)

lemma blob0_make [simp]:
  "blob_buf (fdb_blob_make blob0 v n) = v" "blob_size (fdb_blob_make blob0 v n) = n"
  by (simp_all add: fdb_blob_make_def)

lemma serve_set:
  assumes r: "kv_ready K M db" and q: "req_ok K (Set_req key v)"
  shows "holds (kv_serve db (Set_req key v)) (\<lambda>(r, db'). \<exists>M'. kv_answer (db_sec_size db) M (Set_req key v) r = Some M'
    \<and> kv_ready K M' db' \<and> db_sec_size db' = db_sec_size db)"
proof -
  let ?b = "fdb_blob_make blob0 (Some v) (length v)"
  have lp: "lock_pair db" using r by (simp add: kv_ready_def)
  have key: "key \<in> K" "length key < 64" using q kv_ready_key [OF r, of key] by (simp_all add: key_ok_def FDB_KV_NAME_MAX_def)
  have T: "FDB_SEC_REMAIN_THRESHOLD = 88" by (simp add: FDB_SEC_REMAIN_THRESHOLD_def KV_HDR_DATA_SIZE_def FDB_KV_NAME_MAX_def)
  have "holds (fdb_kv_set_blob db key ?b) (\<lambda>(r, db').
    (if r = FDB_NO_ERR then kv_ready K (M(key \<mapsto> v)) db' \<and> 128 + length key + length v < db_sec_size db
     else r = FDB_SAVED_FULL \<and> kv_ready K M db') \<and> db_sec_size db' = db_sec_size db)"
  proof (rule holds_yields [OF set_blob_ready [of K M db key ?b v, OF r key(1)] public_meta(1) [OF lp]], goal_cases)
    case (4 res)
    obtain e d where res: "res = (e, d)" by (cases res)
    have "db_sec_size d = db_sec_size db" using 4(2) res by (intro meta_sec_size) simp
    then show ?case using 4(1) res by (cases "e = FDB_NO_ERR") (simp_all add: T)
  qed (use q key(2) in \<open>simp_all add: T\<close>)
  then show ?thesis by (auto elim!: holds_mono split: if_splits)
qed

lemma serve_del:
  assumes r: "kv_ready K M db" and q: "req_ok K (Del_req key)"
  shows "holds (kv_serve db (Del_req key)) (\<lambda>(r, db'). \<exists>M'. kv_answer s M (Del_req key) r = Some M'
    \<and> kv_ready K M' db' \<and> db_sec_size db' = db_sec_size db)"
proof -
  have lp: "lock_pair db" using r by (simp add: kv_ready_def)
  have "holds (fdb_kv_del db key) (\<lambda>(r, db'). r = (if M key = None then FDB_KV_NAME_ERR else FDB_NO_ERR)
     \<and> kv_ready K (M(key := None)) db' \<and> db_sec_size db' = db_sec_size db)"
    by (rule holds_yields [OF del_ready [of K M db key, OF r] public_meta(2) [OF lp]])
       (use q meta_sec_size in \<open>simp_all add: split_def\<close>)
  then show ?thesis by (auto elim!: holds_mono)
qed

lemma serve_get:
  assumes r: "kv_ready K M db" and q: "req_ok K (Get_req key n)"
  shows "holds (kv_serve db (Get_req key n)) (\<lambda>(r, db'). \<exists>M'. kv_answer s M (Get_req key n) r = Some M'
    \<and> kv_ready K M' db' \<and> db_sec_size db' = db_sec_size db)"
proof -
  let ?b = "fdb_blob_make blob0 (Some (replicate n 0)) n"
  have lp: "lock_pair db" using r by (simp add: kv_ready_def)
  have "holds (fdb_kv_get_blob db key ?b) (\<lambda>(len, blob, db'). kv_ready K M db' \<and> db_sec_size db' = db_sec_size db \<and> (case M key of
      None \<Rightarrow> len = 0 \<and> blob_len blob = 0
    | Some v \<Rightarrow> len = min n (length v) \<and> blob_len blob = length v
       \<and> blob_buf blob = Some (take len v @ drop len (replicate n 0))))"
    by (rule holds_yields [OF get_blob_ready [of K M db key ?b "replicate n 0", OF r] public_meta(4) [OF lp]])
       (use q meta_sec_size in \<open>auto simp: split_def split: option.splits\<close>)
  then show ?thesis by (auto elim!: holds_mono split: option.splits simp: min_def)
qed

interpretation kv_service: service "\<lambda>M db. kv_ready K M db \<and> db_sec_size db = s" kv_serve "kv_answer s" "req_ok K" for K s
proof unfold_locales
  fix M db q
  assume r: "kv_ready K M db \<and> db_sec_size db = s" and q: "req_ok K q"
  show "holds (kv_serve db q) (\<lambda>(r, db'). \<exists>M'. kv_answer s M q r = Some M' \<and> kv_ready K M' db' \<and> db_sec_size db' = s)"
    using serve_set [of K M db] serve_del [of K M db] serve_get [of K M db] r q by (cases q) blast+
qed


text \<open>A request that leaves a key alone.\<close>

fun leaves :: "byte list \<Rightarrow> kv_req \<Rightarrow> bool" where
  "leaves key (Set_req k v) \<longleftrightarrow> k \<noteq> key"
| "leaves key (Del_req k) \<longleftrightarrow> k \<noteq> key"
| "leaves key (Get_req k n) \<longleftrightarrow> True"

lemma answer_leaves: "kv_answer s M q r = Some M' \<Longrightarrow> leaves key q \<Longrightarrow> M' key = M key"
  by (cases q) (auto split: if_splits)

lemma accepts_leaves:
  "accepts (kv_answer s) M qs rs = Some M' \<Longrightarrow> list_all (leaves key) qs \<Longrightarrow> M' key = M key"
proof (induction qs arbitrary: M rs)
  case (Cons q qs)
  then obtain r rs' M1 where "rs = r # rs'" "kv_answer s M q r = Some M1" "accepts (kv_answer s) M1 qs rs' = Some M'"
    by (cases rs) (auto split: option.splits)
  with Cons answer_leaves [of s M q r M1 key] show ?case by simp
next
  case Nil
  then show ?case by (cases rs) auto
qed


section \<open>A database for the examples\<close>

lemmas crc16_eval = One_nat_def name_crc16_def fdb_calc_crc32_def crc32_step_code crc32_table_def drop_bit_eq_div u16_def

definition demo_keys :: "byte list set" where
  "demo_keys = {[107], [108], [109, 110]}"

lemma demo_keys_ok: "inj_on name_crc16 demo_keys" "\<forall>k \<in> demo_keys. key_ok k"
proof -
  have "name_crc16 [107] = 2146" "name_crc16 [108] = 38406" "name_crc16 [109, 110] = 15232" by (simp_all add: crc16_eval)
  then show "inj_on name_crc16 demo_keys" by (auto simp: demo_keys_def inj_on_def)
  show "\<forall>k \<in> demo_keys. key_ok k" by (auto simp: demo_keys_def key_ok_def FDB_KV_NAME_MAX_def c_string_def)
qed

lemma demo_inv:
  "holds (fdb_kv_set_default demo_kvdb) (\<lambda>(r, db). r = FDB_NO_ERR \<and> meta db = meta demo_kvdb
     \<and> (\<exists>g. kv_inv demo_keys (db_sec_size demo_kvdb) (db_max_size demo_kvdb) g no_logs db))"
  "kv_store (db_sec_size demo_kvdb) (db_max_size demo_kvdb) no_logs = Map.empty"
  by (rule set_default_inv [OF demo_kvdb_ok _ _ _ _ _ _ _ _ _ _ _ _ demo_keys_ok];
      simp add: demo_kvdb_def demo_sector_def lock_pair_def FDB_SECTOR_CACHE_TABLE_SIZE_def FDB_KV_CACHE_TABLE_SIZE_def)+

lemma demo_geometry: "db_sec_size demo_kvdb = 4096" "db_max_size demo_kvdb = 16384" "db_init_ok demo_kvdb" "lock_pair demo_kvdb"
  by (simp_all add: demo_kvdb_def lock_pair_def)

lemma demo_format:
  "holds (fdb_kv_set_default demo_kvdb) (\<lambda>(r, db). kv_ready demo_keys Map.empty db \<and> db_sec_size db = 4096)"
  by (rule holds_mono [OF demo_inv(1)])
     (auto simp: demo_geometry dest: meta_sec_size intro: kv_readyI [OF _ demo_inv(2) [unfolded demo_geometry] _ demo_geometry(3,4)])

lemma demo_empty: "\<exists>f db. kv_inv demo_keys 4096 16384 f no_logs db \<and> db_init_ok db"
  using demo_inv(1) by (auto simp: holds_ex demo_geometry meta_def)


section \<open>Properties\<close>

text \<open>
  C1: any sequence of calls of \<open>fdb_kv_set_blob\<close>, \<open>fdb_kv_del\<close> and \<open>fdb_kv_get_blob\<close> on a database that
  represents a map returns and answers as the map does: a successful set replaces the value of the key and
  of no other, a delete removes it or reports that it is missing, a lookup returns the length and as much
  of the value as the buffer takes. A set is refused only with \<open>FDB_SAVED_FULL\<close> and then changes nothing, and
  is accepted only when the node fits into a sector. Allocation, garbage collection and both caches are
  underneath. The keys are shorter than 64 bytes and have different 16-bit checksums.
\<close>

theorem kv_calls_refine_map:
  assumes "kv_ready K M db" "list_all (req_ok K) qs"
  shows "\<exists>rs db' M'. serve_all kv_serve db qs = Some (rs, db') \<and> accepts (kv_answer (db_sec_size db)) M qs rs = Some M'
    \<and> kv_ready K M' db'"
  using kv_service.session [of K M db "db_sec_size db" qs] assms by (fastforce simp: holds_ex)

theorem kv_calls_refine_map_witness:
  "holds (fdb_kv_set_default demo_kvdb) (\<lambda>(r, db). \<exists>rs db' M'.
     serve_all kv_serve db [Set_req [107] [1, 2], Set_req [109, 110] [3], Get_req [107] 8, Del_req [107], Get_req [107] 8] = Some (rs, db')
     \<and> accepts (kv_answer (db_sec_size db)) Map.empty
         [Set_req [107] [1, 2], Set_req [109, 110] [3], Get_req [107] 8, Del_req [107], Get_req [107] 8] rs = Some M'
     \<and> kv_ready demo_keys M' db')"
  by (rule holds_mono [OF demo_format], clarify, rule kv_calls_refine_map, assumption) (simp add: demo_keys_def)

text \<open>
  C5: a value that has been set is read back unchanged, whatever other keys are set, deleted or read in
  between, however often the garbage collection moves the node meanwhile.
\<close>

theorem kv_set_then_get:
  assumes "kv_ready K M db" "key \<in> K" "length v < 2 ^ 32" "list_all (req_ok K) qs" "list_all (leaves key) qs" "length v \<le> n"
  shows "holds (fdb_kv_set_blob db key (fdb_blob_make blob0 (Some v) (length v))) (\<lambda>(r, db1). r = FDB_NO_ERR \<longrightarrow>
    holds (serve_all kv_serve db1 qs) (\<lambda>(rs, db2).
      holds (kv_serve db2 (Get_req key n)) (\<lambda>(resp, db3). resp = Value (length v) (length v) v)))"
proof -
  have "holds (kv_serve db1 (Get_req key n)) (\<lambda>(resp, db3). resp = Value (length v) (length v) v)"
    if "kv_ready K M1 db1" "M1 key = Some v" for M1 db1
    by (rule holds_mono [OF serve_get [OF that(1), of key n]]) (use that(2) assms(2,6) in \<open>auto split: if_splits\<close>)
  then have "holds (serve_all kv_serve db1 qs) (\<lambda>(rs, db2). holds (kv_serve db2 (Get_req key n)) (\<lambda>(resp, db3). resp = Value (length v) (length v) v))"
    if "kv_ready K M1 db1" "M1 key = Some v" for M1 db1
    by (rule_tac holds_mono [OF kv_service.session [of K M1 db1 "db_sec_size db1" qs]])
       (use that assms(4,5) accepts_leaves [of _ M1 qs _ _ key] in auto)
  moreover have "holds (kv_serve db (Set_req key v)) (\<lambda>(r, db'). r = Result FDB_NO_ERR \<longrightarrow> kv_ready K (M(key \<mapsto> v)) db')"
    by (rule holds_mono [OF serve_set [OF assms(1), of key v]]) (use assms(2,3) in \<open>auto split: if_splits\<close>)
  ultimately show ?thesis by (auto elim!: holds_mono)
qed

theorem kv_set_then_get_witness:
  "holds (fdb_kv_set_default demo_kvdb) (\<lambda>(r, db).
     holds (fdb_kv_set_blob db [107] (fdb_blob_make blob0 (Some [1, 2, 3]) (length [1 :: byte, 2, 3]))) (\<lambda>(r, db1). r = FDB_NO_ERR \<longrightarrow>
       holds (serve_all kv_serve db1 [Set_req [108] [9], Del_req [108]]) (\<lambda>(rs, db2).
         holds (kv_serve db2 (Get_req [107] 5)) (\<lambda>(resp, db3). resp = Value (length [1 :: byte, 2, 3]) (length [1 :: byte, 2, 3]) [1, 2, 3]))))"
  by (rule holds_mono [OF demo_format], clarify, rule kv_set_then_get, assumption) (simp_all add: demo_keys_def)

text \<open>
  C6: a set succeeds whenever a sector in use has room for the node or two sectors are empty; the reserve
  of one empty sector is kept for the garbage collection.
\<close>

theorem kv_set_succeeds:
  assumes "kv_inv K s m f L db" "db_init_ok db" "key \<in> K" "length v < 2 ^ 32" "free_place s m L (24 + length key + length v)"
  shows "holds (fdb_kv_set_blob db key (fdb_blob_make blob0 (Some v) (length v))) (\<lambda>(r, db'). r = FDB_NO_ERR
    \<and> (\<exists>f' L'. kv_inv K s m f' L' db' \<and> kv_store s m L' = (kv_store s m L)(key \<mapsto> v)))"
proof -
  have key: "key_ok key" using kv_invD(3) [OF assms(1)] assms(3) by (simp add: logs_ok_def)
  then have small: "24 + length key + length v + FDB_SEC_REMAIN_THRESHOLD < 2 ^ 64"
    using assms(4) by (simp add: FDB_SEC_REMAIN_THRESHOLD_def KV_HDR_DATA_SIZE_def FDB_KV_NAME_MAX_def key_ok_def)
  show ?thesis
    by (rule holds_mono [OF set_blob_inv [OF assms(1,2) key assms(3), where v = v]]) (use small assms(5) in \<open>auto split: if_splits\<close>)
qed

theorem kv_set_succeeds_witness:
  "\<exists>f db. kv_inv demo_keys 4096 16384 f no_logs db \<and>
     holds (fdb_kv_set_blob db [107] (fdb_blob_make blob0 (Some [1, 2, 3]) (length [1 :: byte, 2, 3]))) (\<lambda>(r, db'). r = FDB_NO_ERR
    \<and> (\<exists>f' L'. kv_inv demo_keys 4096 16384 f' L' db' \<and> kv_store 4096 16384 L' = (kv_store 4096 16384 no_logs)([107] \<mapsto> [1, 2, 3])))"
proof -
  obtain f db where d: "kv_inv demo_keys 4096 16384 f no_logs db" "db_init_ok db" using demo_empty by blast
  have "free_place 4096 16384 no_logs (24 + length [107 :: byte] + length [1 :: byte, 2, 3])"
    unfolding free_place_def no_logs_def FDB_SEC_REMAIN_THRESHOLD_def KV_HDR_DATA_SIZE_def FDB_KV_NAME_MAX_def
    by (intro disjI2 conjI exI [of _ 0] exI [of _ 1]) simp_all
  from kv_set_succeeds [OF d _ _ this] d(1) show ?thesis by (intro exI conjI) (auto simp: demo_keys_def)
qed

text \<open>
  C7: a value whose node does not fit into one sector, next to the sector header of 16 bytes and the
  reserve of 88, is refused with \<open>FDB_SAVED_FULL\<close>, and the database stays as it is.
\<close>

theorem kv_set_too_large:
  assumes "kv_ready K M db" "key \<in> K" "length v < 2 ^ 32" "db_sec_size db \<le> 128 + length key + length v"
  shows "holds (fdb_kv_set_blob db key (fdb_blob_make blob0 (Some v) (length v)))
    (\<lambda>(r, db'). r = FDB_SAVED_FULL \<and> kv_ready K M db')"
proof -
  have "holds (kv_serve db (Set_req key v)) (\<lambda>(r, db'). r = Result FDB_SAVED_FULL \<and> kv_ready K M db')"
    by (rule holds_mono [OF serve_set [OF assms(1), of key v]]) (use assms(2-4) in \<open>auto split: if_splits\<close>)
  then show ?thesis by (auto elim!: holds_mono)
qed

theorem kv_set_too_large_witness:
  "holds (fdb_kv_set_default demo_kvdb) (\<lambda>(r, db).
     holds (fdb_kv_set_blob db [107] (fdb_blob_make blob0 (Some (replicate 4000 7)) (length (replicate 4000 (7 :: byte)))))
       (\<lambda>(r, db'). r = FDB_SAVED_FULL \<and> kv_ready demo_keys Map.empty db'))"
  by (rule holds_mono [OF demo_format], clarify, rule kv_set_too_large, assumption) (simp_all add: demo_keys_def)

text \<open>
  C4: a garbage collection of any requested size keeps the value of every key and leaves the database in
  order: every live node is moved to a clean sector before its sector is erased, an empty sector is left,
  and no sector keeps the mark of an unfinished collection.
\<close>

theorem gc_keeps_contents:
  assumes "kv_inv K s m f L db"
  shows "holds (gc_collect_by_free_size (db\<lparr>kvdb_gc_request := True\<rparr>) n)
    (\<lambda>db'. \<exists>f' L'. kv_inv K s m f' L' db' \<and> kv_store s m L' = kv_store s m L)"
proof -
  have "gc_state K s m f L (db\<lparr>kvdb_gc_request := True\<rparr>)" using assms by (simp add: gc_state_def kv_inv_def)
  then show ?thesis
    by (rule collect_ok [OF _ kv_invD(8,10) [OF assms]]) (intro exI conjI)
qed

theorem gc_keeps_contents_witness:
  "\<exists>f db. kv_inv demo_keys 4096 16384 f no_logs db \<and> holds (gc_collect_by_free_size (db\<lparr>kvdb_gc_request := True\<rparr>) 100)
    (\<lambda>db'. \<exists>f' L'. kv_inv demo_keys 4096 16384 f' L' db' \<and> kv_store 4096 16384 L' = kv_store 4096 16384 no_logs)"
proof -
  obtain f db where d: "kv_inv demo_keys 4096 16384 f no_logs db" "db_init_ok db" using demo_empty by blast
  show ?thesis by (rule exI [of _ f], rule exI [of _ db], rule conjI [OF d(1) gc_keeps_contents [OF d(1)]])
qed



end
