(* ===== verification/KvRecover.thy ===== *)
theory KvRecover
  imports KvApi
begin

text \<open>
  Loading a database that is already on storage, after a clean end or after a power failure in the middle of
  setting a key: the recovery finishes or undoes what was begun, so the map is the one before or after the
  interrupted call.
\<close>

section \<open>Iterating over nodes with a callback that changes the database\<close>

text \<open>
  A worker keeps the invariant \<open>I\<close>; its first argument is the set of the addresses of nodes that are still
  to be dealt with. The callback may append nodes and change the status of its own one.
\<close>

locale node_worker =
  fixes cb :: "'x kv_callback"
    and I :: "addr set \<Rightarrow> (addr \<Rightarrow> byte) \<Rightarrow> (nat \<Rightarrow> sector_log) \<Rightarrow> 'x \<Rightarrow> fdb_kvdb \<Rightarrow> bool"
    and s :: nat and m :: nat
  assumes node_rel: "I A f L x db \<Longrightarrow> kv_rel s m f L db"
    and node_frame: "I A f L x db \<Longrightarrow> kv_rel s m f L db' \<Longrightarrow> kv_frame db db' \<Longrightarrow>
      kvdb_kv_cache_table db' = kvdb_kv_cache_table db \<Longrightarrow> I A f L x db'"
    and node_todo: "I A f L x db \<Longrightarrow> a \<in> A \<Longrightarrow> \<exists>n. node_in s m L a n"
    and node_step: "I A f L x db \<Longrightarrow> i < m div s \<Longrightarrow> L i = (st, d, pre @ n # post) \<Longrightarrow>
      holds (cb (node_kv kv (i * s + 16 + nodes_len pre) n) x db) (\<lambda>(stop, x', db'). \<not> stop \<and> (\<exists>f' L' d' pre' n' post'.
        I (A - {i * s + 16 + nodes_len pre}) f' L' x' db' \<and> L' i = (st, d', pre' @ n' # post')
        \<and> nodes_len pre' = nodes_len pre \<and> node_len n' = node_len n))"
begin

lemma todo_here:
  assumes inv: "I A f L x db" and i: "i < m div s" and a: "a \<in> A" "i * s \<le> a" "a < i * s + s"
  obtains y where "(a, y) \<in> set (addr_nodes (i * s + 16) (log_nodes (L i)))"
proof -
  obtain y where "node_in s m L a y" using node_todo [OF inv a(1)] by blast
  then obtain j where j: "j < m div s" "(a, y) \<in> set (addr_nodes (j * s + 16) (log_nodes (L j)))" by (auto simp: node_in_iff)
  have "j = i" using sector_addr_of [OF node_rel [OF inv] j] sector_disjoint [of i j s a] a by auto
  with j(2) that show ?thesis by blast
qed

lemma todo_none:
  assumes inv: "I A f L x db" and i: "i < m div s"
  shows "log_nodes (L i) = [] \<Longrightarrow> A \<inter> {i * s..<i * s + s} = {}" "16 \<le> s \<Longrightarrow> A \<inter> {i * s..<i * s + 16} = {}"
proof -
  show "A \<inter> {i * s..<i * s + s} = {}" if e: "log_nodes (L i) = []"
  proof (intro equals0I, elim IntE)
    fix a
    assume "a \<in> A" "a \<in> {i * s..<i * s + s}"
    then obtain y where "(a, y) \<in> set (addr_nodes (i * s + 16) (log_nodes (L i)))" using todo_here [OF inv i, of a] by auto
    with e show False by simp
  qed
  show "A \<inter> {i * s..<i * s + 16} = {}" if "16 \<le> s"
  proof (intro equals0I, elim IntE)
    fix a
    assume a: "a \<in> A" "a \<in> {i * s..<i * s + 16}"
    with that have "i * s \<le> a" "a < i * s + s" by auto
    then obtain y where "(a, y) \<in> set (addr_nodes (i * s + 16) (log_nodes (L i)))" using todo_here [OF inv i a(1)] by blast
    with addr_nodes_less [OF this] a(2) show False by simp
  qed
qed

lemma node_split:
  assumes r: "kv_rel s m f L db" and i: "i < m div s" "L i = (st, d, pre @ n # post)"
    and a: "node_in s m L a x" "i * s \<le> a" "a < i * s + s"
  shows "a \<le> i * s + 16 + nodes_len pre \<or> post \<noteq> [] \<and> i * s + 16 + nodes_len pre + node_len n \<le> a"
proof -
  from a(1) obtain j where j: "j < m div s" "(a, x) \<in> set (addr_nodes (j * s + 16) (log_nodes (L j)))" by (auto simp: node_in_iff)
  have "j = i" using sector_addr_of [OF r j] sector_disjoint [of i j s a] a(2,3) by auto
  with j(2) i(2) show ?thesis
    using addr_nodes_less [of a x "i * s + 16" pre] addr_nodes_less [of a x "i * s + 16 + nodes_len pre + node_len n" post]
    by (auto simp: add.assoc)
qed

lemma walk_nodes:
  assumes "I A f L x db" "i < m div s" "L i = (st, d, pre @ n # post)"
    and "sec_addr sector = i * s" "sec_store sector \<noteq> FDB_SECTOR_STORE_EMPTY"
    and "A \<inter> {i * s..<i * s + 16 + nodes_len pre} = {}"
    and "\<And>A' f' L' kv' x' db'. I A' f' L' x' db' \<Longrightarrow> A' \<subseteq> A \<Longrightarrow> A' \<inter> {i * s..<i * s + s} = {} \<Longrightarrow> Q (False, kv', x', db')"
  shows "holds (kv_iterator_sector db sector (kv\<lparr>kv_addr_start := i * s + 16 + nodes_len pre\<rparr>) x cb) Q"
  using assms
proof (induction "s - nodes_len pre" arbitrary: A f L x db d pre n post kv rule: less_induct)
  case less
  note inv = less.prems(1) and i = less.prems(2) and Li = less.prems(3)
  note r = node_rel [OF inv] and nd = sector_node [OF node_rel [OF less.prems(1)] less.prems(2,3)]
  let ?p = "i * s + 16 + nodes_len pre"
  let ?kv = "node_kv kv ?p n"
  have nl: "0 < node_len n" by (simp add: node_len_def KV_HDR_DATA_SIZE_def)
  have nxt: "holds (get_next_kv_addr db2 sector ?kv) (\<lambda>(a, db). holds (if a \<noteq> FAILED_ADDR
        then kv_iterator_sector db sector (?kv\<lparr>kv_addr_start := a\<rparr>) x2 cb
        else Some (False, ?kv\<lparr>kv_addr_start := a\<rparr>, x2, db)) Q)"
    if i2: "I (A - {?p}) f2 L2 x2 db2" and L2: "L2 i = (st, d2, pre2 @ n2 # post2)" "nodes_len pre2 = nodes_len pre" "node_len n2 = node_len n"
    for f2 L2 x2 db2 d2 pre2 n2 post2
  proof -
    note r2 = node_rel [OF i2] and nd2 = sector_node [OF node_rel [OF i2] i L2(1)]
    note sa = sector_addr [OF kv_relD(1) [OF r2] i]
    have cov: "a \<notin> A - {?p}" if "i * s \<le> a" "a < i * s + s" "post2 = [] \<or> a < ?p + node_len n" for a
    proof
      assume a: "a \<in> A - {?p}"
      then obtain y where "node_in s m L2 a y" using node_todo [OF i2] by blast
      from node_split [OF r2 i L2(1) this that(1,2)] that(3) L2(2,3) have "a \<le> ?p" by auto
      with a less.prems(6) that(1) show False by auto
    qed
    show ?thesis
    proof (rule get_next_node [OF kv_relD(1) [OF r2] nd2(5) sa(1,2) less.prems(4,5)], goal_cases)
      case (5 db3)
      have i3: "I (A - {?p}) f2 L2 x2 db3"
        by (rule node_frame [OF i2 kv_rel_frame [OF r2 5]]) (use kv_frame_io [OF 5(2)] io_frame_kv(2) [OF 5(2)] in auto)
      show ?case
      proof (cases "post2 = []")
        case True
        have "(A - {?p}) \<inter> {i * s..<i * s + s} = {}" using cov True by auto
        with less.prems(7) [OF i3] True show ?thesis by auto
      next
        case False
        then obtain n3 post3 where p3: "post2 = n3 # post3" by (cases post2) auto
        have L2': "L2 i = (st, d2, (pre2 @ [n2]) @ n3 # post3)" using L2(1) p3 by simp
        have len: "nodes_len (pre2 @ [n2]) = nodes_len pre + node_len n" using L2 by simp
        have lt: "s - nodes_len (pre2 @ [n2]) < s - nodes_len pre" using nd(7) nl unfolding len by simp
        have "holds (kv_iterator_sector db3 sector (?kv\<lparr>kv_addr_start := i * s + 16 + nodes_len (pre2 @ [n2])\<rparr>) x2 cb) Q"
        proof (rule less.hyps [OF lt i3 i L2' less.prems(4,5)], goal_cases)
          case 1
          show ?case using cov nd(7) unfolding len by auto
        next
          case (2 A' f' L' kv' x' db')
          show ?case by (rule less.prems(7) [OF 2(1) _ 2(3)]) (use 2(2) in blast)
        qed
        with False nd(8) show ?thesis by (simp add: len L2 add.assoc)
      qed
    qed (use nd2 L2 in simp_all)
  qed
  show ?case
    unfolding kv_iterator_sector.simps [of db] holds_bind
  proof (rule read_kv_node [OF kv_relD(1) [OF r] nd(1-3)], goal_cases)
    case (1 db1)
    have i1: "I A f L x db1"
      by (rule node_frame [OF inv kv_rel_frame [OF r 1]]) (use kv_frame_io [OF 1(2)] io_frame_kv(2) [OF 1(2)] in auto)
    have "holds (cb ?kv x db1) (\<lambda>(stop, x', db'). \<not> stop \<and> holds (get_next_kv_addr db' sector ?kv) (\<lambda>(a, db). holds (if a \<noteq> FAILED_ADDR
        then kv_iterator_sector db sector (?kv\<lparr>kv_addr_start := a\<rparr>) x' cb
        else Some (False, ?kv\<lparr>kv_addr_start := a\<rparr>, x', db)) Q))"
      by (rule holds_mono [OF node_step [OF i1 i Li]]) (use nxt in blast)
    then show ?case by (auto simp: split_def elim!: holds_mono)
  qed
qed

lemma nodes_loop:
  assumes "I A f L x db" "m + s < 2 ^ 32" "start < m div s" "k < m div s"
    and "\<And>j. j < k \<Longrightarrow> A \<inter> {(start + j) mod (m div s) * s..<(start + j) mod (m div s) * s + s} = {}"
    and "\<And>f' L' kv' x' db'. I {} f' L' x' db' \<Longrightarrow> Q (kv', x', db')"
  shows "holds (kv_iterator_loop db sector ((start + k) mod (m div s) * s) (k * s) kv x (Some cb)) Q"
  using assms
proof (induction "m div s - k" arbitrary: k A f L db sector kv x)
  case 0
  then show ?case by simp
next
  case (Suc rest)
  let ?q = "m div s"
  let ?i = "(start + k) mod ?q"
  note r = node_rel [OF Suc.prems(1)]
  note rel = kv_relD [OF r] and sd = storedD [OF kv_relD(1) [OF r]]
  have q: "0 < ?q" using Suc.prems(4) by simp
  then have i: "?i < ?q" by simp
  obtain st d ns where L: "L ?i = (st, d, ns)" by (cases "L ?i")
  have geo: "db_sec_size db = s" using rel(1) by simp
  have km: "k * s + s \<le> m"
  proof -
    have "Suc k * s \<le> ?q * s" using Suc.prems(4) by (intro mult_le_mono1) simp
    then show ?thesis using sd(4) by simp
  qed
  have tl: "u32 (k * s + s) = Suc k * s" using km sd(5) by (simp add: u32_def)
  have after: "holds (let a = kv_get_next_sector_addr db2 sec (Suc k * s) in
        if a \<noteq> FAILED_ADDR then kv_iterator_loop db2 sec a (Suc k * s) kv' x' (Some cb) else Some (kv', x', db2)) Q"
    if info: "sec_addr sec = ?i * s" "sec_combined sec = SECTOR_NOT_COMBINED" and inv: "I A2 f2 L2 x' db2"
      and A2: "A2 \<subseteq> A" "A2 \<inter> {?i * s..<?i * s + s} = {}" for sec db2 kv' x' A2 f2 L2
  proof -
    have nx: "kv_get_next_sector_addr db2 sec (Suc k * s) = (if Suc k < ?q then (Suc ?i mod ?q) * s else FAILED_ADDR)"
      by (rule next_sector [OF kv_relD(1) [OF node_rel [OF inv]] Suc.prems(2) info(2,1) i]) (use Suc.prems(4) in auto)
    have cov: "A2 \<inter> {(start + j) mod ?q * s..<(start + j) mod ?q * s + s} = {}" if "j < Suc k" for j
      using that A2 Suc.prems(5) [of j] by (cases "j = k") auto
    show ?thesis
    proof (cases "Suc k < ?q")
      case True
      have "Suc ?i mod ?q = (start + Suc k) mod ?q" by (simp add: mod_Suc_eq)
      moreover have "holds (kv_iterator_loop db2 sec ((start + Suc k) mod ?q * s) (Suc k * s) kv' x' (Some cb)) Q"
        by (rule Suc.hyps(1) [OF _ inv]) (use Suc.hyps(2) True Suc.prems(2,3,6) cov in auto)
      moreover have "(start + Suc k) mod ?q * s \<noteq> FAILED_ADDR" by (rule sector_addr(6) [OF rel(1)]) (use q in simp)
      ultimately show ?thesis using True nx by simp
    next
      case False
      have "A2 = {}"
      proof (rule ccontr)
        assume "A2 \<noteq> {}"
        then obtain a y where a: "a \<in> A2" "node_in s m L2 a y" using node_todo [OF inv] by blast
        then obtain j where j: "j < ?q" "(a, y) \<in> set (addr_nodes (j * s + 16) (log_nodes (L2 j)))" by (auto simp: node_in_iff)
        note b = sector_addr_of [OF node_rel [OF inv] j]
        have "j \<in> set (ring ?q start 0)" using j(1) set_ring [OF Suc.prems(3)] by simp
        then obtain k' where "k' < ?q" "j = (start + k') mod ?q" by (auto simp: ring_def)
        with cov [of k'] a(1) b False show False by auto
      qed
      with Suc.prems(6) inv False nx show ?thesis by simp
    qed
  qed
  show ?case
  proof (subst kv_iterator_loop.simps, unfold Let_def holds_bind geo tl,
      rule read_sector_plain [OF r i L], goal_cases)
    case (1 sec db1)
    have inf: "sec_addr sec = ?i * s" "sec_combined sec = SECTOR_NOT_COMBINED" "sec_store sec = st"
      using 1(1) by (simp_all add: sec_info_ok_def)
    have i1: "I A f L x db1" by (rule node_frame [OF Suc.prems(1) 1(2-4)])
    have sh: "sector_holds s f (?i * s) st d ns" by (rule sectors_holdD [OF rel(2) i L])
    have "holds (if sec_store sec = FDB_SECTOR_STORE_USING \<or> sec_store sec = FDB_SECTOR_STORE_FULL
        then kv_iterator_sector db1 sec (kv\<lparr>kv_addr_start := u32 (sec_addr sec + SECTOR_HDR_DATA_SIZE)\<rparr>) x cb
        else Some (False, kv, x, db1))
      (\<lambda>(stop, kv, x, db). \<not> stop \<and> holds (let a = kv_get_next_sector_addr db sec (Suc k * s) in
        if a \<noteq> FAILED_ADDR then kv_iterator_loop db sec a (Suc k * s) kv x (Some cb) else Some (kv, x, db)) Q)"
    proof (cases ns)
      case Nil
      with sh have st: "st = FDB_SECTOR_STORE_EMPTY" by (simp add: sector_holds_def)
      have "A \<inter> {?i * s..<?i * s + s} = {}" using todo_none(1) [OF Suc.prems(1) i] L Nil by simp
      with after [OF inf(1,2) i1, of kv] st inf(3) show ?thesis by simp
    next
      case (Cons n post)
      with sh have st: "st = FDB_SECTOR_STORE_USING" "16 \<le> s" by (auto simp: sector_holds_def)
      have u: "u32 (?i * s + SECTOR_HDR_DATA_SIZE) = ?i * s + 16 + nodes_len []"
        using stored_u32_le [OF rel(1), of "?i * s + 16"] sector_addr(5) [OF rel(1) i] st(2) by (simp add: SECTOR_HDR_DATA_SIZE_def)
      have LC: "L ?i = (st, d, [] @ n # post)" using L Cons by simp
      have low: "A \<inter> {?i * s..<?i * s + 16 + nodes_len []} = {}"
        using todo_none(2) [OF Suc.prems(1) i st(2)] by simp
      have "holds (kv_iterator_sector db1 sec (kv\<lparr>kv_addr_start := ?i * s + 16 + nodes_len []\<rparr>) x cb)
        (\<lambda>(stop, kv, x, db). \<not> stop \<and> holds (let a = kv_get_next_sector_addr db sec (Suc k * s) in
          if a \<noteq> FAILED_ADDR then kv_iterator_loop db sec a (Suc k * s) kv x (Some cb) else Some (kv, x, db)) Q)"
        by (rule walk_nodes [OF i1 i LC inf(1) _ low]) (use st inf(3) after [OF inf(1,2)] in auto)
      then show ?thesis using st inf by (simp add: u)
    qed
    then show ?case by (auto simp: split_def Let_def elim!: holds_mono)
  qed
qed

lemma run_nodes:
  assumes inv: "I A f L x db" and big: "m + s < 2 ^ 32" and Q: "\<And>f' L' kv' x' db'. I {} f' L' x' db' \<Longrightarrow> Q (kv', x', db')"
  shows "holds (kv_iterator db kv x (Some cb)) Q"
proof -
  note rel = kv_relD [OF node_rel [OF inv]]
  let ?o = "db_oldest_addr db div s"
  have o: "?o < m div s" by (rule oldest_index [OF node_rel [OF inv]])
  have "?o * s = db_oldest_addr db" using rel(5) by auto
  then have "((?o + 0) mod (m div s)) * s = db_oldest_addr db" using o by simp
  then show ?thesis
    using nodes_loop [OF inv big o, where k = 0 and Q = Q and kv = kv] o Q by (simp add: kv_iterator_def)
qed

end


section \<open>Recovering an interrupted change\<close>

definition rec_state :: "byte list set \<Rightarrow> nat \<Rightarrow> nat \<Rightarrow> (addr \<Rightarrow> byte) \<Rightarrow> (nat \<Rightarrow> sector_log) \<Rightarrow> fdb_kvdb \<Rightarrow> bool" where
  "rec_state K s m f L db \<longleftrightarrow> kv_rel s m f L db \<and> m + s < 2 ^ 32 \<and> logs_ok K s m L \<and> has_empty s m L
     \<and> marks_ok False (m div s) L \<and> keys_ok (key_entry s m L) (kvdb_kv_cache_table db)
     \<and> \<not> kvdb_gc_request db \<and> \<not> kvdb_last_is_complete_del db \<and> kvdb_in_recovery_check db"

lemma rec_stateD:
  assumes "rec_state K s m f L db"
  shows "kv_rel s m f L db" "m + s < 2 ^ 32" "logs_ok K s m L" "has_empty s m L" "marks_ok False (m div s) L"
    "keys_ok (key_entry s m L) (kvdb_kv_cache_table db)" "\<not> kvdb_gc_request db" "\<not> kvdb_last_is_complete_del db"
    "kvdb_in_recovery_check db"
  using assms by (simp_all add: rec_state_def)

text \<open>
  The map that the recovery restores when the node \<open>n\<close> was marked for deletion: its value counts as long as
  no other node of the key has been finished.
\<close>

definition restored :: "(byte list \<rightharpoonup> byte list) \<Rightarrow> kv_node \<Rightarrow> byte list \<rightharpoonup> byte list" where
  "restored M n = (if M (nd_key n) = None then M(nd_key n \<mapsto> nd_val n) else M)"

lemma recover_del:
  assumes rs: "rec_state K s m f L db" and i: "i < m div s" "L i = (st, d, pre @ n # post)"
    and n: "nd_status n = FDB_KV_PRE_DELETE" "settled s m {i * s + 16 + nodes_len pre} L"
    and kv: "kv_addr_start kv = i * s + 16 + nodes_len pre"
    and Q: "\<And>f' L' db'. rec_state K s m f' L' db' \<Longrightarrow> settled s m {} L' \<Longrightarrow> kv_store s m L' = kv_store s m L \<Longrightarrow>
      L' i = (st, dirtied d, pre @ n\<lparr>nd_status := FDB_KV_DELETED\<rparr> # post) \<Longrightarrow> Q (FDB_NO_ERR, db')"
  shows "holds (del_kv_node db None kv True) Q"
proof -
  note j = rec_stateD [OF rs]
  let ?a = "i * s + 16 + nodes_len pre"
  let ?L = "L(i := (st, dirtied d, pre @ n\<lparr>nd_status := deleted True\<rparr> # post))"
  have nin: "node_in s m L ?a n" by (rule node_inI) (use i in simp_all)
  note g = gone_at [OF j(1) i, of True]
  have dead: "nd_status n \<noteq> FDB_KV_WRITE" using n(1) by simp
  note gd = gone_dead [OF j(1) g nin dead]
  show ?thesis
  proof (rule del_node_rel [OF j(1) i kv], goal_cases)
    case (1 f' db')
    have one: "one_live s m L" using j(3) by (simp add: logs_ok_def)
    have st: "kv_store s m ?L = kv_store s m L" by (rule same_live_store [OF j(1) 1(1) one gd(1)])
    have "keys_ok (key_entry s m ?L) (kvdb_kv_cache_table (update_kv_cache db (del_name None kv) FDB_DATA_UNUSED))"
      by (rule update_keys_ok [OF j(6)]) (use gd(2) in auto)
    then have "rec_state K s m f' ?L db'"
      using 1 j gone_logs [OF j(1) g nin j(3)] gone_empty [OF g] gone_marks [OF g] kv_frameD(2-4) [OF 1(2)]
      by (simp add: rec_state_def)
    moreover have "settled s m {} ?L" using gone_settled [OF g n(2)] by simp
    ultimately show ?case using Q st by (simp add: deleted_def)
  qed
qed

lemma recover_append:
  assumes rs: "rec_state K s m f L db" and x: "node_in s m L a x" "nd_key x \<in> K" "settled s m {a} L" and no: "no_live s m L (nd_key x)"
    and kv: "kv_addr_start kv = a" "kv_len kv = node_len x" "kv_name_len kv = length (nd_key x)"
      "kv_value_len kv = length (nd_val x)" "take (length (nd_key x)) (kv_name kv) = nd_key x"
    and pl: "place_ok s m L j (node_len x) sec"
    and Q: "\<And>f' L' db'. rec_state K s m f' L' db' \<Longrightarrow> settled s m {a} L' \<Longrightarrow> kv_store s m L' = (kv_store s m L)(nd_key x \<mapsto> nd_val x) \<Longrightarrow>
      L' = L(j := (FDB_SECTOR_STORE_USING, fst (snd (L j)), log_nodes (L j) @ [x\<lparr>nd_status := FDB_KV_WRITE\<rparr>])) \<Longrightarrow> Q (FDB_NO_ERR, db')"
  shows "holds (move_kv_write db sec kv (log_end (j * s) (log_nodes (L j)))) Q"
proof -
  note i = rec_stateD [OF rs] and p = pl [unfolded place_ok_def]
  have jq: "j < m div s" using p by simp
  let ?x = "x\<lparr>nd_status := FDB_KV_WRITE\<rparr>"
  let ?L = "L(j := (FDB_SECTOR_STORE_USING, fst (snd (L j)), log_nodes (L j) @ [?x]))"
  have key: "length (nd_key x) < 64" using i(3) x(2) by (auto simp: logs_ok_def key_ok_def FDB_KV_NAME_MAX_def)
  show ?thesis
  proof (rule move_write_rel [OF i(1) x(1) key kv jq], goal_cases)
    case (5 f' db')
    have room: "16 + nodes_len (log_nodes (L j)) + node_len ?x + FDB_SEC_REMAIN_THRESHOLD < s" using p by simp
    note al = append_logs [of s m f L db j K ?x ?L "fst (snd (L j))" f' db', OF i(1) jq i(3) _ _ _ room refl 5(1)]
    have "keys_ok (key_entry s m ?L) (kvdb_kv_cache_table db')"
      unfolding 5(3) by (rule update_keys_ok [OF i(6)]) (use al(3,4) no x(2) in auto)
    moreover have "has_empty s m ?L" using p by (auto simp: has_empty_def)
    moreover have "marks_ok False (m div s) ?L" using i(5) by (auto simp: marks_ok_def)
    moreover have "logs_ok K s m ?L" using al(1) no x(2) by simp
    ultimately have "rec_state K s m f' ?L db'" using i 5 kv_frameD(2-4) [OF 5(2)] by (simp add: rec_state_def)
    moreover have "settled s m {a} ?L" using x(3) node_in_append [OF jq refl] by (auto simp: settled_def)
    ultimately show ?case using Q al(2) no x(2) by simp
  qed (use p in auto)
qed


lemma rec_state_frame:
  assumes "rec_state K s m f L db" "kv_rel s m f L db'" "kv_frame db db'" "kvdb_kv_cache_table db' = kvdb_kv_cache_table db"
  shows "rec_state K s m f L db'"
  using assms kv_frameD(2-4) [OF assms(3)] by (simp add: rec_state_def)

lemma recover_place:
  assumes rs: "rec_state K s m f L db" and fp: "free_place s m L k" and k: "k + FDB_SEC_REMAIN_THRESHOLD < 2 ^ 64"
    and Q: "\<And>j sec db'. rec_state K s m f L db' \<Longrightarrow> place_ok s m L j k sec \<Longrightarrow>
      log_end (j * s) (log_nodes (L j)) \<noteq> FAILED_ADDR \<Longrightarrow> Q (log_end (j * s) (log_nodes (L j)), sec, db')"
  shows "holds (alloc_kv db sector k) Q"
proof -
  note i = rec_stateD [OF rs]
  have gc: "kvdb_gc_request db = False" using i(7) by simp
  show ?thesis
  proof (rule alloc_kv_ok [OF i(1,2)], goal_cases)
    case 1
    show ?case using i(5) gc by simp
  next
    case (2 j sec db')
    have room: "16 + nodes_len (log_nodes (L j)) + k + FDB_SEC_REMAIN_THRESHOLD < s"
      using alloc_choice_Some(2) [OF 2(1)] k by (simp add: has_room_def) arith
    have "place_ok s m L j k sec"
      unfolding place_ok_def using another_empty [OF i(1,4) 2(1) [unfolded gc]] 2(2,6) room
      by (auto simp: sec_seen_def sec_full_def sec_info_ok_def log_nodes_def split: prod.splits)
    from Q [OF rec_state_frame [OF rs 2(3-5)] this log_end_not_failed [OF i(1) 2(2)]] show ?case .
  next
    case 3
    then show ?case using free_place_choice [OF i(1,3) k fp] gc by simp
  qed
qed

lemma recover_move:
  assumes rs: "rec_state K s m f L db" and i: "i < m div s" "L i = (st, d, pre @ n # post)"
    and n: "nd_status n = FDB_KV_PRE_DELETE" "nd_key n \<in> K" "settled s m {i * s + 16 + nodes_len pre} L" "free_place s m L (node_len n)"
    and Q: "\<And>f' L' d' post' db'. rec_state K s m f' L' db' \<Longrightarrow> settled s m {} L' \<Longrightarrow> kv_store s m L' = restored (kv_store s m L) n \<Longrightarrow>
      L' i = (st, d', pre @ n\<lparr>nd_status := FDB_KV_DELETED\<rparr> # post') \<Longrightarrow> Q (FDB_NO_ERR, db')"
  shows "holds (move_kv db (node_kv kv0 (i * s + 16 + nodes_len pre) n)) Q"
proof -
  note j = rec_stateD [OF rs] and nd = sector_node [OF rec_stateD(1) [OF rs] i]
  let ?a = "i * s + 16 + nodes_len pre" and ?kv = "node_kv kv0 (i * s + 16 + nodes_len pre) n"
  have nin: "node_in s m L ?a n" by (rule node_inI) (use i in simp_all)
  have key: "length (nd_key n) < 64" "c_string (nd_key n)" using j(3) n(2) by (auto simp: logs_ok_def key_ok_def FDB_KV_NAME_MAX_def)
  have name: "take (length (nd_key n)) (kv_name ?kv) = nd_key n" using key(1) by (simp add: node_name_take)
  have cut: "takeWhile (\<lambda>b. b \<noteq> 0) (nd_key n) = nd_key n" using key(2) by (simp add: c_string_def list_all_iff takeWhile_eq_all_conv)
  have small: "node_len n + FDB_SEC_REMAIN_THRESHOLD < 2 ^ 64"
    using nd(7) sector_addr(5) [OF kv_relD(1) [OF j(1)] i(1)] storedD(5) [OF kv_relD(1) [OF j(1)]]
    by (simp add: FDB_SEC_REMAIN_THRESHOLD_def KV_HDR_DATA_SIZE_def FDB_KV_NAME_MAX_def)
  have del: "del_kv d None (Some kv) c = del_kv_node d None kv c" for d kv c by (simp add: del_kv_def)
  have fin: "holds (del_kv_node db2 None ?kv True) (\<lambda>(_, db). Q (FDB_NO_ERR, db))"
    if d2: "rec_state K s m f2 L2 db2" "settled s m {?a} L2" "kv_store s m L2 = restored (kv_store s m L) n"
      "L2 i = (st, d2, pre @ n # post2)" for f2 L2 db2 d2 post2
    by (rule recover_del [OF d2(1) i(1) d2(4) n(1) d2(2)]) (use Q d2(3) in auto)
  have found: "holds (find_kv_no_cache db1 (nd_key n) kv1) (\<lambda>(found, _, db2).
      holds (if found then Some (FDB_NO_ERR, db2) else move_kv_write db2 sec ?kv (log_end (k * s) (log_nodes (L k))))
        (\<lambda>(r, db). r = FDB_NO_ERR \<and> holds (del_kv_node db None ?kv True) (\<lambda>(_, db). Q (FDB_NO_ERR, db))))"
    if d1: "rec_state K s m f L db1" and pl: "place_ok s m L k (node_len n) sec" for db1 kv1 k sec
  proof (rule find_no_cache_ok [OF rec_stateD(1) [OF d1] j(2) key(2,1)], goal_cases)
    case (1 kv' db2)
    have no: "no_live s m L (nd_key n)" using first_live_None [OF rec_stateD(1) [OF d1]] 1(1) by simp
    have nost: "kv_store s m L (nd_key n) = None" using store_None [OF sectors_pos [OF j(1)]] no by simp
    have "holds (move_kv_write db2 sec ?kv (log_end (k * s) (log_nodes (L k))))
        (\<lambda>(r, db). r = FDB_NO_ERR \<and> holds (del_kv_node db None ?kv True) (\<lambda>(_, db). Q (FDB_NO_ERR, db)))"
    proof (rule recover_append [OF rec_state_frame [OF d1 1(2-4)] nin n(2,3) no _ _ _ _ name pl], goal_cases)
      case (5 f' L' db')
      have "\<exists>d' post'. L' i = (st, d', pre @ n # post')"
        unfolding 5(4) using i(2) nd(4) by (cases "k = i") auto
      then obtain d' post' where L': "L' i = (st, d', pre @ n # post')" by blast
      have "kv_store s m L' = restored (kv_store s m L) n" using 5(3) nost by (simp add: restored_def)
      from fin [OF 5(1,2) this L'] show ?case by simp
    qed simp_all
    then show ?case by simp
  next
    case (2 a' n' kv1' db2)
    have lv: "node_in s m L a' n'" "live (nd_key n) n'" using first_live_Some [OF rec_stateD(1) [OF d1] 2(1)] by simp_all
    have "kv_store s m L = restored (kv_store s m L) n" using store_live [OF j(1,3) lv] by (simp add: restored_def)
    from fin [OF rec_state_frame [OF d1 2(2-4)] n(3) this i(2)] show ?case by simp
  qed
  have "holds (alloc_kv db (kvdb_stack_sector db) (node_len n)) (\<lambda>(kv_addr, sector, db). kv_addr \<noteq> FAILED_ADDR \<and> kvdb_in_recovery_check db \<and>
    holds (find_kv_no_cache db (nd_key n) (kvdb_stack_kv db)) (\<lambda>(found, _, db2).
      holds (if found then Some (FDB_NO_ERR, db2) else move_kv_write db2 sector ?kv kv_addr)
        (\<lambda>(r, db). r = FDB_NO_ERR \<and> holds (del_kv_node db None ?kv True) (\<lambda>(_, db). Q (FDB_NO_ERR, db)))))"
    by (rule recover_place [OF rs n(4) small]) (use found rec_stateD(9) in auto)
  then show ?thesis
    unfolding move_kv_def del
    using key(1) n(1) name by (auto simp: cut split_def FDB_KV_NAME_MAX_def elim!: holds_mono split: if_splits)
qed


text \<open>
  The state of the recovery: at most one node, at an address in \<open>A\<close>, is still marked for deletion. \<open>M\<close> is the
  map that will be restored.
\<close>

definition rec_inv ::
  "byte list set \<Rightarrow> nat \<Rightarrow> nat \<Rightarrow> (byte list \<rightharpoonup> byte list) \<Rightarrow> addr set \<Rightarrow> (addr \<Rightarrow> byte) \<Rightarrow> (nat \<Rightarrow> sector_log) \<Rightarrow> unit \<Rightarrow> fdb_kvdb \<Rightarrow> bool"
where
  "rec_inv K s m M A f L x db \<longleftrightarrow> rec_state K s m f L db \<and> settled s m A L \<and> (A = {} \<and> kv_store s m L = M \<or>
     (\<exists>a n. A = {a} \<and> node_in s m L a n \<and> nd_status n = FDB_KV_PRE_DELETE \<and> nd_key n \<in> K \<and> free_place s m L (node_len n)
       \<and> restored (kv_store s m L) n = M))"

lemma recover_node:
  assumes inv: "rec_inv K s m M A f L x db" and i: "i < m div s" "L i = (st, d, pre @ n # post)"
  shows "holds (check_and_recovery_kv_cb (node_kv kv (i * s + 16 + nodes_len pre) n) x db) (\<lambda>(stop, x', db'). \<not> stop \<and>
    (\<exists>f' L' d' pre' n' post'. rec_inv K s m M (A - {i * s + 16 + nodes_len pre}) f' L' x' db' \<and> L' i = (st, d', pre' @ n' # post')
      \<and> nodes_len pre' = nodes_len pre \<and> node_len n' = node_len n))"
proof -
  let ?a = "i * s + 16 + nodes_len pre"
  have rs: "rec_state K s m f L db" and se: "settled s m A L" using inv by (simp_all add: rec_inv_def)
  note j = rec_stateD [OF rs]
  have nin: "node_in s m L ?a n" by (rule node_inI) (use i in simp_all)
  have out: "?a \<notin> A" if "nd_status n \<noteq> FDB_KV_PRE_DELETE"
    using inv that node_in_unique [OF j(1) nin] by (auto simp: rec_inv_def)
  have keep: "\<exists>f' L' d' pre' n' post'. rec_inv K s m M B f' L' x db' \<and> L' i = (st, d', pre' @ n' # post')
      \<and> nodes_len pre' = nodes_len pre \<and> node_len n' = node_len n" if "rec_inv K s m M B f L x db'" for B db'
    using that i(2) by blast
  consider "nd_status n = FDB_KV_WRITE" | "nd_status n = FDB_KV_DELETED" | "?a \<in> A"
    using se nin by (auto simp: settled_def)
  then show ?thesis
  proof cases
    case 1
    have key: "nd_key n \<in> K" using j(3) nin 1 by (auto simp: logs_ok_def)
    then have "length (nd_key n) < 64" using j(3) by (auto simp: logs_ok_def key_ok_def FDB_KV_NAME_MAX_def)
    then have name: "take (length (nd_key n)) (node_name (nd_key n) (kv_name kv)) = nd_key n" by (rule node_name_take)
    have "keys_ok (key_entry s m L) (kvdb_kv_cache_table (update_kv_cache db (nd_key n) ?a))"
      by (rule update_keys_ok [OF j(6)]) (use nin 1 in \<open>auto simp: key_entry_def\<close>)
    moreover have "kv_frame db (update_kv_cache db (nd_key n) ?a)" using kv_frame_io [OF io_frame_refl] by simp
    ultimately have "rec_state K s m f L (update_kv_cache db (nd_key n) ?a)"
      using j kv_frameD(2-4) [of db "update_kv_cache db (nd_key n) ?a"] by (simp add: rec_state_def)
    then have "rec_inv K s m M (A - {?a}) f L x (update_kv_cache db (nd_key n) ?a)" using inv out 1 by (simp add: rec_inv_def)
    from keep [OF this] show ?thesis using 1 name by (simp add: check_and_recovery_kv_cb_def)
  next
    case 2
    then have "rec_inv K s m M (A - {?a}) f L x db" using inv out by simp
    from keep [OF this] show ?thesis using 2 by (simp add: check_and_recovery_kv_cb_def)
  next
    case 3
    then have A: "A = {?a}" and n: "nd_status n = FDB_KV_PRE_DELETE" "nd_key n \<in> K" "free_place s m L (node_len n)"
      and M: "restored (kv_store s m L) n = M"
      using inv node_in_unique [OF j(1) nin] by (auto simp: rec_inv_def)
    have "holds (move_kv db (node_kv kv ?a n)) (\<lambda>(r, db'). r = FDB_NO_ERR \<and>
      (\<exists>f' L' d' pre' n' post'. rec_inv K s m M (A - {?a}) f' L' x db' \<and> L' i = (st, d', pre' @ n' # post')
        \<and> nodes_len pre' = nodes_len pre \<and> node_len n' = node_len n))"
    proof (rule recover_move [OF rs i n(1,2) se [unfolded A] n(3)], goal_cases)
      case (1 f' L' d' post' db')
      have "rec_inv K s m M (A - {?a}) f' L' x db'" using 1(1-3) M A by (simp add: rec_inv_def)
      moreover have "node_len (n\<lparr>nd_status := FDB_KV_DELETED\<rparr>) = node_len n" by simp
      ultimately have "\<exists>f' L' d' pre' n' post'. rec_inv K s m M (A - {?a}) f' L' x db' \<and> L' i = (st, d', pre' @ n' # post')
        \<and> nodes_len pre' = nodes_len pre \<and> node_len n' = node_len n" using 1(4) by blast
      then show ?case by simp
    qed
    then show ?thesis using n(1) by (simp add: check_and_recovery_kv_cb_def) (erule holds_mono, clarsimp, blast)
  qed
qed

interpretation recoverer: node_worker check_and_recovery_kv_cb "rec_inv K s m M" s m for K s m M
proof unfold_locales
  fix A f L x db db' a i st d pre n post kv
  assume inv: "rec_inv K s m M A f L x db"
  show "kv_rel s m f L db" using inv by (simp add: rec_inv_def rec_state_def)
  show "rec_inv K s m M A f L x db'" if "kv_rel s m f L db'" "kv_frame db db'" "kvdb_kv_cache_table db' = kvdb_kv_cache_table db"
    using inv rec_state_frame [OF _ that] by (simp add: rec_inv_def)
  show "\<exists>n. node_in s m L a n" if "a \<in> A" using inv that by (auto simp: rec_inv_def)
  show "holds (check_and_recovery_kv_cb (node_kv kv (i * s + 16 + nodes_len pre) n) x db) (\<lambda>(stop, x', db'). \<not> stop \<and>
    (\<exists>f' L' d' pre' n' post'. rec_inv K s m M (A - {i * s + 16 + nodes_len pre}) f' L' x' db' \<and> L' i = (st, d', pre' @ n' # post')
      \<and> nodes_len pre' = nodes_len pre \<and> node_len n' = node_len n))"
    if "i < m div s" "L i = (st, d, pre @ n # post)" by (rule recover_node [OF inv that])
qed



section \<open>Loading\<close>

definition skip_visit :: "nat \<Rightarrow> sector_log \<Rightarrow> 'x \<Rightarrow> bool \<times> 'x" where
  "skip_visit i l x = (False, x)"

lemma visit_ring_skip [simp]: "visit_ring skip_visit flt L is x = (None, x)"
  by (induction "is") (simp_all add: skip_visit_def)

interpretation hdr_reader: sector_reader kv_check_sec_hdr_cb skip_visit False s gc for s gc
  by unfold_locales (auto simp: kv_check_sec_hdr_cb_def skip_visit_def sec_seen_def sec_info_ok_def split: prod.splits)

interpretation gc_mark_reader: sector_reader check_and_recovery_gc_cb skip_visit False s False for s
  by unfold_locales (auto simp: check_and_recovery_gc_cb_def skip_visit_def sec_seen_def sec_info_ok_def dirty_seen_def split: prod.splits)

lemma kv_rel_recovery [simp]: "kv_rel s m f L (db\<lparr>kvdb_in_recovery_check := b\<rparr>) = kv_rel s m f L db"
proof -
  have "stored s m f (db\<lparr>kvdb_in_recovery_check := b\<rparr>) = stored s m f db" by (rule stored_cong) simp_all
  then show ?thesis by (simp add: kv_rel_def)
qed

lemma load_recovers:
  assumes inv: "rec_inv K s m M A f L () (db\<lparr>kvdb_in_recovery_check := True\<rparr>)"
  shows "holds (fdb_kv_load db) (\<lambda>(r, db'). r = FDB_NO_ERR \<and> (\<exists>f' L'. kv_inv K s m f' L' db' \<and> kv_store s m L' = M))"
proof -
  let ?db = "db\<lparr>kvdb_in_recovery_check := True\<rparr>"
  note j = rec_stateD [OF inv [unfolded rec_inv_def, THEN conjunct1]]
  let ?Q = "\<lambda>(r, db'). r = FDB_NO_ERR \<and> (\<exists>f' L'. kv_inv K s m f' L' db' \<and> kv_store s m L' = M)"
  have keep: "rec_inv K s m M A f L () db2" if "rec_inv K s m M A f L () db1" "kv_rel s m f L db2" "kv_frame db1 db2"
    "kvdb_kv_cache_table db2 = kvdb_kv_cache_table db1" for db1 db2 by (rule recoverer.node_frame [OF that])
  have retry: "holds (fdb_kv_load_retry db1 kv) (\<lambda>db. ?Q (FDB_NO_ERR, db\<lparr>kvdb_in_recovery_check := False\<rparr>))"
    if d1: "rec_inv K s m M A f L () db1" for db1 kv
    unfolding fdb_kv_load_retry.simps [of db1] holds_bind
  proof (rule recoverer.run_nodes [OF d1 j(2)], goal_cases)
    case (1 f' L' kv' x' db')
    then have gc: "\<not> kvdb_gc_request db'" by (simp add: rec_inv_def rec_state_def)
    have "kv_inv K s m f' L' (db'\<lparr>kvdb_in_recovery_check := False\<rparr>)" "kv_store s m L' = M"
      using 1 by (auto simp: rec_inv_def rec_state_def kv_inv_def)
    with gc show ?case by auto
  qed
  have two: "holds (kv_sector_iterator db1 sec FDB_SECTOR_STORE_UNUSED () (Some check_and_recovery_gc_cb) False)
      (\<lambda>(_, _, db). holds (fdb_kv_load_retry db (kvdb_stack_kv db)) (\<lambda>db. ?Q (FDB_NO_ERR, db\<lparr>kvdb_in_recovery_check := False\<rparr>)))"
    if d1: "rec_inv K s m M A f L () db1" for db1 sec
  proof -
    have r1: "kv_rel s m f L db1" "kvdb_gc_request db1 = False" using d1 by (simp_all add: rec_inv_def rec_state_def)
    show ?thesis
      by (rule gc_mark_reader.iterate_sectors [OF r1 j(2,5)]) (use retry keep [OF d1] in auto)
  qed
  have ne: "0 \<noteq> SECTOR_NUM db1" if "kv_rel s m f L db1" for db1
    using sectors_pos [OF that] kv_relD(1) [OF that] by simp
  have "holds (kv_sector_iterator ?db (kvdb_stack_sector db) FDB_SECTOR_STORE_UNUSED 0 (Some kv_check_sec_hdr_cb) False)
    (\<lambda>(sector, c, db). c = 0 \<and> 0 \<noteq> SECTOR_NUM db \<and> rec_inv K s m M A f L () db)"
    by (rule hdr_reader.iterate_sectors [where gc = False, OF j(1) _ j(2,5)]) (use j(7) ne keep [OF inv] in auto)
  then show ?thesis
    unfolding fdb_kv_load_def holds_bind
    by (elim holds_mono) (use two in \<open>auto simp: split_def elim!: holds_mono\<close>)
qed

end
