(* ===== verification/KvCrash.thy ===== *)
theory KvCrash
  imports KvRecover
begin

text \<open>
  What is left of the database when the program ends, in order or in the middle of a call, and is started
  again on the same files.
\<close>

section \<open>Starting again\<close>

text \<open>
  \<open>db'\<close> is a new control block on the storage of \<open>db\<close>, with empty caches and no flag set, as it is passed to
  \<open>fdb_kv_load\<close>; the iteration may start at any sector.
\<close>

definition restarted :: "fdb_kvdb \<Rightarrow> fdb_kvdb \<Rightarrow> bool" where
  "restarted db db' \<longleftrightarrow> file_ok db' \<and> db_sec_size db' = db_sec_size db \<and> db_max_size db' = db_max_size db \<and> fl db' = fl db
     \<and> db_oldest_addr db' < db_max_size db' \<and> db_oldest_addr db' mod db_sec_size db' = 0 \<and> keys_unused db'
     \<and> length (kvdb_sector_cache_table db') = FDB_SECTOR_CACHE_TABLE_SIZE
     \<and> (\<forall>e \<in> set (kvdb_sector_cache_table db'). sec_addr e = FDB_DATA_UNUSED)
     \<and> \<not> kvdb_gc_request db' \<and> \<not> kvdb_last_is_complete_del db'"

lemma restarted_rel:
  assumes r: "kv_rel s m f L db" and re: "restarted db db'"
  shows "kv_rel s m f L db'" "keys_ok P (kvdb_kv_cache_table db')" "\<not> kvdb_gc_request db'" "\<not> kvdb_last_is_complete_del db'"
proof -
  note rel = kv_relD [OF r] and re' = re [unfolded restarted_def]
  have st: "stored s m f db'" using rel(1) re' unfolding stored_def by metis
  note g = stored_geometry [OF st]
  have tab: "table_ok s m L (kvdb_sector_cache_table db')" by (rule table_ok_unused) (use re' in blast)+
  have o: "db_oldest_addr db' < m" "db_oldest_addr db' mod s = 0" using re' unfolding g by blast+
  show "kv_rel s m f L db'" unfolding kv_rel_def by (intro conjI st tab rel(2) o)
  show "keys_ok P (kvdb_kv_cache_table db')" "\<not> kvdb_gc_request db'" "\<not> kvdb_last_is_complete_del db'"
    using re' keys_unused_ok by blast+
qed

text \<open>A database on storage that is in order, whatever the control block says.\<close>

definition kept :: "byte list set \<Rightarrow> nat \<Rightarrow> nat \<Rightarrow> (byte list \<rightharpoonup> byte list) \<Rightarrow> fdb_kvdb \<Rightarrow> bool" where
  "kept K s m M db \<longleftrightarrow> (\<forall>db'. restarted db db' \<longrightarrow>
     holds (fdb_kv_load db') (\<lambda>(r, db2). r = FDB_NO_ERR \<and> (\<exists>f L. kv_inv K s m f L db2 \<and> kv_store s m L = M)))"

lemma kept_settled:
  assumes r: "kv_rel s m f L db" and big: "m + s < 2 ^ 32" and ok: "logs_ok K s m L" "has_empty s m L" "marks_ok False (m div s) L"
    and se: "settled s m {} L"
  shows "kept K s m (kv_store s m L) db"
  unfolding kept_def
proof (intro allI impI)
  fix db'
  assume "restarted db db'"
  note re = restarted_rel [OF r this]
  have "rec_inv K s m (kv_store s m L) {} f L () (db'\<lparr>kvdb_in_recovery_check := True\<rparr>)"
    using re big ok se by (simp add: rec_inv_def rec_state_def)
  then show "holds (fdb_kv_load db') (\<lambda>(r, db2). r = FDB_NO_ERR \<and> (\<exists>f' L'. kv_inv K s m f' L' db2 \<and> kv_store s m L' = kv_store s m L))"
    by (rule load_recovers)
qed



section \<open>Setting a key step by step\<close>

text \<open>
  The first \<open>k\<close> of the three steps in which \<open>set_kv\<close> changes the storage: the old node is marked, the new one is
  written, the old one is deleted.
\<close>

definition set_prefix :: "nat \<Rightarrow> fdb_kvdb \<Rightarrow> byte list \<Rightarrow> byte list \<Rightarrow> nat \<Rightarrow> (fdb_err_t \<times> fdb_kvdb) option" where
  "set_prefix k db key value_bytes buf_len =
     do {
       (kv_is_found, kv, db) \<leftarrow> find_kv db key (kvdb_cur_kv db);
       let db = db\<lparr>kvdb_cur_kv := kv\<rparr>;
       (result, db) \<leftarrow> (if kv_is_found \<and> 1 \<le> k then del_kv db (Some key) (Some (kvdb_cur_kv db)) False
                        else Some (FDB_NO_ERR, db));
       (result, db) \<leftarrow>
         (if result = FDB_NO_ERR \<and> 2 \<le> k then do {
            (result, sector, db) \<leftarrow> create_kv_blob db (kvdb_cur_sector db) key value_bytes buf_len;
            Some (result, db\<lparr>kvdb_cur_sector := sector\<rparr>)
          } else Some (result, db));
       if kv_is_found \<and> result = FDB_NO_ERR \<and> 3 \<le> k
       then del_kv db (Some key) (Some (kvdb_cur_kv db)) True
       else Some (result, db)
     }"

text \<open>All three steps are what \<open>set_kv\<close> does, before a garbage collection that was asked for meanwhile.\<close>

lemma set_write_prefix:
  "set_kv_write db key v len = do {
     (result, db) \<leftarrow> set_prefix 3 db key v len;
     db \<leftarrow> (if kvdb_gc_request db
            then gc_collect_by_free_size db (u64 (KV_HDR_DATA_SIZE + FDB_WG_ALIGN (strlen key) + FDB_WG_ALIGN len))
            else Some db);
     Some (result, db) }"
  by (simp add: set_kv_write_def set_prefix_def Let_def split_def bind_assoc cong: if_cong)





lemma kept_inv: "kv_inv K s m f L db \<Longrightarrow> kept K s m (kv_store s m L) db"
  by (rule kept_settled) (auto simp: kv_inv_def)





section \<open>Properties\<close>

lemma clear_restarted:
  assumes inv: "kv_inv K s m f L db"
  shows "restarted db (kvdb_clear_caches db)"
proof -
  note i = kv_invD [OF inv] and rel = kv_relD [OF kv_invD(1) [OF inv]]
  have "stored s m f (kvdb_clear_caches db) = stored s m f db" by (rule stored_cong) (simp_all add: kvdb_clear_caches_def)
  then have st: "file_ok (kvdb_clear_caches db)" "fl (kvdb_clear_caches db) = fl db" using rel(1) unfolding stored_def by metis+
  have "length (kvdb_sector_cache_table db) = FDB_SECTOR_CACHE_TABLE_SIZE" using rel(3) by (simp add: table_ok_def)
  moreover have "length (kvdb_kv_cache_table db) = FDB_KV_CACHE_TABLE_SIZE" using i(4) by (simp add: keys_ok_def)
  moreover have "db_oldest_addr db < db_max_size db" "db_oldest_addr db mod db_sec_size db = 0"
    unfolding stored_geometry [OF rel(1)] by (fact rel)+
  ultimately show ?thesis
    unfolding restarted_def
    by (intro conjI st) (use i(5,6) in \<open>simp_all add: kvdb_clear_caches_def keys_unused_def\<close>)
qed

text \<open>
  C3: the contents survive a restart: after any calls, loading the same files with a new control block
  (empty caches, any start of the iteration) returns without error and represents the same map.
\<close>

theorem kv_survives_restart:
  assumes "kv_inv K s m f L db" "restarted db db'"
  shows "holds (fdb_kv_load db') (\<lambda>(r, db2). r = FDB_NO_ERR \<and> (\<exists>f' L'. kv_inv K s m f' L' db2 \<and> kv_store s m L' = kv_store s m L))"
  using kept_inv [OF assms(1)] assms(2) by (simp add: kept_def)

theorem kv_survives_restart_witness:
  "\<exists>f db. kv_inv demo_keys 4096 16384 f no_logs db \<and> holds (fdb_kv_load (kvdb_clear_caches db)) (\<lambda>(r, db2). r = FDB_NO_ERR
     \<and> (\<exists>f' L'. kv_inv demo_keys 4096 16384 f' L' db2 \<and> kv_store 4096 16384 L' = kv_store 4096 16384 no_logs))"
proof -
  obtain f db where d: "kv_inv demo_keys 4096 16384 f no_logs db" using demo_empty by blast
  show ?thesis
    by (rule exI [of _ f], rule exI [of _ db], rule conjI [OF d kv_survives_restart [OF d clear_restarted [OF d]]])
qed



end
