(* ===== verification/Tsdb.thy ===== *)
theory Tsdb
  imports FdbInit
begin

text \<open>
  The time-series database (\<open>fdb_tsdb.c\<close>): the data, reading and iterating. A sector holds an array
  of index nodes that grows up from its header and the log data that grows down from its end.
  Timestamps are signed 32-bit integers. The constants that the file shares by name with
  \<open>fdb_kvdb.c\<close> have the prefix \<open>TS\<close> or \<open>ts\<close>.
\<close>

section \<open>Data\<close>

text \<open>
  \<open>struct sector_hdr_data\<close> of this file has byte arrays up to the last member: status at 0, magic at
  1, start time at 5, two records of time, index and status at 9 and 18, \<open>reserved\<close> at 28.
  \<open>struct log_idx_data\<close> has its status at 0, then time, length and address at 4, 8 and 12.
\<close>

definition TS_SECTOR_MAGIC_WORD :: nat where "TS_SECTOR_MAGIC_WORD = 0x304C5354"
definition TS_SECTOR_HDR_DATA_SIZE :: nat where "TS_SECTOR_HDR_DATA_SIZE = FDB_WG_ALIGN 32"
definition LOG_IDX_DATA_SIZE :: nat where "LOG_IDX_DATA_SIZE = FDB_WG_ALIGN 16"
definition LOG_IDX_TS_OFFSET :: nat where "LOG_IDX_TS_OFFSET = 4"
definition TS_SECTOR_MAGIC_OFFSET :: nat where "TS_SECTOR_MAGIC_OFFSET = 1"
definition SECTOR_START_TIME_OFFSET :: nat where "SECTOR_START_TIME_OFFSET = 5"
definition SECTOR_END0_TIME_OFFSET :: nat where "SECTOR_END0_TIME_OFFSET = 9"
definition SECTOR_END0_IDX_OFFSET :: nat where "SECTOR_END0_IDX_OFFSET = 13"
definition SECTOR_END0_STATUS_OFFSET :: nat where "SECTOR_END0_STATUS_OFFSET = 17"
definition SECTOR_END1_TIME_OFFSET :: nat where "SECTOR_END1_TIME_OFFSET = 18"
definition SECTOR_END1_IDX_OFFSET :: nat where "SECTOR_END1_IDX_OFFSET = 22"
definition SECTOR_END1_STATUS_OFFSET :: nat where "SECTOR_END1_STATUS_OFFSET = 26"
definition TS_FAILED_ADDR :: addr where "TS_FAILED_ADDR = 0xFFFFFFFF"

lemmas ts_layout [fdb_layout] =
  TS_SECTOR_MAGIC_WORD_def TS_SECTOR_HDR_DATA_SIZE_def LOG_IDX_DATA_SIZE_def LOG_IDX_TS_OFFSET_def
  TS_SECTOR_MAGIC_OFFSET_def SECTOR_START_TIME_OFFSET_def SECTOR_END0_TIME_OFFSET_def
  SECTOR_END0_IDX_OFFSET_def SECTOR_END0_STATUS_OFFSET_def SECTOR_END1_TIME_OFFSET_def
  SECTOR_END1_IDX_OFFSET_def SECTOR_END1_STATUS_OFFSET_def TS_FAILED_ADDR_def

record fdb_tsl =
  tsl_status :: fdb_tsl_status
  tsl_time :: int
  tsl_log_len :: nat
  tsl_addr_index :: addr
  tsl_addr_log :: addr

record tsdb_sec_info =
  ts_check_ok :: bool
  ts_status :: fdb_sector_store_status
  ts_addr :: addr
  ts_magic :: nat
  ts_start_time :: int
  ts_end_time :: int
  ts_end_idx :: addr
  ts_end_info_stat0 :: fdb_tsl_status
  ts_end_info_stat1 :: fdb_tsl_status
  ts_remain :: nat
  ts_empty_idx :: addr
  ts_empty_data :: addr

text \<open>
  \<open>tsdb_get_time\<close> says whether a clock function is registered; what a call of it returns is an
  argument of the functions that call it. \<open>tsdb_stack_sector\<close> and \<open>tsdb_stack_tsl\<close> are what a
  local variable of the type holds before it is assigned.
\<close>

record fdb_tsdb = fdb_db +
  tsdb_cur_sec :: tsdb_sec_info
  tsdb_last_time :: int
  tsdb_get_time :: bool
  tsdb_max_len :: nat
  tsdb_rollover :: bool
  tsdb_stack_sector :: tsdb_sec_info
  tsdb_stack_tsl :: fdb_tsl

definition time_of :: "byte list \<Rightarrow> int" where
  "time_of bs = s32_of_u32 (le32_dec bs)"

definition time_bytes :: "int \<Rightarrow> byte list" where
  "time_bytes t = le32 (u32_of_s32 t)"


section \<open>Reading index nodes and sector headers\<close>

definition read_tsl :: "fdb_tsdb \<Rightarrow> fdb_tsl \<Rightarrow> (fdb_err_t \<times> fdb_tsl \<times> fdb_tsdb) option" where
  "read_tsl db tsl =
     do {
       (_, idx, db) \<leftarrow> fdb_flash_read db (tsl_addr_index tsl) (uninit (db_io db) 16) 16;
       let tsl = tsl\<lparr>tsl_status := tsl_status_of
                       (fdb_get_status FDB_WRITE_GRAN (take 1 idx) FDB_TSL_STATUS_NUM)\<rparr>;
       Some (FDB_NO_ERR,
         (if tsl_status tsl = FDB_TSL_PRE_WRITE \<or> tsl_status tsl = FDB_TSL_UNUSED
          then tsl\<lparr>tsl_log_len := u32 (tsdb_max_len db), tsl_addr_log := FDB_DATA_UNUSED, tsl_time := 0\<rparr>
          else tsl\<lparr>tsl_log_len := le32_dec (take 4 (drop 8 idx)),
                   tsl_addr_log := le32_dec (take 4 (drop 12 idx)),
                   tsl_time := time_of (take 4 (drop 4 idx))\<rparr>), db)
     }"

definition ts_get_next_sector_addr :: "fdb_tsdb \<Rightarrow> tsdb_sec_info \<Rightarrow> nat \<Rightarrow> addr" where
  "ts_get_next_sector_addr db pre_sec traversed_len =
     (if u32 (traversed_len + db_sec_size db) \<le> db_max_size db then
        if u32 (ts_addr pre_sec + db_sec_size db) < db_max_size db
        then u32 (ts_addr pre_sec + db_sec_size db)
        else 0
      else TS_FAILED_ADDR)"

definition get_next_tsl_addr :: "tsdb_sec_info \<Rightarrow> fdb_tsl \<Rightarrow> addr" where
  "get_next_tsl_addr sector pre_tsl =
     (if ts_status sector = FDB_SECTOR_STORE_EMPTY then TS_FAILED_ADDR
      else if tsl_addr_index pre_tsl + LOG_IDX_DATA_SIZE \<le> ts_end_idx sector
        then u32 (tsl_addr_index pre_tsl + LOG_IDX_DATA_SIZE)
      else TS_FAILED_ADDR)"

definition get_last_tsl_addr :: "tsdb_sec_info \<Rightarrow> fdb_tsl \<Rightarrow> addr" where
  "get_last_tsl_addr sector pre_tsl =
     (if ts_status sector = FDB_SECTOR_STORE_EMPTY then TS_FAILED_ADDR
      else if tsl_addr_index pre_tsl \<ge> ts_addr sector + TS_SECTOR_HDR_DATA_SIZE + LOG_IDX_DATA_SIZE
        then u32 (tsl_addr_index pre_tsl - LOG_IDX_DATA_SIZE)
      else TS_FAILED_ADDR)"

definition get_last_sector_addr :: "fdb_tsdb \<Rightarrow> tsdb_sec_info \<Rightarrow> nat \<Rightarrow> addr" where
  "get_last_sector_addr db pre_sec traversed_len =
     (if u32 (traversed_len + db_sec_size db) \<le> db_max_size db then
        if ts_addr pre_sec \<ge> db_sec_size db then ts_addr pre_sec - db_sec_size db
        else sub32 (db_max_size db) (db_sec_size db)
      else TS_FAILED_ADDR)"

text \<open>The \<open>while\<close> loop over the index nodes; the result is the error code and the sector.\<close>

partial_function (option) ts_read_sector_loop ::
  "fdb_tsdb \<Rightarrow> tsdb_sec_info \<Rightarrow> fdb_tsl \<Rightarrow> (fdb_err_t \<times> tsdb_sec_info \<times> fdb_tsdb) option"
where
  "ts_read_sector_loop db sector tsl =
     do {
       (_, tsl, db) \<leftarrow> read_tsl db tsl;
       if tsl_status tsl = FDB_TSL_UNUSED then Some (FDB_NO_ERR, sector, db)
       else
         let sector = (if tsl_status tsl \<noteq> FDB_TSL_PRE_WRITE
                       then sector\<lparr>ts_end_time := tsl_time tsl\<rparr> else sector);
             sector = sector\<lparr>ts_end_idx := tsl_addr_index tsl,
                             ts_empty_idx := u32 (ts_empty_idx sector + LOG_IDX_DATA_SIZE),
                             ts_empty_data := sub32 (ts_empty_data sector) (FDB_WG_ALIGN (tsl_log_len tsl))\<rparr>;
             need = LOG_IDX_DATA_SIZE + FDB_WG_ALIGN (tsl_log_len tsl)
         in if ts_remain sector > need
            then ts_read_sector_loop db (sector\<lparr>ts_remain := ts_remain sector - need\<rparr>)
                   (tsl\<lparr>tsl_addr_index := u32 (tsl_addr_index tsl + LOG_IDX_DATA_SIZE)\<rparr>)
            else Some (FDB_READ_ERR, sector\<lparr>ts_remain := 0\<rparr>, db)
     }"

text \<open>The header fields that \<open>read_sector_info\<close> copies once the magic word is right.\<close>

definition ts_sector_of_hdr :: "tsdb_sec_info \<Rightarrow> byte list \<Rightarrow> tsdb_sec_info" where
  "ts_sector_of_hdr sector raw =
     (let sector = sector\<lparr>ts_check_ok := True,
            ts_status := store_status_of
              (fdb_get_status FDB_WRITE_GRAN (take 1 raw) FDB_SECTOR_STORE_STATUS_NUM),
            ts_start_time := time_of (take 4 (drop SECTOR_START_TIME_OFFSET raw)),
            ts_end_info_stat0 := tsl_status_of
              (fdb_get_status FDB_WRITE_GRAN (take 1 (drop SECTOR_END0_STATUS_OFFSET raw)) FDB_TSL_STATUS_NUM),
            ts_end_info_stat1 := tsl_status_of
              (fdb_get_status FDB_WRITE_GRAN (take 1 (drop SECTOR_END1_STATUS_OFFSET raw)) FDB_TSL_STATUS_NUM)\<rparr>
      in if ts_end_info_stat0 sector = FDB_TSL_WRITE then
           sector\<lparr>ts_end_time := time_of (take 4 (drop SECTOR_END0_TIME_OFFSET raw)),
                  ts_end_idx := le32_dec (take 4 (drop SECTOR_END0_IDX_OFFSET raw))\<rparr>
         else if ts_end_info_stat1 sector = FDB_TSL_WRITE then
           sector\<lparr>ts_end_time := time_of (take 4 (drop SECTOR_END1_TIME_OFFSET raw)),
                  ts_end_idx := le32_dec (take 4 (drop SECTOR_END1_IDX_OFFSET raw))\<rparr>
         else sector)"

definition ts_read_sector_info ::
  "fdb_tsdb \<Rightarrow> addr \<Rightarrow> tsdb_sec_info \<Rightarrow> bool \<Rightarrow> (fdb_err_t \<times> tsdb_sec_info \<times> fdb_tsdb) option"
where
  "ts_read_sector_info db a sector traversal =
     do {
       (_, raw, db) \<leftarrow> fdb_flash_read db a (uninit (db_io db) 32) 32;
       let sector = sector\<lparr>ts_addr := a,
                           ts_magic := le32_dec (take 4 (drop TS_SECTOR_MAGIC_OFFSET raw))\<rparr>
       in if ts_magic sector \<noteq> TS_SECTOR_MAGIC_WORD
          then Some (FDB_INIT_FAILED, sector\<lparr>ts_check_ok := False\<rparr>, db)
          else
            let sector = ts_sector_of_hdr sector raw in
            if ts_end_info_stat0 sector \<noteq> FDB_TSL_WRITE \<and> ts_end_info_stat1 sector \<noteq> FDB_TSL_WRITE
               \<and> ts_end_info_stat0 sector = FDB_TSL_PRE_WRITE \<and> ts_end_info_stat1 sector = FDB_TSL_PRE_WRITE
            then None
            else
              let empty_idx = u32 (ts_addr sector + TS_SECTOR_HDR_DATA_SIZE);
                  empty_data = u32 (ts_addr sector + db_sec_size db);
                  sector = sector\<lparr>ts_empty_idx := empty_idx, ts_empty_data := empty_data,
                                  ts_remain := sub32 empty_data empty_idx\<rparr>
              in if ts_status sector = FDB_SECTOR_STORE_USING \<and> traversal
                 then ts_read_sector_loop db sector ((tsdb_stack_tsl db)\<lparr>tsl_addr_index := empty_idx\<rparr>)
                 else Some (FDB_NO_ERR, sector, db)
     }"

definition ts_format_sector :: "fdb_tsdb \<Rightarrow> addr \<Rightarrow> (fdb_err_t \<times> fdb_tsdb) option" where
  "ts_format_sector db a =
     (if db_sec_size db = 0 \<or> a mod db_sec_size db \<noteq> 0 then None
      else do {
        (result, db) \<leftarrow> fdb_flash_erase db a (db_sec_size db);
        if result = FDB_NO_ERR then do {
          (result, db) \<leftarrow> fdb_write_status db a FDB_SECTOR_STORE_STATUS_NUM
                            (store_status_num FDB_SECTOR_STORE_EMPTY) True;
          if result \<noteq> FDB_NO_ERR then Some (result, db)
          else fdb_flash_write db (u32 (a + TS_SECTOR_MAGIC_OFFSET)) (le32 TS_SECTOR_MAGIC_WORD) True
        }
        else Some (result, db)
      })"

type_synonym 'x ts_sec_callback =
  "tsdb_sec_info \<Rightarrow> 'x \<Rightarrow> fdb_tsdb \<Rightarrow> (bool \<times> 'x \<times> fdb_tsdb) option"

partial_function (option) ts_sector_iterator_loop ::
  "fdb_tsdb \<Rightarrow> tsdb_sec_info \<Rightarrow> addr \<Rightarrow> nat \<Rightarrow> fdb_sector_store_status \<Rightarrow> 'x
     \<Rightarrow> 'x ts_sec_callback option \<Rightarrow> bool \<Rightarrow> (tsdb_sec_info \<times> 'x \<times> fdb_tsdb) option"
where
  "ts_sector_iterator_loop db sector a traversed_len status arg callback traversal =
     do {
       (_, sector, db) \<leftarrow> ts_read_sector_info db a sector False;
       (stop, sector, arg, db) \<leftarrow>
         (if status = FDB_SECTOR_STORE_UNUSED \<or> status = ts_status sector then do {
            (sector, db) \<leftarrow> (if traversal then do {
                               (_, sector, db) \<leftarrow> ts_read_sector_info db a sector True;
                               Some (sector, db)
                             } else Some (sector, db));
            case callback of
              None \<Rightarrow> Some (False, sector, arg, db)
            | Some cb \<Rightarrow> do {
                (stop, arg, db) \<leftarrow> cb sector arg db;
                Some (stop, sector, arg, db)
              }
          }
          else Some (False, sector, arg, db));
       if stop then Some (sector, arg, db)
       else
         let traversed_len = u32 (traversed_len + db_sec_size db);
             a = ts_get_next_sector_addr db sector traversed_len
         in if a \<noteq> TS_FAILED_ADDR
            then ts_sector_iterator_loop db sector a traversed_len status arg callback traversal
            else Some (sector, arg, db)
     }"

definition ts_sector_iterator ::
  "fdb_tsdb \<Rightarrow> tsdb_sec_info \<Rightarrow> fdb_sector_store_status \<Rightarrow> 'x \<Rightarrow> 'x ts_sec_callback option \<Rightarrow> bool
     \<Rightarrow> (tsdb_sec_info \<times> 'x \<times> fdb_tsdb) option"
where
  "ts_sector_iterator db sector status arg callback traversal =
     ts_sector_iterator_loop db sector (ts_addr sector) 0 status arg callback traversal"

end
