(* ===== verification/TsAppend.thy ===== *)
theory TsAppend
  imports Tsdb
begin

text \<open>
  Changing the time-series database (\<open>fdb_tsdb.c\<close>): appending a log with the change of sector,
  status of a log, formatting, initialisation and options.
\<close>

section \<open>Appending\<close>

text \<open>
  The bytes of \<open>blob->buf\<close> that a write of \<open>blob->size\<close> takes; a buffer that is shorter, or a null
  pointer, has no meaning unless the size is 0.
\<close>

definition blob_data :: "fdb_blob \<Rightarrow> byte list option" where
  "blob_data blob =
     (case blob_buf blob of
        None \<Rightarrow> if blob_size blob = 0 then Some [] else None
      | Some buf \<Rightarrow> if blob_size blob \<le> length buf then Some (take (blob_size blob) buf) else None)"

definition write_tsl :: "fdb_tsdb \<Rightarrow> fdb_blob \<Rightarrow> int \<Rightarrow> (fdb_err_t \<times> fdb_tsdb) option" where
  "write_tsl db blob time =
     do {
       let idx_addr = ts_empty_idx (tsdb_cur_sec db);
       let log_addr = u32 (sub64 (ts_empty_data (tsdb_cur_sec db)) (FDB_WG_ALIGN (blob_size blob)));
       (result, db) \<leftarrow> fdb_write_status db idx_addr FDB_TSL_STATUS_NUM
                         (tsl_status_num FDB_TSL_PRE_WRITE) False;
       if result \<noteq> FDB_NO_ERR then Some (result, db)
       else do {
         (result, db) \<leftarrow> fdb_flash_write db (u32 (idx_addr + LOG_IDX_TS_OFFSET))
                           (time_bytes time @ le32 (u32 (blob_size blob)) @ le32 log_addr) False;
         if result \<noteq> FDB_NO_ERR then Some (result, db)
         else do {
           data \<leftarrow> blob_data blob;
           (result, db) \<leftarrow> fdb_flash_write_align db log_addr data;
           if result \<noteq> FDB_NO_ERR then Some (result, db)
           else fdb_write_status db idx_addr FDB_TSL_STATUS_NUM (tsl_status_num FDB_TSL_WRITE) True
         }
       }
     }"

text \<open>One of the two records of the end node: status, time, index, status.\<close>

definition ts_save_end_info ::
  "fdb_tsdb \<Rightarrow> addr \<Rightarrow> addr \<Rightarrow> addr \<Rightarrow> byte list \<Rightarrow> byte list \<Rightarrow> (fdb_err_t \<times> fdb_tsdb) option"
where
  "ts_save_end_info db status_addr time_addr idx_addr time index =
     do {
       (result, db) \<leftarrow> fdb_write_status db status_addr FDB_TSL_STATUS_NUM
                         (tsl_status_num FDB_TSL_PRE_WRITE) False;
       if result \<noteq> FDB_NO_ERR then Some (result, db)
       else do {
         (result, db) \<leftarrow> fdb_flash_write db time_addr time False;
         if result \<noteq> FDB_NO_ERR then Some (result, db)
         else do {
           (result, db) \<leftarrow> fdb_flash_write db idx_addr index False;
           if result \<noteq> FDB_NO_ERR then Some (result, db)
           else fdb_write_status db status_addr FDB_TSL_STATUS_NUM (tsl_status_num FDB_TSL_WRITE) True
         }
       }
     }"

text \<open>
  The first branch of \<open>update_sec_status\<close> up to the status \<open>FULL\<close>. The argument \<open>sector\<close> of the
  C function is always \<open>&db->cur_sec\<close>.
\<close>

definition ts_close_sector :: "fdb_tsdb \<Rightarrow> (fdb_err_t \<times> fdb_tsdb) option" where
  "ts_close_sector db =
     (let sector = tsdb_cur_sec db;
          cur_sec_addr = ts_addr sector;
          index = le32 (u32 (sub64 (ts_empty_idx sector) LOG_IDX_DATA_SIZE));
          time = time_bytes (tsdb_last_time db)
      in do {
        (result, db) \<leftarrow>
          (if ts_end_info_stat0 sector = FDB_TSL_UNUSED then
             ts_save_end_info db (u32 (cur_sec_addr + SECTOR_END0_STATUS_OFFSET))
               (u32 (cur_sec_addr + SECTOR_END0_TIME_OFFSET)) (u32 (cur_sec_addr + SECTOR_END0_IDX_OFFSET))
               time index
           else if ts_end_info_stat1 sector = FDB_TSL_UNUSED then
             ts_save_end_info db (u32 (cur_sec_addr + SECTOR_END1_STATUS_OFFSET))
               (u32 (cur_sec_addr + SECTOR_END1_TIME_OFFSET)) (u32 (cur_sec_addr + SECTOR_END1_IDX_OFFSET))
               time index
           else Some (FDB_NO_ERR, db));
        if result \<noteq> FDB_NO_ERR then Some (result, db)
        else do {
          (result, db) \<leftarrow> fdb_write_status db cur_sec_addr FDB_SECTOR_STORE_STATUS_NUM
                            (store_status_num FDB_SECTOR_STORE_FULL) True;
          if result \<noteq> FDB_NO_ERR then Some (result, db)
          else Some (FDB_NO_ERR,
                     db\<lparr>tsdb_cur_sec := (tsdb_cur_sec db)\<lparr>ts_status := FDB_SECTOR_STORE_FULL\<rparr>\<rparr>)
        }
      })"

text \<open>The rest of that branch: the next sector becomes the current one and is erased if needed.\<close>

definition ts_open_next_sector :: "fdb_tsdb \<Rightarrow> addr \<Rightarrow> fdb_tsdb option" where
  "ts_open_next_sector db new_sec_addr =
     do {
       (_, sector, db) \<leftarrow> ts_read_sector_info db new_sec_addr (tsdb_cur_sec db) False;
       let db = db\<lparr>tsdb_cur_sec := sector\<rparr>;
       if ts_status (tsdb_cur_sec db) \<noteq> FDB_SECTOR_STORE_EMPTY then do {
         let db = db\<lparr>db_oldest_addr :=
                      (if u32 (new_sec_addr + db_sec_size db) < db_max_size db
                       then u32 (new_sec_addr + db_sec_size db) else 0)\<rparr>;
         (_, db) \<leftarrow> ts_format_sector db new_sec_addr;
         (_, sector, db) \<leftarrow> ts_read_sector_info db new_sec_addr (tsdb_cur_sec db) False;
         Some (db\<lparr>tsdb_cur_sec := sector\<rparr>)
       }
       else Some db
     }"

text \<open>The two parts of \<open>update_sec_status\<close>: leaving a sector without room, and using an empty one.\<close>

definition ts_leave_sector :: "fdb_tsdb \<Rightarrow> fdb_blob \<Rightarrow> (fdb_err_t \<times> fdb_tsdb) option" where
  "ts_leave_sector db blob =
     (if ts_status (tsdb_cur_sec db) = FDB_SECTOR_STORE_USING
         \<and> ts_remain (tsdb_cur_sec db) < u64 (LOG_IDX_DATA_SIZE + FDB_WG_ALIGN (blob_size blob))
      then do {
        (result, db) \<leftarrow> ts_close_sector db;
        if result \<noteq> FDB_NO_ERR then Some (result, db)
        else if u32 (ts_addr (tsdb_cur_sec db) + db_sec_size db) < db_max_size db then do {
          db \<leftarrow> ts_open_next_sector db (u32 (ts_addr (tsdb_cur_sec db) + db_sec_size db));
          Some (FDB_NO_ERR, db)
        }
        else if tsdb_rollover db then do {
          db \<leftarrow> ts_open_next_sector db 0;
          Some (FDB_NO_ERR, db)
        }
        else Some (FDB_SAVED_FULL, db)
      }
      else if ts_status (tsdb_cur_sec db) = FDB_SECTOR_STORE_FULL then Some (FDB_SAVED_FULL, db)
      else Some (FDB_NO_ERR, db))"

definition ts_use_sector :: "fdb_tsdb \<Rightarrow> int \<Rightarrow> (fdb_err_t \<times> fdb_tsdb) option" where
  "ts_use_sector db cur_time =
     (if ts_status (tsdb_cur_sec db) = FDB_SECTOR_STORE_EMPTY then do {
        let db = db\<lparr>tsdb_cur_sec := (tsdb_cur_sec db)\<lparr>ts_status := FDB_SECTOR_STORE_USING,
                                                        ts_start_time := cur_time\<rparr>\<rparr>;
        (result, db) \<leftarrow> fdb_write_status db (ts_addr (tsdb_cur_sec db)) FDB_SECTOR_STORE_STATUS_NUM
                          (store_status_num FDB_SECTOR_STORE_USING) True;
        if result \<noteq> FDB_NO_ERR then Some (result, db)
        else fdb_flash_write db (u32 (ts_addr (tsdb_cur_sec db) + SECTOR_START_TIME_OFFSET))
               (time_bytes cur_time) True
      }
      else Some (FDB_NO_ERR, db))"

definition ts_update_sec_status :: "fdb_tsdb \<Rightarrow> fdb_blob \<Rightarrow> int \<Rightarrow> (fdb_err_t \<times> fdb_tsdb) option" where
  "ts_update_sec_status db blob cur_time =
     do {
       (result, db) \<leftarrow> ts_leave_sector db blob;
       if result \<noteq> FDB_NO_ERR then Some (result, db)
       else ts_use_sector db cur_time
     }"

text \<open>\<open>cur_time\<close> is the value of \<open>db->get_time()\<close> or the given timestamp.\<close>

definition tsl_append :: "fdb_tsdb \<Rightarrow> fdb_blob \<Rightarrow> int \<Rightarrow> (fdb_err_t \<times> fdb_tsdb) option" where
  "tsl_append db blob cur_time =
     (if blob_size blob > tsdb_max_len db then Some (FDB_WRITE_ERR, db)
      else if cur_time \<le> tsdb_last_time db then Some (FDB_WRITE_ERR, db)
      else do {
        (result, db) \<leftarrow> ts_update_sec_status db blob cur_time;
        if result \<noteq> FDB_NO_ERR then Some (result, db)
        else do {
          (result, db) \<leftarrow> write_tsl db blob cur_time;
          if result \<noteq> FDB_NO_ERR then Some (result, db)
          else
            let sec = tsdb_cur_sec db; need = LOG_IDX_DATA_SIZE + FDB_WG_ALIGN (blob_size blob) in
            Some (FDB_NO_ERR,
              db\<lparr>tsdb_cur_sec := sec\<lparr>ts_end_idx := ts_empty_idx sec, ts_end_time := cur_time,
                    ts_empty_idx := u32 (ts_empty_idx sec + LOG_IDX_DATA_SIZE),
                    ts_empty_data := u32 (sub64 (ts_empty_data sec) (FDB_WG_ALIGN (blob_size blob))),
                    ts_remain := sub64 (ts_remain sec) (u64 need)\<rparr>,
                 tsdb_last_time := cur_time\<rparr>)
        }
      })"

definition fdb_tsl_append :: "fdb_tsdb \<Rightarrow> fdb_blob \<Rightarrow> int \<Rightarrow> (fdb_err_t \<times> fdb_tsdb) option" where
  "fdb_tsl_append db blob now =
     (if \<not> db_init_ok db then Some (FDB_INIT_FAILED, db)
      else do {
        (result, db) \<leftarrow> tsl_append (db_lock db) blob now;
        Some (result, db_unlock db)
      })"

definition fdb_tsl_append_with_ts :: "fdb_tsdb \<Rightarrow> fdb_blob \<Rightarrow> int \<Rightarrow> (fdb_err_t \<times> fdb_tsdb) option" where
  "fdb_tsl_append_with_ts db blob timestamp =
     (if \<not> db_init_ok db then Some (FDB_INIT_FAILED, db)
      else do {
        (result, db) \<leftarrow> tsl_append (db_lock db) blob timestamp;
        Some (result, db_unlock db)
      })"

definition fdb_tsl_set_status ::
  "fdb_tsdb \<Rightarrow> fdb_tsl \<Rightarrow> fdb_tsl_status \<Rightarrow> (fdb_err_t \<times> fdb_tsdb) option"
where
  "fdb_tsl_set_status db tsl status =
     fdb_write_status db (tsl_addr_index tsl) FDB_TSL_STATUS_NUM (tsl_status_num status) True"

definition fdb_tsl_to_blob :: "fdb_tsl \<Rightarrow> fdb_blob \<Rightarrow> fdb_blob" where
  "fdb_tsl_to_blob tsl blob =
     blob\<lparr>blob_addr := tsl_addr_log tsl, blob_meta_addr := tsl_addr_index tsl,
          blob_len := tsl_log_len tsl\<rparr>"


section \<open>Formatting\<close>

definition format_all_cb :: "unit ts_sec_callback" where
  "format_all_cb sector arg db =
     do {
       (_, db) \<leftarrow> ts_format_sector db (ts_addr sector);
       Some (False, arg, db)
     }"

definition tsl_format_all :: "fdb_tsdb \<Rightarrow> fdb_tsdb option" where
  "tsl_format_all db =
     do {
       (_, _, db) \<leftarrow> ts_sector_iterator db ((tsdb_stack_sector db)\<lparr>ts_addr := 0\<rparr>)
                       FDB_SECTOR_STORE_UNUSED () (Some format_all_cb) False;
       let db = db\<lparr>db_oldest_addr := 0, tsdb_cur_sec := (tsdb_cur_sec db)\<lparr>ts_addr := 0\<rparr>,
                   tsdb_last_time := 0\<rparr>;
       (_, sector, db) \<leftarrow> ts_read_sector_info db (ts_addr (tsdb_cur_sec db)) (tsdb_cur_sec db) False;
       Some (db\<lparr>tsdb_cur_sec := sector\<rparr>)
     }"

definition fdb_tsl_clean :: "fdb_tsdb \<Rightarrow> fdb_tsdb option" where
  "fdb_tsl_clean db =
     do {
       db \<leftarrow> tsl_format_all (db_lock db);
       Some (db_unlock db)
     }"


section \<open>Initialisation and options\<close>

record check_sec_hdr_cb_args =
  cs_check_failed :: bool
  cs_empty_num :: nat
  cs_empty_addr :: addr

definition ts_check_sec_hdr_cb :: "check_sec_hdr_cb_args ts_sec_callback" where
  "ts_check_sec_hdr_cb sector arg db =
     (if \<not> ts_check_ok sector then Some (True, arg\<lparr>cs_check_failed := True\<rparr>, db)
      else if ts_status sector = FDB_SECTOR_STORE_USING then
        if ts_addr (tsdb_cur_sec db) = FDB_DATA_UNUSED
        then Some (False, arg, db\<lparr>tsdb_cur_sec := sector\<rparr>)
        else Some (True, arg\<lparr>cs_check_failed := True\<rparr>, db)
      else if ts_status sector = FDB_SECTOR_STORE_EMPTY then
        let arg = arg\<lparr>cs_empty_num := cs_empty_num arg + 1, cs_empty_addr := ts_addr sector\<rparr> in
        Some (False, arg,
              if cs_empty_num arg = 1 \<and> ts_addr (tsdb_cur_sec db) = FDB_DATA_UNUSED
              then db\<lparr>tsdb_cur_sec := sector\<rparr> else db)
      else Some (False, arg, db))"

definition tsdb_locate :: "fdb_tsdb \<Rightarrow> check_sec_hdr_cb_args \<Rightarrow> fdb_tsdb" where
  "tsdb_locate db arg =
     (let (latest_addr, db) =
            (if cs_empty_num arg > 0 then (cs_empty_addr arg, db)
             else if tsdb_rollover db then (ts_addr (tsdb_cur_sec db), db)
             else let a = sub32 (db_max_size db) (db_sec_size db)
                  in (a, db\<lparr>tsdb_cur_sec := (tsdb_cur_sec db)\<lparr>ts_addr := a\<rparr>\<rparr>))
      in db\<lparr>db_oldest_addr :=
             (if u32 (latest_addr + db_sec_size db) \<ge> db_max_size db then 0
              else u32 (latest_addr + db_sec_size db))\<rparr>)"

text \<open>The end of the initialisation: the current sector and the time of the last log.\<close>

definition tsdb_load_last :: "fdb_tsdb \<Rightarrow> fdb_tsdb option" where
  "tsdb_load_last db =
     do {
       (_, sector, db) \<leftarrow> ts_read_sector_info db (ts_addr (tsdb_cur_sec db)) (tsdb_cur_sec db) True;
       let db = db\<lparr>tsdb_cur_sec := sector\<rparr>;
       if ts_status sector = FDB_SECTOR_STORE_USING then Some (db\<lparr>tsdb_last_time := ts_end_time sector\<rparr>)
       else if ts_status sector = FDB_SECTOR_STORE_EMPTY \<and> db_oldest_addr db \<noteq> ts_addr sector then do {
         let a = (if ts_addr sector = 0 then sub32 (db_max_size db) (db_sec_size db)
                  else sub32 (ts_addr sector) (db_sec_size db));
         (_, sec, db) \<leftarrow> ts_read_sector_info db a (tsdb_stack_sector db) False;
         Some (db\<lparr>tsdb_last_time := ts_end_time sec\<rparr>)
       }
       else Some db
     }"

text \<open>
  When the check fails and the database must not be formatted, the C code leaves by \<open>goto __exit\<close>
  without a call of \<open>db_unlock\<close>.
\<close>

definition fdb_tsdb_init ::
  "fdb_tsdb \<Rightarrow> string \<Rightarrow> string \<Rightarrow> bool \<Rightarrow> nat \<Rightarrow> nat \<Rightarrow> (fdb_err_t \<times> fdb_tsdb) option"
where
  "fdb_tsdb_init db name path get_time max_len user_data =
     (if \<not> get_time then None
      else do {
        (result, db) \<leftarrow> fdb_init_ex db name path FDB_DB_TYPE_TS user_data;
        if result \<noteq> FDB_NO_ERR then Some (result, fdb_init_finish db result)
        else do {
          let db = db_lock db;
          let db = db\<lparr>tsdb_get_time := get_time, tsdb_max_len := max_len, tsdb_rollover := True,
                      db_oldest_addr := FDB_DATA_UNUSED,
                      tsdb_cur_sec := (tsdb_cur_sec db)\<lparr>ts_addr := FDB_DATA_UNUSED\<rparr>\<rparr>;
          if \<not> max_len < db_sec_size db then None
          else do {
            (_, arg, db) \<leftarrow> ts_sector_iterator db ((tsdb_stack_sector db)\<lparr>ts_addr := 0\<rparr>)
               FDB_SECTOR_STORE_UNUSED
               \<lparr>cs_check_failed = False, cs_empty_num = 0, cs_empty_addr = 0\<rparr>
               (Some ts_check_sec_hdr_cb) True;
            if cs_check_failed arg \<and> db_not_formatable db
            then Some (FDB_READ_ERR, fdb_init_finish db FDB_READ_ERR)
            else do {
              db \<leftarrow> (if cs_check_failed arg then tsl_format_all db else Some (tsdb_locate db arg));
              db \<leftarrow> tsdb_load_last db;
              let db = db_unlock db;
              Some (FDB_NO_ERR, fdb_init_finish db FDB_NO_ERR)
            }
          }
        }
      })"

definition fdb_tsdb_deinit :: "fdb_tsdb \<Rightarrow> (fdb_err_t \<times> fdb_tsdb) option" where
  "fdb_tsdb_deinit db = do { db \<leftarrow> fdb_deinit db; Some (FDB_NO_ERR, db) }"

end
