(* ===== verification/TsIter.thy ===== *)
theory TsIter
  imports TsAppend
begin

text \<open>
  Reading the time-series database back (\<open>fdb_tsdb.c\<close>): the forward and the backward iterator, the
  binary search for a start time and the iterator over a time interval, counting, and the options.
\<close>

section \<open>Iterators\<close>

text \<open>A user's callback gets the log, its argument and the database, and says whether to stop.\<close>

type_synonym 'x tsl_callback = "fdb_tsl \<Rightarrow> 'x \<Rightarrow> fdb_tsdb \<Rightarrow> (bool \<times> 'x \<times> fdb_tsdb) option"

text \<open>The loop over the logs of one sector, where \<open>step\<close> is \<open>get_next_tsl_addr\<close> or
  \<open>get_last_tsl_addr\<close>.\<close>

partial_function (option) tsl_iter_sector ::
  "(tsdb_sec_info \<Rightarrow> fdb_tsl \<Rightarrow> addr) \<Rightarrow> fdb_tsdb \<Rightarrow> tsdb_sec_info \<Rightarrow> fdb_tsl \<Rightarrow> 'x \<Rightarrow> 'x tsl_callback
     \<Rightarrow> (bool \<times> fdb_tsl \<times> 'x \<times> fdb_tsdb) option"
where
  "tsl_iter_sector step db sector tsl arg cb =
     do {
       (_, tsl, db) \<leftarrow> read_tsl db tsl;
       (stop, arg, db) \<leftarrow> cb tsl arg db;
       if stop then Some (True, tsl, arg, db)
       else
         let a = step sector tsl; tsl = tsl\<lparr>tsl_addr_index := a\<rparr> in
         if a \<noteq> TS_FAILED_ADDR then tsl_iter_sector step db sector tsl arg cb
         else Some (False, tsl, arg, db)
     }"

partial_function (option) tsl_iter_loop ::
  "fdb_tsdb \<Rightarrow> tsdb_sec_info \<Rightarrow> addr \<Rightarrow> nat \<Rightarrow> fdb_tsl \<Rightarrow> 'x \<Rightarrow> 'x tsl_callback \<Rightarrow> ('x \<times> fdb_tsdb) option"
where
  "tsl_iter_loop db sector a traversed_len tsl arg cb =
     (let traversed_len = u32 (traversed_len + db_sec_size db) in
      do {
        (result, sector, db) \<leftarrow> ts_read_sector_info db a sector False;
        (stop, sector, tsl, arg, db) \<leftarrow>
          (if result = FDB_NO_ERR
              \<and> (ts_status sector = FDB_SECTOR_STORE_USING \<or> ts_status sector = FDB_SECTOR_STORE_FULL)
           then do {
             let sector = (if ts_status sector = FDB_SECTOR_STORE_USING then tsdb_cur_sec db else sector);
             (stop, tsl, arg, db) \<leftarrow> tsl_iter_sector get_next_tsl_addr db sector
                (tsl\<lparr>tsl_addr_index := u32 (ts_addr sector + TS_SECTOR_HDR_DATA_SIZE)\<rparr>) arg cb;
             Some (stop, sector, tsl, arg, db)
           }
           else Some (False, sector, tsl, arg, db));
        if stop then Some (arg, db)
        else
          let a = ts_get_next_sector_addr db sector traversed_len in
          if a \<noteq> TS_FAILED_ADDR then tsl_iter_loop db sector a traversed_len tsl arg cb
          else Some (arg, db)
      })"

text \<open>A database that is not initialised is only reported; the iteration goes on, as in the source.\<close>

definition fdb_tsl_iter :: "fdb_tsdb \<Rightarrow> 'x tsl_callback option \<Rightarrow> 'x \<Rightarrow> ('x \<times> fdb_tsdb) option" where
  "fdb_tsl_iter db callback arg =
     (case callback of
        None \<Rightarrow> Some (arg, db)
      | Some cb \<Rightarrow> do {
          let a = db_oldest_addr db;
          let db = db_lock db;
          (arg, db) \<leftarrow> tsl_iter_loop db (tsdb_stack_sector db) a 0 (tsdb_stack_tsl db) arg cb;
          Some (arg, db_unlock db)
        })"

partial_function (option) tsl_iter_reverse_loop ::
  "fdb_tsdb \<Rightarrow> tsdb_sec_info \<Rightarrow> addr \<Rightarrow> nat \<Rightarrow> fdb_tsl \<Rightarrow> 'x \<Rightarrow> 'x tsl_callback \<Rightarrow> ('x \<times> fdb_tsdb) option"
where
  "tsl_iter_reverse_loop db sector a traversed_len tsl arg cb =
     (let traversed_len = u32 (traversed_len + db_sec_size db) in
      do {
        (result, sector, db) \<leftarrow> ts_read_sector_info db a sector False;
        (stop, sector, tsl, arg, db) \<leftarrow>
          (if result \<noteq> FDB_NO_ERR then Some (False, sector, tsl, arg, db)
           else if ts_status sector = FDB_SECTOR_STORE_USING \<or> ts_status sector = FDB_SECTOR_STORE_FULL
           then do {
             let sector = (if ts_status sector = FDB_SECTOR_STORE_USING then tsdb_cur_sec db else sector);
             (stop, tsl, arg, db) \<leftarrow> tsl_iter_sector get_last_tsl_addr db sector
                (tsl\<lparr>tsl_addr_index := ts_end_idx sector\<rparr>) arg cb;
             Some (stop, sector, tsl, arg, db)
           }
           else Some (True, sector, tsl, arg, db));
        if stop then Some (arg, db)
        else
          let a = get_last_sector_addr db sector traversed_len in
          if a \<noteq> TS_FAILED_ADDR then tsl_iter_reverse_loop db sector a traversed_len tsl arg cb
          else Some (arg, db)
      })"

definition fdb_tsl_iter_reverse :: "fdb_tsdb \<Rightarrow> 'x tsl_callback option \<Rightarrow> 'x \<Rightarrow> ('x \<times> fdb_tsdb) option" where
  "fdb_tsl_iter_reverse db callback arg =
     (case callback of
        None \<Rightarrow> Some (arg, db)
      | Some cb \<Rightarrow> do {
          let a = ts_addr (tsdb_cur_sec db);
          let db = db_lock db;
          (arg, db) \<leftarrow> tsl_iter_reverse_loop db (tsdb_stack_sector db) a 0 (tsdb_stack_tsl db) arg cb;
          Some (arg, db_unlock db)
        })"


section \<open>The binary search for a start time\<close>

text \<open>
  \<open>start\<close> and \<open>end\<close> are C \<open>int\<close> values. The middle is computed with the truncating division of
  \<open>int\<close> and rounded up to an index node in the arithmetic of \<open>size_t\<close>; only its residue modulo
  \<open>2 ^ 32\<close> is kept.
\<close>

definition u32_of_int :: "int \<Rightarrow> nat" where
  "u32_of_int x = nat (x mod 2 ^ 32)"

definition search_mid :: "int \<Rightarrow> int \<Rightarrow> nat" where
  "search_mid start end =
     (let half = (if start \<le> end then (end - start) div 2 else - ((start - end) div 2));
          up = half + int LOG_IDX_DATA_SIZE - 1
      in u32_of_int (start + (up - up mod int LOG_IDX_DATA_SIZE)))"

partial_function (option) search_start_tsl_loop ::
  "fdb_tsdb \<Rightarrow> fdb_tsl \<Rightarrow> int \<Rightarrow> int \<Rightarrow> int \<Rightarrow> int \<Rightarrow> (int \<times> fdb_tsdb) option"
where
  "search_start_tsl_loop db tsl start end from to =
     do {
       (_, tsl, db) \<leftarrow> read_tsl db (tsl\<lparr>tsl_addr_index := search_mid start end\<rparr>);
       if tsl_time tsl = from then Some (s32_of_u32 (tsl_addr_index tsl), db)
       else
         let start = (if tsl_time tsl < from
                      then s32_of_u32 (u32 (tsl_addr_index tsl + LOG_IDX_DATA_SIZE)) else start);
             end = (if tsl_time tsl > from
                    then s32_of_u32 (u32 (sub64 (tsl_addr_index tsl) LOG_IDX_DATA_SIZE)) else end)
         in if start > end then
              if from > to then do {
                (_, tsl, db) \<leftarrow> read_tsl db (tsl\<lparr>tsl_addr_index := u32_of_int start\<rparr>);
                Some (if tsl_time tsl > from
                      then s32_of_u32 (u32_of_int (start - int LOG_IDX_DATA_SIZE)) else start, db)
              }
              else Some (start, db)
            else search_start_tsl_loop db tsl start end from to
     }"

definition search_start_tsl_addr ::
  "fdb_tsdb \<Rightarrow> int \<Rightarrow> int \<Rightarrow> int \<Rightarrow> int \<Rightarrow> (int \<times> fdb_tsdb) option"
where
  "search_start_tsl_addr db start end from to =
     search_start_tsl_loop db (tsdb_stack_tsl db) start end from to"


section \<open>The iterator over a time interval\<close>

partial_function (option) tsl_iter_time_sector ::
  "fdb_tsdb \<Rightarrow> tsdb_sec_info \<Rightarrow> fdb_tsl \<Rightarrow> int \<Rightarrow> int \<Rightarrow> 'x \<Rightarrow> 'x tsl_callback
     \<Rightarrow> (bool \<times> fdb_tsl \<times> 'x \<times> fdb_tsdb) option"
where
  "tsl_iter_time_sector db sector tsl from to arg cb =
     do {
       (_, tsl, db) \<leftarrow> read_tsl db tsl;
       (stop, arg, db) \<leftarrow>
         (if tsl_status tsl \<noteq> FDB_TSL_UNUSED then
            if (from \<le> to \<and> tsl_time tsl \<ge> from \<and> tsl_time tsl \<le> to)
               \<or> (from > to \<and> tsl_time tsl \<le> from \<and> tsl_time tsl \<ge> to)
            then cb tsl arg db
            else Some (True, arg, db)
          else Some (False, arg, db));
       if stop then Some (True, tsl, arg, db)
       else
         let a = (if from \<le> to then get_next_tsl_addr else get_last_tsl_addr) sector tsl;
             tsl = tsl\<lparr>tsl_addr_index := a\<rparr>
         in if a \<noteq> TS_FAILED_ADDR then tsl_iter_time_sector db sector tsl from to arg cb
            else Some (False, tsl, arg, db)
     }"

text \<open>Whether the sector is where the interval starts.\<close>

definition tsl_sector_matches :: "tsdb_sec_info \<Rightarrow> bool \<Rightarrow> int \<Rightarrow> int \<Rightarrow> bool" where
  "tsl_sector_matches sector at_start from to \<longleftrightarrow>
     (from \<le> to \<and> ((at_start \<and> from \<le> ts_start_time sector) \<or> from \<le> ts_end_time sector))
     \<or> (from > to \<and> ((at_start \<and> from \<ge> ts_end_time sector) \<or> from \<ge> ts_start_time sector))"

partial_function (option) tsl_iter_time_loop ::
  "fdb_tsdb \<Rightarrow> tsdb_sec_info \<Rightarrow> addr \<Rightarrow> addr \<Rightarrow> nat \<Rightarrow> bool \<Rightarrow> fdb_tsl \<Rightarrow> int \<Rightarrow> int \<Rightarrow> 'x \<Rightarrow> 'x tsl_callback
     \<Rightarrow> ('x \<times> fdb_tsdb) option"
where
  "tsl_iter_time_loop db sector a start_addr traversed_len found tsl from to arg cb =
     (let traversed_len = u32 (traversed_len + db_sec_size db) in
      do {
        (result, sector, db) \<leftarrow> ts_read_sector_info db a sector False;
        (stop, found, sector, tsl, arg, db) \<leftarrow>
          (if result \<noteq> FDB_NO_ERR then Some (False, found, sector, tsl, arg, db)
           else if ts_status sector = FDB_SECTOR_STORE_USING \<or> ts_status sector = FDB_SECTOR_STORE_FULL
           then do {
             let sector = (if ts_status sector = FDB_SECTOR_STORE_USING then tsdb_cur_sec db else sector);
             if found \<or> tsl_sector_matches sector (a = start_addr) from to then do {
               (i, db) \<leftarrow> search_start_tsl_addr db
                  (s32_of_u32 (u32 (ts_addr sector + TS_SECTOR_HDR_DATA_SIZE)))
                  (s32_of_u32 (ts_end_idx sector)) from to;
               (stop, tsl, arg, db) \<leftarrow> tsl_iter_time_sector db sector
                  (tsl\<lparr>tsl_addr_index := u32_of_int i\<rparr>) from to arg cb;
               Some (stop, True, sector, tsl, arg, db)
             }
             else Some (False, found, sector, tsl, arg, db)
           }
           else Some (ts_status sector = FDB_SECTOR_STORE_EMPTY, found, sector, tsl, arg, db));
        if stop then Some (arg, db)
        else
          let a = (if from \<le> to then ts_get_next_sector_addr db sector traversed_len
                   else get_last_sector_addr db sector traversed_len) in
          if a \<noteq> TS_FAILED_ADDR
          then tsl_iter_time_loop db sector a start_addr traversed_len found tsl from to arg cb
          else Some (arg, db)
      })"

definition fdb_tsl_iter_by_time ::
  "fdb_tsdb \<Rightarrow> int \<Rightarrow> int \<Rightarrow> 'x tsl_callback option \<Rightarrow> 'x \<Rightarrow> ('x \<times> fdb_tsdb) option"
where
  "fdb_tsl_iter_by_time db from to callback arg =
     (let start_addr = (if from \<le> to then db_oldest_addr db else ts_addr (tsdb_cur_sec db)) in
      case callback of
        None \<Rightarrow> Some (arg, db)
      | Some cb \<Rightarrow> do {
          let db = db_lock db;
          (arg, db) \<leftarrow> tsl_iter_time_loop db (tsdb_stack_sector db) start_addr start_addr 0 False
                         (tsdb_stack_tsl db) from to arg cb;
          Some (arg, db_unlock db)
        })"

definition query_count_cb :: "fdb_tsl_status \<Rightarrow> nat tsl_callback" where
  "query_count_cb status tsl count db =
     Some (False, if tsl_status tsl = status then u64 (count + 1) else count, db)"

definition fdb_tsl_query_count ::
  "fdb_tsdb \<Rightarrow> int \<Rightarrow> int \<Rightarrow> fdb_tsl_status \<Rightarrow> (nat \<times> fdb_tsdb) option"
where
  "fdb_tsl_query_count db from to status =
     (if \<not> db_init_ok db then Some (0, db)
      else fdb_tsl_iter_by_time db from to (Some (query_count_cb status)) 0)"


section \<open>Options\<close>

definition FDB_TSDB_CTRL_SET_SEC_SIZE :: int where "FDB_TSDB_CTRL_SET_SEC_SIZE = 0"
definition FDB_TSDB_CTRL_GET_SEC_SIZE :: int where "FDB_TSDB_CTRL_GET_SEC_SIZE = 1"
definition FDB_TSDB_CTRL_SET_LOCK :: int where "FDB_TSDB_CTRL_SET_LOCK = 2"
definition FDB_TSDB_CTRL_SET_UNLOCK :: int where "FDB_TSDB_CTRL_SET_UNLOCK = 3"
definition FDB_TSDB_CTRL_SET_ROLLOVER :: int where "FDB_TSDB_CTRL_SET_ROLLOVER = 4"
definition FDB_TSDB_CTRL_GET_ROLLOVER :: int where "FDB_TSDB_CTRL_GET_ROLLOVER = 5"
definition FDB_TSDB_CTRL_GET_LAST_TIME :: int where "FDB_TSDB_CTRL_GET_LAST_TIME = 6"
definition FDB_TSDB_CTRL_SET_FILE_MODE :: int where "FDB_TSDB_CTRL_SET_FILE_MODE = 9"
definition FDB_TSDB_CTRL_SET_MAX_SIZE :: int where "FDB_TSDB_CTRL_SET_MAX_SIZE = 10"
definition FDB_TSDB_CTRL_SET_NOT_FORMAT :: int where "FDB_TSDB_CTRL_SET_NOT_FORMAT = 11"

lemmas tsdb_ctrl_defs [fdb_layout] =
  FDB_TSDB_CTRL_SET_SEC_SIZE_def FDB_TSDB_CTRL_GET_SEC_SIZE_def FDB_TSDB_CTRL_SET_LOCK_def
  FDB_TSDB_CTRL_SET_UNLOCK_def FDB_TSDB_CTRL_SET_ROLLOVER_def FDB_TSDB_CTRL_GET_ROLLOVER_def
  FDB_TSDB_CTRL_GET_LAST_TIME_def FDB_TSDB_CTRL_SET_FILE_MODE_def FDB_TSDB_CTRL_SET_MAX_SIZE_def
  FDB_TSDB_CTRL_SET_NOT_FORMAT_def

definition fdb_tsdb_control :: "fdb_tsdb \<Rightarrow> int \<Rightarrow> ctrl_arg \<Rightarrow> (ctrl_arg \<times> fdb_tsdb) option" where
  "fdb_tsdb_control db cmd arg =
     (if cmd = FDB_TSDB_CTRL_SET_SEC_SIZE then
        (case arg of Arg_u32 n \<Rightarrow> if db_init_ok db then None else Some (arg, db\<lparr>db_sec_size := n\<rparr>)
         | _ \<Rightarrow> None)
      else if cmd = FDB_TSDB_CTRL_GET_SEC_SIZE then
        (case arg of Arg_u32 _ \<Rightarrow> Some (Arg_u32 (db_sec_size db), db) | _ \<Rightarrow> None)
      else if cmd = FDB_TSDB_CTRL_SET_LOCK then
        (case arg of Arg_fn f \<Rightarrow> Some (arg, db\<lparr>db_lock_fn := f\<rparr>) | _ \<Rightarrow> None)
      else if cmd = FDB_TSDB_CTRL_SET_UNLOCK then
        (case arg of Arg_fn f \<Rightarrow> Some (arg, db\<lparr>db_unlock_fn := f\<rparr>) | _ \<Rightarrow> None)
      else if cmd = FDB_TSDB_CTRL_SET_ROLLOVER then
        (case arg of Arg_bool b \<Rightarrow> if db_init_ok db then Some (arg, db\<lparr>tsdb_rollover := b\<rparr>) else None
         | _ \<Rightarrow> None)
      else if cmd = FDB_TSDB_CTRL_GET_ROLLOVER then
        (case arg of Arg_bool _ \<Rightarrow> Some (Arg_bool (tsdb_rollover db), db) | _ \<Rightarrow> None)
      else if cmd = FDB_TSDB_CTRL_GET_LAST_TIME then
        (case arg of Arg_time _ \<Rightarrow> Some (Arg_time (tsdb_last_time db), db) | _ \<Rightarrow> None)
      else if cmd = FDB_TSDB_CTRL_SET_FILE_MODE then
        (case arg of Arg_bool b \<Rightarrow> if db_init_ok db then None else Some (arg, db\<lparr>db_file_mode := b\<rparr>)
         | _ \<Rightarrow> None)
      else if cmd = FDB_TSDB_CTRL_SET_MAX_SIZE then
        (case arg of Arg_u32 n \<Rightarrow> if db_init_ok db then None else Some (arg, db\<lparr>db_max_size := n\<rparr>)
         | _ \<Rightarrow> None)
      else if cmd = FDB_TSDB_CTRL_SET_NOT_FORMAT then
        (case arg of Arg_bool b \<Rightarrow> if db_init_ok db then None else Some (arg, db\<lparr>db_not_formatable := b\<rparr>)
         | _ \<Rightarrow> None)
      else Some (arg, db))"

end
