(* ===== verification/TsImage.thy ===== *)
theory TsImage
  imports TsIter FlashImage
begin

text \<open>
  The logs of a time-series sector as a list, the bytes that store them, and what the reading functions of
  \<open>fdb_tsdb.c\<close> return on such bytes.
\<close>

section \<open>Logs and sectors as bytes\<close>

record ts_log =
  lg_time :: int
  lg_data :: "byte list"
  lg_status :: fdb_tsl_status

definition log_ok :: "ts_log \<Rightarrow> bool" where
  "log_ok l \<longleftrightarrow> - (2 ^ 31) \<le> lg_time l \<and> lg_time l < 2 ^ 31 \<and> lg_status l \<notin> {FDB_TSL_UNUSED, FDB_TSL_PRE_WRITE}"

text \<open>The data of the logs grow down from the end of the sector, their index nodes up from its header.\<close>

definition data_len :: "ts_log list \<Rightarrow> nat" where
  "data_len L = sum_list (map (\<lambda>l. length (lg_data l)) L)"

definition used_len :: "ts_log list \<Rightarrow> nat" where
  "used_len L = 32 + 16 * length L + data_len L"

definition idx_addr :: "addr \<Rightarrow> nat \<Rightarrow> addr" where
  "idx_addr b i = b + 32 + 16 * i"

definition data_addr :: "nat \<Rightarrow> addr \<Rightarrow> ts_log list \<Rightarrow> nat \<Rightarrow> addr" where
  "data_addr s b L i = b + s - data_len (take (Suc i) L)"

definition log_at :: "(addr \<Rightarrow> byte) \<Rightarrow> addr \<Rightarrow> addr \<Rightarrow> ts_log \<Rightarrow> bool" where
  "log_at f a d l \<longleftrightarrow> f a = status_byte (tsl_status_num (lg_status l)) \<and> rd f (a + 4) 4 = time_bytes (lg_time l)
     \<and> rd f (a + 8) 4 = le32 (length (lg_data l)) \<and> rd f (a + 12) 4 = le32 d \<and> rd f d (length (lg_data l)) = lg_data l"

text \<open>A sector with its status and its logs; a full one has its last log recorded in the header.\<close>

definition sector_img :: "(addr \<Rightarrow> byte) \<Rightarrow> nat \<Rightarrow> addr \<Rightarrow> fdb_sector_store_status \<Rightarrow> ts_log list \<Rightarrow> bool" where
  "sector_img f s b st L \<longleftrightarrow>
     f b = status_byte (store_status_num st) \<and> rd f (b + 1) 4 = le32 TS_SECTOR_MAGIC_WORD
     \<and> f (b + 26) = 0xFF \<and> st \<noteq> FDB_SECTOR_STORE_UNUSED
     \<and> (if st = FDB_SECTOR_STORE_FULL
        then L \<noteq> [] \<and> f (b + 17) = status_byte 2 \<and> rd f (b + 9) 4 = time_bytes (lg_time (last L))
             \<and> rd f (b + 13) 4 = le32 (idx_addr b (length L - 1))
        else f (b + 17) = 0xFF)
     \<and> (st = FDB_SECTOR_STORE_EMPTY \<longrightarrow> L = [])
     \<and> used_len L \<le> s \<and> list_all log_ok L
     \<and> (\<forall>i < length L. log_at f (idx_addr b i) (data_addr s b L i) (L ! i))
     \<and> (\<forall>x. idx_addr b (length L) \<le> x \<and> x < b + s - data_len L \<longrightarrow> f x = 0xFF)"

definition start_at :: "(addr \<Rightarrow> byte) \<Rightarrow> addr \<Rightarrow> ts_log list \<Rightarrow> bool" where
  "start_at f b L \<longleftrightarrow> (L \<noteq> [] \<longrightarrow> rd f (b + 5) 4 = time_bytes (lg_time (hd L)))"

lemma data_len_simps [simp]:
  "data_len [] = 0" "data_len (l # L) = length (lg_data l) + data_len L" "data_len (L @ L') = data_len L + data_len L'"
  by (simp_all add: data_len_def)

lemma data_len_take: "data_len (take i L) + data_len (drop i L) = data_len L"
  by (metis append_take_drop_id data_len_simps(3))

lemma data_len_take_le: "data_len (take i L) \<le> data_len L"
  using data_len_take [of i L] by linarith

lemma data_len_take_Suc: "i < length L \<Longrightarrow> data_len (take (Suc i) L) = data_len (take i L) + length (lg_data (L ! i))"
  by (simp add: take_Suc_conv_app_nth)

lemma data_len_take_mono: "i \<le> j \<Longrightarrow> data_len (take i L) \<le> data_len (take j L)"
  by (metis data_len_take_le min.absorb1 take_take)

text \<open>The status bytes.\<close>

lemma tsl_status_inv [simp]: "tsl_status_of (tsl_status_num st) = st"
  by (cases st) (simp_all add: tsl_status_of_def)

lemma store_status_inv [simp]: "store_status_of (store_status_num st) = st"
  by (cases st) (simp_all add: store_status_of_def)

lemma status_num_less [simp]: "tsl_status_num st < 6" "store_status_num st' < 4"
  by (cases st; simp) (cases st'; simp)

lemma status_byte_0: "status_byte 0 = 0xFF"
  by (simp add: status_byte_def)

lemma get_tsl_status [simp]: "fdb_get_status 1 [status_byte (tsl_status_num st)] 6 = tsl_status_num st"
  by (simp add: get_status_byte)

lemma get_tsl_status_2 [simp]: "fdb_get_status 1 [status_byte 2] 6 = 2"
  by (simp add: get_status_byte)

lemma get_tsl_status_ff [simp]: "fdb_get_status 1 [0xFF] 6 = 0"
  using get_status_byte [of 0 6] by (simp add: status_byte_0)

lemma get_store_status [simp]: "fdb_get_status 1 [status_byte (store_status_num st)] 4 = store_status_num st"
  by (simp add: get_status_byte)

lemma time_of_bytes [simp]: "- (2 ^ 31) \<le> t \<Longrightarrow> t < 2 ^ 31 \<Longrightarrow> time_of (time_bytes t) = t"
  unfolding time_of_def time_bytes_def le32_dec_le32 [OF u32_of_s32_less] by (rule s32_roundtrip)

lemma length_time_bytes [simp]: "length (time_bytes t) = 4"
  by (simp add: time_bytes_def)


section \<open>Frames\<close>

lemma io_frame_ts:
  assumes "io_frame db db'"
  shows "tsdb_cur_sec db' = tsdb_cur_sec db" "tsdb_last_time db' = tsdb_last_time db" "tsdb_get_time db' = tsdb_get_time db"
    "tsdb_max_len db' = tsdb_max_len db" "tsdb_rollover db' = tsdb_rollover db" "tsdb_stack_sector db' = tsdb_stack_sector db"
    "tsdb_stack_tsl db' = tsdb_stack_tsl db"
  using assms by (cases db; cases db'; simp add: io_frame_def)+

lemma stored_ts_updates [simp]:
  "stored s m f (db\<lparr>tsdb_cur_sec := a\<rparr>) = stored s m f db"
  "stored s m f (db\<lparr>tsdb_last_time := t\<rparr>) = stored s m f db"
  "stored s m f (db\<lparr>tsdb_get_time := g\<rparr>) = stored s m f db"
  "stored s m f (db\<lparr>tsdb_max_len := n\<rparr>) = stored s m f db"
  "stored s m f (db\<lparr>tsdb_rollover := g\<rparr>) = stored s m f db"
  by (rule stored_more, simp add: fdb_db.defs)+


section \<open>Reading an index node\<close>

text \<open>What \<open>read_tsl\<close> makes of the sixteen bytes at an address.\<close>

definition tsl_at :: "(addr \<Rightarrow> byte) \<Rightarrow> nat \<Rightarrow> addr \<Rightarrow> fdb_tsl" where
  "tsl_at f max_len a =
     (let st = tsl_status_of (fdb_get_status FDB_WRITE_GRAN [f a] FDB_TSL_STATUS_NUM) in
      if st = FDB_TSL_PRE_WRITE \<or> st = FDB_TSL_UNUSED
      then \<lparr>tsl_status = st, tsl_time = 0, tsl_log_len = u32 max_len, tsl_addr_index = a, tsl_addr_log = FDB_DATA_UNUSED\<rparr>
      else \<lparr>tsl_status = st, tsl_time = time_of (rd f (a + 4) 4), tsl_log_len = le32_dec (rd f (a + 8) 4), tsl_addr_index = a,
             tsl_addr_log = le32_dec (rd f (a + 12) 4)\<rparr>)"

lemma stored_read_tsl [stored_rules]:
  assumes "stored s m f db" "in_sector s m (tsl_addr_index tsl) 16"
    and "\<And>db'. stored s m f db' \<Longrightarrow> io_frame db db' \<Longrightarrow> Q (FDB_NO_ERR, tsl_at f (tsdb_max_len db) (tsl_addr_index tsl), db')"
  shows "holds (read_tsl db tsl) Q"
  unfolding read_tsl_def holds_bind
  by (rule stored_read [OF assms(1,2)], cases tsl)
    (use assms(3) in \<open>auto simp: tsl_at_def Let_def take_rd drop_rd min_def io_frame_ts\<close>)

text \<open>An erased status byte is enough, also where the sixteen bytes reach past the end of the sector.\<close>

definition tsl_unused :: "nat \<Rightarrow> addr \<Rightarrow> fdb_tsl" where
  "tsl_unused n a = \<lparr>tsl_status = FDB_TSL_UNUSED, tsl_time = 0, tsl_log_len = u32 n, tsl_addr_index = a, tsl_addr_log = FDB_DATA_UNUSED\<rparr>"

lemma stored_read_tsl_unused:
  assumes "stored s m f db" "tsl_addr_index tsl < m" "f (tsl_addr_index tsl) = 0xFF"
    and "\<And>db'. stored s m f db' \<Longrightarrow> io_frame db db' \<Longrightarrow> Q (FDB_NO_ERR, tsl_unused (tsdb_max_len db) (tsl_addr_index tsl), db')"
  shows "holds (read_tsl db tsl) Q"
proof -
  note i = storedD [OF assms(1)]
  let ?a = "tsl_addr_index tsl" and ?n = "min 16 (s - tsl_addr_index tsl mod s)"
  have a: "?a < db_max_size db" "db_sec_size db = s" using assms(1,2) by simp_all
  obtain r db' where rd: "fdb_flash_read db ?a (uninit (db_io db) 16) 16 = Some (r, rd f ?a ?n @ drop ?n (uninit (db_io db) 16), db')"
    "file_ok db'" "io_frame db db'" "fl db' = fl db"
    by (rule fl_read [OF i(1) a(1), of "uninit (db_io db) 16" 16]) (use a(2) i(2) in auto)
  have st': "stored s m f db'" by (rule stored_frame [OF assms(1) rd(2,3)]) (use rd(4) i(2) in simp)
  have "0 < ?n" using mod_less_divisor [OF i(3), of ?a] by simp
  then have "take 1 (rd f ?a ?n @ drop ?n (uninit (db_io db) 16)) = [0xFF]"
    using assms(3) by (simp add: take_rd min_def)
  then show ?thesis
    using assms(4) [OF st' rd(3)] rd(1)
    by (cases tsl) (simp add: read_tsl_def tsl_unused_def tsl_status_of_def fdb_layout io_frame_ts [OF rd(3)])
qed

text \<open>The log number \<open>i\<close> of a sector as the program sees it.\<close>

definition tsl_of :: "nat \<Rightarrow> addr \<Rightarrow> ts_log list \<Rightarrow> nat \<Rightarrow> fdb_tsl" where
  "tsl_of s b L i = \<lparr>tsl_status = lg_status (L ! i), tsl_time = lg_time (L ! i), tsl_log_len = length (lg_data (L ! i)),
     tsl_addr_index = idx_addr b i, tsl_addr_log = data_addr s b L i\<rparr>"

lemma sector_imgD:
  assumes "sector_img f s b st L"
  shows "used_len L \<le> s" "list_all log_ok L" "\<And>i. i < length L \<Longrightarrow> log_at f (idx_addr b i) (data_addr s b L i) (L ! i)"
    "\<And>x. idx_addr b (length L) \<le> x \<Longrightarrow> x < b + s - data_len L \<Longrightarrow> f x = 0xFF" "\<And>i. i < length L \<Longrightarrow> log_ok (L ! i)"
    "st \<noteq> FDB_SECTOR_STORE_UNUSED" "st = FDB_SECTOR_STORE_EMPTY \<Longrightarrow> L = []" "st = FDB_SECTOR_STORE_FULL \<Longrightarrow> L \<noteq> []"
  using assms by (auto simp: sector_img_def list_all_length split: if_splits)

lemma sector_img_log:
  assumes "sector_img f s b st L" "b + s < 2 ^ 32" "i < length L"
  shows "tsl_at f n (idx_addr b i) = tsl_of s b L i"
proof -
  note i = sector_imgD [OF assms(1)]
  have len: "length (lg_data (L ! i)) \<le> data_len L" using data_len_take_Suc [OF assms(3)] data_len_take_le [of "Suc i" L] by linarith
  have "data_addr s b L i < 2 ^ 32" "length (lg_data (L ! i)) < 2 ^ 32"
    using len i(1) assms(2) by (simp_all add: data_addr_def used_len_def)
  then show ?thesis
    using i(3,5) [OF assms(3)] by (simp add: tsl_at_def tsl_of_def log_at_def log_ok_def fdb_layout)
qed

lemma idx_addr_Suc: "idx_addr b (Suc i) = idx_addr b i + 16"
  by (simp add: idx_addr_def)

lemma sector_img_gap:
  assumes "sector_img f s b st L" "used_len L < s"
  shows "f (idx_addr b (length L)) = 0xFF"
  by (rule sector_imgD(4) [OF assms(1)]) (use assms(2) in \<open>auto simp: idx_addr_def used_len_def\<close>)

text \<open>Where the parts of a sector lie.\<close>

lemma sector_room:
  assumes "stored s m f db" "b mod s = 0" "b < m"
  shows "b + s \<le> m" "b + s < 2 ^ 32" "k + n \<le> s \<Longrightarrow> k < s \<Longrightarrow> in_sector s m (b + k) n"
proof -
  note sd = storedD [OF assms(1)]
  show le: "b + s \<le> m" using in_sector_end [OF in_sector_base [OF sd(4) assms(2,3), of s] sd(4,3)] by simp
  then show "b + s < 2 ^ 32" using sd(5) by linarith
  show "in_sector s m (b + k) n" if "k + n \<le> s" "k < s" by (rule in_sector_at [OF sd(4) assms(2,3) that])
qed

lemma idx_in_sector:
  assumes "stored s m f db" "b mod s = 0" "b < m" "sector_img f s b st L" "i < length L"
  shows "in_sector s m (idx_addr b i) 16"
proof -
  have "32 + 16 * i + 16 \<le> s" using assms(5) sector_imgD(1) [OF assms(4)] by (simp add: used_len_def)
  then show ?thesis using sector_room(3) [OF assms(1-3), of "32 + 16 * i" 16] by (simp add: idx_addr_def add.assoc)
qed

section \<open>Reading a sector\<close>

text \<open>The information on a sector of which the first \<open>k\<close> logs have been seen.\<close>

definition sec_info :: "(addr \<Rightarrow> byte) \<Rightarrow> nat \<Rightarrow> addr \<Rightarrow> fdb_sector_store_status \<Rightarrow> ts_log list \<Rightarrow> nat \<Rightarrow> tsdb_sec_info \<Rightarrow> bool" where
  "sec_info f s b st L k sec \<longleftrightarrow>
     ts_check_ok sec \<and> ts_addr sec = b \<and> ts_status sec = st \<and> ts_start_time sec = time_of (rd f (b + 5) 4)
     \<and> ts_end_info_stat0 sec = (if st = FDB_SECTOR_STORE_FULL then FDB_TSL_WRITE else FDB_TSL_UNUSED)
     \<and> ts_end_info_stat1 sec = FDB_TSL_UNUSED
     \<and> ts_empty_idx sec = idx_addr b k \<and> ts_empty_data sec = b + s - data_len (take k L)
     \<and> ts_remain sec = s - used_len (take k L)
     \<and> (if st = FDB_SECTOR_STORE_FULL then ts_end_time sec = lg_time (last L) \<and> ts_end_idx sec = idx_addr b (length L - 1)
        else 0 < k \<longrightarrow> ts_end_time sec = lg_time (L ! (k - 1)) \<and> ts_end_idx sec = idx_addr b (k - 1))"

lemma ts_read_loop_ok:
  assumes st: "stored s m f db" and b: "b mod s = 0" "b < m"
    and img: "sector_img f s b st L" "st \<noteq> FDB_SECTOR_STORE_FULL"
    and post: "\<And>r sec' db'. sec_info f s b st L (length L) sec' \<Longrightarrow> stored s m f db' \<Longrightarrow> io_frame db db' \<Longrightarrow> Q (r, sec', db')"
    and info: "sec_info f s b st L k sec" "k \<le> length L" "tsl_addr_index tsl = idx_addr b k" "used_len (take k L) < s"
  shows "holds (ts_read_sector_loop db sec tsl) Q"
  using info post st
proof (induction "length L - k" arbitrary: k sec tsl db)
  case 0
  have k: "k = length L" using 0 by simp
  have "tsl_addr_index tsl < b + s" using 0(5) k by (simp add: 0(4) idx_addr_def used_len_def)
  then have a: "tsl_addr_index tsl < m" using sector_room(1) [OF st b] by linarith
  have ff: "f (tsl_addr_index tsl) = 0xFF" unfolding 0(4) k by (rule sector_img_gap [OF img(1)]) (use 0(5) k in simp)
  show ?case
    by (subst ts_read_sector_loop.simps, unfold holds_bind, rule stored_read_tsl_unused [OF 0(7) a ff])
      (use 0 k in \<open>auto simp: tsl_unused_def\<close>)
next
  case (Suc n)
  have k: "k < length L" using Suc by simp
  note room = sector_room [OF st b]
  have in16: "in_sector s m (tsl_addr_index tsl) 16" unfolding Suc(5) by (rule idx_in_sector [OF st b img(1) k])
  have tsl: "tsl_at f (tsdb_max_len db) (tsl_addr_index tsl) = tsl_of s b L k"
    unfolding Suc(5) by (rule sector_img_log [OF img(1) room(2) k])
  have ok: "log_ok (L ! k)" by (rule sector_imgD(5) [OF img(1) k])
  let ?sec = "sec\<lparr>ts_end_time := lg_time (L ! k), ts_end_idx := idx_addr b k, ts_empty_idx := idx_addr b (Suc k),
     ts_empty_data := b + s - data_len (take (Suc k) L)\<rparr>"
  have used: "used_len (take (Suc k) L) = used_len (take k L) + 16 + length (lg_data (L ! k))"
    using k by (simp add: used_len_def data_len_take_Suc)
  have le: "used_len (take (Suc k) L) \<le> s"
    using sector_imgD(1) [OF img(1)] k data_len_take_le [of "Suc k" L] by (simp add: used_len_def)
  have info': "sec_info f s b st L (Suc k) (?sec\<lparr>ts_remain := s - used_len (take (Suc k) L)\<rparr>)"
    using Suc(3) img(2) by (simp add: sec_info_def)
  have u: "u32 (idx_addr b k + 16) = idx_addr b (Suc k)"
    using le room(2) k by (simp add: idx_addr_def used_len_def)
  have d: "sub32 (b + s - data_len (take k L)) (length (lg_data (L ! k))) = b + s - data_len (take (Suc k) L)"
    using le k by (simp add: used_len_def data_len_take_Suc)
  have rem: "ts_remain sec = s - used_len (take k L)" "ts_empty_idx sec = idx_addr b k" "ts_empty_data sec = b + s - data_len (take k L)"
    using Suc(3) by (simp_all add: sec_info_def)
  have full: "Suc k = length L" if "\<not> used_len (take (Suc k) L) < s"
  proof -
    have "used_len (take (Suc k) L) + 16 * (length L - Suc k) \<le> used_len L"
      using k data_len_take_le [of "Suc k" L] by (simp add: used_len_def)
    then show ?thesis using that sector_imgD(1) [OF img(1)] k by linarith
  qed
  have next': "ts_remain sec > 16 + length (lg_data (L ! k)) \<longleftrightarrow> used_len (take (Suc k) L) < s"
    using used le rem(1) by linarith
  have sub: "used_len (take k L) + (16 + length (lg_data (L ! k))) = used_len (take (Suc k) L)" using used by simp
  show ?case
  proof (subst ts_read_sector_loop.simps, unfold holds_bind, rule stored_read_tsl [OF Suc(8) in16], goal_cases)
    case (1 db')
    have post: "Q (r, sec', db'')" if "sec_info f s b st L (length L) sec'" "stored s m f db''" "io_frame db' db''" for r sec' db''
      by (rule Suc(7) [OF that(1,2) io_frame_trans [OF 1(2) that(3)]])
    have fld: "tsl_status (tsl_of s b L k) = lg_status (L ! k)" "lg_status (L ! k) \<noteq> FDB_TSL_UNUSED" "lg_status (L ! k) \<noteq> FDB_TSL_PRE_WRITE"
      "tsl_time (tsl_of s b L k) = lg_time (L ! k)" "tsl_addr_index (tsl_of s b L k) = idx_addr b k"
      "tsl_log_len (tsl_of s b L k) = length (lg_data (L ! k))"
      using ok by (simp_all add: tsl_of_def log_ok_def)
    have end0: "s - used_len (take (Suc k) L) = 0" if "\<not> used_len (take (Suc k) L) < s" using that by simp
    have go: "holds (ts_read_sector_loop db' (?sec\<lparr>ts_remain := s - used_len (take (Suc k) L)\<rparr>) ((tsl_of s b L k)\<lparr>tsl_addr_index := idx_addr b (Suc k)\<rparr>)) Q"
      if "used_len (take (Suc k) L) < s"
      by (rule Suc(1) [OF _ info']) (use Suc(2) k that post 1 in auto)
    have stop: "Q (FDB_READ_ERR, ?sec\<lparr>ts_remain := 0\<rparr>, db')" if "\<not> used_len (take (Suc k) L) < s"
      by (rule post) (use info' full [OF that] end0 [OF that] 1 in simp_all)
    show ?case
      using go stop unfolding tsl prod.case Let_def
      by (simp add: fld rem(2,3) u d next' fdb_layout)
        (simp add: rem(1) sub)
  qed
qed

lemma hdr_info:
  assumes img: "sector_img f s b st L" and s: "b + s < 2 ^ 32"
  shows "sec_info f s b st L 0 ((ts_sector_of_hdr (sec\<lparr>ts_addr := b, ts_magic := mg\<rparr>) (rd f b 32))
     \<lparr>ts_empty_idx := b + 32, ts_empty_data := b + s, ts_remain := s - 32\<rparr>)"
proof -
  have t: "- (2 ^ 31) \<le> lg_time (last L) \<and> lg_time (last L) < 2 ^ 31" if "L \<noteq> []"
    using sector_imgD(5) [OF img, of "length L - 1"] that by (simp add: last_conv_nth log_ok_def)
  have i: "idx_addr b (length L - 1) < 2 ^ 32" using s sector_imgD(1) [OF img] by (simp add: idx_addr_def used_len_def)
  have tk: "take 1 (rd f b 32) = [f b]" "take 1 (drop 17 (rd f b 32)) = [f (b + 17)]" "take 1 (drop 26 (rd f b 32)) = [f (b + 26)]"
    "take 4 (drop 5 (rd f b 32)) = rd f (b + 5) 4" "take 4 (drop 9 (rd f b 32)) = rd f (b + 9) 4"
    "take 4 (drop 13 (rd f b 32)) = rd f (b + 13) 4" "take 4 (drop 18 (rd f b 32)) = rd f (b + 18) 4" "take 4 (drop 22 (rd f b 32)) = rd f (b + 22) 4"
    by (simp_all add: take_rd drop_rd min_def)
  have two: "tsl_status_of 2 = FDB_TSL_WRITE" "tsl_status_of 0 = FDB_TSL_UNUSED" by (simp_all add: tsl_status_of_def)
  show ?thesis
    using img t i
    by (auto simp: sec_info_def ts_sector_of_hdr_def sector_img_def Let_def tk fdb_layout two idx_addr_def used_len_def)
qed

lemma stored_read_sector_info [stored_rules]:
  assumes st: "stored s m f db" and b: "b mod s = 0" "b < m" and img: "sector_img f s b st L" and k: "32 < s"
    and post: "\<And>r sec' db'. sec_info f s b st L (if st = FDB_SECTOR_STORE_USING \<and> trav then length L else 0) sec' \<Longrightarrow>
       (st \<noteq> FDB_SECTOR_STORE_USING \<or> \<not> trav \<Longrightarrow> r = FDB_NO_ERR) \<Longrightarrow>
       stored s m f db' \<Longrightarrow> io_frame db db' \<Longrightarrow> Q (r, sec', db')"
  shows "holds (ts_read_sector_info db b sec trav) Q"
  unfolding ts_read_sector_info_def holds_bind
proof (rule stored_read [OF st], goal_cases)
  case 1
  have "32 \<le> s" using sector_imgD(1) [OF img] by (simp add: used_len_def)
  then show ?case by (rule in_sector_base [OF storedD(4) [OF st] b])
next
  case (2 r db1)
  note room = sector_room [OF st b]
  have s: "32 \<le> s" using sector_imgD(1) [OF img] by (simp add: used_len_def)
  have raw: "rd f b 32 @ drop 32 (uninit (db_io db) 32) = rd f b 32" by (simp add: uninit_def)
  have mg: "le32_dec (take 4 (drop 1 (rd f b 32))) = TS_SECTOR_MAGIC_WORD"
    using img by (simp add: take_rd drop_rd min_def sector_img_def fdb_layout)
  define hs where "hs = ts_sector_of_hdr (sec\<lparr>ts_addr := b, ts_magic := 0x304C5354\<rparr>) (rd f b 32)"
  have info: "sec_info f s b st L 0 (hs\<lparr>ts_empty_idx := b + 32, ts_empty_data := b + s, ts_remain := s - 32\<rparr>)"
    unfolding hs_def by (rule hdr_info [OF img room(2)])
  have hs: "ts_addr hs = b" "ts_status hs = st" "ts_end_info_stat1 hs = FDB_TSL_UNUSED" using info by (auto simp: sec_info_def)
  have u: "u32 (b + 32) = b + 32" "u32 (b + s) = b + s" "sub32 (b + s) (b + 32) = s - 32" using s room(2) by simp_all
  have loop: "holds (ts_read_sector_loop db1 (hs\<lparr>ts_empty_idx := b + 32, ts_empty_data := b + s, ts_remain := s - 32\<rparr>)
      ((tsdb_stack_tsl db1)\<lparr>tsl_addr_index := b + 32\<rparr>)) Q" if "st = FDB_SECTOR_STORE_USING" trav
    by (rule ts_read_loop_ok [OF 2(1) b img _ _ info])
      (use that k post io_frame_trans [OF 2(2)] in \<open>auto simp: idx_addr_def used_len_def\<close>)
  have stop: "Q (FDB_NO_ERR, hs\<lparr>ts_empty_idx := b + 32, ts_empty_data := b + s, ts_remain := s - 32\<rparr>, db1)"
    if "\<not> (st = FDB_SECTOR_STORE_USING \<and> trav)"
    by (rule post) (use that 2 info in auto)
  have geo: "db_sec_size db1 = s" using 2(1) by simp
  show ?case
    unfolding raw prod.case Let_def fdb_layout
    using mg loop stop hs by (simp add: fdb_layout geo u flip: hs_def)
qed

end
