(* ===== verification/TsChange.thy ===== *)
theory TsChange
  imports TsImage
begin

text \<open>
  What the writing functions of \<open>fdb_tsdb.c\<close> do to the bytes of one sector: formatting, use, a new log, closing
  and the status of a log.
\<close>

section \<open>Frames of a sector\<close>

definition same_outside :: "(addr \<Rightarrow> byte) \<Rightarrow> (addr \<Rightarrow> byte) \<Rightarrow> addr \<Rightarrow> nat \<Rightarrow> bool" where
  "same_outside f f' b s \<longleftrightarrow> (\<forall>x. x < b \<or> b + s \<le> x \<longrightarrow> f' x = f x)"

lemma same_outside_trans: "same_outside f g b s \<Longrightarrow> same_outside g h b s \<Longrightarrow> same_outside f h b s"
  by (simp add: same_outside_def)

lemma same_outside_wr: "b \<le> a \<Longrightarrow> a + length xs \<le> b + s \<Longrightarrow> same_outside f (wr f a xs) b s"
  by (auto simp: same_outside_def wr_def)

lemma log_at_cong:
  assumes "log_at f a d l" "\<And>x. a \<le> x \<Longrightarrow> x < a + 16 \<Longrightarrow> g x = f x" "\<And>x. d \<le> x \<Longrightarrow> x < d + length (lg_data l) \<Longrightarrow> g x = f x"
  shows "log_at g a d l"
proof -
  have "rd g (a + k) 4 = rd f (a + k) 4" if "k + 4 \<le> 16" for k by (rule rd_cong) (use assms(2) that in auto)
  moreover have "rd g d (length (lg_data l)) = rd f d (length (lg_data l))" by (rule rd_cong) (use assms(3) in auto)
  moreover have "g a = f a" by (rule assms(2)) auto
  ultimately show ?thesis using assms(1) by (simp add: log_at_def)
qed

lemma log_bounds:
  assumes "used_len L \<le> s" "i < length L"
  shows "idx_addr b i + 16 \<le> idx_addr b (length L)" "idx_addr b (length L) \<le> b + s - data_len L"
    "b + s - data_len L \<le> data_addr s b L i" "data_addr s b L i + length (lg_data (L ! i)) \<le> b + s"
proof -
  show "idx_addr b i + 16 \<le> idx_addr b (length L)" using assms(2) by (simp add: idx_addr_def)
  show "idx_addr b (length L) \<le> b + s - data_len L" using assms(1) by (simp add: idx_addr_def used_len_def)
  show "b + s - data_len L \<le> data_addr s b L i" using data_len_take_le [of "Suc i" L] by (simp add: data_addr_def)
  show "data_addr s b L i + length (lg_data (L ! i)) \<le> b + s"
    using assms data_len_take_le [of "Suc i" L] data_len_take_Suc [OF assms(2)] by (simp add: data_addr_def used_len_def)
qed

lemma logs_cong:
  assumes "\<forall>i < length L. log_at f (idx_addr b i) (data_addr s b L i) (L ! i)" "used_len L \<le> s"
    and "\<And>x. b + 32 \<le> x \<Longrightarrow> x < idx_addr b (length L) \<Longrightarrow> g x = f x" "\<And>x. b + s - data_len L \<le> x \<Longrightarrow> x < b + s \<Longrightarrow> g x = f x"
  shows "\<forall>i < length L. log_at g (idx_addr b i) (data_addr s b L i) (L ! i)"
proof (intro allI impI)
  fix i
  assume i: "i < length L"
  note bd = log_bounds [OF assms(2) i, of b]
  show "log_at g (idx_addr b i) (data_addr s b L i) (L ! i)"
    by (rule log_at_cong [OF assms(1) [rule_format, OF i]])
      (use assms(3,4) bd in \<open>auto simp: idx_addr_def\<close>)
qed

text \<open>A change of the header alone.\<close>

lemma sector_img_header:
  assumes "sector_img f s b st L" "\<And>x. b + 32 \<le> x \<Longrightarrow> x < b + s \<Longrightarrow> g x = f x"
    and "g b = status_byte (store_status_num st')" "rd g (b + 1) 4 = le32 TS_SECTOR_MAGIC_WORD" "g (b + 26) = 0xFF"
    and "st' \<noteq> FDB_SECTOR_STORE_UNUSED" "st' = FDB_SECTOR_STORE_EMPTY \<Longrightarrow> L = []"
    and "if st' = FDB_SECTOR_STORE_FULL
        then L \<noteq> [] \<and> g (b + 17) = status_byte 2 \<and> rd g (b + 9) 4 = time_bytes (lg_time (last L))
             \<and> rd g (b + 13) 4 = le32 (idx_addr b (length L - 1))
        else g (b + 17) = 0xFF"
  shows "sector_img g s b st' L"
proof -
  note i = sector_imgD [OF assms(1)]
  have "\<forall>i < length L. log_at g (idx_addr b i) (data_addr s b L i) (L ! i)"
    by (rule logs_cong [where f = f]) (use i assms(2) in \<open>auto simp: idx_addr_def used_len_def\<close>)
  moreover have "g x = 0xFF" if "idx_addr b (length L) \<le> x" "x < b + s - data_len L" for x
    using i(4) [OF that] assms(2) [of x] that by (simp add: idx_addr_def)
  ultimately show ?thesis using assms(3-8) i(1,2) by (simp add: sector_img_def)
qed

lemma sector_img_cong:
  assumes "sector_img f s b st L" "\<And>x. b \<le> x \<Longrightarrow> x < b + s \<Longrightarrow> g x = f x"
  shows "sector_img g s b st L"
proof -
  have s: "32 \<le> s" using sector_imgD(1) [OF assms(1)] by (simp add: used_len_def)
  have r: "rd g (b + k) 4 = rd f (b + k) 4" if "k + 4 \<le> 32" for k by (rule rd_cong) (use assms(2) that s in auto)
  have "rd g (b + 1) 4 = rd f (b + 1) 4" "rd g (b + 9) 4 = rd f (b + 9) 4" "rd g (b + 13) 4 = rd f (b + 13) 4" by (rule r; simp)+
  moreover have "g b = f b" "g (b + 26) = f (b + 26)" "g (b + 17) = f (b + 17)" by (rule assms(2); use s in simp)+
  ultimately show ?thesis
    by (intro sector_img_header [OF assms(1)]) (use assms in \<open>auto simp: sector_img_def\<close>)
qed


section \<open>Writing from a given state on\<close>

text \<open>The database holds the bytes \<open>f\<close> and differs from \<open>db0\<close> only in its streams and files.\<close>

definition reached :: "nat \<Rightarrow> nat \<Rightarrow> fdb_tsdb \<Rightarrow> (addr \<Rightarrow> byte) \<Rightarrow> fdb_tsdb \<Rightarrow> bool" where
  "reached s m db0 f db \<longleftrightarrow> stored s m f db \<and> io_frame db0 db"

named_theorems reach_rules \<open>total-correctness rules of the writing operations\<close>

lemma reachedI: "stored s m f db \<Longrightarrow> reached s m db f db"
  by (simp add: reached_def)

lemma reachedD: "reached s m db0 f db \<Longrightarrow> stored s m f db" "reached s m db0 f db \<Longrightarrow> io_frame db0 db"
  by (simp_all add: reached_def)

lemma reached_step: "reached s m db0 f db \<Longrightarrow> stored s m g db' \<Longrightarrow> io_frame db db' \<Longrightarrow> reached s m db0 g db'"
  by (auto simp: reached_def intro: io_frame_trans)

lemma reach_write [reach_rules]:
  assumes "reached s m db0 f db" "in_sector s m a (length data)" "data \<noteq> []"
    and "\<And>db'. reached s m db0 (wr f a data) db' \<Longrightarrow> Q (FDB_NO_ERR, db')"
  shows "holds (fdb_flash_write db a data sync) Q"
  by (rule stored_write [OF reachedD(1) [OF assms(1)] assms(2,3)]) (rule assms(4), rule reached_step [OF assms(1)])

lemma reach_write_align [reach_rules]:
  assumes "reached s m db0 f db" "data \<noteq> [] \<Longrightarrow> in_sector s m a (length data)"
    and "\<And>db'. reached s m db0 (wr f a data) db' \<Longrightarrow> Q (FDB_NO_ERR, db')"
  shows "holds (fdb_flash_write_align db a data) Q"
  by (rule stored_write_align [OF reachedD(1) [OF assms(1)] assms(2)]) (simp, rule assms(3), rule reached_step [OF assms(1)])

lemma reach_write_status [reach_rules]:
  assumes "reached s m db0 f db" "a < m" "0 < i" "i < num" "num \<le> 8"
    and "\<And>db'. reached s m db0 (wr f a [status_byte i]) db' \<Longrightarrow> Q (FDB_NO_ERR, db')"
  shows "holds (fdb_write_status db a num i sync) Q"
  by (rule stored_write_status [OF reachedD(1) [OF assms(1)] assms(2-5)]) (rule assms(6), rule reached_step [OF assms(1)])

lemma reach_erase [reach_rules]:
  assumes "reached s m db0 f db" "a < m" "a mod s = 0"
    and "\<And>db'. reached s m db0 (wr f a (replicate s 0xFF)) db' \<Longrightarrow> Q (FDB_NO_ERR, db')"
  shows "holds (fdb_flash_erase db a s) Q"
  by (rule stored_erase [OF reachedD(1) [OF assms(1)] assms(2,3)]) (rule assms(4), rule reached_step [OF assms(1)], simp add: FDB_BYTE_ERASED_def)

lemma le32_ne [simp]: "le32 n \<noteq> []" "time_bytes t \<noteq> []"
  by (simp_all add: le32_def time_bytes_def)


section \<open>Formatting\<close>

definition formatted :: "nat \<Rightarrow> addr \<Rightarrow> (addr \<Rightarrow> byte) \<Rightarrow> addr \<Rightarrow> byte" where
  "formatted s b f = wr (wr (wr f b (replicate s 0xFF)) b [status_byte 1]) (b + 1) (le32 TS_SECTOR_MAGIC_WORD)"

lemma formatted_img:
  assumes "32 \<le> s"
  shows "sector_img (formatted s b f) s b FDB_SECTOR_STORE_EMPTY []" "same_outside f (formatted s b f) b s"
proof -
  have "rd (formatted s b f) (b + 1) 4 = le32 TS_SECTOR_MAGIC_WORD" by (simp add: formatted_def rd_wr_same)
  then show "sector_img (formatted s b f) s b FDB_SECTOR_STORE_EMPTY []"
    using assms by (auto simp: sector_img_def used_len_def idx_addr_def) (auto simp: formatted_def wr_def)
  show "same_outside f (formatted s b f) b s" using assms by (auto simp: formatted_def same_outside_def wr_def)
qed

lemma reach_format_sector [reach_rules]:
  assumes st: "reached s m db0 f db" and b: "b mod s = 0" "b < m" "32 \<le> s"
    and post: "\<And>db'. reached s m db0 (formatted s b f) db' \<Longrightarrow> Q (FDB_NO_ERR, db')"
  shows "holds (ts_format_sector db b) Q"
proof -
  note room = sector_room [OF reachedD(1) [OF st] b(1,2)]
  have geo: "db_sec_size db = s" using reachedD(1) [OF st] by simp
  have in4: "in_sector s m (b + 1) 4" using room(3) [of 1 4] b(3) by simp
  have u: "u32 (b + 1) = b + 1" using room(2) b(3) by simp
  have ne: "(s = 0 \<or> b mod s \<noteq> 0) = False" using b(1,3) by simp
  show ?thesis
    unfolding ts_format_sector_def geo ne if_False holds_bind
    by (rule reach_erase [OF st b(2,1)])
      (auto intro!: reach_rules b(2) post simp: u in4 fdb_layout formatted_def)
qed


section \<open>A new log\<close>

definition logged :: "(addr \<Rightarrow> byte) \<Rightarrow> addr \<Rightarrow> addr \<Rightarrow> ts_log \<Rightarrow> addr \<Rightarrow> byte" where
  "logged f a d l = wr (wr (wr (wr f a [status_byte 1]) (a + 4) (time_bytes (lg_time l) @ le32 (length (lg_data l)) @ le32 d))
     d (lg_data l)) a [status_byte (tsl_status_num (lg_status l))]"

lemma logged_out: "x < a \<or> a + 16 \<le> x \<Longrightarrow> x < d \<or> d + length (lg_data l) \<le> x \<Longrightarrow> logged f a d l x = f x"
  by (auto simp: logged_def wr_def)

lemma logged_at:
  assumes "a + 16 \<le> d"
  shows "log_at (logged f a d l) a d l"
proof -
  let ?h = "time_bytes (lg_time l) @ le32 (length (lg_data l)) @ le32 d"
  have h: "rd (logged f a d l) (a + 4 + k) 4 = take 4 (drop k ?h)" if "k \<le> 8" for k
    using that assms by (simp add: logged_def rd_wr_disjoint rd_wr_sub)
  have "rd (logged f a d l) d (length (lg_data l)) = lg_data l"
    unfolding logged_def using assms by (subst rd_wr_disjoint) (simp_all add: rd_wr_same)
  moreover have "logged f a d l a = status_byte (tsl_status_num (lg_status l))" by (simp add: logged_def wr_def)
  ultimately show ?thesis
    using h [of 0] h [of 4] h [of 8] by (simp add: log_at_def add.assoc)
qed

lemma logged_img:
  assumes img: "sector_img f s b FDB_SECTOR_STORE_USING L" and fits: "used_len (L @ [l]) \<le> s" and l: "log_ok l"
  defines "g \<equiv> logged f (idx_addr b (length L)) (b + s - data_len (L @ [l])) l"
  shows "sector_img g s b FDB_SECTOR_STORE_USING (L @ [l])" "same_outside f g b s" "rd g (b + 5) 4 = rd f (b + 5) 4"
proof -
  let ?a = "idx_addr b (length L)" and ?d = "b + s - data_len (L @ [l])"
  have ad: "b + 32 \<le> ?a" "?a + 16 \<le> ?d" "?d + length (lg_data l) = b + s - data_len L" "b + s - data_len L \<le> b + s"
    using fits by (auto simp: idx_addr_def used_len_def)
  have out: "g x = f x" if "x < ?a \<or> ?a + 16 \<le> x" "x < ?d \<or> b + s - data_len L \<le> x" for x
    unfolding g_def by (rule logged_out) (use that ad in auto)
  have hdr: "g x = f x" if "x < b + 32" for x by (rule out) (use that ad in auto)
  have rdh: "rd g (b + k) 4 = rd f (b + k) 4" if "k + 4 \<le> 32" for k by (rule rd_cong) (use hdr that in auto)
  note i = sector_imgD [OF img]
  have lo: "g x = f x" if "x < ?a" for x by (rule out) (use that ad in auto)
  have hi: "g x = f x" if "b + s - data_len L \<le> x" for x by (rule out) (use that ad in linarith, simp add: that)
  have old: "\<forall>i < length L. log_at g (idx_addr b i) (data_addr s b L i) (L ! i)"
    by (rule logs_cong [where f = f]) (simp add: i(3), rule i(1), erule lo, erule hi)
  have "log_at g (idx_addr b i) (data_addr s b (L @ [l]) i) ((L @ [l]) ! i)" if "i < length (L @ [l])" for i
  proof (cases "i < length L")
    case True
    then show ?thesis using old by (simp add: nth_append data_addr_def)
  next
    case False
    then have "i = length L" using that by simp
    then show ?thesis using logged_at [OF ad(2)] by (simp add: g_def data_addr_def)
  qed
  moreover have "g x = 0xFF" if "idx_addr b (length (L @ [l])) \<le> x" "x < b + s - data_len (L @ [l])" for x
    using out [of x] i(4) [of x] that ad by (simp add: idx_addr_def)
  ultimately show "sector_img g s b FDB_SECTOR_STORE_USING (L @ [l])"
    using img rdh [of 1] hdr [of b] hdr [of "b + 26"] hdr [of "b + 17"] fits l by (simp add: sector_img_def)
  show "same_outside f g b s"
    unfolding same_outside_def by (intro allI impI, elim disjE, rule lo, use ad in linarith, rule hi, linarith)
  show "rd g (b + 5) 4 = rd f (b + 5) 4" by (rule rdh) simp
qed

lemma reach_write_tsl [reach_rules]:
  assumes st: "reached s m db0 f db" and b: "b mod s = 0" "b < m"
    and img: "sector_img f s b FDB_SECTOR_STORE_USING L" and fits: "used_len (L @ [l]) \<le> s"
    and l: "log_ok l" "lg_status l = FDB_TSL_WRITE"
    and cur: "ts_empty_idx (tsdb_cur_sec db) = idx_addr b (length L)" "ts_empty_data (tsdb_cur_sec db) = b + s - data_len L"
    and blob: "blob_size blob = length (lg_data l)" "blob_data blob = Some (lg_data l)"
    and post: "\<And>db'. reached s m db0 (logged f (idx_addr b (length L)) (b + s - data_len (L @ [l])) l) db' \<Longrightarrow> Q (FDB_NO_ERR, db')"
  shows "holds (write_tsl db blob (lg_time l)) Q"
proof -
  note room = sector_room [OF reachedD(1) [OF st] b]
  let ?a = "idx_addr b (length L)" and ?d = "b + s - data_len (L @ [l])"
  have ad: "?a + 16 \<le> ?d" "?d + length (lg_data l) \<le> b + s" "b + 32 \<le> ?a" using fits by (auto simp: idx_addr_def used_len_def)
  have in12: "in_sector s m (?a + 4) 12"
    using room(3) [of "32 + 16 * length L + 4" 12] fits by (simp add: idx_addr_def used_len_def ac_simps)
  have ind: "in_sector s m ?d (length (lg_data l))" if "lg_data l \<noteq> []"
    using room(3) [of "s - data_len (L @ [l])" "length (lg_data l)"] fits that by (simp add: used_len_def)
  have a: "?a < m" using ad room(1) by linarith
  have u: "u32 (?a + 4) = ?a + 4" "u32 (length (lg_data l)) = length (lg_data l)"
    "u32 (sub64 (b + s - data_len L) (length (lg_data l))) = ?d"
    using ad room(2) fits by (simp_all add: used_len_def)
  have st2: "tsl_status_num (lg_status l) = 2" using l(2) by simp
  show ?thesis
    unfolding write_tsl_def Let_def cur blob FDB_WG_ALIGN_eq LOG_IDX_TS_OFFSET_def u holds_bind
    using post unfolding logged_def st2
    by (auto intro!: reach_write_status [OF st a] reach_rules simp: fdb_layout) (use a in12 ind in auto)
qed



section \<open>Opening and closing a sector\<close>

definition opened :: "(addr \<Rightarrow> byte) \<Rightarrow> addr \<Rightarrow> int \<Rightarrow> addr \<Rightarrow> byte" where
  "opened f b t = wr (wr f b [status_byte 2]) (b + 5) (time_bytes t)"

lemma opened_img:
  assumes "sector_img f s b FDB_SECTOR_STORE_EMPTY []"
  shows "sector_img (opened f b t) s b FDB_SECTOR_STORE_USING []" "same_outside f (opened f b t) b s" "rd (opened f b t) (b + 5) 4 = time_bytes t"
proof -
  have s: "32 \<le> s" using sector_imgD(1) [OF assms] by (simp add: used_len_def)
  have m: "rd (opened f b t) (b + 1) 4 = rd f (b + 1) 4" by (simp add: opened_def rd_wr_disjoint)
  show "sector_img (opened f b t) s b FDB_SECTOR_STORE_USING []"
    by (rule sector_img_header [OF assms]) (use assms m in \<open>auto simp: sector_img_def\<close>, auto simp: opened_def wr_def)
  show "same_outside f (opened f b t) b s" using s by (auto simp: opened_def same_outside_def wr_def)
  show "rd (opened f b t) (b + 5) 4 = time_bytes t" by (simp add: opened_def rd_wr_same)
qed

text \<open>The first record of the end node and the status of a full sector.\<close>

definition closed :: "(addr \<Rightarrow> byte) \<Rightarrow> addr \<Rightarrow> int \<Rightarrow> addr \<Rightarrow> addr \<Rightarrow> byte" where
  "closed f b t e = wr (wr (wr (wr (wr f (b + 17) [status_byte 1]) (b + 9) (time_bytes t)) (b + 13) (le32 e)) (b + 17) [status_byte 2]) b [status_byte 3]"

lemma closed_img:
  assumes "sector_img f s b FDB_SECTOR_STORE_USING L" "L \<noteq> []"
  defines "g \<equiv> closed f b (lg_time (last L)) (idx_addr b (length L - 1))"
  shows "sector_img g s b FDB_SECTOR_STORE_FULL L" "same_outside f g b s" "rd g (b + 5) 4 = rd f (b + 5) 4"
proof -
  have s: "32 \<le> s" using sector_imgD(1) [OF assms(1)] by (simp add: used_len_def)
  have m: "rd g (b + 1) 4 = rd f (b + 1) 4" by (simp add: g_def closed_def rd_wr_disjoint)
  have t: "rd g (b + 9) 4 = time_bytes (lg_time (last L))" "rd g (b + 13) 4 = le32 (idx_addr b (length L - 1))"
    by (simp_all add: g_def closed_def rd_wr_disjoint rd_wr_same)
  have p: "g (b + 26) = f (b + 26)" "g b = status_byte 3" "g (b + 17) = status_byte 2" by (simp_all add: g_def closed_def wr_def)
  have h: "g x = f x" if "b + 32 \<le> x" for x using that by (auto simp: g_def closed_def wr_def)
  show "sector_img g s b FDB_SECTOR_STORE_FULL L"
    by (rule sector_img_header [OF assms(1)]) (use assms(1,2) m t p h in \<open>auto simp: sector_img_def\<close>)
  show "same_outside f g b s" using s by (auto simp: g_def closed_def same_outside_def wr_def)
  show "rd g (b + 5) 4 = rd f (b + 5) 4" by (simp add: g_def closed_def rd_wr_disjoint)
qed

lemma reach_save_end_info [reach_rules]:
  assumes st: "reached s m db0 f db" and a: "sa < m" and ins: "in_sector s m ta 4" "in_sector s m ia 4"
    and len: "length time = 4" "length index = 4"
    and post: "\<And>db'. reached s m db0 (wr (wr (wr (wr f sa [status_byte 1]) ta time) ia index) sa [status_byte 2]) db' \<Longrightarrow> Q (FDB_NO_ERR, db')"
  shows "holds (ts_save_end_info db sa ta ia time index) Q"
proof -
  have ne: "time \<noteq> []" "index \<noteq> []" using len by auto
  show ?thesis
    unfolding ts_save_end_info_def holds_bind
    by (auto intro!: reach_write_status [OF st a] reach_rules simp: fdb_layout) (use a ins len ne post in auto)
qed

lemma reach_close_sector:
  assumes st: "reached s m db0 f db" and b: "b mod s = 0" "b < m"
    and img: "sector_img f s b FDB_SECTOR_STORE_USING L" "L \<noteq> []"
    and cur: "sec_info f s b FDB_SECTOR_STORE_USING L (length L) (tsdb_cur_sec db)" "tsdb_last_time db = lg_time (last L)"
    and post: "\<And>db'. reached s m db0 (closed f b (lg_time (last L)) (idx_addr b (length L - 1))) db' \<Longrightarrow>
        Q (FDB_NO_ERR, db'\<lparr>tsdb_cur_sec := (tsdb_cur_sec db')\<lparr>ts_status := FDB_SECTOR_STORE_FULL\<rparr>\<rparr>)"
  shows "holds (ts_close_sector db) Q"
proof -
  note room = sector_room [OF reachedD(1) [OF st] b]
  have s: "48 \<le> s" using sector_imgD(1) [OF img(1)] img(2) by (cases L) (simp_all add: used_len_def)
  have ins: "in_sector s m (b + 9) 4" "in_sector s m (b + 13) 4" "b + 17 < m" using room(3) [of 9 4] room(3) [of 13 4] room(1) s by simp_all
  have u: "u32 (b + 17) = b + 17" "u32 (b + 9) = b + 9" "u32 (b + 13) = b + 13" using room(2) s by simp_all
  have e: "u32 (sub64 (idx_addr b (length L)) 16) = idx_addr b (length L - 1)"
    using img(2) room(2) sector_imgD(1) [OF img(1)] by (cases L) (simp_all add: idx_addr_def used_len_def)
  have c: "ts_end_info_stat0 (tsdb_cur_sec db) = FDB_TSL_UNUSED" "ts_addr (tsdb_cur_sec db) = b" "ts_empty_idx (tsdb_cur_sec db) = idx_addr b (length L)"
    using cur(1) by (simp_all add: sec_info_def)
  show ?thesis
    unfolding ts_close_sector_def Let_def c cur(2) holds_bind
    by (auto intro!: reach_save_end_info [OF st] reach_rules simp: fdb_layout u e)
      (use ins b post in \<open>auto simp: closed_def\<close>)
qed


section \<open>The status of a log\<close>

definition restatus :: "ts_log list \<Rightarrow> nat \<Rightarrow> fdb_tsl_status \<Rightarrow> ts_log list" where
  "restatus L i st = L[i := (L ! i)\<lparr>lg_status := st\<rparr>]"

lemma restatus_simps [simp]:
  "length (restatus L i st) = length L" "map lg_time (restatus L i st) = map lg_time L" "data_len (take k (restatus L i st)) = data_len (take k L)"
  "used_len (restatus L i st) = used_len L"
proof -
  show len: "length (restatus L i st) = length L" by (simp add: restatus_def)
  show "map lg_time (restatus L i st) = map lg_time L"
    by (cases "i < length L") (auto intro!: nth_equalityI simp: restatus_def nth_list_update list_update_beyond)
  have d: "map (\<lambda>l. length (lg_data l)) (restatus L i st) = map (\<lambda>l. length (lg_data l)) L"
    by (cases "i < length L") (auto intro!: nth_equalityI simp: restatus_def nth_list_update list_update_beyond)
  show "data_len (take k (restatus L i st)) = data_len (take k L)" for k
    unfolding data_len_def take_map [symmetric] d ..
  then show "used_len (restatus L i st) = used_len L" using len by (metis order_refl take_all used_len_def)
qed

lemma restatus_img:
  assumes img: "sector_img f s b st L" and i: "i < length L" and nst: "nst \<notin> {FDB_TSL_UNUSED, FDB_TSL_PRE_WRITE}"
  defines "g \<equiv> wr f (idx_addr b i) [status_byte (tsl_status_num nst)]"
  shows "sector_img g s b st (restatus L i nst)" "same_outside f g b s" "rd g (b + 5) 4 = rd f (b + 5) 4"
proof -
  note im = sector_imgD [OF img]
  let ?L = "restatus L i nst"
  have a: "b + 32 \<le> idx_addr b i" "idx_addr b i + 16 \<le> b + s - data_len L" using i im(1) by (auto simp: idx_addr_def used_len_def)
  have out: "g x = f x" if "x \<noteq> idx_addr b i" for x using that by (auto simp: g_def wr_def)
  have rdo: "rd g c n = rd f c n" if "idx_addr b i < c \<or> c + n \<le> idx_addr b i" for c n by (rule rd_cong) (use out that in auto)
  have dl: "data_len ?L = data_len L" using restatus_simps(3) [of "length L"] by (metis order_refl restatus_simps(1) take_all)
  have lt: "lg_time (last ?L) = lg_time (last L)" if "L \<noteq> []"
    using arg_cong [OF restatus_simps(2) [of L i nst], of last] that by (auto simp: last_map) (metis last_map length_0_conv restatus_simps(1,2))
  have ne: "?L = [] \<longleftrightarrow> L = []" using restatus_simps(1) by (metis length_0_conv)
  have logs: "\<forall>j < length ?L. log_at g (idx_addr b j) (data_addr s b ?L j) (?L ! j)"
  proof (intro allI impI)
    fix j
    assume "j < length ?L"
    then have j: "j < length L" by simp
    note at = im(3) [OF j]
    note bd = log_bounds [OF im(1) j, of b]
    have d: "data_addr s b ?L j = data_addr s b L j" by (simp add: data_addr_def)
    have dat: "rd g (data_addr s b L j) (length (lg_data (L ! j))) = rd f (data_addr s b L j) (length (lg_data (L ! j)))"
      by (rule rdo) (use bd a in auto)
    show "log_at g (idx_addr b j) (data_addr s b ?L j) (?L ! j)"
    proof (cases "j = i")
      case True
      then show ?thesis
        using at i dat unfolding d log_at_def by (simp add: rdo restatus_def) (simp add: g_def wr_def)
    next
      case False
      then have "idx_addr b i < idx_addr b j \<or> idx_addr b j + 16 \<le> idx_addr b i" by (auto simp: idx_addr_def)
      then have "log_at g (idx_addr b j) (data_addr s b L j) (L ! j)"
        using at dat out [of "idx_addr b j"] by (auto simp: log_at_def rdo)
      then show ?thesis unfolding d using False by (simp add: restatus_def)
    qed
  qed
  have ok: "list_all log_ok ?L" using im(2) i nst by (auto simp: list_all_length restatus_def nth_list_update log_ok_def)
  have "g x = 0xFF" if "idx_addr b (length ?L) \<le> x" "x < b + s - data_len ?L" for x
    using im(4) [of x] out [of x] that dl i by (simp add: idx_addr_def)
  then show "sector_img g s b st ?L"
    using img logs ok lt ne out [of b] out [of "b + 26"] out [of "b + 17"] a
    by (simp add: sector_img_def rdo dl) (auto simp: rdo)
  show "same_outside f g b s" using out a by (auto simp: same_outside_def)
  show "rd g (b + 5) 4 = rd f (b + 5) 4" by (rule rdo) (use a in auto)
qed

end
