(* ===== verification/TsRing.thy ===== *)
theory TsRing
  imports TsChange
begin

text \<open>
  The ring of sectors of a time-series database: the sector at a position counted from the oldest one, its
  status, logs and start time, and the database over such a ring. Each step of an append is a change of one
  position.
\<close>

section \<open>Positions\<close>

definition adr :: "nat \<Rightarrow> nat \<Rightarrow> nat \<Rightarrow> nat \<Rightarrow> addr" where
  "adr s q start j = ((start + j) mod q) * s"

lemma adr_mod [simp]: "adr s q start j mod s = 0"
  by (simp add: adr_def)

lemma adr_0: "start < q \<Longrightarrow> adr s q start 0 = start * s"
  by (simp add: adr_def)

lemma adr_wrap: "adr s q start (j + q) = adr s q start j"
  by (simp add: adr_def flip: add.assoc)

lemma adr_shift: "adr s q ((start + 1) mod q) j = adr s q start (Suc j)"
  by (simp add: adr_def mod_add_left_eq One_nat_def)

lemma mod_shift_inj:
  fixes i j q :: nat
  assumes "i < q" "j < q" "(start + i) mod q = (start + j) mod q"
  shows "i = j"
proof -
  have "i = j" if "i \<le> j" "i < q" "j < q" "(start + i) mod q = (start + j) mod q" for i j
  proof -
    have "q dvd (start + j) - (start + i)" using that by (subst mod_eq_dvd_iff_nat [symmetric]) simp_all
    then show ?thesis using that by (auto dest: dvd_imp_le)
  qed
  from this [of i j] this [of j i] show ?thesis using assms by (metis nat_le_linear)
qed

text \<open>\<open>m\<close> bytes are \<open>q\<close> sectors of \<open>s\<close> bytes.\<close>

definition sectors :: "nat \<Rightarrow> nat \<Rightarrow> nat \<Rightarrow> bool" where
  "sectors m q s \<longleftrightarrow> m = q * s \<and> 0 < q \<and> 0 < s"

lemma adr_less: "sectors m q s \<Longrightarrow> adr s q start j < m"
  by (simp add: sectors_def adr_def)

lemma adr_room:
  assumes "sectors m q s"
  shows "adr s q start j + s \<le> m"
proof -
  have "Suc ((start + j) mod q) * s \<le> q * s" by (rule mult_le_mono1) (use assms in \<open>simp add: sectors_def Suc_leI\<close>)
  then show ?thesis using assms by (simp add: adr_def sectors_def)
qed

lemma adr_inj:
  assumes "sectors m q s" "i < q" "j < q" "adr s q start i = adr s q start j"
  shows "i = j"
  by (rule mod_shift_inj [of i q j start]) (use assms in \<open>simp_all add: adr_def sectors_def\<close>)

lemma adr_disjoint:
  assumes "sectors m q s" "i < q" "j < q" "i \<noteq> j"
  shows "adr s q start i + s \<le> adr s q start j \<or> adr s q start j + s \<le> adr s q start i"
proof -
  have below: "x * s + s \<le> y * s" if "x < y" for x y
    using mult_le_mono1 [of "Suc x" y s] that by simp
  have "(start + i) mod q \<noteq> (start + j) mod q" using mod_shift_inj [of i q j start] assms by auto
  then show ?thesis unfolding adr_def using below by (metis linorder_neqE_nat)
qed

text \<open>The next position, as the program computes it.\<close>

lemma adr_next:
  assumes "sectors m q s" "m < 2 ^ 31"
  shows "(if u32 (adr s q start j + s) < m then u32 (adr s q start j + s) else 0) = adr s q start (Suc j)"
proof -
  let ?i = "(start + j) mod q"
  have i: "?i < q" "m = q * s" "0 < s" using assms(1) by (simp_all add: sectors_def)
  have "adr s q start j + s = Suc ?i * s" by (simp add: adr_def)
  then have u: "u32 (adr s q start j + s) = Suc ?i * s" using adr_room [OF assms(1), of start j] assms(2) by simp
  have "Suc ?i * s < q * s \<longleftrightarrow> Suc ?i < q" using i(3) by (metis mult_less_cancel2)
  moreover have "adr s q start (Suc j) = (Suc ?i mod q) * s" by (simp add: adr_def mod_Suc_eq)
  ultimately show ?thesis using i(1) unfolding u i(2) by (auto simp: mod_Suc)
qed



section \<open>The ring\<close>

text \<open>Every position holds a sector with its status, logs and start time.\<close>

definition ring_img ::
  "(addr \<Rightarrow> byte) \<Rightarrow> nat \<Rightarrow> nat \<Rightarrow> nat \<Rightarrow> (nat \<Rightarrow> fdb_sector_store_status) \<Rightarrow> (nat \<Rightarrow> ts_log list) \<Rightarrow> (nat \<Rightarrow> int) \<Rightarrow> bool"
where
  "ring_img f s q start ST LG SR \<longleftrightarrow> (\<forall>j < q. sector_img f s (adr s q start j) (ST j) (LG j)
     \<and> (ST j \<noteq> FDB_SECTOR_STORE_EMPTY \<longrightarrow> rd f (adr s q start j + 5) 4 = time_bytes (SR j)))"

lemma ring_imgD:
  assumes "ring_img f s q start ST LG SR" "j < q"
  shows "sector_img f s (adr s q start j) (ST j) (LG j)"
    "ST j \<noteq> FDB_SECTOR_STORE_EMPTY \<Longrightarrow> rd f (adr s q start j + 5) 4 = time_bytes (SR j)"
  using assms by (simp_all add: ring_img_def)

lemma ring_img_upd:
  assumes ring: "ring_img f s q start ST LG SR" and sec: "sectors m q s" and j: "j < q"
    and out: "same_outside f g (adr s q start j) s" and img: "sector_img g s (adr s q start j) st L"
    and tm: "st \<noteq> FDB_SECTOR_STORE_EMPTY \<Longrightarrow> rd g (adr s q start j + 5) 4 = time_bytes t"
  shows "ring_img g s q start (ST(j := st)) (LG(j := L)) (SR(j := t))"
  unfolding ring_img_def
proof (intro allI impI)
  fix i
  assume i: "i < q"
  show "sector_img g s (adr s q start i) ((ST(j := st)) i) ((LG(j := L)) i) \<and>
      ((ST(j := st)) i \<noteq> FDB_SECTOR_STORE_EMPTY \<longrightarrow> rd g (adr s q start i + 5) 4 = time_bytes ((SR(j := t)) i))"
  proof (cases "i = j")
    case True
    then show ?thesis using img tm by simp
  next
    case False
    have same: "g x = f x" if "adr s q start i \<le> x" "x < adr s q start i + s" for x
    proof -
      have "x < adr s q start j \<or> adr s q start j + s \<le> x" using adr_disjoint [OF sec i j False, of start] that by linarith
      then show ?thesis using out by (auto simp: same_outside_def)
    qed
    have s: "32 \<le> s" using sector_imgD(1) [OF ring_imgD(1) [OF ring i]] by (simp add: used_len_def)
    have "rd g (adr s q start i + 5) 4 = rd f (adr s q start i + 5) 4" by (rule rd_cong) (use same s in auto)
    then show ?thesis using False ring_imgD [OF ring i] sector_img_cong [OF ring_imgD(1) [OF ring i] same] by simp
  qed
qed

lemma ring_img_shift:
  assumes "ring_img f s q start ST LG SR" "0 < q"
  shows "ring_img f s q ((start + 1) mod q) (\<lambda>j. ST (Suc j mod q)) (\<lambda>j. LG (Suc j mod q)) (\<lambda>j. SR (Suc j mod q))"
  unfolding ring_img_def
proof (intro allI impI)
  fix j
  assume j: "j < q"
  have "adr s q start (Suc j mod q) = adr s q start (Suc j)" by (simp add: adr_def mod_add_right_eq)
  then have e: "adr s q ((start + 1) mod q) j = adr s q start (Suc j mod q)" by (simp only: adr_shift)
  have "Suc j mod q < q" using assms(2) by simp
  from ring_imgD [OF assms(1) this]
  show "sector_img f s (adr s q ((start + 1) mod q) j) (ST (Suc j mod q)) (LG (Suc j mod q)) \<and>
     (ST (Suc j mod q) \<noteq> FDB_SECTOR_STORE_EMPTY \<longrightarrow> rd f (adr s q ((start + 1) mod q) j + 5) 4 = time_bytes (SR (Suc j mod q)))"
    unfolding e by simp
qed

lemma ring_img_cong:
  assumes "ring_img f s q start ST LG SR" "\<And>j. j < q \<Longrightarrow> ST' j = ST j" "\<And>j. j < q \<Longrightarrow> LG' j = LG j"
    "\<And>j. j < q \<Longrightarrow> ST j \<noteq> FDB_SECTOR_STORE_EMPTY \<Longrightarrow> SR' j = SR j"
  shows "ring_img f s q start ST' LG' SR'"
  using assms by (simp add: ring_img_def)


section \<open>The database over a ring\<close>

text \<open>The part of the state that does not speak of the current sector.\<close>

definition ts_base ::
  "nat \<Rightarrow> nat \<Rightarrow> nat \<Rightarrow> nat \<Rightarrow> (nat \<Rightarrow> fdb_sector_store_status) \<Rightarrow> (nat \<Rightarrow> ts_log list) \<Rightarrow> (nat \<Rightarrow> int) \<Rightarrow> (addr \<Rightarrow> byte) \<Rightarrow> fdb_tsdb \<Rightarrow> bool"
where
  "ts_base s m q start ST LG SR f db \<longleftrightarrow> stored s m f db \<and> sectors m q s \<and> 2 \<le> q \<and> m < 2 ^ 31 \<and> start < q
     \<and> ring_img f s q start ST LG SR \<and> db_oldest_addr db = start * s \<and> tsdb_rollover db \<and> tsdb_max_len db + 48 \<le> s"

definition ts_cur ::
  "nat \<Rightarrow> nat \<Rightarrow> nat \<Rightarrow> (nat \<Rightarrow> fdb_sector_store_status) \<Rightarrow> (nat \<Rightarrow> ts_log list) \<Rightarrow> (addr \<Rightarrow> byte) \<Rightarrow> nat \<Rightarrow> fdb_tsdb \<Rightarrow> bool"
where
  "ts_cur s q start ST LG f k db \<longleftrightarrow> k < q
     \<and> sec_info f s (adr s q start k) (ST k) (LG k) (length (LG k)) (tsdb_cur_sec db)"

lemma ts_baseD:
  assumes "ts_base s m q start ST LG SR f db"
  shows "stored s m f db" "sectors m q s" "2 \<le> q" "m < 2 ^ 31" "start < q" "ring_img f s q start ST LG SR"
    "db_oldest_addr db = start * s" "tsdb_rollover db" "tsdb_max_len db + 48 \<le> s" "db_sec_size db = s" "db_max_size db = m"
    "32 < s" "m < 2 ^ 32"
  using assms by (auto simp: ts_base_def)

text \<open>Steps that change bytes of one sector.\<close>

lemma ts_base_step:
  assumes base: "ts_base s m q start ST LG SR f db" and k: "k < q"
    and out: "same_outside f g (adr s q start k) s" and img: "sector_img g s (adr s q start k) st L"
    and tm: "st \<noteq> FDB_SECTOR_STORE_EMPTY \<Longrightarrow> rd g (adr s q start k + 5) 4 = time_bytes t"
    and db': "reached s m db g db'"
  shows "ts_base s m q start (ST(k := st)) (LG(k := L)) (SR(k := t)) g db'"
  using ts_baseD [OF base] ring_img_upd [OF ts_baseD(6,2) [OF base] k out img tm] reachedD [OF db']
  by (simp add: ts_base_def io_frameD(6) io_frame_ts)

lemma ts_base_updates [simp]:
  "ts_base s m q start ST LG SR f (db\<lparr>tsdb_cur_sec := c\<rparr>) = ts_base s m q start ST LG SR f db"
  "ts_base s m q start ST LG SR f (db\<lparr>tsdb_last_time := t\<rparr>) = ts_base s m q start ST LG SR f db"
  "ts_base s m q start ST LG SR f (db_lock db) = ts_base s m q start ST LG SR f db"
  "ts_base s m q start ST LG SR f (db_unlock db) = ts_base s m q start ST LG SR f db"
  by (auto simp: ts_base_def db_lock_def db_unlock_def)

lemma ts_base_frame:
  assumes "ts_base s m q start ST LG SR f db" "stored s m f db'" "io_frame db db'"
  shows "ts_base s m q start ST LG SR f db'"
  using assms by (simp add: ts_base_def io_frameD(6) io_frame_ts)

lemma ts_cur_frame: "ts_cur s q start ST LG f k db \<Longrightarrow> io_frame db db' \<Longrightarrow> ts_cur s q start ST LG f k db'"
  by (simp add: ts_cur_def io_frame_ts)

end
