(* ===== verification/TsPush.thy ===== *)
theory TsPush
  imports TsRing
begin

text \<open>
  Appending a log: the sequence of sectors as a list of lists of logs, where the next log goes, and that
  \<open>tsl_append\<close> puts it there.
\<close>

section \<open>The steps on the ring\<close>

lemma close_step:
  assumes base: "ts_base s m q start ST LG SR f db" and cur: "ts_cur s q start ST LG f k db"
    and k: "ST k = FDB_SECTOR_STORE_USING" "LG k \<noteq> []" "tsdb_last_time db = lg_time (last (LG k))"
    and post: "\<And>f' db'. ts_base s m q start (ST(k := FDB_SECTOR_STORE_FULL)) LG SR f' db' \<Longrightarrow> ts_addr (tsdb_cur_sec db') = adr s q start k \<Longrightarrow>
        tsdb_last_time db' = tsdb_last_time db \<Longrightarrow> tsdb_max_len db' = tsdb_max_len db \<Longrightarrow> Q (FDB_NO_ERR, db')"
  shows "holds (ts_close_sector db) Q"
proof -
  note b = ts_baseD [OF base]
  have kq: "k < q" using cur by (simp add: ts_cur_def)
  have info: "sec_info f s (adr s q start k) FDB_SECTOR_STORE_USING (LG k) (length (LG k)) (tsdb_cur_sec db)"
    using cur k(1) by (simp add: ts_cur_def)
  have img: "sector_img f s (adr s q start k) FDB_SECTOR_STORE_USING (LG k)" using ring_imgD(1) [OF b(6) kq] k(1) by simp
  note cl = closed_img [OF img k(2)]
  show ?thesis
  proof (rule reach_close_sector [OF reachedI [OF b(1)] adr_mod adr_less [OF b(2)] img k(2) info k(3)],
      rule post [of "closed f (adr s q start k) (lg_time (last (LG k))) (idx_addr (adr s q start k) (length (LG k) - 1))"], goal_cases)
    case (1 db')
    have "ts_base s m q start (ST(k := FDB_SECTOR_STORE_FULL)) (LG(k := LG k)) (SR(k := SR k))
       (closed f (adr s q start k) (lg_time (last (LG k))) (idx_addr (adr s q start k) (length (LG k) - 1))) db'"
      by (rule ts_base_step [OF base kq cl(2,1) _ 1]) (use cl(3) ring_imgD(2) [OF b(6) kq] k(1) in simp)
    then show ?case by simp
  qed (use info in \<open>auto simp: io_frame_ts [OF reachedD(2)] sec_info_def\<close>)
qed

lemma ts_cur_read:
  assumes "sec_info f s (adr s q start k) (ST k) (LG k) (if ST k = FDB_SECTOR_STORE_USING \<and> False then length (LG k) else 0) sec" "LG k = []" "k < q"
    and "tsdb_cur_sec db = sec"
  shows "ts_cur s q start ST LG f k db"
  using assms by (simp add: ts_cur_def)

lemma open_next_step:
  assumes base: "ts_base s m q start ST LG SR f db" and k: "k < q" "ST k = FDB_SECTOR_STORE_EMPTY"
    and post: "\<And>db'. ts_base s m q start ST LG SR f db' \<Longrightarrow> ts_cur s q start ST LG f k db' \<Longrightarrow>
        tsdb_last_time db' = tsdb_last_time db \<Longrightarrow> tsdb_max_len db' = tsdb_max_len db \<Longrightarrow> Q db'"
  shows "holds (ts_open_next_sector db (adr s q start k)) Q"
proof -
  note b = ts_baseD [OF base]
  have img: "sector_img f s (adr s q start k) (ST k) (LG k)" by (rule ring_imgD(1) [OF b(6) k(1)])
  have nil: "LG k = []" by (rule sector_imgD(7) [OF img k(2)])
  show ?thesis
    unfolding ts_open_next_sector_def Let_def holds_bind
  proof (rule stored_read_sector_info [OF b(1) adr_mod adr_less [OF b(2)] img b(12)], goal_cases)
    case (1 r sec db')
    have st: "ts_status sec = FDB_SECTOR_STORE_EMPTY" using 1(1) k(2) by (simp add: sec_info_def)
    have "Q (db'\<lparr>tsdb_cur_sec := sec\<rparr>)"
      by (rule post) (use ts_base_frame [OF base 1(3,4)] 1 k nil in \<open>auto simp: io_frame_ts ts_cur_def\<close>)
    then show ?case using st by simp
  qed
qed

text \<open>When the next sector is the oldest one, it is erased and the ring turns by one position.\<close>

lemma roll_step:
  assumes base: "ts_base s m q start ST LG SR f db" and st0: "ST 0 \<noteq> FDB_SECTOR_STORE_EMPTY"
    and post: "\<And>f' db'. ts_base s m q ((start + 1) mod q) (\<lambda>j. (ST(0 := FDB_SECTOR_STORE_EMPTY)) (Suc j mod q)) (\<lambda>j. (LG(0 := [])) (Suc j mod q))
          (\<lambda>j. SR (Suc j mod q)) f' db' \<Longrightarrow>
        ts_cur s q ((start + 1) mod q) (\<lambda>j. (ST(0 := FDB_SECTOR_STORE_EMPTY)) (Suc j mod q)) (\<lambda>j. (LG(0 := [])) (Suc j mod q)) f' (q - 1) db' \<Longrightarrow>
        tsdb_last_time db' = tsdb_last_time db \<Longrightarrow> tsdb_max_len db' = tsdb_max_len db \<Longrightarrow> Q db'"
  shows "holds (ts_open_next_sector db (adr s q start 0)) Q"
proof -
  note b = ts_baseD [OF base]
  let ?a = "adr s q start 0"
  have q0: "0 < q" using b(3) by simp
  have img: "sector_img f s ?a (ST 0) (LG 0)" by (rule ring_imgD(1) [OF b(6) q0])
  let ?g = "formatted s ?a f" and ?ST = "ST(0 := FDB_SECTOR_STORE_EMPTY)" and ?LG = "LG(0 := [])"
  have s32: "32 \<le> s" using b(12) by simp
  note fm = formatted_img [where b = ?a and f = f, OF s32]
  have nxt: "(if u32 (?a + s) < m then u32 (?a + s) else 0) = ((start + 1) mod q) * s"
    using adr_next [OF b(2,4), of start 0] by (simp add: adr_def One_nat_def)
  show ?thesis
    unfolding ts_open_next_sector_def Let_def holds_bind
  proof (rule stored_read_sector_info [OF b(1) adr_mod adr_less [OF b(2)] img b(12)], goal_cases)
    case (1 r sec db1)
    have st: "ts_status sec \<noteq> FDB_SECTOR_STORE_EMPTY" using 1(1) st0 by (simp add: sec_info_def)
    let ?db1 = "db1\<lparr>tsdb_cur_sec := sec, db_oldest_addr := ((start + 1) mod q) * s\<rparr>"
    have r1: "reached s m ?db1 f ?db1" by (rule reachedI) (use 1(3) in simp)
    have geo: "db_sec_size db1 = s" "db_max_size db1 = m" using 1(3) by simp_all
    have "holds (ts_format_sector ?db1 ?a) (\<lambda>(r, db). holds (ts_read_sector_info db ?a (tsdb_cur_sec db) False) (\<lambda>(r, sec, db). Q (db\<lparr>tsdb_cur_sec := sec\<rparr>)))"
    proof (rule reach_format_sector [OF r1 adr_mod adr_less [OF b(2)] s32], unfold prod.case,
        rule stored_read_sector_info [OF reachedD(1) adr_mod adr_less [OF b(2)] fm(1) b(12)], assumption, unfold prod.case, goal_cases)
      case (1 db2 r3 sec3 db3)
      have fr: "io_frame ?db1 db3" by (rule io_frame_trans [OF reachedD(2) [OF 1(1)] 1(5)])
      have ring: "ring_img ?g s q start ?ST ?LG (SR(0 := SR 0))"
        by (rule ring_img_upd [OF b(6,2) q0 fm(2,1)]) simp
      have ring': "ring_img ?g s q ((start + 1) mod q) (\<lambda>j. ?ST (Suc j mod q)) (\<lambda>j. ?LG (Suc j mod q)) (\<lambda>j. SR (Suc j mod q))"
        using ring_img_shift [OF ring q0] by simp
      have a: "adr s q ((start + 1) mod q) (q - 1) = ?a" using q0 adr_wrap [of s q start 0] by (simp add: adr_shift)
      have frd: "db_oldest_addr db3 = ((start + 1) mod q) * s" "tsdb_rollover db3 = tsdb_rollover db" "tsdb_max_len db3 = tsdb_max_len db"
        "tsdb_last_time db3 = tsdb_last_time db"
        using io_frameD(6) [OF fr] io_frame_ts [OF fr] io_frame_ts [OF \<open>io_frame db db1\<close>] by simp_all
      show ?case
      proof (rule post [of ?g], goal_cases)
        case 1
        show ?case using b ring' q0 frd \<open>stored s m (formatted s ?a f) db3\<close> by (simp add: ts_base_def)
      next
        case 2
        show ?case using q0 a \<open>sec_info _ _ _ _ _ _ sec3\<close> by (simp add: ts_cur_def)
      qed (use frd in simp_all)
    qed
    then show ?case using st by (simp add: geo nxt case_prod_unfold split del: if_split cong: if_cong)
  qed
qed

lemma use_step:
  assumes base: "ts_base s m q start ST LG SR f db" and cur: "ts_cur s q start ST LG f k db" and k: "ST k = FDB_SECTOR_STORE_EMPTY"
    and t: "- (2 ^ 31) \<le> t" "t < 2 ^ 31"
    and post: "\<And>f' db'. ts_base s m q start (ST(k := FDB_SECTOR_STORE_USING)) LG (SR(k := t)) f' db' \<Longrightarrow>
        ts_cur s q start (ST(k := FDB_SECTOR_STORE_USING)) LG f' k db' \<Longrightarrow>
        tsdb_last_time db' = tsdb_last_time db \<Longrightarrow> tsdb_max_len db' = tsdb_max_len db \<Longrightarrow> Q (FDB_NO_ERR, db')"
  shows "holds (do {
         let db = db\<lparr>tsdb_cur_sec := (tsdb_cur_sec db)\<lparr>ts_status := FDB_SECTOR_STORE_USING, ts_start_time := t\<rparr>\<rparr>;
         (result, db) \<leftarrow> fdb_write_status db (ts_addr (tsdb_cur_sec db)) FDB_SECTOR_STORE_STATUS_NUM (store_status_num FDB_SECTOR_STORE_USING) True;
         if result \<noteq> FDB_NO_ERR then Some (result, db)
         else fdb_flash_write db (u32 (ts_addr (tsdb_cur_sec db) + SECTOR_START_TIME_OFFSET)) (time_bytes t) True
       }) Q"
proof -
  note b = ts_baseD [OF base]
  let ?a = "adr s q start k"
  let ?db = "db\<lparr>tsdb_cur_sec := (tsdb_cur_sec db)\<lparr>ts_status := FDB_SECTOR_STORE_USING, ts_start_time := t\<rparr>\<rparr>"
  have kq: "k < q" and info: "sec_info f s ?a FDB_SECTOR_STORE_EMPTY (LG k) (length (LG k)) (tsdb_cur_sec db)"
    using cur k by (simp_all add: ts_cur_def)
  have img: "sector_img f s ?a FDB_SECTOR_STORE_EMPTY []" and nil: "LG k = []"
    using ring_imgD(1) [OF b(6) kq] k sector_imgD(7) [OF ring_imgD(1) [OF b(6) kq]] by simp_all
  note op = opened_img [OF img, of t]
  have base': "ts_base s m q start ST LG SR f ?db" using base by simp
  have r: "reached s m ?db f ?db" by (rule reachedI [OF ts_baseD(1) [OF base']])
  have addr: "ts_addr (tsdb_cur_sec db) = ?a" using info by (simp add: sec_info_def)
  have room: "?a + s \<le> m" "?a < m" by (rule adr_room [OF b(2)], rule adr_less [OF b(2)])
  have u: "u32 (?a + 5) = ?a + 5" using room b(12,13) by simp
  have in4: "in_sector s m (?a + 5) 4" by (rule sector_room(3) [OF b(1) adr_mod room(2)]) (use b(12) in auto)
  have "holds (fdb_write_status ?db ?a FDB_SECTOR_STORE_STATUS_NUM (store_status_num FDB_SECTOR_STORE_USING) True)
     (\<lambda>(result, db). holds (if result \<noteq> FDB_NO_ERR then Some (result, db)
         else fdb_flash_write db (u32 (ts_addr (tsdb_cur_sec db) + SECTOR_START_TIME_OFFSET)) (time_bytes t) True) Q)"
  proof (rule reach_write_status [OF r room(2)], goal_cases)
    case (4 db1)
    have a1: "ts_addr (tsdb_cur_sec db1) = ?a" using addr io_frame_ts(1) [OF reachedD(2) [OF 4]] by simp
    have "holds (fdb_flash_write db1 (?a + 5) (time_bytes t) True) Q"
    proof (rule reach_write [OF 4], goal_cases)
      case (3 db2)
      then have r2: "reached s m ?db (opened f ?a t) db2" by (simp add: opened_def)
      have base2: "ts_base s m q start (ST(k := FDB_SECTOR_STORE_USING)) (LG(k := [])) (SR(k := t)) (opened f ?a t) db2"
        by (rule ts_base_step [OF base' kq op(2,1) op(3) r2])
      have "sec_info (opened f ?a t) s ?a FDB_SECTOR_STORE_USING [] 0 (tsdb_cur_sec db2)"
        using info op(3) t io_frame_ts(1) [OF reachedD(2) [OF r2]] by (simp add: sec_info_def nil)
      then show ?case
        using base2 kq io_frame_ts [OF reachedD(2) [OF r2]]
        by (intro post [of "opened f ?a t"]) (simp_all add: ts_cur_def nil fun_upd_idem)
    qed (use in4 in simp_all)
    then show ?case by (simp add: a1 u fdb_layout)
  qed (simp_all add: fdb_layout)
  then show ?thesis by (simp add: Let_def addr case_prod_unfold)
qed


section \<open>Sectors as lists of logs\<close>

text \<open>The status, logs and start time at a position, from the list of the logs of the used sectors; all but the last are full.\<close>

definition ts_st :: "nat \<Rightarrow> nat \<Rightarrow> fdb_sector_store_status" where
  "ts_st k j = (if Suc j < k then FDB_SECTOR_STORE_FULL else if Suc j = k then FDB_SECTOR_STORE_USING else FDB_SECTOR_STORE_EMPTY)"

definition ts_lg :: "ts_log list list \<Rightarrow> nat \<Rightarrow> ts_log list" where
  "ts_lg Ls j = (if j < length Ls then Ls ! j else [])"

definition ts_sr :: "ts_log list list \<Rightarrow> int \<Rightarrow> nat \<Rightarrow> int" where
  "ts_sr Ls t j = (if ts_lg Ls j = [] then t else lg_time (hd (ts_lg Ls j)))"

text \<open>
  The full sectors hold \<open>Cs\<close>, the sector in use \<open>L\<close>; when that has no log yet, its header has the start time \<open>t\<close>.
\<close>

definition ts_open ::
  "nat \<Rightarrow> nat \<Rightarrow> nat \<Rightarrow> nat \<Rightarrow> ts_log list list \<Rightarrow> ts_log list \<Rightarrow> int \<Rightarrow> (addr \<Rightarrow> byte) \<Rightarrow> fdb_tsdb \<Rightarrow> bool"
where
  "ts_open s m q start Cs L t f db \<longleftrightarrow>
     ts_base s m q start (ts_st (Suc (length Cs))) (ts_lg (Cs @ [L])) (ts_sr (Cs @ [L]) t) f db
     \<and> ts_cur s q start (ts_st (Suc (length Cs))) (ts_lg (Cs @ [L])) f (length Cs) db"

lemma ts_lg_snoc [simp]: "ts_lg (Cs @ [L]) (length Cs) = L" "j < length Cs \<Longrightarrow> ts_lg (Cs @ [L]) j = Cs ! j"
  by (simp_all add: ts_lg_def nth_append)

lemma ts_st_last [simp]: "ts_st (Suc k) k = FDB_SECTOR_STORE_USING"
  by (simp add: ts_st_def)

lemma ts_open_full:
  assumes "ts_open s m q start Cs L t f db" "j < length Cs"
  shows "Cs ! j \<noteq> []"
proof -
  have "j < q" "ring_img f s q start (ts_st (Suc (length Cs))) (ts_lg (Cs @ [L])) (ts_sr (Cs @ [L]) t)"
    using assms by (auto simp: ts_open_def ts_cur_def dest: ts_baseD(6))
  then have "sector_img f s (adr s q start j) FDB_SECTOR_STORE_FULL (Cs ! j)"
    using ring_imgD(1) [of f s q start "ts_st (Suc (length Cs))" "ts_lg (Cs @ [L])" _ j] assms(2) by (auto simp: ts_st_def)
  then show ?thesis by (rule sector_imgD(8)) simp
qed

lemma log_step:
  assumes "op": "ts_open s m q start Cs L (lg_time l) f db" and fits: "used_len (L @ [l]) \<le> s"
    and l: "log_ok l" "lg_status l = FDB_TSL_WRITE"
    and blob: "blob_size blob = length (lg_data l)" "blob_data blob = Some (lg_data l)"
    and post: "\<And>f' db'. ts_open s m q start Cs (L @ [l]) t f' (db'\<lparr>tsdb_cur_sec := (tsdb_cur_sec db')\<lparr>ts_end_idx := ts_empty_idx (tsdb_cur_sec db'),
           ts_end_time := lg_time l, ts_empty_idx := idx_addr (adr s q start (length Cs)) (Suc (length L)),
           ts_empty_data := adr s q start (length Cs) + s - data_len (L @ [l]), ts_remain := s - used_len (L @ [l])\<rparr>\<rparr>) \<Longrightarrow>
        tsdb_cur_sec db' = tsdb_cur_sec db \<Longrightarrow> tsdb_max_len db' = tsdb_max_len db \<Longrightarrow> Q (FDB_NO_ERR, db')"
  shows "holds (write_tsl db blob (lg_time l)) Q"
proof -
  let ?k = "length Cs" and ?a = "adr s q start (length Cs)"
  have base: "ts_base s m q start (ts_st (Suc ?k)) (ts_lg (Cs @ [L])) (ts_sr (Cs @ [L]) (lg_time l)) f db"
    and kq: "?k < q" and info: "sec_info f s ?a FDB_SECTOR_STORE_USING L (length L) (tsdb_cur_sec db)"
    using "op" by (simp_all add: ts_open_def ts_cur_def)
  note b = ts_baseD [OF base]
  have img: "sector_img f s ?a FDB_SECTOR_STORE_USING L" using ring_imgD(1) [OF b(6) kq] by simp
  note lg = logged_img [OF img fits l(1)]
  have cur: "ts_empty_idx (tsdb_cur_sec db) = idx_addr ?a (length L)" "ts_empty_data (tsdb_cur_sec db) = ?a + s - data_len L"
    using info by (simp_all add: sec_info_def)
  have tm: "rd f (?a + 5) 4 = time_bytes (lg_time (hd (L @ [l])))"
    using ring_imgD(2) [OF b(6) kq] by (cases L) (simp_all add: ts_sr_def)
  show ?thesis
  proof (rule reach_write_tsl [OF reachedI [OF b(1)] adr_mod adr_less [OF b(2)] img fits l cur blob], goal_cases)
    case (1 db')
    let ?g = "logged f (idx_addr ?a (length L)) (?a + s - data_len (L @ [l])) l"
    note fr = io_frame_ts [OF reachedD(2) [OF 1]]
    have "ts_base s m q start ((ts_st (Suc ?k))(?k := FDB_SECTOR_STORE_USING)) ((ts_lg (Cs @ [L]))(?k := L @ [l]))
       ((ts_sr (Cs @ [L]) (lg_time l))(?k := lg_time (hd (L @ [l])))) ?g db'"
      by (rule ts_base_step [OF base kq lg(2,1) _ 1]) (use lg(3) tm in simp)
    moreover have "(ts_st (Suc ?k))(?k := FDB_SECTOR_STORE_USING) = ts_st (Suc ?k)" "(ts_lg (Cs @ [L]))(?k := L @ [l]) = ts_lg (Cs @ [L @ [l]])"
      by (auto simp: ts_lg_def nth_append fun_eq_iff less_Suc_eq)
    ultimately have b': "ts_base s m q start (ts_st (Suc ?k)) (ts_lg (Cs @ [L @ [l]])) (ts_sr (Cs @ [L @ [l]]) t) ?g db'"
      using ts_open_full [OF "op"] unfolding ts_base_def by (auto elim!: ring_img_cong simp: ts_sr_def ts_lg_def nth_append less_Suc_eq ts_st_def)
    show ?case
      by (rule post [of ?g])
        (use b' kq info fr lg(3) in \<open>auto simp: ts_open_def ts_cur_def sec_info_def nth_append\<close>)
  qed
qed

end
