(* ===== verification/TsAdd.thy ===== *)
theory TsAdd
  imports TsPush
begin

text \<open>
  The abstract state of a time-series database and the refinement of \<open>tsl_append\<close>.
\<close>

section \<open>The abstract state\<close>

text \<open>The position of the oldest sector, the logs of the used sectors from the oldest on, the time of the last log.\<close>

record ts_abs =
  ta_start :: nat
  ta_sectors :: "ts_log list list"
  ta_last :: int

definition ts_logs :: "ts_abs \<Rightarrow> ts_log list" where
  "ts_logs A = concat (ta_sectors A)"

text \<open>The full sectors hold \<open>Cs\<close>, the current sector after them is empty.\<close>

definition fresh_st :: "nat \<Rightarrow> nat \<Rightarrow> fdb_sector_store_status" where
  "fresh_st k j = (if j < k then FDB_SECTOR_STORE_FULL else FDB_SECTOR_STORE_EMPTY)"

definition ts_fresh :: "nat \<Rightarrow> nat \<Rightarrow> nat \<Rightarrow> nat \<Rightarrow> ts_log list list \<Rightarrow> (addr \<Rightarrow> byte) \<Rightarrow> fdb_tsdb \<Rightarrow> bool" where
  "ts_fresh s m q start Cs f db \<longleftrightarrow> ts_base s m q start (fresh_st (length Cs)) (ts_lg Cs) (ts_sr Cs 0) f db
     \<and> ts_cur s q start (fresh_st (length Cs)) (ts_lg Cs) f (length Cs) db"

definition ts_rel :: "nat \<Rightarrow> nat \<Rightarrow> nat \<Rightarrow> ts_abs \<Rightarrow> (addr \<Rightarrow> byte) \<Rightarrow> fdb_tsdb \<Rightarrow> bool" where
  "ts_rel s m q A f db \<longleftrightarrow>
     tsdb_last_time db = ta_last A \<and> sorted_wrt (<) (map lg_time (ts_logs A))
     \<and> (length (ta_sectors A) < q \<longrightarrow> ta_start A = 0)
     \<and> (if ta_sectors A = []
        then ts_fresh s m q 0 [] f db
        else ts_open s m q (ta_start A) (butlast (ta_sectors A)) (last (ta_sectors A)) 0 f db
             \<and> last (ta_sectors A) \<noteq> [] \<and> ta_last A = lg_time (last (last (ta_sectors A))))"

text \<open>Where a log with \<open>n\<close> bytes of data goes: the full sectors and the logs already in its sector.\<close>

definition ts_place :: "nat \<Rightarrow> nat \<Rightarrow> ts_abs \<Rightarrow> nat \<Rightarrow> nat \<times> ts_log list list \<times> ts_log list" where
  "ts_place q s A n =
     (let Ls = ta_sectors A in
      if Ls = [] then (ta_start A, [], [])
      else if used_len (last Ls) + 16 + n \<le> s then (ta_start A, butlast Ls, last Ls)
      else if length Ls < q then (ta_start A, Ls, [])
      else ((ta_start A + 1) mod q, tl Ls, []))"

definition ts_push :: "nat \<Rightarrow> nat \<Rightarrow> ts_abs \<Rightarrow> ts_log \<Rightarrow> ts_abs" where
  "ts_push q s A l =
     (case ts_place q s A (length (lg_data l)) of
        (start, Cs, L) \<Rightarrow> \<lparr>ta_start = start, ta_sectors = Cs @ [L @ [l]], ta_last = lg_time l\<rparr>)"

lemma ts_openI:
  assumes "ts_base s m q start ST LG SR f db" "ts_cur s q start ST LG f (length Cs) db"
    and "\<And>j. j < q \<Longrightarrow> ST j = ts_st (Suc (length Cs)) j" "\<And>j. j < q \<Longrightarrow> LG j = ts_lg (Cs @ [L]) j"
    and "\<And>j. j < q \<Longrightarrow> ST j \<noteq> FDB_SECTOR_STORE_EMPTY \<Longrightarrow> SR j = ts_sr (Cs @ [L]) t j"
  shows "ts_open s m q start Cs L t f db"
  using assms unfolding ts_open_def ts_base_def ts_cur_def by (auto intro: ring_img_cong)

lemma ts_freshI:
  assumes "ts_base s m q start ST LG SR f db" "ts_cur s q start ST LG f (length Cs) db"
    and "\<And>j. j < q \<Longrightarrow> ST j = fresh_st (length Cs) j" "\<And>j. j < q \<Longrightarrow> LG j = ts_lg Cs j"
    and "\<And>j. j < length Cs \<Longrightarrow> SR j = ts_sr Cs 0 j"
  shows "ts_fresh s m q start Cs f db"
  using assms unfolding ts_fresh_def ts_base_def ts_cur_def by (auto intro: ring_img_cong simp: fresh_st_def split: if_splits)

lemma next_position:
  assumes "ts_base s m q start ST LG SR f db" "ts_addr (tsdb_cur_sec db) = adr s q start k"
  shows "(if u32 (ts_addr (tsdb_cur_sec db) + db_sec_size db) < db_max_size db then do {
              db \<leftarrow> ts_open_next_sector db (u32 (ts_addr (tsdb_cur_sec db) + db_sec_size db));
              Some (FDB_NO_ERR, db)
            }
            else if tsdb_rollover db then do {
              db \<leftarrow> ts_open_next_sector db 0;
              Some (FDB_NO_ERR, db)
            }
            else Some (FDB_SAVED_FULL, db))
     = do { db \<leftarrow> ts_open_next_sector db (adr s q start (Suc k)); Some (FDB_NO_ERR, db) }"
proof -
  note b = ts_baseD [OF assms(1)]
  show ?thesis
    using adr_next [OF b(2,4), of start k] b(8) unfolding assms(2) b(10,11) by auto
qed


section \<open>Appending\<close>

lemma leave_full:
  assumes "op": "ts_open s m q start Cs L t0 f db" and L: "L \<noteq> []" "tsdb_last_time db = lg_time (last L)"
    and full: "s < used_len L + 16 + blob_size blob" "blob_size blob < 2 ^ 32"
    and post: "\<And>f' db'. (if Suc (length Cs) < q then ts_fresh s m q start (Cs @ [L]) f' db'
         else ts_fresh s m q ((start + 1) mod q) (tl (Cs @ [L])) f' db') \<Longrightarrow>
       tsdb_last_time db' = tsdb_last_time db \<Longrightarrow> tsdb_max_len db' = tsdb_max_len db \<Longrightarrow> Q (FDB_NO_ERR, db')"
  shows "holds (ts_leave_sector db blob) Q"
proof -
  let ?k = "length Cs"
  let ?ST = "ts_st (Suc ?k)" and ?LG = "ts_lg (Cs @ [L])" and ?SR = "ts_sr (Cs @ [L]) t0"
  let ?ST' = "?ST(?k := FDB_SECTOR_STORE_FULL)"
  have base: "ts_base s m q start ?ST ?LG ?SR f db" and cur: "ts_cur s q start ?ST ?LG f ?k db" using "op" by (simp_all add: ts_open_def)
  have kq: "?k < q" and info: "sec_info f s (adr s q start ?k) FDB_SECTOR_STORE_USING L (length L) (tsdb_cur_sec db)"
    using cur by (simp_all add: ts_cur_def)
  note b = ts_baseD [OF base]
  have guard: "ts_status (tsdb_cur_sec db) = FDB_SECTOR_STORE_USING \<and> ts_remain (tsdb_cur_sec db) < u64 (LOG_IDX_DATA_SIZE + FDB_WG_ALIGN (blob_size blob))"
    using info full sector_imgD(1) [OF ring_imgD(1) [OF b(6) kq]] by (auto simp: sec_info_def fdb_layout)
  have ne: "Cs ! j \<noteq> []" if "j < length Cs" for j by (rule ts_open_full [OF "op" that])
  have sr: "?SR j = ts_sr (Cs @ [L]) 0 j" if "j \<le> length Cs" for j
    using ne [of j] L(1) that by (cases "j = length Cs") (auto simp: ts_sr_def)
  show ?thesis
    unfolding ts_leave_sector_def if_P [OF guard] holds_bind
  proof (rule close_step [OF base cur], simp, simp add: L, simp add: L, goal_cases)
    case (1 f1 db1)
    note b1 = ts_baseD [OF 1(1)]
    have "holds (ts_open_next_sector db1 (adr s q start (Suc ?k))) (\<lambda>db. Q (FDB_NO_ERR, db))"
    proof (cases "Suc ?k < q")
      case True
      show ?thesis
      proof (rule open_next_step [OF 1(1) True], simp add: ts_st_def, goal_cases)
        case (1 db2)
        have "ts_fresh s m q start (Cs @ [L]) f1 db2"
          by (rule ts_freshI [OF 1(1)]) (use 1(2) sr in \<open>auto simp: fresh_st_def ts_st_def\<close>)
        then show ?case using True 1(3,4) \<open>tsdb_last_time db1 = _\<close> \<open>tsdb_max_len db1 = _\<close> by (intro post) simp_all
      qed
    next
      case False
      then have q: "q = Suc ?k" using kq by simp
      have k1: "0 < ?k" using b(3) q by (cases Cs) simp_all
      have a: "adr s q start (Suc ?k) = adr s q start 0" using adr_wrap [of s q start 0] q by simp
      show ?thesis
        unfolding a
      proof (rule roll_step [OF 1(1)], use k1 in \<open>simp add: ts_st_def\<close>, goal_cases)
        case (1 f2 db2)
        have idx: "Suc j mod q = (if j < ?k then Suc j else 0)" if "j < q" for j
          using that q by (cases "j = ?k") auto
        have lg: "?LG (Suc j) = tl (Cs @ [L]) ! j" if "j < ?k" for j using that by (simp add: ts_lg_def nth_tl)
        have "ts_fresh s m q ((start + 1) mod q) (tl (Cs @ [L])) f2 db2"
        proof (rule ts_freshI [OF 1(1)], goal_cases)
          case 1
          show ?case using \<open>ts_cur _ _ _ _ _ f2 _ db2\<close> q by simp
        next
          case (2 j)
          then show ?case using idx [OF 2] q by (auto simp: fresh_st_def ts_st_def)
        next
          case (3 j)
          then show ?case using idx [OF 3] lg [of j] q by (auto simp: ts_lg_def)
        next
          case (4 j)
          then have "j < ?k" by simp
          then show ?case using idx [of j] lg [of j] q sr [of "Suc j"] by (simp add: ts_sr_def) (simp add: ts_lg_def)
        qed
        then show ?case using False 1(3,4) \<open>tsdb_last_time db1 = _\<close> \<open>tsdb_max_len db1 = _\<close> by (intro post) simp_all
      qed
    qed
    then show ?case using next_position [OF 1(1,2)] by simp
  qed
qed

lemma use_fresh:
  assumes fr: "ts_fresh s m q start Cs f db" and t: "- (2 ^ 31) \<le> t" "t < 2 ^ 31"
    and post: "\<And>f' db'. ts_open s m q start Cs [] t f' db' \<Longrightarrow> tsdb_last_time db' = tsdb_last_time db \<Longrightarrow>
       tsdb_max_len db' = tsdb_max_len db \<Longrightarrow> Q (FDB_NO_ERR, db')"
  shows "holds (ts_use_sector db t) Q"
proof -
  let ?k = "length Cs"
  have base: "ts_base s m q start (fresh_st ?k) (ts_lg Cs) (ts_sr Cs 0) f db" and cur: "ts_cur s q start (fresh_st ?k) (ts_lg Cs) f ?k db"
    using fr by (simp_all add: ts_fresh_def)
  have e: "fresh_st ?k ?k = FDB_SECTOR_STORE_EMPTY" by (simp add: fresh_st_def)
  have st: "ts_status (tsdb_cur_sec db) = FDB_SECTOR_STORE_EMPTY" using cur by (simp add: ts_cur_def sec_info_def e)
  have ne: "Cs ! j \<noteq> []" if "j < ?k" for j
  proof -
    have "j < q" using that cur by (simp add: ts_cur_def)
    from ring_imgD(1) [OF ts_baseD(6) [OF base] this] have "sector_img f s (adr s q start j) FDB_SECTOR_STORE_FULL (Cs ! j)"
      using that by (simp add: fresh_st_def ts_lg_def)
    then show ?thesis by (rule sector_imgD(8)) simp
  qed
  show ?thesis
    unfolding ts_use_sector_def if_P [OF st]
  proof (rule use_step [OF base cur e t], goal_cases)
    case (1 f' db')
    have "ts_open s m q start Cs [] t f' db'"
      by (rule ts_openI [OF 1(1)])
        (use 1(2) ne in \<open>auto simp: ts_st_def fresh_st_def ts_lg_def ts_sr_def nth_append\<close>)
    then show ?case using 1(3,4) by (rule post)
  qed
qed

lemma ts_open_start:
  assumes "op": "ts_open s m q start Cs L t f db" and L: "L \<noteq> []"
  shows "ts_open s m q start Cs L t' f db"
proof -
  have base: "ts_base s m q start (ts_st (Suc (length Cs))) (ts_lg (Cs @ [L])) (ts_sr (Cs @ [L]) t) f db"
    and cur: "ts_cur s q start (ts_st (Suc (length Cs))) (ts_lg (Cs @ [L])) f (length Cs) db" using "op" by (simp_all add: ts_open_def)
  have "ts_sr (Cs @ [L]) t j = ts_sr (Cs @ [L]) t' j" if "j \<le> length Cs" for j
    using ts_open_full [OF "op", of j] L that by (cases "j = length Cs") (auto simp: ts_sr_def)
  then show ?thesis by (intro ts_openI [OF base cur]) (auto simp: ts_st_def split: if_splits)
qed

lemma ts_rel_open:
  assumes "ts_rel s m q A f db" "ta_sectors A \<noteq> []"
  shows "ts_open s m q (ta_start A) (butlast (ta_sectors A)) (last (ta_sectors A)) t f db" "last (ta_sectors A) \<noteq> []"
    "tsdb_last_time db = lg_time (last (last (ta_sectors A)))"
proof -
  let ?C = "butlast (ta_sectors A)" and ?L = "last (ta_sectors A)"
  have op0: "ts_open s m q (ta_start A) ?C ?L 0 f db" and L: "?L \<noteq> []" using assms by (simp_all add: ts_rel_def)
  show "?L \<noteq> []" by (rule L)
  show "tsdb_last_time db = lg_time (last ?L)" using assms by (simp add: ts_rel_def)
  show "ts_open s m q (ta_start A) ?C ?L t f db" by (rule ts_open_start [OF op0 L])
qed

lemma update_sec_status_ok:
  assumes rel: "ts_rel s m q A f db" and n: "blob_size blob \<le> tsdb_max_len db" and t: "- (2 ^ 31) \<le> t" "t < 2 ^ 31"
    and place: "ts_place q s A (blob_size blob) = (start, Cs, L)"
    and post: "\<And>f' db'. ts_open s m q start Cs L t f' db' \<Longrightarrow> tsdb_last_time db' = tsdb_last_time db \<Longrightarrow>
        tsdb_max_len db' = tsdb_max_len db \<Longrightarrow> Q (FDB_NO_ERR, db')"
  shows "holds (ts_update_sec_status db blob t) Q"
proof (cases "ta_sectors A = []")
  case True
  then have fr: "ts_fresh s m q 0 [] f db" and st0: "0 < q \<Longrightarrow> ta_start A = 0" using rel by (simp_all add: ts_rel_def)
  have cur: "sec_info f s (adr s q 0 0) FDB_SECTOR_STORE_EMPTY [] 0 (tsdb_cur_sec db)" "0 < q" and base: "ts_base s m q 0 (fresh_st 0) (ts_lg []) (ts_sr [] 0) f db"
    using fr by (simp_all add: ts_fresh_def ts_cur_def fresh_st_def ts_lg_def)
  have "ts_leave_sector db blob = Some (FDB_NO_ERR, db)" using cur by (simp add: ts_leave_sector_def sec_info_def)
  moreover have "start = 0" "Cs = []" "L = []" using place True st0 cur(2) by (auto simp: ts_place_def Let_def)
  ultimately show ?thesis using use_fresh [OF fr t, of Q] post by (simp add: ts_update_sec_status_def)
next
  case False
  let ?C = "butlast (ta_sectors A)" and ?L = "last (ta_sectors A)" and ?st = "ta_start A"
  note o = ts_rel_open [OF rel False]
  have base: "ts_base s m q ?st (ts_st (Suc (length ?C))) (ts_lg (?C @ [?L])) (ts_sr (?C @ [?L]) t) f db"
    and info: "sec_info f s (adr s q ?st (length ?C)) FDB_SECTOR_STORE_USING ?L (length ?L) (tsdb_cur_sec db)" and kq: "length ?C < q"
    using o(1) [of t] by (simp_all add: ts_open_def ts_cur_def del: length_butlast)
  note b = ts_baseD [OF base]
  have s: "s < 2 ^ 31" using adr_room [OF b(2), of ?st 0] b(4) by linarith
  then have n32: "blob_size blob < 2 ^ 32" using n b(9) by simp
  have used: "used_len ?L \<le> s" using sector_imgD(1) [OF ring_imgD(1) [OF b(6) kq]] by (simp del: length_butlast)
  show ?thesis
  proof (cases "used_len ?L + 16 + blob_size blob \<le> s")
    case True
    then have "\<not> ts_remain (tsdb_cur_sec db) < u64 (LOG_IDX_DATA_SIZE + FDB_WG_ALIGN (blob_size blob))"
      using info n32 by (simp add: sec_info_def fdb_layout)
    then have "ts_update_sec_status db blob t = Some (FDB_NO_ERR, db)"
      using info by (simp add: ts_update_sec_status_def ts_leave_sector_def ts_use_sector_def sec_info_def)
    moreover have "start = ?st" "Cs = ?C" "L = ?L" using place True False by (auto simp: ts_place_def Let_def)
    ultimately show ?thesis using post [of f db] o(1) [of t] by simp
  next
    case full: False
    have pl: "L = []" "if length (ta_sectors A) < q then start = ?st \<and> Cs = ta_sectors A else start = (?st + 1) mod q \<and> Cs = tl (ta_sectors A)"
      using place False full by (auto simp: ts_place_def Let_def split: if_splits)
    have "holds (ts_leave_sector db blob) (\<lambda>(r, db'). r = FDB_NO_ERR \<and> tsdb_last_time db' = tsdb_last_time db
       \<and> tsdb_max_len db' = tsdb_max_len db \<and> (\<exists>f'. ts_fresh s m q start Cs f' db'))"
      by (rule leave_full [OF o(1) [of t] o(2,3) _ n32])
        (use full pl(2) False in \<open>auto split: if_splits\<close>)
    then show ?thesis
      unfolding ts_update_sec_status_def holds_bind
    proof (rule holds_mono, goal_cases)
      case (1 r)
      then obtain f' db' where r: "r = (FDB_NO_ERR, db')" "ts_fresh s m q start Cs f' db'" "tsdb_last_time db' = tsdb_last_time db"
        "tsdb_max_len db' = tsdb_max_len db" by auto
      show ?case using use_fresh [OF r(2) t, of Q] post r pl(1) by simp
    qed
  qed
qed

lemma ts_place_fits:
  assumes "ts_place q s A n = (start, Cs, L)" "n + 48 \<le> s"
  shows "used_len L + 16 + n \<le> s"
  using assms by (auto simp: ts_place_def used_len_def Let_def split: if_splits)

text \<open>The logs kept by an append: all of them, unless the oldest sector is given up.\<close>

lemma concat_butlast_last: "xs \<noteq> [] \<Longrightarrow> concat (butlast xs) @ last xs = concat xs"
  by (induction xs) auto

lemma ts_place_logs:
  assumes "ts_place q s A n = (start, Cs, L)"
  shows "concat (Cs @ [L]) = (if ta_sectors A \<noteq> [] \<and> s < used_len (last (ta_sectors A)) + 16 + n \<and> q \<le> length (ta_sectors A)
     then concat (tl (ta_sectors A)) else ts_logs A)"
proof (cases "ta_sectors A = []")
  case False
  then show ?thesis
    using assms by (auto simp: ts_place_def Let_def ts_logs_def concat_butlast_last split: if_splits)
qed (use assms in \<open>simp add: ts_place_def ts_logs_def\<close>)

lemma ts_place_start:
  assumes "ts_place q s A n = (start, Cs, L)" "length (ta_sectors A) < q \<longrightarrow> ta_start A = 0" "length Cs + 1 < q" "2 \<le> q" "length (ta_sectors A) \<le> q"
  shows "start = 0"
  using assms by (auto simp: ts_place_def Let_def split: if_splits)

lemma ts_rel_last:
  assumes "ts_rel s m q A f db" "l \<in> set (ts_logs A)"
  shows "lg_time l \<le> ta_last A"
proof -
  have ne: "ta_sectors A \<noteq> []" using assms(2) by (auto simp: ts_logs_def)
  note o = ts_rel_open [OF assms(1) ne]
  have "ts_logs A = concat (butlast (ta_sectors A)) @ last (ta_sectors A)"
    using ne by (simp add: ts_logs_def concat_butlast_last)
  then have e: "ts_logs A \<noteq> []" "last (ts_logs A) = last (last (ta_sectors A))" using o(2) by simp_all
  have srt: "sorted_wrt (<) (map lg_time (ts_logs A))" "ta_last A = lg_time (last (ts_logs A))" using assms(1) ne e(2) by (simp_all add: ts_rel_def)
  have "ts_logs A = butlast (ts_logs A) @ [last (ts_logs A)]" using e(1) by simp
  then have "sorted_wrt (<) (map lg_time (butlast (ts_logs A) @ [last (ts_logs A)]))" "l \<in> set (butlast (ts_logs A) @ [last (ts_logs A)])"
    using srt(1) assms(2) by simp_all
  then show ?thesis using srt(2) by (auto simp: sorted_wrt_append)
qed

lemma append_ok:
  assumes rel: "ts_rel s m q A f db" and blob: "blob_data blob = Some d" "blob_size blob = length d"
    and n: "length d \<le> tsdb_max_len db" and t: "ta_last A < t" "- (2 ^ 31) \<le> t" "t < 2 ^ 31"
    and post: "\<And>f' db'. ts_rel s m q (ts_push q s A \<lparr>lg_time = t, lg_data = d, lg_status = FDB_TSL_WRITE\<rparr>) f' db' \<Longrightarrow>
        tsdb_max_len db' = tsdb_max_len db \<Longrightarrow> Q (FDB_NO_ERR, db')"
  shows "holds (tsl_append db blob t) Q"
proof -
  let ?l = "\<lparr>lg_time = t, lg_data = d, lg_status = FDB_TSL_WRITE\<rparr>"
  have g: "\<not> tsdb_max_len db < blob_size blob" "\<not> t \<le> tsdb_last_time db" using n t rel blob by (simp_all add: ts_rel_def)
  obtain start Cs L where pl: "ts_place q s A (blob_size blob) = (start, Cs, L)" by (metis prod_cases3)
  have l: "log_ok ?l" "lg_status ?l = FDB_TSL_WRITE" using t by (simp_all add: log_ok_def)
  have push: "ts_push q s A ?l = \<lparr>ta_start = start, ta_sectors = Cs @ [L @ [?l]], ta_last = t\<rparr>"
    using pl blob by (simp add: ts_push_def)
  show ?thesis
    unfolding tsl_append_def if_not_P [OF g(1)] if_not_P [OF g(2)] holds_bind
  proof (rule update_sec_status_ok [OF rel _ t(2,3) pl], use n blob in simp, goal_cases)
    case (1 f1 db1)
    have "ts_base s m q start (ts_st (Suc (length Cs))) (ts_lg (Cs @ [L])) (ts_sr (Cs @ [L]) t) f1 db1"
      and info: "sec_info f1 s (adr s q start (length Cs)) FDB_SECTOR_STORE_USING L (length L) (tsdb_cur_sec db1)" and kq: "length Cs < q"
      using 1(1) by (simp_all add: ts_open_def ts_cur_def)
    note b = ts_baseD [OF this(1)]
    have room: "adr s q start (length Cs) + s < 2 ^ 31" using adr_room [OF b(2), of start "length Cs"] b(4) by linarith
    have fits: "used_len (L @ [?l]) \<le> s" using ts_place_fits [OF pl] b(9) 1(3) n blob by (simp add: used_len_def)
    have op1: "ts_open s m q start Cs L (lg_time ?l) f1 db1" using 1(1) by simp
    have u: "u32 (idx_addr (adr s q start (length Cs)) (length L) + 16) = idx_addr (adr s q start (length Cs)) (Suc (length L))"
      "u32 (sub64 (adr s q start (length Cs) + s - data_len L) (length d)) = adr s q start (length Cs) + s - data_len (L @ [?l])"
      "sub64 (s - used_len L) (u64 (16 + length d)) = s - used_len (L @ [?l])"
      using fits room by (simp_all add: idx_addr_def used_len_def)
    have "holds (write_tsl db1 blob (lg_time ?l)) (\<lambda>r. holds (case r of (result, db) \<Rightarrow>
          if result \<noteq> FDB_NO_ERR then Some (result, db)
          else let sec = tsdb_cur_sec db; need = LOG_IDX_DATA_SIZE + FDB_WG_ALIGN (blob_size blob) in
            Some (FDB_NO_ERR,
              db\<lparr>tsdb_cur_sec := sec\<lparr>ts_end_idx := ts_empty_idx sec, ts_end_time := t,
                    ts_empty_idx := u32 (ts_empty_idx sec + LOG_IDX_DATA_SIZE),
                    ts_empty_data := u32 (sub64 (ts_empty_data sec) (FDB_WG_ALIGN (blob_size blob))),
                    ts_remain := sub64 (ts_remain sec) (u64 need)\<rparr>, tsdb_last_time := t\<rparr>)) Q)"
    proof (rule log_step [where t = 0, OF op1 fits l], use blob in simp, use blob in simp, goal_cases)
      case (1 f2 db2)
      have c: "ts_empty_idx (tsdb_cur_sec db2) = idx_addr (adr s q start (length Cs)) (length L)"
        "ts_empty_data (tsdb_cur_sec db2) = adr s q start (length Cs) + s - data_len L" "ts_remain (tsdb_cur_sec db2) = s - used_len L"
        using info 1(2) by (simp_all add: sec_info_def)
      have st0: "Suc (length Cs) < q \<longrightarrow> start = 0"
      proof
        assume k: "Suc (length Cs) < q"
        have "length (ta_sectors A) \<le> q"
          using rel by (cases "ta_sectors A = []") (auto simp: ts_rel_def ts_open_def ts_cur_def)
        then show "start = 0" using ts_place_start [OF pl] k b(3) rel by (simp add: ts_rel_def)
      qed
      have "sorted_wrt (<) (map lg_time (concat (Cs @ [L]) @ [?l]))"
      proof -
        have all: "sorted_wrt (<) (map lg_time (ts_logs A))" using rel by (simp add: ts_rel_def)
        have tl: "ta_sectors A \<noteq> [] \<Longrightarrow> ts_logs A = hd (ta_sectors A) @ concat (tl (ta_sectors A))" by (cases "ta_sectors A") (simp_all add: ts_logs_def)
        have sub: "set (concat (Cs @ [L])) \<subseteq> set (ts_logs A)" "sorted_wrt (<) (map lg_time (concat (Cs @ [L])))"
          unfolding ts_place_logs [OF pl] using all tl by (auto simp: sorted_wrt_append)
        have "lg_time x < t" if "x \<in> set (concat (Cs @ [L]))" for x using ts_rel_last [OF rel, of x] sub(1) that t(1) by force
        then show ?thesis using sub(2) by (auto simp: sorted_wrt_append)
      qed
      then have rel': "ts_rel s m q (ts_push q s A ?l) f2 (db2\<lparr>tsdb_cur_sec := (tsdb_cur_sec db2)\<lparr>ts_end_idx := ts_empty_idx (tsdb_cur_sec db2),
           ts_end_time := t, ts_empty_idx := idx_addr (adr s q start (length Cs)) (Suc (length L)),
           ts_empty_data := adr s q start (length Cs) + s - data_len (L @ [?l]), ts_remain := s - used_len (L @ [?l])\<rparr>, tsdb_last_time := t\<rparr>)"
        using 1(1) st0 unfolding push by (simp add: ts_rel_def ts_logs_def ts_open_def ts_cur_def)
      show ?case
        using post [OF rel'] 1(3) \<open>tsdb_max_len db1 = _\<close> c u blob(2) by (simp add: Let_def fdb_layout)
    qed
    then show ?case by simp
  qed
qed

lemma append_refused:
  assumes "ts_rel s m q A f db" "blob_size blob > tsdb_max_len db \<or> t \<le> ta_last A"
  shows "tsl_append db blob t = Some (FDB_WRITE_ERR, db)"
  using assms by (auto simp: tsl_append_def ts_rel_def)

end
