(* ===== verification/TsWalk.thy ===== *)
theory TsWalk
  imports TsAdd
begin

text \<open>
  The iterators over all logs: a callback that only reads sees exactly the logs of the abstract state, from the
  oldest on or from the newest back, until it stops.
\<close>

section \<open>What an iteration shows\<close>

text \<open>A pure callback, over a list.\<close>

fun visit_logs :: "('t \<Rightarrow> 'x \<Rightarrow> bool \<times> 'x) \<Rightarrow> 't list \<Rightarrow> 'x \<Rightarrow> bool \<times> 'x" where
  "visit_logs v [] x = (False, x)"
| "visit_logs v (t # ts) x = (case v t x of (stop, x) \<Rightarrow> if stop then (True, x) else visit_logs v ts x)"

lemma visit_logs_append:
  "visit_logs v (ts @ ts') x = (case visit_logs v ts x of (stop, x) \<Rightarrow> if stop then (True, x) else visit_logs v ts' x)"
  by (induction ts arbitrary: x) (auto split: prod.split)

definition pos_tsls :: "nat \<Rightarrow> nat \<Rightarrow> ts_abs \<Rightarrow> nat \<Rightarrow> fdb_tsl list" where
  "pos_tsls s q A j = map (tsl_of s (adr s q (ta_start A) j) (ts_lg (ta_sectors A) j)) [0..<length (ts_lg (ta_sectors A) j)]"

definition ts_tsls :: "nat \<Rightarrow> nat \<Rightarrow> ts_abs \<Rightarrow> fdb_tsl list" where
  "ts_tsls s q A = concat (map (pos_tsls s q A) [0..<length (ta_sectors A)])"

lemma pos_tsls_empty [simp]: "length (ta_sectors A) \<le> j \<Longrightarrow> pos_tsls s q A j = []"
  by (simp add: pos_tsls_def ts_lg_def)

lemma ts_tsls_upto: "length (ta_sectors A) \<le> n \<Longrightarrow> concat (map (pos_tsls s q A) [0..<n]) = ts_tsls s q A"
proof (induction n)
  case (Suc n)
  then show ?case by (cases "length (ta_sectors A) = Suc n") (auto simp: ts_tsls_def)
qed (simp add: ts_tsls_def)

text \<open>Up to the addresses these are the logs of the abstract state.\<close>

lemma map_tsls:
  assumes "\<And>b L i. i < length L \<Longrightarrow> g (tsl_of s b L i) = h (L ! i)"
  shows "map g (ts_tsls s q A) = map h (ts_logs A)"
proof -
  have pos: "map g (pos_tsls s q A j) = map h (ta_sectors A ! j)" if "j < length (ta_sectors A)" for j
    unfolding pos_tsls_def using that assms by (intro nth_equalityI) (auto simp: ts_lg_def)
  have "map g (ts_tsls s q A) = concat (map (\<lambda>j. map h (ta_sectors A ! j)) [0..<length (ta_sectors A)])"
    unfolding ts_tsls_def map_concat map_map comp_def using pos by (intro arg_cong [of _ _ concat] map_cong) auto
  also have "\<dots> = concat (map (map h) (map (\<lambda>j. ta_sectors A ! j) [0..<length (ta_sectors A)]))" by (simp add: comp_def)
  also have "\<dots> = map h (ts_logs A)" unfolding map_nth by (simp add: ts_logs_def map_concat)
  finally show ?thesis .
qed

lemma tsls_fields:
  "map tsl_time (ts_tsls s q A) = map lg_time (ts_logs A)" "map tsl_status (ts_tsls s q A) = map lg_status (ts_logs A)"
  "map tsl_log_len (ts_tsls s q A) = map (\<lambda>l. length (lg_data l)) (ts_logs A)"
  by (rule map_tsls; simp add: tsl_of_def)+


lemma tsls_mem:
  assumes "j < length (ta_sectors A)" "i < length (ta_sectors A ! j)"
  shows "tsl_of s (adr s q (ta_start A) j) (ta_sectors A ! j) i \<in> set (ts_tsls s q A)"
proof -
  have "tsl_of s (adr s q (ta_start A) j) (ta_sectors A ! j) i \<in> set (pos_tsls s q A j)"
    using assms by (simp add: pos_tsls_def ts_lg_def)
  then show ?thesis using assms(1) unfolding ts_tsls_def by auto
qed


section \<open>Positions of a database in order\<close>

lemma ts_st_empty: "ts_st k j = FDB_SECTOR_STORE_EMPTY \<longleftrightarrow> k \<le> j"
  by (auto simp: ts_st_def)

lemma ts_rel_base:
  assumes "ts_rel s m q A f db"
  shows "ts_base s m q (ta_start A) (ts_st (length (ta_sectors A))) (ts_lg (ta_sectors A)) (ts_sr (ta_sectors A) 0) f db"
proof (cases "ta_sectors A = []")
  case True
  then have fr: "ts_base s m q 0 (fresh_st 0) (ts_lg []) (ts_sr [] 0) f db" and st: "0 < q \<Longrightarrow> ta_start A = 0"
    using assms by (simp_all add: ts_rel_def ts_fresh_def)
  have "ts_st 0 = fresh_st 0" by (simp add: fun_eq_iff ts_st_def fresh_st_def)
  then show ?thesis using fr st True ts_baseD(3) [OF fr] by simp
next
  case False
  then show ?thesis using ts_rel_open(1) [OF assms False, of 0] by (simp add: ts_open_def)
qed

lemma ts_rel_cur:
  assumes "ts_rel s m q A f db" "ta_sectors A \<noteq> []"
  shows "sec_info f s (adr s q (ta_start A) (length (ta_sectors A) - 1)) FDB_SECTOR_STORE_USING (last (ta_sectors A))
     (length (last (ta_sectors A))) (tsdb_cur_sec db)" "length (ta_sectors A) \<le> q"
proof -
  have "ts_cur s q (ta_start A) (ts_st (length (ta_sectors A))) (ts_lg (ta_sectors A)) f (length (ta_sectors A) - 1) db"
    using ts_rel_open(1) [OF assms, of 0] assms(2) by (simp add: ts_open_def)
  moreover have "ts_lg (ta_sectors A) (length (ta_sectors A) - 1) = last (ta_sectors A)" using assms(2) by (simp add: ts_lg_def last_conv_nth)
  ultimately show "sec_info f s (adr s q (ta_start A) (length (ta_sectors A) - 1)) FDB_SECTOR_STORE_USING (last (ta_sectors A))
     (length (last (ta_sectors A))) (tsdb_cur_sec db)" "length (ta_sectors A) \<le> q"
    using assms(2) by (simp_all add: ts_cur_def ts_st_def) linarith
qed

lemma cur_addr:
  assumes rel: "ts_rel s m q A f db"
  shows "ts_addr (tsdb_cur_sec db) = adr s q (ta_start A) (length (ta_sectors A) - 1)"
proof (cases "ta_sectors A = []")
  case True
  then have "ts_cur s q 0 (fresh_st 0) (ts_lg []) f 0 db" "0 < q \<Longrightarrow> ta_start A = 0" using rel by (simp_all add: ts_rel_def ts_fresh_def)
  then show ?thesis using True by (simp add: ts_cur_def sec_info_def)
next
  case False
  then show ?thesis using ts_rel_cur(1) [OF rel False] by (simp add: sec_info_def)
qed

lemma ts_rel_frame:
  assumes "ts_rel s m q A f db" "stored s m f db'" "io_frame db db'"
  shows "ts_rel s m q A f db'"
  using assms ts_base_frame [OF _ assms(2,3)] ts_cur_frame [OF _ assms(3)]
  by (auto simp: ts_rel_def ts_fresh_def ts_open_def io_frame_ts)

lemma ts_rel_sectors_ne:
  assumes "ts_rel s m q A f db" "j < length (ta_sectors A)"
  shows "ta_sectors A ! j \<noteq> []"
proof -
  have ne: "ta_sectors A \<noteq> []" using assms(2) by auto
  note o = ts_rel_open [OF assms(1) ne]
  show ?thesis
  proof (cases "j < length (butlast (ta_sectors A))")
    case True
    then show ?thesis using ts_open_full [OF o(1) [of 0] True] by (simp add: nth_butlast)
  next
    case False
    then have "j = length (ta_sectors A) - 1" using assms(2) by simp
    then show ?thesis using o(2) ne by (simp add: last_conv_nth)
  qed
qed

lemma ts_rel_updates [simp]:
  "ts_rel s m q A f (db_lock db) = ts_rel s m q A f db" "ts_rel s m q A f (db_unlock db) = ts_rel s m q A f db"
proof -
  have "tsdb_cur_sec (db_lock db) = tsdb_cur_sec db" "tsdb_cur_sec (db_unlock db) = tsdb_cur_sec db"
    "tsdb_last_time (db_lock db) = tsdb_last_time db" "tsdb_last_time (db_unlock db) = tsdb_last_time db"
    by (simp_all add: db_lock_def db_unlock_def)
  then show "ts_rel s m q A f (db_lock db) = ts_rel s m q A f db" "ts_rel s m q A f (db_unlock db) = ts_rel s m q A f db"
    by (simp_all add: ts_rel_def ts_fresh_def ts_open_def ts_cur_def)
qed


lemma ts_rel_pos:
  assumes "ts_rel s m q A f db" "j < length (ta_sectors A)"
  shows "j < q" "sector_img f s (adr s q (ta_start A) j) (ts_st (length (ta_sectors A)) j) (ta_sectors A ! j)"
    "time_of (rd f (adr s q (ta_start A) j + 5) 4) = lg_time (hd (ta_sectors A ! j))"
proof -
  have ne: "ta_sectors A \<noteq> []" using assms(2) by auto
  show jq: "j < q" using ts_rel_cur(2) [OF assms(1) ne] assms(2) by simp
  note ring = ts_baseD(6) [OF ts_rel_base [OF assms(1)]]
  show img: "sector_img f s (adr s q (ta_start A) j) (ts_st (length (ta_sectors A)) j) (ta_sectors A ! j)"
    using ring_imgD(1) [OF ring jq] assms(2) by (simp add: ts_lg_def)
  have "rd f (adr s q (ta_start A) j + 5) 4 = time_bytes (lg_time (hd (ta_sectors A ! j)))"
    using ring_imgD(2) [OF ring jq] assms(2) ts_rel_sectors_ne [OF assms] by (simp add: ts_sr_def ts_lg_def ts_st_empty)
  then show "time_of (rd f (adr s q (ta_start A) j + 5) 4) = lg_time (hd (ta_sectors A ! j))"
    using sector_imgD(5) [OF img, of 0] ts_rel_sectors_ne [OF assms] by (simp add: log_ok_def hd_conv_nth)
qed

text \<open>What the loops over sectors rely on: where the sector is, its last index node and its times.\<close>

definition walk_sec :: "addr \<Rightarrow> ts_log list \<Rightarrow> tsdb_sec_info \<Rightarrow> bool" where
  "walk_sec b L sec \<longleftrightarrow> ts_addr sec = b \<and> (ts_status sec = FDB_SECTOR_STORE_USING \<or> ts_status sec = FDB_SECTOR_STORE_FULL)
     \<and> ts_end_idx sec = idx_addr b (length L - 1) \<and> ts_start_time sec = lg_time (hd L) \<and> ts_end_time sec = lg_time (last L)"

lemma walk_sec_pos:
  assumes rel: "ts_rel s m q A f db" and j: "j < length (ta_sectors A)"
    and sec: "sec_info f s (adr s q (ta_start A) j) (ts_st (length (ta_sectors A)) j) (ta_sectors A ! j) n sec"
  shows "walk_sec (adr s q (ta_start A) j) (ta_sectors A ! j) (if ts_status sec = FDB_SECTOR_STORE_USING then tsdb_cur_sec db else sec)"
proof (cases "Suc j = length (ta_sectors A)")
  case True
  then have ne: "ta_sectors A \<noteq> []" and jl: "j = length (ta_sectors A) - 1" by auto
  then have l: "last (ta_sectors A) = ta_sectors A ! j" by (simp add: last_conv_nth)
  have L: "ta_sectors A ! j \<noteq> []" by (rule ts_rel_sectors_ne [OF rel j])
  have u: "ts_status sec = FDB_SECTOR_STORE_USING" using sec True by (simp add: sec_info_def ts_st_def)
  show ?thesis
    using ts_rel_cur(1) [OF rel ne] ts_rel_pos(3) [OF rel j] L unfolding l jl [symmetric] if_P [OF u]
    by (simp add: walk_sec_def sec_info_def last_conv_nth)
next
  case False
  then have "ts_st (length (ta_sectors A)) j = FDB_SECTOR_STORE_FULL" using j by (simp add: ts_st_def)
  then show ?thesis using sec ts_rel_pos(3) [OF rel j] by (simp add: walk_sec_def sec_info_def)
qed

lemma walk_next_tsl:
  assumes "walk_sec b L sec" "i < length L" "b + s < 2 ^ 31" "used_len L \<le> s" "tsl_addr_index tsl = idx_addr b i"
  shows "get_next_tsl_addr sec tsl = (if Suc i < length L then idx_addr b (Suc i) else TS_FAILED_ADDR)"
    "get_last_tsl_addr sec tsl = (if 0 < i then idx_addr b (i - 1) else TS_FAILED_ADDR)"
    "idx_addr b i \<noteq> TS_FAILED_ADDR"
proof -
  have lt: "idx_addr b i + 16 < 2 ^ 31" using assms(2-4) by (simp add: idx_addr_def used_len_def)
  have e: "idx_addr b i + 16 \<le> idx_addr b (length L - 1) \<longleftrightarrow> Suc i < length L" using assms(2) by (auto simp: idx_addr_def)
  show "get_next_tsl_addr sec tsl = (if Suc i < length L then idx_addr b (Suc i) else TS_FAILED_ADDR)"
    using assms(1,5) lt e by (auto simp: get_next_tsl_addr_def walk_sec_def fdb_layout idx_addr_Suc)
  show "get_last_tsl_addr sec tsl = (if 0 < i then idx_addr b (i - 1) else TS_FAILED_ADDR)"
    using assms(1,5) lt by (cases i) (auto simp: get_last_tsl_addr_def walk_sec_def fdb_layout idx_addr_def)
  show "idx_addr b i \<noteq> TS_FAILED_ADDR" using lt by (auto simp: fdb_layout)
qed

text \<open>The sectors after and before a position.\<close>

lemma adr_not_failed: "ts_base s m q start ST LG SR f db \<Longrightarrow> adr s q start j \<noteq> TS_FAILED_ADDR"
  using adr_less [of m q s start j] by (auto simp: ts_base_def fdb_layout)

lemma walk_next_sector:
  assumes base: "ts_base s m q start ST LG SR f db" and j: "j < q" "ts_addr sec = adr s q start j"
  shows "ts_get_next_sector_addr db sec (Suc j * s) = (if Suc j < q then adr s q start (Suc j) else TS_FAILED_ADDR)"
proof -
  note b = ts_baseD [OF base]
  have m: "m = q * s" "0 < s" using b(2) by (simp_all add: sectors_def)
  have le: "Suc j * s + s \<le> m \<longleftrightarrow> Suc j < q" unfolding m(1) using mult_le_cancel2 [of "Suc (Suc j)" s q] m(2) by auto
  have u: "u32 (Suc j * s + s) = Suc j * s + s"
  proof -
    have "Suc j * s \<le> m" unfolding m(1) by (rule mult_le_mono1) (use j(1) in simp)
    moreover have "s \<le> m" using m j(1) by simp
    ultimately show ?thesis using b(4) by simp
  qed
  show "ts_get_next_sector_addr db sec (Suc j * s) = (if Suc j < q then adr s q start (Suc j) else TS_FAILED_ADDR)"
    unfolding ts_get_next_sector_addr_def b(10,11) u le j(2) adr_next [OF b(2,4)] ..
qed

lemma walk_last_sector:
  assumes base: "ts_base s m q start ST LG SR f db" and n: "n < q" and j: "ts_addr sec = adr s q start (Suc j)"
  shows "get_last_sector_addr db sec (Suc n * s) = (if Suc n < q then adr s q start j else TS_FAILED_ADDR)"
proof -
  note b = ts_baseD [OF base]
  have m: "m = q * s" "0 < s" "0 < q" using b(2) by (simp_all add: sectors_def)
  have le: "Suc n * s + s \<le> m \<longleftrightarrow> Suc n < q" unfolding m(1) using mult_le_cancel2 [of "Suc (Suc n)" s q] m(2) by auto
  have u: "u32 (Suc n * s + s) = Suc n * s + s"
  proof -
    have "Suc n * s \<le> m" unfolding m(1) by (rule mult_le_mono1) (use n in simp)
    moreover have "s \<le> m" using m n by simp
    ultimately show ?thesis using b(4) by simp
  qed
  have prev: "(if s \<le> adr s q start (Suc j) then adr s q start (Suc j) - s else sub32 m s) = adr s q start j"
  proof (cases "Suc ((start + j) mod q) = q")
    case True
    then have "adr s q start (Suc j) = 0" using m(3) by (simp add: adr_def mod_Suc)
    moreover have "adr s q start j = m - s" using True m by (simp add: adr_def) (metis diff_add_inverse mult_Suc)
    ultimately show ?thesis using m by simp
  next
    case False
    then have "adr s q start (Suc j) = Suc ((start + j) mod q) * s" by (simp add: adr_def mod_Suc)
    then show ?thesis by (simp add: adr_def)
  qed
  show ?thesis unfolding get_last_sector_addr_def b(10,11) u le j prev ..
qed


section \<open>The order of the index nodes of a sector\<close>

text \<open>\<open>step\<close> leads from each number of the list to the next one and ends after the last.\<close>

fun chain :: "(fdb_tsl \<Rightarrow> addr) \<Rightarrow> addr \<Rightarrow> nat list \<Rightarrow> bool" where
  "chain step b [] = True"
| "chain step b (i # is) = ((\<forall>tsl. tsl_addr_index tsl = idx_addr b i \<longrightarrow>
      step tsl = (case is of [] \<Rightarrow> TS_FAILED_ADDR | k # _ \<Rightarrow> idx_addr b k)) \<and> chain step b is)"

lemma chain_up:
  assumes "walk_sec b L sec" "b + s < 2 ^ 31" "used_len L \<le> s" "i \<le> length L"
  shows "chain (get_next_tsl_addr sec) b [i..<length L]"
  using assms(4)
proof (induction "length L - i" arbitrary: i)
  case (Suc n)
  then have i: "i < length L" by simp
  have next': "[i..<length L] = i # [Suc i..<length L]" using i by (simp add: upt_conv_Cons)
  have "(case [Suc i..<length L] of [] \<Rightarrow> TS_FAILED_ADDR | k # _ \<Rightarrow> idx_addr b k) = (if Suc i < length L then idx_addr b (Suc i) else TS_FAILED_ADDR)"
    by (simp add: upt_rec [of "Suc i"])
  then show ?case unfolding next' using walk_next_tsl(1) [OF assms(1) i assms(2,3)] Suc by simp
qed simp

lemma chain_down:
  assumes "walk_sec b L sec" "b + s < 2 ^ 31" "used_len L \<le> s" "i \<le> length L"
  shows "chain (get_last_tsl_addr sec) b (rev [0..<i])"
  using assms(4)
proof (induction i)
  case (Suc i)
  then have i: "i < length L" by simp
  have "(case rev [0..<i] of [] \<Rightarrow> TS_FAILED_ADDR | k # _ \<Rightarrow> idx_addr b k) = (if 0 < i then idx_addr b (i - 1) else TS_FAILED_ADDR)"
    by (cases i) simp_all
  then show ?case using walk_next_tsl(2) [OF assms(1) i assms(2,3)] Suc by simp
qed simp


section \<open>Readers\<close>

text \<open>What is left of a call that only reads: the streams may have moved.\<close>

definition read_only :: "fdb_tsdb \<Rightarrow> fdb_tsdb \<Rightarrow> bool" where
  "read_only db db' \<longleftrightarrow> (\<exists>db1. io_frame (db_lock db) db1 \<and> db' = db_unlock db1)"

lemma read_onlyD:
  assumes "read_only db db'"
  shows "db_init_ok db' = db_init_ok db" "db_dir db' = db_dir db" "tsdb_max_len db' = tsdb_max_len db"
proof -
  obtain db1 where e: "io_frame (db_lock db) db1" "db' = db_unlock db1" using assms by (auto simp: read_only_def)
  have "db_init_ok db1 = db_init_ok db" "db_dir db1 = db_dir db" "tsdb_max_len db1 = tsdb_max_len db"
    using io_frameD [OF e(1)] io_frame_ts [OF e(1)] by (simp_all add: db_lock_def)
  then show "db_init_ok db' = db_init_ok db" "db_dir db' = db_dir db" "tsdb_max_len db' = tsdb_max_len db"
    by (simp_all add: e(2) db_unlock_def)
qed

text \<open>A callback that shows what \<open>visit\<close> says for every log and changes no more than the streams.\<close>

locale tsl_reader =
  fixes s m q :: nat and A :: ts_abs
    and cb :: "'x tsl_callback"
    and visit :: "fdb_tsl \<Rightarrow> 'x \<Rightarrow> bool \<times> 'x"
  assumes reads: "ts_rel s m q A f db \<Longrightarrow> tsl \<in> set (ts_tsls s q A) \<Longrightarrow>
    \<exists>db'. cb tsl x db = Some (fst (visit tsl x), snd (visit tsl x), db') \<and> stored s m f db' \<and> io_frame db db'"
begin

lemma cb_ok:
  assumes "ts_rel s m q A f db" "tsl \<in> set (ts_tsls s q A)"
    and "\<And>db'. stored s m f db' \<Longrightarrow> io_frame db db' \<Longrightarrow> Q (fst (visit tsl x), snd (visit tsl x), db')"
  shows "holds (cb tsl x db) Q"
  using reads [OF assms(1,2), of x] assms(3) by auto

lemma iter_sector_chain:
  assumes rel: "ts_rel s m q A f db" and j: "j < length (ta_sectors A)"
    and "is": "is \<noteq> []" "set is \<subseteq> {..<length (ta_sectors A ! j)}" "chain (step sec) (adr s q (ta_start A) j) is"
      "tsl_addr_index tsl = idx_addr (adr s q (ta_start A) j) (hd is)"
    and post: "\<And>tsl' db'. stored s m f db' \<Longrightarrow> io_frame db db' \<Longrightarrow>
       (case visit_logs visit (map (tsl_of s (adr s q (ta_start A) j) (ta_sectors A ! j)) is) x of (stop, x') \<Rightarrow> Q (stop, tsl', x', db'))"
  shows "holds (tsl_iter_sector step db sec tsl x cb) Q"
  using rel "is" post
proof (induction "is" arbitrary: db tsl x)
  case (Cons i "is")
  let ?b = "adr s q (ta_start A) j" and ?L = "ta_sectors A ! j"
  note rel = Cons.prems(1)
  note pos = ts_rel_pos [OF rel j]
  note b = ts_baseD [OF ts_rel_base [OF rel]]
  have i: "i < length ?L" using Cons.prems(3) by simp
  have room: "?b + s < 2 ^ 31" using adr_room [OF b(2), of "ta_start A" j] b(4) by linarith
  have in16: "in_sector s m (tsl_addr_index tsl) 16"
    unfolding Cons.prems(5) using idx_in_sector [OF b(1) adr_mod adr_less [OF b(2)] pos(2) i] by simp
  have tsl: "tsl_at f (tsdb_max_len db) (tsl_addr_index tsl) = tsl_of s ?b ?L i"
    unfolding Cons.prems(5) using sector_img_log [OF pos(2) _ i] room by simp
  have mem: "tsl_of s ?b ?L i \<in> set (ts_tsls s q A)"
    by (rule tsls_mem [OF j i])
  have idx: "tsl_addr_index (tsl_of s ?b ?L i) = idx_addr ?b i" by (simp add: tsl_of_def)
  show ?case
  proof (subst tsl_iter_sector.simps, unfold holds_bind, rule stored_read_tsl [OF b(1) in16], unfold tsl prod.case holds_bind,
      rule cb_ok [OF ts_rel_frame [OF rel] mem], assumption+, unfold prod.case, goal_cases)
    case (1 db1 db2)
    have fr: "io_frame db db2" by (rule io_frame_trans [OF 1(2,4)])
    have rel2: "ts_rel s m q A f db2" by (rule ts_rel_frame [OF rel 1(3) fr])
    obtain stop x' where v: "visit (tsl_of s ?b ?L i) x = (stop, x')" by (cases "visit (tsl_of s ?b ?L i) x")
    note post = Cons.prems(6)
    show ?case
    proof (cases stop)
      case True
      then show ?thesis using post [OF 1(3) fr, of "tsl_of s ?b ?L i"] by (simp add: v)
    next
      case False
      have stp: "step sec (tsl_of s ?b ?L i) = (case is of [] \<Rightarrow> TS_FAILED_ADDR | k # _ \<Rightarrow> idx_addr ?b k)"
        using Cons.prems(4) idx by simp
      show ?thesis
      proof (cases "is")
        case Nil
        then show ?thesis using post [OF 1(3) fr, of "(tsl_of s ?b ?L i)\<lparr>tsl_addr_index := TS_FAILED_ADDR\<rparr>"] False stp by (simp add: v)
      next
        case (Cons k is')
        have "k < length ?L" using Cons.prems(3) Cons by simp
        then have nf: "idx_addr ?b k \<noteq> TS_FAILED_ADDR" using room sector_imgD(1) [OF pos(2)] by (simp add: idx_addr_def used_len_def fdb_layout)
        have "holds (tsl_iter_sector step db2 sec ((tsl_of s ?b ?L i)\<lparr>tsl_addr_index := idx_addr ?b k\<rparr>) x' cb) Q"
        proof (rule Cons.IH [OF rel2], goal_cases)
          case (5 db3 tsl')
          show ?case using post [OF 5(1) io_frame_trans [OF fr 5(2)], of tsl'] v False by simp
        qed (use Cons Cons.prems in auto)
        then show ?thesis using False stp nf Cons by (simp add: v Let_def)
      qed
    qed
  qed
qed simp

lemma iter_loop_ok:
  assumes rel: "ts_rel s m q A f db" and j: "j < q"
    and post: "\<And>db'. stored s m f db' \<Longrightarrow> io_frame db db' \<Longrightarrow>
       Q (snd (visit_logs visit (concat (map (pos_tsls s q A) [j..<q])) x), db')"
  shows "holds (tsl_iter_loop db sector (adr s q (ta_start A) j) (j * s) tsl x cb) Q"
  using rel j post
proof (induction "q - j" arbitrary: j db sector tsl x)
  case (Suc n)
  let ?b = "adr s q (ta_start A) j" and ?k = "length (ta_sectors A)"
  note rel = Suc.prems(1)
  note base = ts_rel_base [OF rel]
  note b = ts_baseD [OF base]
  have jq: "j < q" by (rule Suc.prems(2))
  have img: "sector_img f s ?b (ts_st ?k j) (ts_lg (ta_sectors A) j)" by (rule ring_imgD(1) [OF b(6) jq])
  have trav: "u32 (j * s + db_sec_size db) = Suc j * s"
  proof -
    have "Suc j * s \<le> m" using b(2) jq mult_le_mono1 [of "Suc j" q s] by (simp add: sectors_def)
    then show ?thesis using b(4,10) by simp
  qed
  have split: "concat (map (pos_tsls s q A) [j..<q]) = pos_tsls s q A j @ concat (map (pos_tsls s q A) [Suc j..<q])"
    using jq by (simp add: upt_conv_Cons)
  have next': "holds (if stop then Some (x', db') else let a = ts_get_next_sector_addr db' sec (Suc j * s) in
        if a \<noteq> TS_FAILED_ADDR then tsl_iter_loop db' sec a (Suc j * s) tsl' x' cb else Some (x', db')) Q"
    if v: "visit_logs visit (pos_tsls s q A j) x = (stop, x')" and st: "stored s m f db'" "io_frame db db'" and sec: "ts_addr sec = ?b"
    for stop x' db' sec tsl'
  proof (cases "\<not> stop \<and> Suc j < q")
    case True
    have rel': "ts_rel s m q A f db'" by (rule ts_rel_frame [OF rel st])
    have "holds (tsl_iter_loop db' sec (adr s q (ta_start A) (Suc j)) (Suc j * s) tsl' x' cb) Q"
    proof (rule Suc.hyps(1) [OF _ rel'], goal_cases)
      case (3 db2)
      show ?case
        using Suc.prems(3) [OF 3(1) io_frame_trans [OF st(2) 3(2)]] v True unfolding split by (simp add: visit_logs_append)
    qed (use Suc.hyps(2) True in auto)
    then show ?thesis
      using True walk_next_sector [OF ts_rel_base [OF rel'] jq sec] by (simp add: Let_def adr_not_failed [OF base])
  next
    case False
    then have "Q (x', db')"
      using Suc.prems(3) [OF st] v jq unfolding split by (cases stop) (simp_all add: visit_logs_append)
    then show ?thesis
      using False walk_next_sector [OF ts_rel_base [OF ts_rel_frame [OF rel st]] jq sec] by (auto simp: Let_def)
  qed
  show ?case
  proof (subst tsl_iter_loop.simps, unfold Let_def trav holds_bind,
      rule stored_read_sector_info [OF b(1) adr_mod adr_less [OF b(2)] img b(12)], unfold prod.case holds_bind, goal_cases)
    case (1 r sec db1)
    have r: "r = FDB_NO_ERR" using 1(2) by simp
    have sinfo: "sec_info f s ?b (ts_st ?k j) (ts_lg (ta_sectors A) j) 0 sec" using 1(1) by simp
    show ?case
    proof (cases "j < ?k")
      case True
      note rel1 = ts_rel_frame [OF rel 1(3,4)]
      let ?sec = "if ts_status sec = FDB_SECTOR_STORE_USING then tsdb_cur_sec db1 else sec" and ?L = "ta_sectors A ! j"
      have used: "ts_status sec = FDB_SECTOR_STORE_USING \<or> ts_status sec = FDB_SECTOR_STORE_FULL"
        using sinfo True by (auto simp: sec_info_def ts_st_def)
      have ws: "walk_sec ?b ?L ?sec" by (rule walk_sec_pos [OF rel1 True]) (use sinfo True in \<open>simp add: ts_lg_def\<close>)
      have addr: "ts_addr ?sec = ?b" using ws by (simp add: walk_sec_def)
      note pos = ts_rel_pos [OF rel True]
      have room: "?b + s < 2 ^ 31" using adr_room [OF b(2), of "ta_start A" j] b(4) by linarith
      have ne: "?L \<noteq> []" by (rule ts_rel_sectors_ne [OF rel True])
      have u: "u32 (?b + 32) = idx_addr ?b 0" using room b(12) by (simp add: idx_addr_def)
      have "holds (tsl_iter_sector get_next_tsl_addr db1 ?sec (tsl\<lparr>tsl_addr_index := idx_addr ?b 0\<rparr>) x cb)
         (\<lambda>(stop, tsl, arg, db). holds (if stop then Some (arg, db) else let a = ts_get_next_sector_addr db ?sec (Suc j * s) in
            if a \<noteq> TS_FAILED_ADDR then tsl_iter_loop db ?sec a (Suc j * s) tsl arg cb else Some (arg, db)) Q)"
      proof (rule iter_sector_chain [OF rel1 True, of "[0..<length ?L]"], goal_cases)
        case 3
        show ?case by (rule chain_up [OF ws room sector_imgD(1) [OF pos(2)]]) simp
      next
        case (5 tsl' db2)
        obtain stop x' where v: "visit_logs visit (map (tsl_of s ?b ?L) [0..<length ?L]) x = (stop, x')"
          by (cases "visit_logs visit (map (tsl_of s ?b ?L) [0..<length ?L]) x")
        then have v': "visit_logs visit (pos_tsls s q A j) x = (stop, x')" using True by (simp add: pos_tsls_def ts_lg_def)
        show ?case unfolding v prod.case by (rule next' [OF v' 5(1) io_frame_trans [OF 1(4) 5(2)] addr])
      qed (use ne in \<open>auto simp: lessThan_atLeast0\<close>)
      then show ?thesis using r used addr by (simp add: fdb_layout u Let_def case_prod_unfold split del: if_split cong: if_cong)
    next
      case False
      then have st: "ts_status sec = FDB_SECTOR_STORE_EMPTY" using sinfo by (simp add: sec_info_def ts_st_def)
      have v: "visit_logs visit (pos_tsls s q A j) x = (False, x)" using False by simp
      have "ts_addr sec = ?b" using sinfo by (simp add: sec_info_def)
      from next' [OF v 1(3,4) this, of tsl] show ?thesis using st by (auto simp: Let_def split: if_splits)
    qed
  qed
qed simp

lemma iter_reverse_end:
  assumes rel: "ts_rel s m q A f db" and j: "length (ta_sectors A) \<le> j" "j < q"
    and post: "\<And>db'. stored s m f db' \<Longrightarrow> io_frame db db' \<Longrightarrow> Q (x, db')"
  shows "holds (tsl_iter_reverse_loop db sector (adr s q (ta_start A) j) n tsl x cb) Q"
proof -
  note b = ts_baseD [OF ts_rel_base [OF rel]]
  have img: "sector_img f s (adr s q (ta_start A) j) (ts_st (length (ta_sectors A)) j) (ts_lg (ta_sectors A) j)"
    by (rule ring_imgD(1) [OF b(6) j(2)])
  show ?thesis
  proof (subst tsl_iter_reverse_loop.simps, unfold Let_def holds_bind,
      rule stored_read_sector_info [OF b(1) adr_mod adr_less [OF b(2)] img b(12)], unfold prod.case holds_bind, goal_cases)
    case (1 r sec db1)
    have "ts_status sec = FDB_SECTOR_STORE_EMPTY" using 1(1) j(1) by (auto simp: sec_info_def ts_st_def)
    then show ?case using 1(2) post [OF 1(3,4)] by simp
  qed
qed

lemma iter_reverse_sector:
  assumes rel: "ts_rel s m q A f db" and j: "j < length (ta_sectors A)" "n < q"
    and cont: "\<And>stop x' db' sec tsl'. visit_logs visit (rev (pos_tsls s q A j)) x = (stop, x') \<Longrightarrow> stored s m f db' \<Longrightarrow> io_frame db db' \<Longrightarrow>
       ts_addr sec = adr s q (ta_start A) j \<Longrightarrow>
       holds (if stop then Some (x', db') else let a = get_last_sector_addr db' sec (Suc n * s) in
         if a \<noteq> TS_FAILED_ADDR then tsl_iter_reverse_loop db' sec a (Suc n * s) tsl' x' cb else Some (x', db')) Q"
  shows "holds (tsl_iter_reverse_loop db sector (adr s q (ta_start A) j) (n * s) tsl x cb) Q"
proof -
  let ?b = "adr s q (ta_start A) j" and ?k = "length (ta_sectors A)" and ?L = "ta_sectors A ! j"
  note b = ts_baseD [OF ts_rel_base [OF rel]]
  note pos = ts_rel_pos [OF rel j(1)]
  have trav: "u32 (n * s + db_sec_size db) = Suc n * s"
  proof -
    have "Suc n * s \<le> m" using b(2) j(2) mult_le_mono1 [of "Suc n" q s] by (simp add: sectors_def)
    then show ?thesis using b(4,10) by simp
  qed
  have room: "?b + s < 2 ^ 31" using adr_room [OF b(2), of "ta_start A" j] b(4) by linarith
  have ne: "?L \<noteq> []" by (rule ts_rel_sectors_ne [OF rel j(1)])
  show ?thesis
  proof (subst tsl_iter_reverse_loop.simps, unfold Let_def trav holds_bind,
      rule stored_read_sector_info [OF b(1) adr_mod adr_less [OF b(2)] pos(2) b(12)], unfold prod.case holds_bind, goal_cases)
    case (1 r sec db1)
    note rel1 = ts_rel_frame [OF rel 1(3,4)]
    let ?sec = "if ts_status sec = FDB_SECTOR_STORE_USING then tsdb_cur_sec db1 else sec"
    have r: "r = FDB_NO_ERR" using 1(2) by simp
    have sinfo: "sec_info f s ?b (ts_st ?k j) ?L 0 sec" using 1(1) by simp
    have used: "ts_status sec = FDB_SECTOR_STORE_USING \<or> ts_status sec = FDB_SECTOR_STORE_FULL"
      using sinfo j(1) by (auto simp: sec_info_def ts_st_def)
    have ws: "walk_sec ?b ?L ?sec" by (rule walk_sec_pos [OF rel1 j(1) sinfo])
    have addr: "ts_addr ?sec = ?b" "ts_end_idx ?sec = idx_addr ?b (length ?L - 1)" using ws by (simp_all add: walk_sec_def)
    have "holds (tsl_iter_sector get_last_tsl_addr db1 ?sec (tsl\<lparr>tsl_addr_index := ts_end_idx ?sec\<rparr>) x cb)
       (\<lambda>(stop, tsl, arg, db). holds (if stop then Some (arg, db) else let a = get_last_sector_addr db ?sec (Suc n * s) in
          if a \<noteq> TS_FAILED_ADDR then tsl_iter_reverse_loop db ?sec a (Suc n * s) tsl arg cb else Some (arg, db)) Q)"
    proof (rule iter_sector_chain [OF rel1 j(1), of "rev [0..<length ?L]"], goal_cases)
      case 3
      show ?case by (rule chain_down [OF ws room sector_imgD(1) [OF pos(2)]]) simp
    next
      case 4
      show ?case using ne by (simp add: addr(2) hd_rev split del: if_split)
    next
      case (5 tsl' db2)
      obtain stop x' where v: "visit_logs visit (map (tsl_of s ?b ?L) (rev [0..<length ?L])) x = (stop, x')"
        by (cases "visit_logs visit (map (tsl_of s ?b ?L) (rev [0..<length ?L])) x")
      then have v': "visit_logs visit (rev (pos_tsls s q A j)) x = (stop, x')" using j(1) by (simp add: pos_tsls_def ts_lg_def rev_map)
      show ?case unfolding v prod.case by (rule cont [OF v' 5(1) io_frame_trans [OF 1(4) 5(2)] addr(1)])
    qed (use ne in \<open>auto simp: lessThan_atLeast0\<close>)
    then show ?case using r used by (simp add: Let_def case_prod_unfold split del: if_split cong: if_cong)
  qed
qed

lemma iter_reverse_ok:
  assumes rel: "ts_rel s m q A f db" and j: "Suc j + n = length (ta_sectors A)"
    and post: "\<And>db'. stored s m f db' \<Longrightarrow> io_frame db db' \<Longrightarrow>
       Q (snd (visit_logs visit (concat (map (\<lambda>j. rev (pos_tsls s q A j)) (rev [0..<Suc j]))) x), db')"
  shows "holds (tsl_iter_reverse_loop db sector (adr s q (ta_start A) j) (n * s) tsl x cb) Q"
  using rel j post
proof (induction j arbitrary: n db sector tsl x)
  case (0 n)
  note rel = "0.prems"(1)
  note b = ts_baseD [OF ts_rel_base [OF rel]]
  have k: "length (ta_sectors A) = Suc n" using "0.prems"(2) by simp
  then have kq: "Suc n \<le> q" using ts_rel_cur(2) [OF rel] by (cases "ta_sectors A") auto
  have last: "adr s q (ta_start A) 0 = adr s q (ta_start A) (Suc (q - 1))" using adr_wrap [of s q "ta_start A" 0] kq by simp
  show ?case
  proof (rule iter_reverse_sector [OF rel], use k in simp, use kq in simp, goal_cases)
    case (1 stop x' db' sec tsl')
    have rel': "ts_rel s m q A f db'" by (rule ts_rel_frame [OF rel 1(2,3)])
    have Q: "Q (x', db'')" if "stored s m f db''" "io_frame db' db''" for db''
      using "0.prems"(3) [OF that(1) io_frame_trans [OF 1(3) that(2)]] 1(1) by simp
    have nxt: "get_last_sector_addr db' sec (Suc n * s) = (if Suc n < q then adr s q (ta_start A) (q - 1) else TS_FAILED_ADDR)"
      by (rule walk_last_sector [OF ts_rel_base [OF rel']]) (use kq 1(4) last in simp_all)
    show ?case
    proof (cases "\<not> stop \<and> Suc n < q")
      case True
      have "holds (tsl_iter_reverse_loop db' sec (adr s q (ta_start A) (q - 1)) (Suc n * s) tsl' x' cb) Q"
        by (rule iter_reverse_end [OF rel']) (use True k Q in auto)
      then show ?thesis using True nxt adr_not_failed [OF ts_rel_base [OF rel]] by simp
    next
      case False
      then show ?thesis using Q [OF 1(2)] nxt by (auto simp: Let_def)
    qed
  qed
next
  case (Suc j)
  note rel = Suc.prems(1)
  have k: "length (ta_sectors A) = Suc (Suc j) + n" using Suc.prems(2) by simp
  then have kq: "Suc (Suc j) + n \<le> q" using ts_rel_cur(2) [OF rel] by (cases "ta_sectors A") auto
  have split: "concat (map (\<lambda>j. rev (pos_tsls s q A j)) (rev [0..<Suc (Suc j)]))
      = rev (pos_tsls s q A (Suc j)) @ concat (map (\<lambda>j. rev (pos_tsls s q A j)) (rev [0..<Suc j]))" by simp
  show ?case
  proof (rule iter_reverse_sector [OF rel], use k in simp, use kq in simp, goal_cases)
    case (1 stop x' db' sec tsl')
    have rel': "ts_rel s m q A f db'" by (rule ts_rel_frame [OF rel 1(2,3)])
    have nxt: "get_last_sector_addr db' sec (Suc n * s) = (if Suc n < q then adr s q (ta_start A) j else TS_FAILED_ADDR)"
      by (rule walk_last_sector [OF ts_rel_base [OF rel']]) (use kq 1(4) in simp_all)
    show ?case
    proof (cases stop)
      case True
      then show ?thesis using Suc.prems(3) [OF 1(2,3)] 1(1) unfolding split visit_logs_append by simp
    next
      case False
      have "holds (tsl_iter_reverse_loop db' sec (adr s q (ta_start A) j) (Suc n * s) tsl' x' cb) Q"
      proof (rule Suc.IH [OF rel'], goal_cases)
        case (2 db2)
        show ?case
          using Suc.prems(3) [OF 2(1) io_frame_trans [OF 1(3) 2(2)]] 1(1) False unfolding split visit_logs_append by simp
      qed (use k in simp)
      then show ?thesis using False nxt kq adr_not_failed [OF ts_rel_base [OF rel]] by simp
    qed
  qed
qed


text \<open>The two public iterators.\<close>

lemma tsl_iter_ok:
  assumes rel: "ts_rel s m q A f db"
    and post: "\<And>db'. ts_rel s m q A f db' \<Longrightarrow> read_only db db' \<Longrightarrow> Q (snd (visit_logs visit (ts_tsls s q A) x), db')"
  shows "holds (fdb_tsl_iter db (Some cb) x) Q"
proof -
  note b = ts_baseD [OF ts_rel_base [OF rel]]
  have old: "db_oldest_addr db = adr s q (ta_start A) 0" using b(5,7) by (simp add: adr_0)
  have q: "0 < q" using b(3) by simp
  have le: "length (ta_sectors A) \<le> q" using ts_rel_cur(2) [OF rel] by (cases "ta_sectors A") auto
  have rel': "ts_rel s m q A f (db_lock db)" using rel by simp
  have post': "Q (snd (visit_logs visit (ts_tsls s q A) x), db_unlock db')" if "stored s m f db'" "io_frame (db_lock db) db'" for db'
    using ts_rel_frame [OF rel' that] that(2) by (intro post) (auto simp: read_only_def)
  have "holds (tsl_iter_loop (db_lock db) (tsdb_stack_sector (db_lock db)) (adr s q (ta_start A) 0) (0 * s) (tsdb_stack_tsl (db_lock db)) x cb)
      (\<lambda>(arg, db). Q (arg, db_unlock db))"
    by (rule iter_loop_ok [OF rel' q]) (use post' in \<open>simp add: ts_tsls_upto [OF le]\<close>)
  then show ?thesis by (simp add: fdb_tsl_iter_def old Let_def case_prod_unfold)
qed

lemma tsl_iter_reverse_ok:
  assumes rel: "ts_rel s m q A f db"
    and post: "\<And>db'. ts_rel s m q A f db' \<Longrightarrow> read_only db db' \<Longrightarrow> Q (snd (visit_logs visit (rev (ts_tsls s q A)) x), db')"
  shows "holds (fdb_tsl_iter_reverse db (Some cb) x) Q"
proof -
  have rel': "ts_rel s m q A f (db_lock db)" using rel by simp
  have post': "Q (snd (visit_logs visit (rev (ts_tsls s q A)) x), db_unlock db')" if "stored s m f db'" "io_frame (db_lock db) db'" for db'
    using ts_rel_frame [OF rel' that] that(2) by (intro post) (auto simp: read_only_def)
  note b = ts_baseD [OF ts_rel_base [OF rel]]
  let ?k = "length (ta_sectors A)"
  have addr: "ts_addr (tsdb_cur_sec db) = adr s q (ta_start A) (?k - 1)" by (rule cur_addr [OF rel])
  have "holds (tsl_iter_reverse_loop (db_lock db) (tsdb_stack_sector (db_lock db)) (adr s q (ta_start A) (?k - 1)) (0 * s) (tsdb_stack_tsl (db_lock db)) x cb)
      (\<lambda>(arg, db). Q (arg, db_unlock db))"
  proof (cases "ta_sectors A = []")
    case True
    show ?thesis
      by (rule iter_reverse_end [OF rel']) (use True b(3) post' in \<open>auto simp: ts_tsls_def\<close>)
  next
    case False
    have rev: "concat (map (\<lambda>j. rev (pos_tsls s q A j)) (rev [0..<Suc (?k - 1)])) = rev (ts_tsls s q A)"
      using False by (simp add: ts_tsls_def rev_concat rev_map comp_def)
    show ?thesis
      by (rule iter_reverse_ok [OF rel'], use False in simp, unfold rev) (use post' in simp)
  qed
  then show ?thesis by (simp add: fdb_tsl_iter_reverse_def addr Let_def case_prod_unfold)
qed

end

end
