(* ===== verification/TsTime.thy ===== *)
theory TsTime
  imports TsWalk
begin

text \<open>
  The binary search for a time in a sector, which ends whatever the sector holds, and the iteration over an
  interval of times.
\<close>

section \<open>The binary search\<close>

text \<open>The address of an index node as a C \<open>int\<close>, also for the numbers next to the ends.\<close>

definition ia :: "addr \<Rightarrow> int \<Rightarrow> int" where
  "ia b i = int b + 32 + 16 * i"

lemma s32_small: "n < 2 ^ 31 \<Longrightarrow> s32_of_u32 n = int n"
  by (simp add: s32_of_u32_def)

lemma u32_of_int_small: "0 \<le> x \<Longrightarrow> x < 2 ^ 32 \<Longrightarrow> u32_of_int x = nat x"
  by (simp add: u32_of_int_def)

lemma search_mid_ia:
  assumes "0 \<le> lo" "lo \<le> hi" "ia b hi < 2 ^ 31"
  shows "search_mid (ia b lo) (ia b hi) = nat (ia b (lo + (hi - lo + 1) div 2))"
proof -
  define d where "d = hi - lo"
  have d: "0 \<le> d" "hi = lo + d" using assms(2) by (simp_all add: d_def)
  have half: "(ia b hi - ia b lo) div 2 = 8 * d" by (simp add: d_def ia_def)
  have up: "8 * d + int 16 - 1 - (8 * d + int 16 - 1) mod int 16 = 16 * ((d + 1) div 2)"
  proof -
    have "(8 * d + int 16 - 1) div int 16 = (d + 1) div 2" by simp
    then show ?thesis by (metis minus_mod_eq_mult_div of_nat_numeral)
  qed
  have le: "ia b lo \<le> ia b hi" using d by (simp add: ia_def)
  have bnd: "0 \<le> (d + 1) div 2" "(d + 1) div 2 \<le> d" using d(1) by presburger+
  have e: "ia b lo + 16 * ((d + 1) div 2) = ia b (lo + (d + 1) div 2)" by (simp add: ia_def)
  have rng: "0 \<le> ia b (lo + (d + 1) div 2)" "ia b (lo + (d + 1) div 2) < 2 ^ 31"
    using bnd assms d by (simp_all add: ia_def)
  show ?thesis
    unfolding search_mid_def Let_def if_P [OF le] half LOG_IDX_DATA_SIZE_def FDB_WG_ALIGN_eq up e
    using rng by (subst u32_of_int_small) (simp_all add: d_def)
qed

text \<open>A slot whose time can be read: whole inside the sector, or unused.\<close>

definition readable :: "(addr \<Rightarrow> byte) \<Rightarrow> nat \<Rightarrow> nat \<Rightarrow> addr \<Rightarrow> bool" where
  "readable f s m a \<longleftrightarrow> in_sector s m a 16 \<or> a < m \<and> f a = 0xFF"

lemma tsl_at_unused: "f a = 0xFF \<Longrightarrow> tsl_at f n a = tsl_unused n a"
  by (simp add: tsl_at_def tsl_unused_def tsl_status_of_def fdb_layout)

lemma read_readable:
  assumes "stored s m f db" "readable f s m (tsl_addr_index tsl)"
    and "\<And>db'. stored s m f db' \<Longrightarrow> io_frame db db' \<Longrightarrow> Q (FDB_NO_ERR, tsl_at f (tsdb_max_len db) (tsl_addr_index tsl), db')"
  shows "holds (read_tsl db tsl) Q"
proof (cases "in_sector s m (tsl_addr_index tsl) 16")
  case True
  then show ?thesis using assms by (intro stored_read_tsl [OF assms(1)]) auto
next
  case False
  then show ?thesis
    using assms by (intro stored_read_tsl_unused [OF assms(1)]) (auto simp: readable_def tsl_at_unused)
qed

definition time_at :: "(addr \<Rightarrow> byte) \<Rightarrow> nat \<Rightarrow> addr \<Rightarrow> int \<Rightarrow> int" where
  "time_at f n b i = tsl_time (tsl_at f n (nat (ia b i)))"

text \<open>
  What the search establishes for any contents: it has met the time, or it ends between two neighbours of which
  the lower has an earlier and the upper a later time (or an end of the range).
\<close>

definition search_ends :: "(int \<Rightarrow> int) \<Rightarrow> int \<Rightarrow> int \<Rightarrow> int \<Rightarrow> int \<Rightarrow> int \<Rightarrow> bool" where
  "search_ends T lo hi from to r \<longleftrightarrow>
     (lo \<le> r \<and> r \<le> hi \<and> T r = from)
     \<or> (\<exists>p. lo \<le> p \<and> p \<le> hi + 1 \<and> (p = lo \<or> T (p - 1) < from) \<and> (p = hi + 1 \<or> T p > from)
         \<and> r = (if from > to \<and> T p > from then p - 1 else p))"

lemma search_loop_ok:
  assumes st: "stored s m f db" and rng: "0 \<le> lo0" "ia b (hi0 + 1) < 2 ^ 31"
    and slots: "\<And>i. lo0 \<le> i \<Longrightarrow> i \<le> hi0 \<Longrightarrow> readable f s m (nat (ia b i))"
    and past: "from > to \<Longrightarrow> readable f s m (nat (ia b (hi0 + 1)))"
    and post: "\<And>r db'. search_ends (time_at f (tsdb_max_len db) b) lo0 hi0 from to r \<Longrightarrow> stored s m f db' \<Longrightarrow> io_frame db db' \<Longrightarrow> Q (ia b r, db')"
    and cur: "lo0 \<le> lo" "lo \<le> hi" "hi \<le> hi0" "lo = lo0 \<or> time_at f (tsdb_max_len db) b (lo - 1) < from"
      "hi = hi0 \<or> time_at f (tsdb_max_len db) b (hi + 1) > from"
  shows "holds (search_start_tsl_loop db tsl (ia b lo) (ia b hi) from to) Q"
  using st post cur
proof (induction "nat (hi - lo)" arbitrary: lo hi db tsl rule: less_induct)
  case less
  let ?T = "time_at f (tsdb_max_len db) b"
  define mid where "mid = lo + (hi - lo + 1) div 2"
  note st = less.prems(1) and cur = less.prems(3-7)
  have mid: "lo \<le> mid" "mid \<le> hi" unfolding mid_def using cur(2) by presburger+
  have hi31: "ia b hi < 2 ^ 31" using rng(2) cur(3) by (simp add: ia_def)
  have sm: "search_mid (ia b lo) (ia b hi) = nat (ia b mid)"
    unfolding mid_def by (rule search_mid_ia) (use rng(1) cur hi31 in auto)
  have mb: "0 \<le> ia b mid" "ia b mid + 16 < 2 ^ 31" "16 \<le> ia b mid" using mid rng cur by (simp_all add: ia_def)
  have rdm: "readable f s m (tsl_addr_index (tsl\<lparr>tsl_addr_index := nat (ia b mid)\<rparr>))"
    using slots [of mid] mid cur(1,3) by simp
  have nm: "s32_of_u32 (nat (ia b mid)) = ia b mid" using mb by (subst s32_small) (simp_all add: nat_less_iff)
  have up: "s32_of_u32 (u32 (nat (ia b mid) + 16)) = ia b (mid + 1)"
    using mb by (subst u32_id, simp add: nat_less_iff, subst s32_small) (simp_all add: nat_less_iff ia_def)
  have dn: "s32_of_u32 (u32 (sub64 (nat (ia b mid)) 16)) = ia b (mid - 1)"
  proof -
    have "sub64 (nat (ia b mid)) 16 = nat (ia b (mid - 1))" using mb by (simp add: ia_def nat_diff_distrib)
    moreover have "0 \<le> ia b (mid - 1)" "ia b (mid - 1) < 2 ^ 31" using mb by (simp_all add: ia_def)
    ultimately show ?thesis by (simp add: s32_small nat_less_iff)
  qed
  have fin: "holds (if from > to then do {
                (_, tsl, db) \<leftarrow> read_tsl db' (tsl'\<lparr>tsl_addr_index := u32_of_int (ia b p)\<rparr>);
                Some (if tsl_time tsl > from then s32_of_u32 (u32_of_int (ia b p - int LOG_IDX_DATA_SIZE)) else ia b p, db)
              } else Some (ia b p, db')) Q"
    if p: "lo0 \<le> p" "p \<le> hi0 + 1" "p = lo0 \<or> ?T (p - 1) < from" "p = hi0 + 1 \<or> ?T p > from"
      and db': "stored s m f db'" "io_frame db db'" for p db' tsl'
  proof (cases "from > to")
    case False
    have "search_ends ?T lo0 hi0 from to p" unfolding search_ends_def using p False by (intro disjI2 exI [of _ p]) auto
    then show ?thesis using False less.prems(2) [OF _ db'] by simp
  next
    case True
    have pb: "0 \<le> ia b p" "ia b p < 2 ^ 31" "16 \<le> ia b p" using p rng by (simp_all add: ia_def)
    have u: "u32_of_int (ia b p) = nat (ia b p)" using pb by (subst u32_of_int_small) simp_all
    have v: "s32_of_u32 (u32_of_int (ia b p - int LOG_IDX_DATA_SIZE)) = ia b (p - 1)"
    proof -
      have e: "ia b p - int LOG_IDX_DATA_SIZE = ia b (p - 1)" by (simp add: ia_def fdb_layout)
      have "0 \<le> ia b (p - 1)" "ia b (p - 1) < 2 ^ 31" using pb by (simp_all add: ia_def)
      then show ?thesis unfolding e by (subst u32_of_int_small, simp, simp, subst s32_small) (simp_all add: nat_less_iff)
    qed
    have rp: "readable f s m (nat (ia b p))" using p(1,2) slots [of p] past [OF True] by (cases "p = hi0 + 1") auto
    have "search_ends ?T lo0 hi0 from to (if ?T p > from then p - 1 else p)"
      unfolding search_ends_def using p True by (intro disjI2 exI [of _ p]) auto
    then have "Q (if ?T p > from then ia b (p - 1) else ia b p, db'')" if "stored s m f db''" "io_frame db' db''" for db''
      using less.prems(2) [OF _ that(1) io_frame_trans [OF db'(2) that(2)]] by (auto split: if_splits)
    then show ?thesis
      unfolding if_P [OF True] u v holds_bind using rp
      by (intro read_readable [OF db'(1)]) (auto simp: time_at_def io_frame_ts [OF db'(2)])
  qed
  have mono: "ia b x > ia b y \<longleftrightarrow> x > y" for x y by (simp add: ia_def)
  have go: "holds (search_start_tsl_loop db' tsl' (ia b lo') (ia b hi') from to) Q"
    if "stored s m f db'" "io_frame db db'" "lo0 \<le> lo'" "lo' \<le> hi'" "hi' \<le> hi0" "lo' = lo0 \<or> ?T (lo' - 1) < from"
      "hi' = hi0 \<or> ?T (hi' + 1) > from" "nat (hi' - lo') < nat (hi - lo)" for db' tsl' lo' hi'
  proof -
    have ml: "tsdb_max_len db' = tsdb_max_len db" by (rule io_frame_ts(4) [OF that(2)])
    show ?thesis
    proof (rule less.hyps [OF that(8,1)], unfold ml, goal_cases)
      case (1 r d2)
      show ?case by (rule less.prems(2) [OF 1(1,2) io_frame_trans [OF that(2) 1(3)]])
    qed (rule that)+
  qed
  show ?case
  proof (subst search_start_tsl_loop.simps, unfold holds_bind sm, rule read_readable [OF st rdm], unfold prod.case, goal_cases)
    case (1 db')
    let ?tsl = "tsl_at f (tsdb_max_len db) (nat (ia b mid))"
    have tm: "tsl_time ?tsl = ?T mid" by (simp add: time_at_def)
    have ix: "tsl_addr_index ?tsl = nat (ia b mid)" by (simp add: tsl_at_def Let_def)
    consider "?T mid = from" | "?T mid < from" | "?T mid > from" by linarith
    then show ?case
    proof cases
      case eq: 1
      have "search_ends ?T lo0 hi0 from to mid" unfolding search_ends_def using eq mid cur(1,3) by simp
      then show ?thesis using less.prems(2) [OF _ 1] eq by (simp add: tm ix nm)
    next
      case lt: 2
      show ?thesis
      proof (cases "mid + 1 > hi")
        case True
        then have e: "mid = hi" using mid by simp
        have "holds (if from > to then do {
                (_, tsl, db) \<leftarrow> read_tsl db' (?tsl\<lparr>tsl_addr_index := u32_of_int (ia b (mid + 1))\<rparr>);
                Some (if tsl_time tsl > from then s32_of_u32 (u32_of_int (ia b (mid + 1) - int LOG_IDX_DATA_SIZE)) else ia b (mid + 1), db)
              } else Some (ia b (mid + 1), db')) Q"
          by (rule fin [OF _ _ _ _ 1]) (use e lt cur in auto)
        then show ?thesis using lt True by (simp add: tm ix up mono fdb_layout Let_def cong: if_cong)
      next
        case False
        have "holds (search_start_tsl_loop db' ?tsl (ia b (mid + 1)) (ia b hi) from to) Q"
          by (rule go [OF 1]) (use False lt cur mid in auto)
        then show ?thesis using lt False by (simp add: tm ix up mono fdb_layout Let_def cong: if_cong)
      qed
    next
      case gt: 3
      show ?thesis
      proof (cases "lo > mid - 1")
        case True
        then have e: "mid = lo" using mid by simp
        have "holds (if from > to then do {
                (_, tsl, db) \<leftarrow> read_tsl db' (?tsl\<lparr>tsl_addr_index := u32_of_int (ia b lo)\<rparr>);
                Some (if tsl_time tsl > from then s32_of_u32 (u32_of_int (ia b lo - int LOG_IDX_DATA_SIZE)) else ia b lo, db)
              } else Some (ia b lo, db')) Q"
          by (rule fin [OF _ _ _ _ 1]) (use e gt cur in auto)
        then show ?thesis using gt True by (simp add: tm ix dn mono fdb_layout Let_def cong: if_cong)
      next
        case False
        have "holds (search_start_tsl_loop db' ?tsl (ia b lo) (ia b (mid - 1)) from to) Q"
          by (rule go [OF 1]) (use False gt cur mid in auto)
        then show ?thesis using gt False by (simp add: tm ix dn mono fdb_layout Let_def cong: if_cong)
      qed
    qed
  qed
qed



section \<open>The search in a sector in order\<close>

definition cnt :: "(int \<Rightarrow> bool) \<Rightarrow> ts_log list \<Rightarrow> nat" where
  "cnt P L = length (takeWhile (\<lambda>l. P (lg_time l)) L)"

lemma cnt_le: "cnt P L \<le> length L"
  by (simp add: cnt_def length_takeWhile_le)

lemma sorted_cnt:
  assumes "sorted_wrt (<) (map lg_time L)" "\<And>a b. P b \<Longrightarrow> a < b \<Longrightarrow> P a" "i < length L"
  shows "P (lg_time (L ! i)) \<longleftrightarrow> i < cnt P L"
proof
  assume "i < cnt P L"
  then show "P (lg_time (L ! i))" unfolding cnt_def by (metis nth_mem set_takeWhileD takeWhile_nth)
next
  assume Pi: "P (lg_time (L ! i))"
  show "i < cnt P L"
  proof (rule ccontr)
    assume "\<not> i < cnt P L"
    then have c: "cnt P L \<le> i" "cnt P L < length L" using assms(3) by simp_all
    have "\<not> P (lg_time (L ! cnt P L))" using nth_length_takeWhile [of "\<lambda>l. P (lg_time l)" L] c(2) by (simp add: cnt_def)
    moreover have "cnt P L < i \<Longrightarrow> lg_time (L ! cnt P L) < lg_time (L ! i)"
      using sorted_wrt_nth_less [OF assms(1), of "cnt P L" i] assms(3) c by simp
    ultimately show False using Pi assms(2) c(1) by (cases "cnt P L = i") auto
  qed
qed

lemma search_ends_cases:
  assumes "search_ends T 0 (int n - 1) from to r"
  obtains (hit) i where "r = int i" "i < n" "T (int i) = from"
    | (gap) p where "r = (if from > to \<and> T (int p) > from then int p - 1 else int p)" "p \<le> n" "p = 0 \<or> T (int p - 1) < from" "p = n \<or> T (int p) > from"
proof -
  from assms consider (a) "0 \<le> r" "r \<le> int n - 1" "T r = from"
    | (b) p where "0 \<le> p" "p \<le> int n" "p = 0 \<or> T (p - 1) < from" "p = int n \<or> T p > from" "r = (if from > to \<and> T p > from then p - 1 else p)"
    unfolding search_ends_def by force
  then show thesis
  proof cases
    case a
    then show thesis by (intro hit [of "nat r"]) auto
  next
    case b
    then show thesis by (intro gap [of "nat p"]) auto
  qed
qed

lemma ends_forward:
  assumes srt: "sorted_wrt (<) (map lg_time L)" and L: "L \<noteq> []" and T: "\<And>i. i < length L \<Longrightarrow> T (int i) = lg_time (L ! i)"
    and e: "search_ends T 0 (int (length L) - 1) from to r" and dir: "from \<le> to"
  shows "r = int (cnt (\<lambda>t. t < from) L)"
proof -
  let ?c = "cnt (\<lambda>t. t < from) L"
  have c: "T (int i) < from \<longleftrightarrow> i < ?c" if "i < length L" for i
    using sorted_cnt [OF srt _ that, of "\<lambda>t. t < from"] T [OF that] by auto
  show ?thesis
    using e
  proof (cases rule: search_ends_cases)
    case (hit i)
    have "\<not> ?c < i"
    proof
      assume lt: "?c < i"
      then have "lg_time (L ! ?c) < lg_time (L ! i)" using sorted_wrt_nth_less [OF srt, of ?c i] hit(2) by simp
      then show False using c [of ?c] T [of ?c] T [of i] hit lt by auto
    qed
    then show ?thesis using c [of i] hit by simp
  next
    case (gap p)
    have "p \<le> ?c"
    proof (cases p)
      case (Suc k)
      then show ?thesis using gap c [of k] by simp
    qed simp
    moreover have "?c \<le> p" using gap(4) c [of p] cnt_le [of _ L] gap(2) by (cases "p = length L") (auto simp: not_less)
    ultimately show ?thesis using gap(1) dir by simp
  qed
qed

lemma ends_backward:
  assumes srt: "sorted_wrt (<) (map lg_time L)" and L: "L \<noteq> []" and T: "\<And>i. i < length L \<Longrightarrow> T (int i) = lg_time (L ! i)"
    and e: "search_ends T 0 (int (length L) - 1) from to r" and dir: "from > to"
  shows "r = int (cnt (\<lambda>t. t \<le> from) L) - 1 \<or> r = int (length L) \<and> cnt (\<lambda>t. t \<le> from) L = length L"
proof -
  let ?c = "cnt (\<lambda>t. t \<le> from) L"
  have c: "T (int i) \<le> from \<longleftrightarrow> i < ?c" if "i < length L" for i
    using sorted_cnt [OF srt _ that, of "\<lambda>t. t \<le> from"] T [OF that] by auto
  show ?thesis
    using e
  proof (cases rule: search_ends_cases)
    case (hit i)
    have "\<not> Suc i < ?c"
    proof
      assume lt: "Suc i < ?c"
      then have len: "Suc i < length L" using cnt_le [of "\<lambda>t. t \<le> from" L] by simp
      then have "lg_time (L ! i) < lg_time (L ! Suc i)" using sorted_wrt_nth_less [OF srt, of i "Suc i"] by simp
      then show False using c [OF len] lt T [OF len] T [OF hit(2)] hit by auto
    qed
    then show ?thesis using c [of i] hit by simp
  next
    case (gap p)
    have "p \<le> ?c"
    proof (cases p)
      case (Suc k)
      then show ?thesis using gap c [of k] by simp
    qed simp
    moreover have "?c \<le> p" using gap(4) c [of p] cnt_le [of _ L] gap(2) by (cases "p = length L") (auto simp: not_less)
    ultimately show ?thesis using gap(1,4) dir by auto
  qed
qed



section \<open>The search at a position\<close>

lemma ia_idx: "ia b (int i) = int (idx_addr b i)"
  by (simp add: ia_def idx_addr_def)

lemma sorted_concat:
  assumes "sorted_wrt (<) (map lg_time (concat Ls))" "j < length Ls"
  shows "sorted_wrt (<) (map lg_time (Ls ! j))"
proof -
  have "concat Ls = concat (take j Ls) @ Ls ! j @ concat (drop (Suc j) Ls)"
    using id_take_nth_drop [OF assms(2)] by (metis concat.simps(2) concat_append)
  then show ?thesis using assms(1) by (simp add: sorted_wrt_append)
qed

lemma pos_sorted: "ts_rel s m q A f db \<Longrightarrow> j < length (ta_sectors A) \<Longrightarrow> sorted_wrt (<) (map lg_time (ta_sectors A ! j))"
  by (rule sorted_concat) (simp_all add: ts_rel_def ts_logs_def)

lemma search_pos:
  assumes rel: "ts_rel s m q A f db" and j: "j < length (ta_sectors A)"
  defines "b \<equiv> adr s q (ta_start A) j" and "L \<equiv> ta_sectors A ! j"
  assumes gap: "from > to \<Longrightarrow> used_len L < s"
    and post: "\<And>r db'. (if from \<le> to then r = int (cnt (\<lambda>t. t < from) L)
         else r = int (cnt (\<lambda>t. t \<le> from) L) - 1 \<or> r = int (length L) \<and> cnt (\<lambda>t. t \<le> from) L = length L) \<Longrightarrow>
       stored s m f db' \<Longrightarrow> io_frame db db' \<Longrightarrow> Q (ia b r, db')"
  shows "holds (search_start_tsl_addr db (s32_of_u32 (u32 (b + 32))) (s32_of_u32 (idx_addr b (length L - 1))) from to) Q"
proof -
  note bs = ts_baseD [OF ts_rel_base [OF rel]]
  note pos = ts_rel_pos [OF rel j, folded b_def L_def]
  have L: "L \<noteq> []" unfolding L_def by (rule ts_rel_sectors_ne [OF rel j])
  have srt: "sorted_wrt (<) (map lg_time L)" unfolding L_def by (rule pos_sorted [OF rel j])
  have bm: "b mod s = 0" "b < m" "b + s \<le> m" unfolding b_def by (simp, rule adr_less [OF bs(2)], rule adr_room [OF bs(2)])
  note used = sector_imgD(1) [OF pos(2)]
  have len: "idx_addr b (length L) \<le> b + s" "idx_addr b (length L) < 2 ^ 31" using used bm(3) bs(4) by (simp_all add: idx_addr_def used_len_def)
  have e: "s32_of_u32 (u32 (b + 32)) = ia b 0" "s32_of_u32 (idx_addr b (length L - 1)) = ia b (int (length L) - 1)"
  proof -
    have "u32 (b + 32) = b + 32" "b + 32 < 2 ^ 31" using len L by (simp_all add: idx_addr_def)
    then show "s32_of_u32 (u32 (b + 32)) = ia b 0" by (simp add: s32_small ia_def)
    have "idx_addr b (length L - 1) < 2 ^ 31" using len by (simp add: idx_addr_def)
    moreover have "int (length L - 1) = int (length L) - 1" using L by (cases L) simp_all
    ultimately show "s32_of_u32 (idx_addr b (length L - 1)) = ia b (int (length L) - 1)" by (simp add: s32_small flip: ia_idx)
  qed
  have slot: "readable f s m (nat (ia b i))" if i: "0 \<le> i" "i \<le> int (length L) - 1" for i
  proof -
    obtain n where n: "i = int n" "n < length L" using i by (metis nonneg_int_cases of_nat_less_iff zle_diff1_eq)
    have "in_sector s m (idx_addr b n) 16" by (rule idx_in_sector [OF bs(1) bm(1,2) pos(2) n(2)])
    then show ?thesis using n by (simp add: readable_def ia_idx)
  qed
  have past: "readable f s m (nat (ia b (int (length L) - 1 + 1)))" if "from > to"
  proof -
    have "f (idx_addr b (length L)) = 0xFF" by (rule sector_img_gap [OF pos(2) gap [OF that]])
    moreover have "idx_addr b (length L) < m" using gap [OF that] bm(3) by (simp add: idx_addr_def used_len_def)
    ultimately show ?thesis by (simp add: readable_def ia_idx)
  qed
  have T: "time_at f (tsdb_max_len db) b (int i) = lg_time (L ! i)" if "i < length L" for i
    using sector_img_log [OF pos(2) _ that] bm(3) bs(13) by (simp add: time_at_def ia_idx tsl_of_def)
  show ?thesis
    unfolding search_start_tsl_addr_def e
  proof (rule search_loop_ok [where ?lo0.0 = 0 and ?hi0.0 = "int (length L) - 1", OF bs(1)], goal_cases)
    case (5 r db')
    show ?case
    proof (rule post)
      show "if from \<le> to then r = int (cnt (\<lambda>t. t < from) L)
         else r = int (cnt (\<lambda>t. t \<le> from) L) - 1 \<or> r = int (length L) \<and> cnt (\<lambda>t. t \<le> from) L = length L"
        using ends_forward [OF srt L T 5(1)] ends_backward [OF srt L T 5(1)] by auto
    qed (rule 5)+
  qed (use slot past L len in \<open>auto simp: ia_idx\<close>)
qed


section \<open>The logs of an interval\<close>

definition in_range :: "int \<Rightarrow> int \<Rightarrow> int \<Rightarrow> bool" where
  "in_range from to t \<longleftrightarrow> (from \<le> to \<and> from \<le> t \<and> t \<le> to) \<or> (from > to \<and> t \<le> from \<and> to \<le> t)"

text \<open>The callback of the iteration: a log outside of the interval ends it.\<close>

definition ranged :: "int \<Rightarrow> int \<Rightarrow> (fdb_tsl \<Rightarrow> 'x \<Rightarrow> bool \<times> 'x) \<Rightarrow> fdb_tsl \<Rightarrow> 'x \<Rightarrow> bool \<times> 'x" where
  "ranged from to visit t x = (if in_range from to (tsl_time t) then visit t x else (True, x))"

lemma visit_ranged:
  assumes "\<And>i j. i < j \<Longrightarrow> j < length ts \<Longrightarrow> in_range from to (tsl_time (ts ! j)) \<Longrightarrow> in_range from to (tsl_time (ts ! i))"
  shows "snd (visit_logs (ranged from to visit) ts x) = snd (visit_logs visit (filter (\<lambda>t. in_range from to (tsl_time t)) ts) x)"
  using assms
proof (induction ts arbitrary: x)
  case (Cons t ts)
  have tl: "in_range from to (tsl_time (ts ! i))" if "i < j" "j < length ts" "in_range from to (tsl_time (ts ! j))" for i j
    using Cons.prems [of "Suc i" "Suc j"] that by simp
  have hd: "in_range from to (tsl_time t)" if "j < length ts" "in_range from to (tsl_time (ts ! j))" for j
    using Cons.prems [of 0 "Suc j"] that by simp
  show ?case
  proof (cases "in_range from to (tsl_time t)")
    case True
    then show ?thesis using Cons.IH [OF tl] by (simp add: ranged_def split: prod.split)
  next
    case False
    then have "filter (\<lambda>t. in_range from to (tsl_time t)) ts = []" using hd by (auto simp: filter_empty_conv in_set_conv_nth)
    then show ?thesis using False by (simp add: ranged_def)
  qed
qed simp


definition rng_idx :: "int \<Rightarrow> int \<Rightarrow> ts_log list \<Rightarrow> nat list" where
  "rng_idx from to L = (if from \<le> to then [cnt (\<lambda>t. t < from) L..<length L] else rev [0..<cnt (\<lambda>t. t \<le> from) L])"

definition rng_tsls :: "nat \<Rightarrow> nat \<Rightarrow> ts_abs \<Rightarrow> int \<Rightarrow> int \<Rightarrow> nat \<Rightarrow> fdb_tsl list" where
  "rng_tsls s q A from to j = map (tsl_of s (adr s q (ta_start A) j) (ts_lg (ta_sectors A) j)) (rng_idx from to (ts_lg (ta_sectors A) j))"

lemma sector_matches:
  assumes ws: "walk_sec b L sec" and srt: "sorted_wrt (<) (map lg_time L)" and L: "L \<noteq> []"
  shows "tsl_sector_matches sec at_start from to \<longleftrightarrow> rng_idx from to L \<noteq> []"
proof -
  have ends: "ts_start_time sec = lg_time (L ! 0)" "ts_end_time sec = lg_time (L ! (length L - 1))"
    using ws L by (simp_all add: walk_sec_def hd_conv_nth last_conv_nth)
  have le: "lg_time (L ! 0) \<le> lg_time (L ! (length L - 1))"
    using sorted_wrt_nth_less [OF srt, of 0 "length L - 1"] L by (cases "1 < length L") (auto simp: not_less le_Suc_eq One_nat_def)
  have c: "lg_time (L ! (length L - 1)) < from \<longleftrightarrow> length L - 1 < cnt (\<lambda>t. t < from) L"
    "lg_time (L ! 0) \<le> from \<longleftrightarrow> 0 < cnt (\<lambda>t. t \<le> from) L"
    using sorted_cnt [OF srt, of "\<lambda>t. t < from" "length L - 1"] sorted_cnt [OF srt, of "\<lambda>t. t \<le> from" 0] L by auto
  have d: "length L - 1 < cnt (\<lambda>t. t < from) L \<longleftrightarrow> length L \<le> cnt (\<lambda>t. t < from) L" using L by (cases L) auto
  have up: "rng_idx from to L \<noteq> [] \<longleftrightarrow> from \<le> lg_time (L ! (length L - 1))" if "from \<le> to"
    using that c(1) d by (auto simp: rng_idx_def not_less)
  have dn: "rng_idx from to L \<noteq> [] \<longleftrightarrow> lg_time (L ! 0) \<le> from" if "\<not> from \<le> to"
    using that c(2) by (auto simp: rng_idx_def)
  show ?thesis
    by (cases "from \<le> to") (use up dn le in \<open>auto simp: tsl_sector_matches_def ends\<close>)
qed

lemma sectors_increase:
  assumes "sorted_wrt (<) (map lg_time (concat Ls))" "i < j" "j < length Ls" "x \<in> set (Ls ! i)" "y \<in> set (Ls ! j)"
  shows "lg_time x < lg_time y"
proof -
  have "concat Ls = concat (take j Ls) @ Ls ! j @ concat (drop (Suc j) Ls)"
    using id_take_nth_drop [OF assms(3)] by (metis concat.simps(2) concat_append)
  moreover have "take j Ls ! i \<in> set (take j Ls)" using assms(2,3) by (intro nth_mem) simp
  then have "x \<in> set (concat (take j Ls))" using assms(2,4) by auto
  ultimately show ?thesis using assms(1,5) by (auto simp: sorted_wrt_append)
qed

text \<open>Behind a sector with logs in the interval lie only sectors all of whose logs are past its start.\<close>

lemma rng_idx_later:
  assumes srt: "sorted_wrt (<) (map lg_time (concat Ls))" and ij: "if from \<le> to then i < j else j < i" "i < length Ls" "j < length Ls"
    and ne: "rng_idx from to (Ls ! i) \<noteq> []" "Ls ! j \<noteq> []" "Ls ! i \<noteq> []"
  shows "rng_idx from to (Ls ! j) \<noteq> []"
proof (cases "from \<le> to")
  case True
  let ?L = "Ls ! i"
  have "cnt (\<lambda>t. t < from) ?L < length ?L" using ne(1) True by (simp add: rng_idx_def)
  then have "\<not> lg_time (?L ! cnt (\<lambda>t. t < from) ?L) < from"
    using sorted_cnt [OF sorted_concat [OF srt ij(2)], of "\<lambda>t. t < from" "cnt (\<lambda>t. t < from) ?L"] by simp
  moreover have "lg_time (?L ! cnt (\<lambda>t. t < from) ?L) < lg_time (Ls ! j ! 0)"
    by (rule sectors_increase [OF srt, of i j]) (use ij True ne \<open>cnt (\<lambda>t. t < from) ?L < length ?L\<close> in simp_all)
  ultimately have "\<not> lg_time (Ls ! j ! 0) < from" by linarith
  then have "cnt (\<lambda>t. t < from) (Ls ! j) = 0"
    using sorted_cnt [OF sorted_concat [OF srt ij(3)], of "\<lambda>t. t < from" 0] ne(2) by auto
  then show ?thesis using True ne(2) by (simp add: rng_idx_def)
next
  case False
  let ?L = "Ls ! i"
  have "0 < cnt (\<lambda>t. t \<le> from) ?L" using ne(1) False by (simp add: rng_idx_def)
  then have "lg_time (?L ! 0) \<le> from"
    using sorted_cnt [OF sorted_concat [OF srt ij(2)], of "\<lambda>t. t \<le> from" 0] ne(3) by auto
  moreover have "lg_time (Ls ! j ! 0) < lg_time (?L ! 0)"
    by (rule sectors_increase [OF srt, of j i]) (use ij False ne in simp_all)
  ultimately have "lg_time (Ls ! j ! 0) \<le> from" by linarith
  then have "0 < cnt (\<lambda>t. t \<le> from) (Ls ! j)"
    using sorted_cnt [OF sorted_concat [OF srt ij(3)], of "\<lambda>t. t \<le> from" 0] ne(2) by auto
  then show ?thesis using False by (simp add: rng_idx_def)
qed

definition time_step :: "int \<Rightarrow> int \<Rightarrow> tsdb_sec_info \<Rightarrow> fdb_tsl \<Rightarrow> addr" where
  "time_step from to = (if from \<le> to then get_next_tsl_addr else get_last_tsl_addr)"

context tsl_reader
begin

lemma iter_time_chain:
  assumes rel: "ts_rel s m q A f db" and j: "j < length (ta_sectors A)"
    and "is": "is \<noteq> []" "set is \<subseteq> {..<length (ta_sectors A ! j)}" "chain (time_step from to sec) (adr s q (ta_start A) j) is"
      "tsl_addr_index tsl = idx_addr (adr s q (ta_start A) j) (hd is)"
    and post: "\<And>tsl' db'. stored s m f db' \<Longrightarrow> io_frame db db' \<Longrightarrow>
       (case visit_logs (ranged from to visit) (map (tsl_of s (adr s q (ta_start A) j) (ta_sectors A ! j)) is) x of (stop, x') \<Rightarrow> Q (stop, tsl', x', db'))"
  shows "holds (tsl_iter_time_sector db sec tsl from to x cb) Q"
  using rel "is" post
proof (induction "is" arbitrary: db tsl x)
  case (Cons i "is")
  let ?b = "adr s q (ta_start A) j" and ?L = "ta_sectors A ! j"
  let ?t = "tsl_of s ?b ?L i"
  note rel = Cons.prems(1)
  note pos = ts_rel_pos [OF rel j]
  note b = ts_baseD [OF ts_rel_base [OF rel]]
  have i: "i < length ?L" using Cons.prems(3) by simp
  have room: "?b + s < 2 ^ 31" using adr_room [OF b(2), of "ta_start A" j] b(4) by linarith
  have in16: "in_sector s m (tsl_addr_index tsl) 16"
    unfolding Cons.prems(5) using idx_in_sector [OF b(1) adr_mod adr_less [OF b(2)] pos(2) i] by simp
  have tsl: "tsl_at f (tsdb_max_len db) (tsl_addr_index tsl) = ?t"
    unfolding Cons.prems(5) using sector_img_log [OF pos(2) _ i] room by simp
  have mem: "?t \<in> set (ts_tsls s q A)" by (rule tsls_mem [OF j i])
  have st: "tsl_status ?t \<noteq> FDB_TSL_UNUSED" and idx: "tsl_addr_index ?t = idx_addr ?b i"
    using sector_imgD(5) [OF pos(2) i] by (simp_all add: tsl_of_def log_ok_def)
  obtain stop x' where v: "ranged from to visit ?t x = (stop, x')" by (cases "ranged from to visit ?t x")
  note post = Cons.prems(6)
  have stp: "time_step from to sec ?t = (case is of [] \<Rightarrow> TS_FAILED_ADDR | k # _ \<Rightarrow> idx_addr ?b k)"
    using Cons.prems(4) idx by simp
  have cont: "holds (if stop then Some (True, ?t, x', db') else
         let a = (if from \<le> to then get_next_tsl_addr else get_last_tsl_addr) sec ?t; tsl = ?t\<lparr>tsl_addr_index := a\<rparr>
         in if a \<noteq> TS_FAILED_ADDR then tsl_iter_time_sector db' sec tsl from to x' cb else Some (False, tsl, x', db')) Q"
    if db': "stored s m f db'" "io_frame db db'" for db'
  proof (cases stop)
    case True
    then show ?thesis using post [OF db', of ?t] by (simp add: v)
  next
    case False
    show ?thesis
    proof (cases "is")
      case Nil
      then show ?thesis
        using post [OF db', of "?t\<lparr>tsl_addr_index := TS_FAILED_ADDR\<rparr>"] False stp by (simp add: v time_step_def)
    next
      case (Cons k is')
      have "k < length ?L" using Cons.prems(3) Cons by simp
      then have nf: "idx_addr ?b k \<noteq> TS_FAILED_ADDR" using room sector_imgD(1) [OF pos(2)] by (simp add: idx_addr_def used_len_def fdb_layout)
      have "holds (tsl_iter_time_sector db' sec (?t\<lparr>tsl_addr_index := idx_addr ?b k\<rparr>) from to x' cb) Q"
      proof (rule Cons.IH [OF ts_rel_frame [OF rel db']], goal_cases)
        case (5 db3 tsl')
        show ?case using post [OF 5(1) io_frame_trans [OF db'(2) 5(2)], of tsl'] v False by simp
      qed (use Cons Cons.prems in auto)
      then show ?thesis using False stp nf Cons by (simp add: v Let_def time_step_def)
    qed
  qed
  show ?case
  proof (subst tsl_iter_time_sector.simps, unfold holds_bind, rule stored_read_tsl [OF b(1) in16], unfold tsl prod.case holds_bind if_P [OF st], goal_cases)
    case (1 db1)
    show ?case
    proof (cases "in_range from to (tsl_time ?t)")
      case True
      then have r: "(from \<le> to \<and> from \<le> tsl_time ?t \<and> tsl_time ?t \<le> to) \<or> (from > to \<and> tsl_time ?t \<le> from \<and> to \<le> tsl_time ?t)"
        by (simp add: in_range_def)
      have v': "visit ?t x = (stop, x')" using v True by (simp add: ranged_def)
      show ?thesis
        unfolding if_P [OF r]
      proof (rule cb_ok [OF ts_rel_frame [OF rel 1] mem], unfold v' fst_conv snd_conv prod.case, goal_cases)
        case (1 db2)
        show ?case by (rule cont [OF 1(1) io_frame_trans [OF \<open>io_frame db db1\<close> 1(2)]])
      qed
    next
      case False
      then have r: "\<not> ((from \<le> to \<and> from \<le> tsl_time ?t \<and> tsl_time ?t \<le> to) \<or> (from > to \<and> tsl_time ?t \<le> from \<and> to \<le> tsl_time ?t))"
        by (simp add: in_range_def)
      have "stop" "x' = x" using v False by (simp_all add: ranged_def)
      then show ?thesis unfolding if_not_P [OF r] using cont [OF 1] by simp
    qed
  qed
qed simp

text \<open>The part of a sector that the iteration visits.\<close>

lemma iter_time_sector_ok:
  fixes "from" "to" :: int
  assumes rel: "ts_rel s m q A f db" and j: "j < length (ta_sectors A)"
  defines "b \<equiv> adr s q (ta_start A) j" and "L \<equiv> ta_sectors A ! j"
  defines "is \<equiv> rng_idx from to L"
  assumes ws: "walk_sec b L sec" and gap: "from > to \<Longrightarrow> used_len L < s" and ne: "is \<noteq> []"
    and post: "\<And>tsl' db'. stored s m f db' \<Longrightarrow> io_frame db db' \<Longrightarrow>
       (case visit_logs (ranged from to visit) (map (tsl_of s b L) is) x of (stop, x') \<Rightarrow> Q (stop, tsl', x', db'))"
  shows "holds (search_start_tsl_addr db (s32_of_u32 (u32 (b + 32))) (s32_of_u32 (idx_addr b (length L - 1))) from to)
     (\<lambda>(i, db). holds (tsl_iter_time_sector db sec (tsl\<lparr>tsl_addr_index := u32_of_int i\<rparr>) from to x cb) Q)"
  unfolding b_def L_def
proof (rule search_pos [OF rel j], fold L_def b_def, use gap in simp, unfold prod.case, goal_cases)
  case (1 r db1)
  note bs = ts_baseD [OF ts_rel_base [OF rel]]
  note rel1 = ts_rel_frame [OF rel 1(2,3)]
  note pos = ts_rel_pos [OF rel j, folded b_def L_def]
  have room: "b + s < 2 ^ 31" using adr_room [OF bs(2), of "ta_start A" j] bs(4) unfolding b_def by linarith
  note used = sector_imgD(1) [OF pos(2)]
  have c: "cnt P L \<le> length L" for P by (rule cnt_le)
  have ch: "chain (time_step from to sec) b is"
    using chain_up [OF ws room used] chain_down [OF ws room used] c by (simp add: is_def rng_idx_def time_step_def)
  have sub: "set is \<subseteq> {..<length L}" using c by (auto simp: is_def rng_idx_def intro: less_le_trans)
  have u: "u32_of_int (ia b (int i)) = idx_addr b i" if "i \<le> length L" for i
  proof -
    have "idx_addr b i < 2 ^ 31" using that used room by (simp add: idx_addr_def used_len_def)
    then show ?thesis by (simp add: ia_idx u32_of_int_small)
  qed
  have run: "holds (tsl_iter_time_sector db2 sec tsl' from to x cb) Q"
    if "stored s m f db2" "io_frame db db2" "tsl_addr_index tsl' = idx_addr b (hd is)" for db2 tsl'
    by (rule iter_time_chain [OF ts_rel_frame [OF rel that(1,2)] j ne])
      (use sub ch that post io_frame_trans [OF that(2)] in \<open>simp_all add: b_def L_def\<close>)
  show ?case
  proof (cases "r = int (hd is)")
    case True
    have "hd is < length L" using sub ne by (metis hd_in_set lessThan_iff subsetD)
    then show ?thesis using True u by (intro run [OF 1(2,3)]) simp
  next
    case False
    have hd: "from \<le> to \<Longrightarrow> hd is = cnt (\<lambda>t. t < from) L" "\<not> from \<le> to \<Longrightarrow> int (hd is) = int (cnt (\<lambda>t. t \<le> from) L) - 1"
      using ne by (auto simp: is_def rng_idx_def hd_rev last_conv_nth)
    have bk: "from > to" and r: "r = int (length L)" and all: "cnt (\<lambda>t. t \<le> from) L = length L"
      using 1(1) False hd by (auto split: if_splits)
    have gp: "used_len L < s" by (rule gap [OF bk])
    have ff: "f (idx_addr b (length L)) = 0xFF" by (rule sector_img_gap [OF pos(2) gp])
    have am: "idx_addr b (length L) < m" using gp adr_room [OF bs(2), of "ta_start A" j] unfolding b_def by (simp add: idx_addr_def used_len_def)
    have L0: "L \<noteq> []" using ne bk all by (auto simp: is_def rng_idx_def)
    have hd0: "hd is = length L - 1" using hd(2) bk all L0 by (cases L) auto
    have step: "get_last_tsl_addr sec (tsl_unused n (idx_addr b (length L))) = idx_addr b (length L - 1)" for n
      using ws L0 room used by (cases L) (auto simp: get_last_tsl_addr_def walk_sec_def tsl_unused_def idx_addr_def used_len_def fdb_layout)
    have nf: "idx_addr b (length L - 1) \<noteq> TS_FAILED_ADDR" using room used by (simp add: idx_addr_def used_len_def fdb_layout)
    let ?a = "idx_addr b (length L)"
    show ?thesis
      unfolding r u [OF order_refl]
    proof (subst tsl_iter_time_sector.simps, unfold holds_bind, rule stored_read_tsl_unused [OF 1(2)], goal_cases)
      case (3 db2)
      have "holds (tsl_iter_time_sector db2 sec ((tsl_unused (tsdb_max_len db1) ?a)\<lparr>tsl_addr_index := idx_addr b (length L - 1)\<rparr>) from to x cb) Q"
        by (rule run [OF 3(1) io_frame_trans [OF 1(3) 3(2)]]) (simp add: hd0)
      then show ?case using bk step nf by (simp add: tsl_unused_def Let_def)
    qed (use am ff in simp_all)
  qed
qed

lemma iter_time_step:
  fixes "from" "to" :: int
  assumes rel: "ts_rel s m q A f db" and j: "j < length (ta_sectors A)" "n < q"
    and gap: "from > to \<Longrightarrow> used_len (ta_sectors A ! j) < s" and fnd: "found \<Longrightarrow> rng_idx from to (ta_sectors A ! j) \<noteq> []"
    and cont: "\<And>stop x' found' db' sec tsl'. visit_logs (ranged from to visit) (rng_tsls s q A from to j) x = (stop, x') \<Longrightarrow>
       (found' \<Longrightarrow> rng_idx from to (ta_sectors A ! j) \<noteq> []) \<Longrightarrow> stored s m f db' \<Longrightarrow> io_frame db db' \<Longrightarrow> ts_addr sec = adr s q (ta_start A) j \<Longrightarrow>
       holds (if stop then Some (x', db') else
         let a = (if from \<le> to then ts_get_next_sector_addr db' sec (Suc n * s) else get_last_sector_addr db' sec (Suc n * s)) in
         if a \<noteq> TS_FAILED_ADDR then tsl_iter_time_loop db' sec a start_addr (Suc n * s) found' tsl' from to x' cb else Some (x', db')) Q"
  shows "holds (tsl_iter_time_loop db sector (adr s q (ta_start A) j) start_addr (n * s) found tsl from to x cb) Q"
proof -
  let ?b = "adr s q (ta_start A) j" and ?k = "length (ta_sectors A)" and ?L = "ta_sectors A ! j"
  note b = ts_baseD [OF ts_rel_base [OF rel]]
  note pos = ts_rel_pos [OF rel j(1)]
  have trav: "u32 (n * s + db_sec_size db) = Suc n * s"
  proof -
    have "Suc n * s \<le> m" using b(2) j(2) mult_le_mono1 [of "Suc n" q s] by (simp add: sectors_def)
    then show ?thesis using b(4,10) by simp
  qed
  have ne: "?L \<noteq> []" by (rule ts_rel_sectors_ne [OF rel j(1)])
  have srt: "sorted_wrt (<) (map lg_time ?L)" by (rule pos_sorted [OF rel j(1)])
  have tsls: "rng_tsls s q A from to j = map (tsl_of s ?b ?L) (rng_idx from to ?L)" using j(1) by (simp add: rng_tsls_def ts_lg_def)
  show ?thesis
  proof (subst tsl_iter_time_loop.simps, unfold Let_def trav holds_bind,
      rule stored_read_sector_info [OF b(1) adr_mod adr_less [OF b(2)] pos(2) b(12)], unfold prod.case holds_bind, goal_cases)
    case (1 r sec db1)
    note rel1 = ts_rel_frame [OF rel 1(3,4)]
    let ?sec = "if ts_status sec = FDB_SECTOR_STORE_USING then tsdb_cur_sec db1 else sec"
    have r: "r = FDB_NO_ERR" using 1(2) by simp
    have sinfo: "sec_info f s ?b (ts_st ?k j) ?L 0 sec" using 1(1) by simp
    have used: "ts_status sec = FDB_SECTOR_STORE_USING \<or> ts_status sec = FDB_SECTOR_STORE_FULL"
      using sinfo j(1) by (auto simp: sec_info_def ts_st_def)
    have ws: "walk_sec ?b ?L ?sec" by (rule walk_sec_pos [OF rel1 j(1) sinfo])
    have addr: "ts_addr ?sec = ?b" "ts_end_idx ?sec = idx_addr ?b (length ?L - 1)" using ws by (simp_all add: walk_sec_def)
    note mt = sector_matches [OF ws srt ne]
    have go: "holds (do {
               (i, db) \<leftarrow> search_start_tsl_addr db1 (s32_of_u32 (u32 (?b + 32))) (s32_of_u32 (idx_addr ?b (length ?L - 1))) from to;
               (stop, tsl, arg, db) \<leftarrow> tsl_iter_time_sector db ?sec (tsl\<lparr>tsl_addr_index := u32_of_int i\<rparr>) from to x cb;
               if stop then Some (arg, db) else
               let a = (if from \<le> to then ts_get_next_sector_addr db ?sec (Suc n * s) else get_last_sector_addr db ?sec (Suc n * s)) in
               if a \<noteq> TS_FAILED_ADDR then tsl_iter_time_loop db ?sec a start_addr (Suc n * s) True tsl from to arg cb else Some (arg, db)
             }) Q"
      if ne': "rng_idx from to ?L \<noteq> []"
    proof -
      have "holds (search_start_tsl_addr db1 (s32_of_u32 (u32 (?b + 32))) (s32_of_u32 (idx_addr ?b (length ?L - 1))) from to)
        (\<lambda>(i, db). holds (tsl_iter_time_sector db ?sec (tsl\<lparr>tsl_addr_index := u32_of_int i\<rparr>) from to x cb)
          (\<lambda>(stop, tsl, arg, db). holds (if stop then Some (arg, db) else
               let a = (if from \<le> to then ts_get_next_sector_addr db ?sec (Suc n * s) else get_last_sector_addr db ?sec (Suc n * s)) in
               if a \<noteq> TS_FAILED_ADDR then tsl_iter_time_loop db ?sec a start_addr (Suc n * s) True tsl from to arg cb else Some (arg, db)) Q))"
      proof (rule iter_time_sector_ok [OF rel1 j(1) ws], use gap in simp, rule ne', goal_cases)
        case (1 tsl' db2)
        obtain stop x' where v: "visit_logs (ranged from to visit) (map (tsl_of s ?b ?L) (rng_idx from to ?L)) x = (stop, x')"
          by (cases "visit_logs (ranged from to visit) (map (tsl_of s ?b ?L) (rng_idx from to ?L)) x")
        show ?case
          unfolding v prod.case
          by (rule cont [OF _ _ 1(1) io_frame_trans [OF \<open>io_frame db db1\<close> 1(2)] addr(1)]) (use v ne' in \<open>simp_all add: tsls\<close>)
      qed
      then show ?thesis by (simp add: case_prod_unfold)
    qed
    show ?case
    proof (cases "rng_idx from to ?L \<noteq> []")
      case True
      then show ?thesis
        using go [OF True] r used addr mt [of _ "from" "to"] by (simp add: fdb_layout Let_def case_prod_unfold split del: if_split cong: if_cong)
    next
      case False
      then have nf: "\<not> found" using fnd by auto
      have "visit_logs (ranged from to visit) (rng_tsls s q A from to j) x = (False, x)" using False by (simp add: tsls)
      from cont [OF this _ 1(3,4) addr(1), of False]
      show ?thesis using False nf r used mt [of _ "from" "to"] by (simp add: Let_def split del: if_split cong: if_cong)
    qed
  qed
qed

text \<open>An empty sector ends the iteration.\<close>

lemma iter_time_end:
  assumes rel: "ts_rel s m q A f db" and j: "length (ta_sectors A) \<le> j" "j < q"
    and post: "\<And>db'. stored s m f db' \<Longrightarrow> io_frame db db' \<Longrightarrow> Q (x, db')"
  shows "holds (tsl_iter_time_loop db sector (adr s q (ta_start A) j) start_addr n found tsl from to x cb) Q"
proof -
  note b = ts_baseD [OF ts_rel_base [OF rel]]
  have img: "sector_img f s (adr s q (ta_start A) j) (ts_st (length (ta_sectors A)) j) (ts_lg (ta_sectors A) j)"
    by (rule ring_imgD(1) [OF b(6) j(2)])
  show ?thesis
  proof (subst tsl_iter_time_loop.simps, unfold Let_def holds_bind,
      rule stored_read_sector_info [OF b(1) adr_mod adr_less [OF b(2)] img b(12)], unfold prod.case holds_bind, goal_cases)
    case (1 r sec db1)
    have "ts_status sec = FDB_SECTOR_STORE_EMPTY" using 1(1) j(1) by (auto simp: sec_info_def ts_st_def)
    then show ?case using 1(2) post [OF 1(3,4)] by simp
  qed
qed

lemma later_ok:
  assumes "ts_rel s m q A f db" "if from \<le> to then i < j else j < i" "i < length (ta_sectors A)" "j < length (ta_sectors A)"
    "rng_idx from to (ta_sectors A ! i) \<noteq> []"
  shows "rng_idx from to (ta_sectors A ! j) \<noteq> []"
  by (rule rng_idx_later [OF _ assms(2-5)]) (use assms(1) ts_rel_sectors_ne [OF assms(1)] assms(3,4) in \<open>simp_all add: ts_rel_def ts_logs_def\<close>)

lemma iter_time_up:
  fixes "from" "to" :: int
  assumes dir: "from \<le> to" and rel: "ts_rel s m q A f db" and j: "j < q"
    and fnd: "found \<Longrightarrow> j < length (ta_sectors A) \<Longrightarrow> rng_idx from to (ta_sectors A ! j) \<noteq> []"
    and post: "\<And>db'. stored s m f db' \<Longrightarrow> io_frame db db' \<Longrightarrow>
       Q (snd (visit_logs (ranged from to visit) (concat (map (rng_tsls s q A from to) [j..<q])) x), db')"
  shows "holds (tsl_iter_time_loop db sector (adr s q (ta_start A) j) start_addr (j * s) found tsl from to x cb) Q"
  using rel j fnd post
proof (induction "q - j" arbitrary: j db sector tsl x found)
  case (Suc n)
  note rel = Suc.prems(1) and jq = Suc.prems(2)
  have split: "concat (map (rng_tsls s q A from to) [j..<q]) = rng_tsls s q A from to j @ concat (map (rng_tsls s q A from to) [Suc j..<q])"
    using jq by (simp add: upt_conv_Cons)
  show ?case
  proof (cases "j < length (ta_sectors A)")
    case False
    have "concat (map (rng_tsls s q A from to) [j..<q]) = []" using False dir by (auto simp: rng_tsls_def rng_idx_def ts_lg_def)
    then have "Q (x, db')" if "stored s m f db'" "io_frame db db'" for db' using Suc.prems(4) [OF that] by (simp only:) simp
    then show ?thesis by (intro iter_time_end [OF rel _ jq]) (use False in simp_all)
  next
    case True
    show ?thesis
    proof (rule iter_time_step [OF rel True jq], use dir in simp, use Suc.prems(3) True in simp, goal_cases)
      case (1 stop x' found' db' sec tsl')
      note rel' = ts_rel_frame [OF rel 1(3,4)]
      show ?case
      proof (cases "\<not> stop \<and> Suc j < q")
        case nx: True
        have "holds (tsl_iter_time_loop db' sec (adr s q (ta_start A) (Suc j)) start_addr (Suc j * s) found' tsl' from to x' cb) Q"
        proof (rule Suc.hyps(1) [OF _ rel'], goal_cases)
          case 3
          show ?case by (rule later_ok [OF rel, of _ _ j]) (use 3 1(2) True dir in auto)
        next
          case (4 db2)
          show ?case
            using Suc.prems(4) [OF 4(1) io_frame_trans [OF 1(4) 4(2)]] 1(1) nx unfolding split visit_logs_append by simp
        qed (use Suc.hyps(2) nx in auto)
        then show ?thesis
          using nx dir walk_next_sector [OF ts_rel_base [OF rel'] jq 1(5)] by (simp add: Let_def adr_not_failed [OF ts_rel_base [OF rel]])
      next
        case False
        then have "Q (x', db')"
          using Suc.prems(4) [OF 1(3,4)] 1(1) jq unfolding split by (cases stop) (simp_all add: visit_logs_append)
        then show ?thesis
          using False dir walk_next_sector [OF ts_rel_base [OF rel'] jq 1(5)] by (auto simp: Let_def)
      qed
    qed
  qed
qed simp

lemma iter_time_down:
  fixes "from" "to" :: int
  assumes dir: "from > to" and gap: "\<forall>L \<in> set (ta_sectors A). used_len L < s"
    and rel: "ts_rel s m q A f db" and j: "Suc j + n = length (ta_sectors A)"
    and fnd: "found \<Longrightarrow> rng_idx from to (ta_sectors A ! j) \<noteq> []"
    and post: "\<And>db'. stored s m f db' \<Longrightarrow> io_frame db db' \<Longrightarrow>
       Q (snd (visit_logs (ranged from to visit) (concat (map (rng_tsls s q A from to) (rev [0..<Suc j]))) x), db')"
  shows "holds (tsl_iter_time_loop db sector (adr s q (ta_start A) j) start_addr (n * s) found tsl from to x cb) Q"
  using rel j fnd post
proof (induction j arbitrary: n db sector tsl x found)
  case (0 n)
  note rel = "0.prems"(1)
  have k: "length (ta_sectors A) = Suc n" using "0.prems"(2) by simp
  then have kq: "Suc n \<le> q" using ts_rel_cur(2) [OF rel] by (cases "ta_sectors A") auto
  have last: "adr s q (ta_start A) 0 = adr s q (ta_start A) (Suc (q - 1))" using adr_wrap [of s q "ta_start A" 0] kq by simp
  show ?case
  proof (rule iter_time_step [OF rel], use k in simp, use kq in simp, use gap k in simp, use "0.prems"(3) in simp, goal_cases)
    case (1 stop x' found' db' sec tsl')
    have rel': "ts_rel s m q A f db'" by (rule ts_rel_frame [OF rel 1(3,4)])
    have Q: "Q (x', db'')" if "stored s m f db''" "io_frame db' db''" for db''
      using "0.prems"(4) [OF that(1) io_frame_trans [OF 1(4) that(2)]] 1(1) by simp
    have nxt: "get_last_sector_addr db' sec (Suc n * s) = (if Suc n < q then adr s q (ta_start A) (q - 1) else TS_FAILED_ADDR)"
      by (rule walk_last_sector [OF ts_rel_base [OF rel']]) (use kq 1(5) last in simp_all)
    show ?case
    proof (cases "\<not> stop \<and> Suc n < q")
      case True
      have "holds (tsl_iter_time_loop db' sec (adr s q (ta_start A) (q - 1)) start_addr (Suc n * s) found' tsl' from to x' cb) Q"
        by (rule iter_time_end [OF rel']) (use True k Q in auto)
      then show ?thesis using True nxt dir adr_not_failed [OF ts_rel_base [OF rel]] by simp
    next
      case False
      then show ?thesis using Q [OF 1(3)] nxt dir by (auto simp: Let_def)
    qed
  qed
next
  case (Suc j)
  note rel = Suc.prems(1)
  have k: "length (ta_sectors A) = Suc (Suc j) + n" using Suc.prems(2) by simp
  then have kq: "Suc (Suc j) + n \<le> q" using ts_rel_cur(2) [OF rel] by (cases "ta_sectors A") auto
  have split: "concat (map (rng_tsls s q A from to) (rev [0..<Suc (Suc j)]))
      = rng_tsls s q A from to (Suc j) @ concat (map (rng_tsls s q A from to) (rev [0..<Suc j]))" by simp
  show ?case
  proof (rule iter_time_step [OF rel], use k in simp, use kq in simp, use gap k in simp, use Suc.prems(3) in simp, goal_cases)
    case (1 stop x' found' db' sec tsl')
    have rel': "ts_rel s m q A f db'" by (rule ts_rel_frame [OF rel 1(3,4)])
    have nxt: "get_last_sector_addr db' sec (Suc n * s) = (if Suc n < q then adr s q (ta_start A) j else TS_FAILED_ADDR)"
      by (rule walk_last_sector [OF ts_rel_base [OF rel']]) (use kq 1(5) in simp_all)
    show ?case
    proof (cases stop)
      case True
      then show ?thesis using Suc.prems(4) [OF 1(3,4)] 1(1) unfolding split visit_logs_append by simp
    next
      case False
      have "holds (tsl_iter_time_loop db' sec (adr s q (ta_start A) j) start_addr (Suc n * s) found' tsl' from to x' cb) Q"
      proof (rule Suc.IH [OF rel'], goal_cases)
        case 2
        show ?case by (rule later_ok [OF rel, of _ _ "Suc j"]) (use 2 1(2) k dir in auto)
      next
        case (3 db2)
        show ?case
          using Suc.prems(4) [OF 3(1) io_frame_trans [OF 1(4) 3(2)]] 1(1) False unfolding split visit_logs_append by simp
      qed (use k in simp)
      then show ?thesis using False nxt kq dir adr_not_failed [OF ts_rel_base [OF rel]] by simp
    qed
  qed
qed

end

end
