(* ===== verification/TsQuery.thy ===== *)
theory TsQuery
  imports TsTime
begin

text \<open>
  The iteration over an interval of time shows exactly the logs of the interval, in the order of the two
  bounds, and the count of logs with a status counts exactly those of the interval.
\<close>

section \<open>The visited logs\<close>

lemma filter_upt_ge: "c \<le> n \<Longrightarrow> (\<And>i. i < n \<Longrightarrow> P i \<longleftrightarrow> c \<le> i) \<Longrightarrow> filter P [0..<n] = [c..<n]"
proof -
  assume c: "c \<le> n" and P: "\<And>i. i < n \<Longrightarrow> P i \<longleftrightarrow> c \<le> i"
  have "[0..<n] = [0..<c] @ [c..<n]" using c by (metis le0 upt_add_eq_append le_add_diff_inverse)
  then show ?thesis using P c by (auto simp: filter_empty_conv filter_id_conv)
qed

lemma filter_upt_less: "c \<le> n \<Longrightarrow> (\<And>i. i < n \<Longrightarrow> P i \<longleftrightarrow> i < c) \<Longrightarrow> filter P [0..<n] = [0..<c]"
proof -
  assume c: "c \<le> n" and P: "\<And>i. i < n \<Longrightarrow> P i \<longleftrightarrow> i < c"
  have "[0..<n] = [0..<c] @ [c..<n]" using c by (metis le0 upt_add_eq_append le_add_diff_inverse)
  then show ?thesis using P c by (auto simp: filter_empty_conv filter_id_conv)
qed

lemma rng_tsls_filter:
  assumes rel: "ts_rel s m q A f db"
  shows "rng_tsls s q A from to j = (if from \<le> to then filter (\<lambda>t. from \<le> tsl_time t) (pos_tsls s q A j)
      else rev (filter (\<lambda>t. tsl_time t \<le> from) (pos_tsls s q A j)))"
proof -
  let ?L = "ts_lg (ta_sectors A) j"
  have srt: "sorted_wrt (<) (map lg_time ?L)" using pos_sorted [OF rel, of j] by (cases "j < length (ta_sectors A)") (simp_all add: ts_lg_def)
  have "filter (\<lambda>i. from \<le> lg_time (?L ! i)) [0..<length ?L] = [cnt (\<lambda>t. t < from) ?L..<length ?L]"
    by (rule filter_upt_ge [OF cnt_le]) (use sorted_cnt [OF srt, of "\<lambda>t. t < from"] in \<open>simp flip: not_less\<close>)
  moreover have "filter (\<lambda>i. lg_time (?L ! i) \<le> from) [0..<length ?L] = [0..<cnt (\<lambda>t. t \<le> from) ?L]"
    by (rule filter_upt_less [OF cnt_le]) (use sorted_cnt [OF srt, of "\<lambda>t. t \<le> from"] in auto)
  ultimately show ?thesis by (simp add: rng_tsls_def rng_idx_def pos_tsls_def filter_map comp_def tsl_of_def rev_map)
qed

lemma rng_all:
  assumes rel: "ts_rel s m q A f db"
  shows "from \<le> to \<Longrightarrow> length (ta_sectors A) \<le> n \<Longrightarrow> concat (map (rng_tsls s q A from to) [0..<n]) = filter (\<lambda>t. from \<le> tsl_time t) (ts_tsls s q A)"
    "\<not> from \<le> to \<Longrightarrow> concat (map (rng_tsls s q A from to) (rev [0..<length (ta_sectors A)])) = rev (filter (\<lambda>t. tsl_time t \<le> from) (ts_tsls s q A))"
  unfolding rng_tsls_filter [OF rel]
  by (simp add: filter_concat comp_def flip: ts_tsls_upto [of A n])
    (simp add: ts_tsls_def filter_concat rev_concat rev_map comp_def)

text \<open>A sorted list leaves an interval at most once on each side.\<close>

lemma visit_sorted:
  assumes srt: "sorted_wrt (<) (map tsl_time ts)"
  shows "snd (visit_logs (ranged from to visit) (if from \<le> to then filter (\<lambda>t. from \<le> tsl_time t) ts else rev (filter (\<lambda>t. tsl_time t \<le> from) ts)) x)
     = snd (visit_logs visit (let us = filter (\<lambda>t. in_range from to (tsl_time t)) ts in if from \<le> to then us else rev us) x)"
proof -
  have mono: "sorted_wrt (\<lambda>a b. tsl_time a < tsl_time b) (filter P ts)" for P
    by (rule sorted_wrt_filter) (use srt in \<open>simp add: sorted_wrt_map\<close>)
  let ?us = "if from \<le> to then filter (\<lambda>t. from \<le> tsl_time t) ts else rev (filter (\<lambda>t. tsl_time t \<le> from) ts)"
  have "sorted_wrt (\<lambda>a b. in_range from to (tsl_time b) \<longrightarrow> in_range from to (tsl_time a)) ?us"
  proof (cases "from \<le> to")
    case True
    then show ?thesis using sorted_wrt_mono_rel [OF _ mono] by (simp, elim meta_allE meta_impE) (auto simp: in_range_def)
  next
    case False
    then show ?thesis using sorted_wrt_mono_rel [OF _ mono] by (simp add: sorted_wrt_rev, elim meta_allE meta_impE) (auto simp: in_range_def)
  qed
  then have "snd (visit_logs (ranged from to visit) ?us x) = snd (visit_logs visit (filter (\<lambda>t. in_range from to (tsl_time t)) ?us) x)"
    by (intro visit_ranged) (auto dest: sorted_wrt_nth_less)
  moreover have "filter (\<lambda>t. in_range from to (tsl_time t)) ?us = (let us = filter (\<lambda>t. in_range from to (tsl_time t)) ts in if from \<le> to then us else rev us)"
    by (auto simp: Let_def rev_filter in_range_def intro!: filter_cong)
  ultimately show ?thesis by simp
qed

definition range_tsls :: "nat \<Rightarrow> nat \<Rightarrow> ts_abs \<Rightarrow> int \<Rightarrow> int \<Rightarrow> fdb_tsl list" where
  "range_tsls s q A from to =
     (let us = filter (\<lambda>t. in_range from to (tsl_time t)) (ts_tsls s q A) in if from \<le> to then us else rev us)"

context tsl_reader
begin

lemma iter_by_time_ok:
  assumes rel: "ts_rel s m q A f db" and gap: "from > to \<Longrightarrow> \<forall>L \<in> set (ta_sectors A). used_len L < s"
    and post: "\<And>db'. ts_rel s m q A f db' \<Longrightarrow> read_only db db' \<Longrightarrow> Q (snd (visit_logs visit (range_tsls s q A from to) x), db')"
  shows "holds (fdb_tsl_iter_by_time db from to (Some cb) x) Q"
proof -
  note b = ts_baseD [OF ts_rel_base [OF rel]]
  let ?k = "length (ta_sectors A)"
  have old: "db_oldest_addr db = adr s q (ta_start A) 0" using b(5,7) by (simp add: adr_0)
  have q: "0 < q" using b(3) by simp
  have le: "?k \<le> q" using ts_rel_cur(2) [OF rel] by (cases "ta_sectors A") auto
  have rel': "ts_rel s m q A f (db_lock db)" using rel by simp
  have srt: "sorted_wrt (<) (map tsl_time (ts_tsls s q A))" unfolding tsls_fields using rel by (simp add: ts_rel_def)
  note vs = visit_sorted [OF srt, of "from" "to" visit x, folded range_tsls_def]
  have post': "Q (snd (visit_logs visit (range_tsls s q A from to) x), db_unlock db')" if "stored s m f db'" "io_frame (db_lock db) db'" for db'
    using ts_rel_frame [OF rel' that] that(2) by (intro post) (auto simp: read_only_def)
  show ?thesis
  proof (cases "from \<le> to")
    case True
    have "holds (tsl_iter_time_loop (db_lock db) (tsdb_stack_sector (db_lock db)) (adr s q (ta_start A) 0) (adr s q (ta_start A) 0) (0 * s) False
        (tsdb_stack_tsl (db_lock db)) from to x cb) (\<lambda>(arg, db). Q (arg, db_unlock db))"
      by (rule iter_time_up [OF True rel' q], simp, unfold rng_all(1) [OF rel True le]) (use vs True post' in simp)
    then show ?thesis using True by (simp add: fdb_tsl_iter_by_time_def old Let_def case_prod_unfold)
  next
    case False
    let ?a = "adr s q (ta_start A) (?k - 1)"
    have addr: "ts_addr (tsdb_cur_sec db) = ?a" by (rule cur_addr [OF rel])
    have "holds (tsl_iter_time_loop (db_lock db) (tsdb_stack_sector (db_lock db)) ?a ?a (0 * s) False
        (tsdb_stack_tsl (db_lock db)) from to x cb) (\<lambda>(arg, db). Q (arg, db_unlock db))"
    proof (cases "ta_sectors A = []")
      case True
      then have "range_tsls s q A from to = []" by (simp add: range_tsls_def ts_tsls_def)
      then show ?thesis using post' True b(3) by (intro iter_time_end [OF rel']) simp_all
    next
      case ne: False
      then have k: "Suc (?k - 1) = ?k" by (cases "ta_sectors A") simp_all
      show ?thesis
        by (rule iter_time_down [OF _ _ rel'], use False in simp, use gap False in simp, use k in simp, simp, unfold k rng_all(2) [OF rel False])
          (use vs False post' in simp)
    qed
    then show ?thesis using False by (simp add: fdb_tsl_iter_by_time_def addr Let_def case_prod_unfold)
  qed
qed

end

end
