(* ===== verification/Reopen.thy ===== *)
theory Reopen
  imports FlashImage
begin

text \<open>
  Closing a database and opening it again, \<open>fdb_deinit\<close> and \<open>_fdb_init_ex\<close>: the streams are closed, the
  stream cache is cleared, and the bytes on storage stay what they were.
\<close>

section \<open>Closing the streams\<close>

lemma close_streams:
  assumes ok: "cache_ok db" "geometry_ok db" "db_cur_file db = [f0, f1]"
  shows "\<exists>st. fdb_deinit_close (db_io db) [f0, f1] = Some (db_io db\<lparr>streams := st\<rparr>)"
proof -
  let ?io = "db_io db" and ?s = "db_sec_size db"
  obtain a0 a1 where a: "db_cur_file_sec db = [a0, a1]" using ok(1) by (auto simp: cache_ok_def length_Suc_conv numeral_2_eq_2)
  have slot: "\<exists>i p. i < sec_num db \<and> a' = i * ?s \<and> streams ?io fd = Some (sec_path db i, p)" if "fd \<noteq> 0" "(fd, a') = (f0, a0) \<or> (fd, a') = (f1, a1)" for fd a'
    using that ok(1) unfolding cache_ok_def slot_ok_def ok(3) a by (auto simp: One_nat_def)
  have open': "streams ?io fd \<noteq> None" if "fd \<noteq> 0" "fd = f0 \<or> fd = f1" for fd using slot [OF that(1), of a0] slot [OF that(1), of a1] that(2) by auto
  have "f0 \<noteq> f1" if nz: "f0 \<noteq> 0" "f1 \<noteq> 0"
  proof
    assume e: "f0 = f1"
    obtain i p where i: "i < sec_num db" "a0 = i * ?s" "streams ?io f0 = Some (sec_path db i, p)" using slot [OF nz(1), of a0] by blast
    obtain j p' where j: "j < sec_num db" "a1 = j * ?s" "streams ?io f1 = Some (sec_path db j, p')" using slot [OF nz(2), of a1] by blast
    have "i = j" using i j e sec_path_inj [of i j db] ok(2) by (auto simp: geometry_ok_def)
    then have "a0 = FDB_FAILED_ADDR" using ok(1) i(2) j(2) by (auto simp: cache_ok_def a One_nat_def)
    moreover have "32 dvd a0" using ok(2) i(2) by (auto simp: geometry_ok_def)
    ultimately show False by (simp add: fdb_layout)
  qed
  then show ?thesis
    using open' [of f0] open' [of f1] by (cases "f0 = 0"; cases "f1 = 0") (auto simp: fclose_def intro: exI [of _ "streams ?io"])
qed

lemma deinit_init:
  fixes db :: "'a fdb_db_scheme"
  assumes st: "stored s m f db" and "open": "db_init_ok db" and geo: "s AND (s - 1) = 0" "2 * s \<le> m" "db_dir db \<noteq> []"
  shows "holds (fdb_deinit db) (\<lambda>db'. \<not> db_init_ok db' \<and> fdb_db.more db' = fdb_db.more db \<and> db_name db' = db_name db \<and> db_dir db' = db_dir db
    \<and> holds (fdb_init_ex db' (db_name db) (db_dir db) type ud) (\<lambda>(r, db1). r = FDB_NO_ERR \<and> stored s m f db1
        \<and> fdb_db.more db1 = fdb_db.more db \<and> \<not> db_init_ok db1 \<and> db_dir db1 = db_dir db
        \<and> db_lock_fn db1 = db_lock_fn db \<and> db_unlock_fn db1 = db_unlock_fn db))"
proof -
  note sd = storedD [OF st]
  have g: "geometry_ok db" "cache_ok db" "io_ok db" "files_ok db" using sd(1) by (simp_all add: file_ok_def dir_ok_def)
  have sm: "db_sec_size db = s" "db_max_size db = m" using st by simp_all
  obtain f0 f1 where cf: "db_cur_file db = [f0, f1]" using g(2) by (auto simp: cache_ok_def length_Suc_conv numeral_2_eq_2)
  obtain ss where cl: "fdb_deinit_close (db_io db) [f0, f1] = Some (db_io db\<lparr>streams := ss\<rparr>)"
    using close_streams [OF g(2,1) cf] by blast
  let ?db' = "db\<lparr>db_io := db_io db\<lparr>streams := ss\<rparr>, db_init_ok := False\<rparr>"
  let ?db1 = "?db'\<lparr>db_name := db_name db, db_type := type, db_user_data := ud, db_cur_file_sec := [FDB_FAILED_ADDR, FDB_FAILED_ADDR],
     db_cur_file := [0, 0], db_dir := db_dir db\<rparr>"
  have de: "fdb_deinit db = Some ?db'" using "open" cl by (simp add: fdb_deinit_def cf FDB_FILE_CACHE_TABLE_SIZE_def)
  have div: "2 \<le> m div s" using geo(2) sd(3) by (simp add: less_eq_div_iff_mult_less_eq mult.commute)
  have mod: "m mod s = 0" using sd(4) by simp
  have s1: "sub32 s 1 = s - 1" using sd(3,5) geo(2) by simp
  have ini: "fdb_init_ex ?db' (db_name db) (db_dir db) type ud = Some (FDB_NO_ERR, ?db1)"
    using g(1) sm geo sd(3) div mod s1
    by (simp add: fdb_init_ex_def geometry_ok_def FDB_FILE_CACHE_TABLE_SIZE_def numeral_2_eq_2)
  have fl1: "fl ?db1 = fl db" by (rule ext) (simp add: fl_def sec_path_def split: option.split)
  have e: "sec_num ?db1 = sec_num db" "sec_path ?db1 = sec_path db" by (simp_all add: sec_num_def sec_path_def fun_eq_iff)
  have "geometry_ok ?db1" using g(1) unfolding geometry_ok_def e by simp
  moreover have "cache_ok ?db1" unfolding cache_ok_def slot_ok_def by (simp add: One_nat_def)
  moreover have "io_ok ?db1" using g(3) unfolding io_ok_def e by simp
  moreover have "files_ok ?db1" using g(4) unfolding files_ok_def e by simp
  ultimately have "file_ok ?db1" unfolding file_ok_def dir_ok_def by blast
  moreover have "db_sec_size ?db1 = s" "db_max_size ?db1 = m" using sm by simp_all
  ultimately have st1: "stored s m f ?db1" unfolding stored_def fl1 sd(2) by blast
  show ?thesis unfolding de holds_Some ini using st1 by simp
qed

end
