(* ===== verification/TsLife.thy ===== *)
theory TsLife
  imports TsQuery Reopen
begin

text \<open>
  The iteration over all sectors, and with it the two ways a time-series database comes to be: formatting
  every sector, and reading the headers that an earlier run has left.
\<close>

section \<open>The iteration over sectors\<close>

text \<open>
  A callback under which \<open>P i\<close>, said of the state before sector \<open>i\<close>, leads to \<open>P (i + 1)\<close>, or that stops
  the iteration in a state with \<open>stopped\<close>.
\<close>

locale ts_sector_visitor =
  fixes s m q :: nat and cb :: "'x ts_sec_callback" and trav :: bool
    and P :: "nat \<Rightarrow> 'x \<Rightarrow> fdb_tsdb \<Rightarrow> bool" and stopped :: "'x \<Rightarrow> fdb_tsdb \<Rightarrow> bool"
  assumes geometry: "P i arg db \<Longrightarrow> sectors m q s \<and> m < 2 ^ 31 \<and> db_sec_size db = s \<and> db_max_size db = m"
    and visit: "i < q \<Longrightarrow> P i arg db \<Longrightarrow>
      holds (ts_read_sector_info db (i * s) sec False) (\<lambda>(_, sec, db).
        holds (if trav then do { (_, sec, db) \<leftarrow> ts_read_sector_info db (i * s) sec True; Some (sec, db) } else Some (sec, db))
          (\<lambda>(sec, db). ts_addr sec = i * s \<and>
             holds (cb sec arg db) (\<lambda>(stop, arg, db). if stop then stopped arg db else P (Suc i) arg db)))"
begin

lemma iterator_loop:
  assumes "P i arg db" "i < q"
    and "\<And>sec arg db. P q arg db \<or> stopped arg db \<Longrightarrow> Q (sec, arg, db)"
  shows "holds (ts_sector_iterator_loop db sec (i * s) (i * s) FDB_SECTOR_STORE_UNUSED arg (Some cb) trav) Q"
  using assms
proof (induction "q - i" arbitrary: i sec arg db)
  case (Suc n)
  have next': "holds (let t = u32 (i * s + db_sec_size db'); a = ts_get_next_sector_addr db' sec' t in
      if a \<noteq> TS_FAILED_ADDR then ts_sector_iterator_loop db' sec' a t FDB_SECTOR_STORE_UNUSED arg' (Some cb) trav else Some (sec', arg', db')) Q"
    if p: "P (Suc i) arg' db'" and a: "ts_addr sec' = i * s" for sec' arg' db'
  proof -
    have g: "sectors m q s" "m < 2 ^ 31" "db_sec_size db' = s" "db_max_size db' = m" using geometry [OF p] by auto
    have le: "Suc i * s \<le> m" using g(1) Suc.prems(2) mult_le_mono1 [of "Suc i" q s] by (simp add: sectors_def)
    have u: "u32 (i * s + s) = Suc i * s" using le g(2) by simp
    show ?thesis
    proof (cases "Suc i < q")
      case True
      have "Suc (Suc i) * s \<le> m" using g(1) True mult_le_mono1 [of "Suc (Suc i)" q s] by (simp add: sectors_def)
      then have "u32 (Suc i * s + s) \<le> m" "Suc i * s < m" using g by (simp_all add: sectors_def)
      then have "ts_get_next_sector_addr db' sec' (Suc i * s) = Suc i * s" "Suc i * s \<noteq> TS_FAILED_ADDR"
        using u a g by (simp_all add: ts_get_next_sector_addr_def fdb_layout)
      moreover have "holds (ts_sector_iterator_loop db' sec' (Suc i * s) (Suc i * s) FDB_SECTOR_STORE_UNUSED arg' (Some cb) trav) Q"
        by (rule Suc.hyps(1)) (use Suc.hyps(2) p True Suc.prems(3) in auto)
      ultimately show ?thesis unfolding g(3) u Let_def by simp
    next
      case False
      then have e: "Suc i = q" using Suc.prems(2) by simp
      then have "u32 (Suc i * s + s) = m + s" "m < m + s" using g Suc.prems(2) le by (auto simp: sectors_def)
      then have "ts_get_next_sector_addr db' sec' (Suc i * s) = TS_FAILED_ADDR"
        using g by (simp add: ts_get_next_sector_addr_def)
      then show ?thesis unfolding g(3) u Let_def using Suc.prems(3) [of arg' db' sec'] p e by simp
    qed
  qed
  define rest where "rest stop sec' arg' db' = (if stop then Some (sec', arg', db')
      else let t = u32 (i * s + db_sec_size db'); a = ts_get_next_sector_addr db' sec' t in
        if a \<noteq> TS_FAILED_ADDR then ts_sector_iterator_loop db' sec' a t FDB_SECTOR_STORE_UNUSED arg' (Some cb) trav else Some (sec', arg', db'))"
    for stop sec' arg' db'
  have rest: "holds (rest stop sec' arg' db') Q" if "ts_addr sec' = i * s" "if stop then stopped arg' db' else P (Suc i) arg' db'" for stop sec' arg' db'
    using next' [OF _ that(1), of arg' db'] that(2) Suc.prems(3) [of arg' db' sec'] unfolding rest_def by (cases stop) simp_all
  show ?case
    using visit [OF Suc.prems(2,1), of sec] rest unfolding ts_sector_iterator_loop.simps [of db sec] rest_def [symmetric]
    by (cases trav) (auto simp: split_def elim!: holds_mono)
qed simp

lemma iterator_ok:
  assumes "P 0 arg db" "\<And>sec arg db. P q arg db \<or> stopped arg db \<Longrightarrow> Q (sec, arg, db)"
  shows "holds (ts_sector_iterator db (sec\<lparr>ts_addr := 0\<rparr>) FDB_SECTOR_STORE_UNUSED arg (Some cb) trav) Q"
proof -
  have "0 < q" using geometry [OF assms(1)] by (simp add: sectors_def)
  from iterator_loop [OF assms(1) this, of Q] assms(2) show ?thesis by (simp add: ts_sector_iterator_def)
qed

end


section \<open>Formatting all sectors\<close>

text \<open>A sector that can be formatted: it has another magic word, or it is in order.\<close>

definition sane :: "(addr \<Rightarrow> byte) \<Rightarrow> nat \<Rightarrow> addr \<Rightarrow> bool" where
  "sane f s b \<longleftrightarrow> le32_dec (rd f (b + 1) 4) \<noteq> TS_SECTOR_MAGIC_WORD \<or> (\<exists>st L. sector_img f s b st L)"

lemma sane_cong:
  assumes "sane f s b" "32 \<le> s" "\<And>x. b \<le> x \<Longrightarrow> x < b + s \<Longrightarrow> g x = f x"
  shows "sane g s b"
proof -
  have "rd g (b + 1) 4 = rd f (b + 1) 4" by (rule rd_cong) (use assms(2,3) in auto)
  then show ?thesis using assms(1) sector_img_cong [of f s b _ _ g, OF _ assms(3)] by (fastforce simp: sane_def)
qed

lemma read_sane:
  assumes st: "stored s m f db" and b: "b mod s = 0" "b < m" "32 < s" and ok: "sane f s b"
    and post: "\<And>r sec' db'. ts_addr sec' = b \<Longrightarrow> stored s m f db' \<Longrightarrow> io_frame db db' \<Longrightarrow> Q (r, sec', db')"
  shows "holds (ts_read_sector_info db b sec False) Q"
proof (cases "\<exists>st L. sector_img f s b st L")
  case True
  then obtain st' L where img: "sector_img f s b st' L" by blast
  show ?thesis by (rule stored_read_sector_info [OF st b(1,2) img b(3)]) (use post in \<open>auto simp: sec_info_def\<close>)
next
  case False
  then have mg: "le32_dec (take 4 (drop 1 (rd f b 32))) \<noteq> TS_SECTOR_MAGIC_WORD"
    using ok by (simp add: sane_def take_rd drop_rd min_def)
  have "in_sector s m b 32" by (rule in_sector_base [OF storedD(4) [OF st] b(1,2)]) (use b(3) in simp)
  then show ?thesis
    unfolding ts_read_sector_info_def holds_bind
    by (rule stored_read [OF st]) (use mg post in \<open>simp add: uninit_def fdb_layout\<close>)
qed

definition fmt_inv :: "nat \<Rightarrow> nat \<Rightarrow> nat \<Rightarrow> fdb_tsdb \<Rightarrow> nat \<Rightarrow> unit \<Rightarrow> fdb_tsdb \<Rightarrow> bool" where
  "fmt_inv s m q db0 i arg db \<longleftrightarrow> sectors m q s \<and> m < 2 ^ 31 \<and> 32 < s \<and> (\<exists>f. reached s m db0 f db
     \<and> (\<forall>j < q. if j < i then sector_img f s (j * s) FDB_SECTOR_STORE_EMPTY [] else sane f s (j * s)))"

lemma sector_pos:
  assumes "sectors m q s" "j < q"
  shows "j * s mod s = 0" "j * s < m" "j * s = adr s q 0 j"
  using assms by (simp_all add: sectors_def adr_def)

lemma fmt_step:
  assumes inv: "fmt_inv s m q db0 i arg db" and i: "i < q"
  shows "holds (ts_format_sector db (i * s)) (\<lambda>(_, db). fmt_inv s m q db0 (Suc i) arg' db)"
proof -
  obtain f where g: "sectors m q s" "m < 2 ^ 31" "32 < s" and r: "reached s m db0 f db"
    and ok: "\<And>j. j < q \<Longrightarrow> if j < i then sector_img f s (j * s) FDB_SECTOR_STORE_EMPTY [] else sane f s (j * s)"
    using inv by (auto simp: fmt_inv_def)
  note b = sector_pos [OF g(1) i]
  have s32: "32 \<le> s" using g(3) by simp
  note fm = formatted_img [OF s32, where b = "i * s" and f = f]
  have new: "if j < Suc i then sector_img (formatted s (i * s) f) s (j * s) FDB_SECTOR_STORE_EMPTY [] else sane (formatted s (i * s) f) s (j * s)" if j: "j < q" for j
  proof (cases "j = i")
    case True
    then show ?thesis using fm(1) by simp
  next
    case False
    have d: "j * s + s \<le> i * s \<or> i * s + s \<le> j * s"
      using adr_disjoint [OF g(1) j i False, of 0] sector_pos(3) [OF g(1) j] b(3) by simp
    have same: "formatted s (i * s) f x = f x" if "j * s \<le> x" "x < j * s + s" for x
    proof -
      have "x < i * s \<or> i * s + s \<le> x" using d that by linarith
      then show ?thesis using fm(2) by (auto simp: same_outside_def)
    qed
    show ?thesis using ok [OF j] sector_img_cong [of f s "j * s" _ _ "formatted s (i * s) f", OF _ same] sane_cong [of f s "j * s" "formatted s (i * s) f", OF _ s32 same] False by (auto split: if_splits)
  qed
  show ?thesis by (rule reach_format_sector [OF r b(1,2) s32]) (use g new in \<open>auto simp: fmt_inv_def\<close>)
qed

interpretation fmt: ts_sector_visitor s m q format_all_cb False "fmt_inv s m q db0" "\<lambda>_ _. False" for s m q db0
proof
  fix i :: nat and arg db
  assume "fmt_inv s m q db0 i arg db"
  then show "sectors m q s \<and> m < 2 ^ 31 \<and> db_sec_size db = s \<and> db_max_size db = m"
    by (auto simp: fmt_inv_def reached_def)
next
  fix i :: nat and arg db sec
  assume i: "i < q" and inv: "fmt_inv s m q db0 i arg db"
  then obtain f where g: "sectors m q s" "32 < s" and r: "stored s m f db" and io: "io_frame db0 db" and m: "m < 2 ^ 31"
    and each: "\<forall>j < q. if j < i then sector_img f s (j * s) FDB_SECTOR_STORE_EMPTY [] else sane f s (j * s)"
    by (auto simp: fmt_inv_def reached_def)
  have ok: "sane f s (i * s)" using each i by auto
  have all: "fmt_inv s m q db0 i arg db2" if "stored s m f db2" "io_frame db0 db2" for db2
    using that g m each by (auto simp: fmt_inv_def reached_def)
  show "holds (ts_read_sector_info db (i * s) sec False) (\<lambda>(_, sec, db).
        holds (if False then do { (_, sec, db) \<leftarrow> ts_read_sector_info db (i * s) sec True; Some (sec, db) } else Some (sec, db))
          (\<lambda>(sec, db). ts_addr sec = i * s \<and>
             holds (format_all_cb sec arg db) (\<lambda>(stop, arg, db). if stop then False else fmt_inv s m q db0 (Suc i) arg db)))"
  proof (rule read_sane [OF r sector_pos(1,2) [OF g(1) i] g(2) ok], goal_cases)
    case (1 r' sec' db')
    have "fmt_inv s m q db0 i arg db'" using all 1 io io_frame_trans by blast
    from fmt_step [OF this i, of arg] show ?case using 1(1) by (simp add: format_all_cb_def split_def)
  qed
qed


definition ts_empty :: ts_abs where
  "ts_empty = \<lparr>ta_start = 0, ta_sectors = [], ta_last = 0\<rparr>"

text \<open>The fields of a database that opening it and formatting it may set.\<close>

definition reopened :: "fdb_tsdb \<Rightarrow> fdb_tsdb \<Rightarrow> bool" where
  "reopened db db' \<longleftrightarrow> io_frame (db\<lparr>db_oldest_addr := db_oldest_addr db', tsdb_cur_sec := tsdb_cur_sec db', tsdb_last_time := tsdb_last_time db'\<rparr>) db'"

lemma reopened_frame:
  "reopened db db' \<Longrightarrow> io_frame db' db'' \<Longrightarrow> reopened db db''"
  "io_frame db db' \<Longrightarrow> reopened db' db'' \<Longrightarrow> reopened db db''"
  by (cases db; cases db'; cases db''; simp add: reopened_def io_frame_def)+

lemma reopened_refl [simp]: "reopened db db"
  by (cases db) (simp add: reopened_def)

lemma reopenedD:
  assumes "reopened db db'"
  shows "db_init_ok db' = db_init_ok db" "tsdb_max_len db' = tsdb_max_len db" "tsdb_rollover db' = tsdb_rollover db"
    "db_lock_cnt db' = db_lock_cnt db" "db_lock_fn db' = db_lock_fn db" "db_unlock_fn db' = db_unlock_fn db" "db_dir db' = db_dir db"
  using assms by (cases db; cases db'; simp add: reopened_def io_frame_def)+

lemma reopened_updates [simp]:
  "reopened db (db'\<lparr>tsdb_cur_sec := a\<rparr>) = reopened db db'" "reopened db (db'\<lparr>tsdb_last_time := t\<rparr>) = reopened db db'"
  "reopened db (db'\<lparr>db_oldest_addr := o'\<rparr>) = reopened db db'"
  by (cases db; cases db'; simp add: reopened_def io_frame_def)+

lemma ts_format_all_ok:
  assumes st: "stored s m f db" and g: "sectors m q s" "2 \<le> q" "m < 2 ^ 31" and c: "tsdb_rollover db" "tsdb_max_len db + 48 \<le> s"
    and ok: "\<And>j. j < q \<Longrightarrow> sane f s (j * s)"
    and post: "\<And>f' db'. ts_rel s m q ts_empty f' db' \<Longrightarrow> reopened db db' \<Longrightarrow> Q db'"
  shows "holds (tsl_format_all db) Q"
proof -
  have inv: "fmt_inv s m q db 0 () db" using st g c ok by (auto simp: fmt_inv_def intro!: exI [of _ f] reachedI)
  show ?thesis
    unfolding tsl_format_all_def Let_def holds_bind
  proof (rule fmt.iterator_ok [OF inv], unfold prod.case, goal_cases)
    case (1 sec arg db1)
    then have "fmt_inv s m q db q arg db1" by simp
    then obtain f1 where r: "stored s m f1 db1" "io_frame db db1" and img: "\<And>j. j < q \<Longrightarrow> sector_img f1 s (j * s) FDB_SECTOR_STORE_EMPTY []"
      by (auto simp: fmt_inv_def reached_def)
    let ?db = "db1\<lparr>db_oldest_addr := 0, tsdb_cur_sec := (tsdb_cur_sec db1)\<lparr>ts_addr := 0\<rparr>, tsdb_last_time := 0\<rparr>"
    have st1: "stored s m f1 ?db" using r(1) by simp
    have q0: "0 < q" "0 < m" using g by (simp_all add: sectors_def)
    have img0: "sector_img f1 s 0 FDB_SECTOR_STORE_EMPTY []" using img [OF q0(1)] by simp
    have "holds (ts_read_sector_info ?db 0 ((tsdb_cur_sec db1)\<lparr>ts_addr := 0\<rparr>) False) (\<lambda>(_, sec, db). Q (db\<lparr>tsdb_cur_sec := sec\<rparr>))"
    proof (rule stored_read_sector_info [OF st1 _ q0(2) img0], simp, use c(2) in simp, unfold prod.case, goal_cases)
      case (1 r2 sec2 db2)
      let ?d = "db2\<lparr>tsdb_cur_sec := sec2\<rparr>"
      note fr = io_frameD [OF 1(4)] io_frame_ts [OF 1(4)] io_frame_ts [OF r(2)]
      have ring: "ring_img f1 s q 0 (fresh_st 0) (ts_lg []) (ts_sr [] 0)"
        using img sector_pos(3) [OF g(1)] by (auto simp: ring_img_def fresh_st_def ts_lg_def)
      have base: "ts_base s m q 0 (fresh_st 0) (ts_lg []) (ts_sr [] 0) f1 ?d"
        using 1(3) g c ring fr by (simp add: ts_base_def)
      have cur: "ts_cur s q 0 (fresh_st 0) (ts_lg []) f1 0 ?d"
        using 1(1) q0(1) by (simp add: ts_cur_def fresh_st_def ts_lg_def adr_def)
      have rel: "ts_rel s m q ts_empty f1 ?d"
        using base cur fr by (simp add: ts_rel_def ts_empty_def ts_fresh_def ts_logs_def)
      have "reopened db ?d"
        using reopened_frame(1) [OF _ 1(4), of db] reopened_frame(2) [OF r(2), of db1] by simp
      then show ?case by (rule post [OF rel])
    qed
    then show ?case by (simp add: split_def)
  qed
qed



section \<open>Reading the headers\<close>

text \<open>The number of the current sector.\<close>

definition cur_no :: "nat \<Rightarrow> ts_abs \<Rightarrow> nat" where
  "cur_no q A = (ta_start A + (length (ta_sectors A) - 1)) mod q"

text \<open>The storage of a database in order, and what the check of the headers knows after \<open>i\<close> sectors.\<close>

definition ts_disk :: "nat \<Rightarrow> nat \<Rightarrow> nat \<Rightarrow> ts_abs \<Rightarrow> (addr \<Rightarrow> byte) \<Rightarrow> bool" where
  "ts_disk s m q A f \<longleftrightarrow> sectors m q s \<and> m < 2 ^ 31 \<and> 32 < s \<and> 2 \<le> q \<and> ta_start A < q \<and> length (ta_sectors A) \<le> q
     \<and> (length (ta_sectors A) < q \<longrightarrow> ta_start A = 0) \<and> sorted_wrt (<) (map lg_time (ts_logs A))
     \<and> (ta_sectors A \<noteq> [] \<longrightarrow> last (ta_sectors A) \<noteq> [] \<and> ta_last A = lg_time (last (last (ta_sectors A))))
     \<and> ring_img f s q (ta_start A) (ts_st (length (ta_sectors A))) (ts_lg (ta_sectors A)) (ts_sr (ta_sectors A) 0)"

definition chk_inv :: "nat \<Rightarrow> nat \<Rightarrow> nat \<Rightarrow> ts_abs \<Rightarrow> (addr \<Rightarrow> byte) \<Rightarrow> fdb_tsdb \<Rightarrow> nat \<Rightarrow> check_sec_hdr_cb_args \<Rightarrow> fdb_tsdb \<Rightarrow> bool" where
  "chk_inv s m q A f db0 i arg db \<longleftrightarrow> ts_disk s m q A f \<and> stored s m f db \<and> reopened db0 db \<and> tsdb_last_time db = tsdb_last_time db0
     \<and> \<not> cs_check_failed arg \<and> cs_empty_num arg = i - length (ta_sectors A)
     \<and> (length (ta_sectors A) < i \<longrightarrow> cs_empty_addr arg = (i - 1) * s)
     \<and> (if i \<le> cur_no q A then ts_addr (tsdb_cur_sec db) = FDB_DATA_UNUSED
        else sec_info f s (cur_no q A * s) (ts_st (length (ta_sectors A)) (length (ta_sectors A) - 1))
               (ts_lg (ta_sectors A) (length (ta_sectors A) - 1)) (length (ts_lg (ta_sectors A) (length (ta_sectors A) - 1))) (tsdb_cur_sec db))"

lemma ring_pos:
  fixes i q start :: nat
  assumes "i < q" "start < q"
  obtains p where "p < q" "(start + p) mod q = i"
proof
  show "(i + (q - start)) mod q < q" using assms by simp
  have "(start + (i + (q - start)) mod q) mod q = (start + (i + (q - start))) mod q" by (simp add: mod_add_right_eq)
  also have "start + (i + (q - start)) = i + q" using assms(2) by simp
  finally show "(start + (i + (q - start)) mod q) mod q = i" using assms(1) by simp
qed

lemma chk_pos:
  assumes d: "ts_disk s m q A f" and i: "i < q"
  obtains p where "p < q" "sector_img f s (i * s) (ts_st (length (ta_sectors A)) p) (ts_lg (ta_sectors A) p)"
    "p = length (ta_sectors A) - 1 \<longleftrightarrow> i = cur_no q A" "length (ta_sectors A) < q \<longrightarrow> p = i"
proof -
  have q: "ta_start A < q" "length (ta_sectors A) \<le> q" "length (ta_sectors A) < q \<Longrightarrow> ta_start A = 0" "2 \<le> q"
    and ring: "ring_img f s q (ta_start A) (ts_st (length (ta_sectors A))) (ts_lg (ta_sectors A)) (ts_sr (ta_sectors A) 0)"
    using d by (simp_all add: ts_disk_def)
  obtain p where p: "p < q" "(ta_start A + p) mod q = i" by (rule ring_pos [OF i q(1)])
  have c: "p = length (ta_sectors A) - 1 \<longleftrightarrow> i = cur_no q A"
    using mod_shift_inj [of p q "length (ta_sectors A) - 1" "ta_start A"] p q by (auto simp: cur_no_def)
  have "sector_img f s (i * s) (ts_st (length (ta_sectors A)) p) (ts_lg (ta_sectors A) p)"
    using ring_imgD(1) [OF ring p(1)] p(2) by (simp add: adr_def)
  then show thesis using that [OF p(1) _ c] p q(3) by auto
qed

interpretation chk: ts_sector_visitor s m q ts_check_sec_hdr_cb True "chk_inv s m q A f db0" "\<lambda>_ _. False" for s m q A f db0
proof
  fix i :: nat and arg db
  assume "chk_inv s m q A f db0 i arg db"
  then show "sectors m q s \<and> m < 2 ^ 31 \<and> db_sec_size db = s \<and> db_max_size db = m"
    by (auto simp: chk_inv_def ts_disk_def)
next
  fix i :: nat and arg db sec
  assume i: "i < q" and inv: "chk_inv s m q A f db0 i arg db"
  then have d: "ts_disk s m q A f" and st: "stored s m f db" and re: "reopened db0 db" by (simp_all add: chk_inv_def)
  have g: "sectors m q s" "32 < s" "m < 2 ^ 31" "length (ta_sectors A) \<le> q" using d by (simp_all add: ts_disk_def)
  let ?k = "length (ta_sectors A)"
  obtain p where p: "p < q" and img: "sector_img f s (i * s) (ts_st ?k p) (ts_lg (ta_sectors A) p)"
    and cur: "p = ?k - 1 \<longleftrightarrow> i = cur_no q A" and low: "?k < q \<longrightarrow> p = i" by (rule chk_pos [OF d i])
  show "holds (ts_read_sector_info db (i * s) sec False) (\<lambda>(_, sec, db).
        holds (if True then do { (_, sec, db) \<leftarrow> ts_read_sector_info db (i * s) sec True; Some (sec, db) } else Some (sec, db))
          (\<lambda>(sec, db). ts_addr sec = i * s \<and>
             holds (ts_check_sec_hdr_cb sec arg db) (\<lambda>(stop, arg, db). if stop then False else chk_inv s m q A f db0 (Suc i) arg db)))"
    unfolding if_True holds_bind
  proof (rule stored_read_sector_info [OF st sector_pos(1,2) [OF g(1) i] img g(2)], unfold prod.case,
      rule stored_read_sector_info [OF _ sector_pos(1,2) [OF g(1) i] img g(2)], assumption, unfold prod.case, goal_cases)
    case (1 r1 sec1 db1 r2 sec2 db2)
    have cs: "tsdb_cur_sec db2 = tsdb_cur_sec db" "tsdb_last_time db2 = tsdb_last_time db"
      by (simp_all add: io_frame_ts [OF 1(4)] io_frame_ts [OF 1(8)])
    have inv2: "chk_inv s m q A f db0 i arg db2"
      using inv 1(7) reopened_frame(1) [OF reopened_frame(1) [OF re 1(4)] 1(8)] by (simp add: chk_inv_def cs)
    have sec: "ts_addr sec2 = i * s" "ts_check_ok sec2" "ts_status sec2 = ts_st ?k p" using 1(5) by (simp_all add: sec_info_def)
    have une: "i * s \<noteq> FDB_DATA_UNUSED" using sector_pos(2) [OF g(1) i] g(3) by (simp add: fdb_layout)
    have unc: "cur_no q A * s \<noteq> FDB_DATA_UNUSED"
      using sector_pos(2) [OF g(1), of "cur_no q A"] g(3) i by (simp add: fdb_layout cur_no_def)
    consider (inuse) "Suc p = ?k" | (full) "Suc p < ?k" | (vacant) "?k \<le> p" by linarith
    then have "holds (ts_check_sec_hdr_cb sec2 arg db2) (\<lambda>(stop, arg, db). \<not> stop \<and> chk_inv s m q A f db0 (Suc i) arg db)"
    proof cases
      case inuse
      have pk: "p = ?k - 1" using inuse by linarith
      then have "i = cur_no q A" using cur by blast
      moreover have "Suc i - ?k = 0" using inuse low g(4) i by (cases "?k < q") auto
      ultimately show ?thesis
        using pk inv2 sec inuse 1(5) by (auto simp: ts_check_sec_hdr_cb_def chk_inv_def ts_st_def)
    next
      case full
      have "i \<noteq> cur_no q A" using full cur by auto
      moreover have "Suc i - ?k = 0" using full low g(4) i by (cases "?k < q") auto
      ultimately show ?thesis
        using inv2 sec full by (auto simp: ts_check_sec_hdr_cb_def chk_inv_def ts_st_def)
    next
      case vacant
      have k: "?k < q" "p = i" using vacant low p g(4) by auto
      have c: "cur_no q A = ?k - 1" using d k(1) by (simp add: ts_disk_def cur_no_def)
      have st2: "ts_status sec2 = FDB_SECTOR_STORE_EMPTY" using sec(3) vacant by (simp add: ts_st_def)
      have num: "Suc i - ?k = i - ?k + 1" using vacant k by simp
      show ?thesis
      proof (cases "i = 0")
        case True
        then have k0: "?k = 0" using vacant k by simp
        then show ?thesis
          using inv2 sec st2 1(5) c True k by (simp add: ts_check_sec_hdr_cb_def chk_inv_def Let_def ts_lg_def)
      next
        case False
        then have "\<not> i \<le> cur_no q A" using c vacant k by auto
        then have "ts_addr (tsdb_cur_sec db2) = cur_no q A * s" using inv2 by (simp add: chk_inv_def sec_info_def)
        then show ?thesis
          using inv2 sec st2 c False num unc \<open>\<not> i \<le> cur_no q A\<close> vacant k by (auto simp: ts_check_sec_hdr_cb_def chk_inv_def Let_def)
      qed
    qed
    then show ?case using sec(1) by (auto elim!: holds_mono)
  qed
qed


lemma ts_rel_disk:
  assumes "ts_rel s m q A f db"
  shows "ts_disk s m q A f"
proof -
  note b = ts_baseD [OF ts_rel_base [OF assms]]
  have "length (ta_sectors A) \<le> q" using ts_rel_cur(2) [OF assms] by (cases "ta_sectors A") auto
  then show ?thesis using b assms by (auto simp: ts_disk_def ts_rel_def)
qed

lemma disk_rel:
  assumes d: "ts_disk s m q A f" and st: "stored s m f db" and c: "tsdb_rollover db" "tsdb_max_len db + 48 \<le> s" "db_oldest_addr db = ta_start A * s"
    and cur: "sec_info f s (cur_no q A * s) (ts_st (length (ta_sectors A)) (length (ta_sectors A) - 1))
               (ts_lg (ta_sectors A) (length (ta_sectors A) - 1)) (length (ts_lg (ta_sectors A) (length (ta_sectors A) - 1))) (tsdb_cur_sec db)"
    and t: "ta_sectors A \<noteq> [] \<longrightarrow> tsdb_last_time db = ta_last A"
  shows "ts_rel s m q (A\<lparr>ta_last := tsdb_last_time db\<rparr>) f db"
proof (cases "ta_sectors A = []")
  case True
  have q: "0 < q" using d by (simp add: ts_disk_def)
  have e: "ts_st 0 = fresh_st 0" by (simp add: fun_eq_iff ts_st_def fresh_st_def)
  have "ts_base s m q 0 (fresh_st 0) (ts_lg []) (ts_sr [] 0) f db" "ts_cur s q 0 (fresh_st 0) (ts_lg []) f 0 db"
    using d st c cur True q e by (auto simp: ts_disk_def ts_base_def ts_cur_def cur_no_def adr_def)
  then show ?thesis using d True q by (simp add: ts_rel_def ts_fresh_def ts_disk_def ts_logs_def)
next
  case False
  let ?C = "butlast (ta_sectors A)" and ?k = "length (ta_sectors A)"
  have k: "Suc (length ?C) = ?k" "length ?C = ?k - 1" "?C @ [last (ta_sectors A)] = ta_sectors A"
    using False by (simp_all add: Suc_diff_1 del: append_butlast_last_id) (simp add: append_butlast_last_id)
  have "ts_open s m q (ta_start A) ?C (last (ta_sectors A)) 0 f db"
    using d st c cur False unfolding ts_open_def k by (auto simp: ts_disk_def ts_base_def ts_cur_def cur_no_def adr_def)
  then show ?thesis using d t False by (simp add: ts_rel_def ts_disk_def ts_logs_def)
qed

text \<open>The current sector and the oldest one follow from the headers.\<close>

lemma locate_load:
  assumes inv: "chk_inv s m q A f db0 q arg db" and c: "tsdb_rollover db0" "tsdb_max_len db0 + 48 \<le> s"
    and post: "\<And>db'. ts_rel s m q (A\<lparr>ta_last := if ta_sectors A = [] then tsdb_last_time db0 else ta_last A\<rparr>) f db' \<Longrightarrow> reopened db0 db' \<Longrightarrow> Q db'"
  shows "holds (tsdb_load_last (tsdb_locate db arg)) Q"
proof -
  let ?k = "length (ta_sectors A)" and ?c = "cur_no q A * s"
  let ?st = "ts_st ?k (?k - 1)" and ?L = "ts_lg (ta_sectors A) (?k - 1)"
  have d: "ts_disk s m q A f" and st: "stored s m f db" and re: "reopened db0 db" and lt: "tsdb_last_time db = tsdb_last_time db0"
    using inv by (simp_all add: chk_inv_def)
  have g: "sectors m q s" "m < 2 ^ 31" "32 < s" "2 \<le> q" "ta_start A < q" "?k \<le> q" "?k < q \<longrightarrow> ta_start A = 0" using d by (simp_all add: ts_disk_def)
  have cq: "cur_no q A < q" using g(4) by (simp add: cur_no_def)
  have cur: "sec_info f s ?c ?st ?L (length ?L) (tsdb_cur_sec db)" using inv cq by (simp add: chk_inv_def)
  have geo: "db_sec_size db = s" "db_max_size db = m" "tsdb_rollover db" "tsdb_max_len db = tsdb_max_len db0" using st reopenedD [OF re] c by simp_all
  have old: "tsdb_locate db arg = db\<lparr>db_oldest_addr := ta_start A * s\<rparr>"
  proof (cases "?k < q")
    case True
    have "cs_empty_num arg = q - ?k" "cs_empty_addr arg = (q - 1) * s" using inv True by (simp_all add: chk_inv_def)
    moreover have "u32 ((q - 1) * s + s) = m" using g by (simp add: sectors_def algebra_simps)
    ultimately show ?thesis using True g geo by (simp add: tsdb_locate_def)
  next
    case False
    then have "cs_empty_num arg = 0" using inv g(6) by (simp add: chk_inv_def)
    moreover have e: "adr s q (ta_start A) (Suc (?k - 1)) = ta_start A * s"
      using adr_wrap [of s q "ta_start A" 0] adr_0 [OF g(5), of s] False g(4,6) by simp
    moreover have "ts_addr (tsdb_cur_sec db) = adr s q (ta_start A) (?k - 1)" using cur by (simp add: sec_info_def cur_no_def adr_def)
    ultimately show ?thesis
      using adr_next [OF g(1,2), of "ta_start A" "?k - 1"] geo by (auto simp: tsdb_locate_def not_less split: if_splits)
  qed
  obtain p where "p < q" and img: "sector_img f s ?c (ts_st ?k p) (ts_lg (ta_sectors A) p)" and p: "p = ?k - 1"
    using chk_pos [OF d cq] by metis
  have ca: "ts_addr (tsdb_cur_sec db) = ?c" using cur by (simp add: sec_info_def)
  let ?db = "db\<lparr>db_oldest_addr := ta_start A * s\<rparr>"
  have st': "stored s m f ?db" using st by simp
  show ?thesis
    unfolding old tsdb_load_last_def Let_def holds_bind
  proof (simp add: ca, rule stored_read_sector_info [OF st' _ _ img [unfolded p] g(3)], simp, rule sector_pos(2) [OF g(1) cq], unfold prod.case, goal_cases)
    case (1 r sec db1)
    have fr: "db_oldest_addr db1 = ta_start A * s" "tsdb_rollover db1" "tsdb_max_len db1 + 48 \<le> s" "tsdb_last_time db1 = tsdb_last_time db0"
      using io_frameD [OF 1(4)] io_frame_ts [OF 1(4)] geo c lt by simp_all
    have re1: "reopened db0 db1" by (rule reopened_frame(1) [OF _ 1(4)]) (simp add: re)
    show ?case
    proof (cases "ta_sectors A = []")
      case True
      then have s0: "ts_status sec = FDB_SECTOR_STORE_EMPTY" "ts_addr sec = 0" "ta_start A = 0" "cur_no q A = 0"
        using 1(1) g by (simp_all add: sec_info_def ts_st_def cur_no_def)
      have "ts_rel s m q (A\<lparr>ta_last := tsdb_last_time (db1\<lparr>tsdb_cur_sec := sec\<rparr>)\<rparr>) f (db1\<lparr>tsdb_cur_sec := sec\<rparr>)"
        by (rule disk_rel [OF d]) (use 1 fr True in \<open>simp_all add: ts_st_def ts_lg_def\<close>)
      then show ?thesis using post [of "db1\<lparr>tsdb_cur_sec := sec\<rparr>"] True s0 fr re1 by simp
    next
      case False
      have u: "?st = FDB_SECTOR_STORE_USING" "?L = last (ta_sectors A)" using False by (auto simp: ts_st_def ts_lg_def last_conv_nth)
      have last: "last (ta_sectors A) \<noteq> []" "ta_last A = lg_time (last (last (ta_sectors A)))" using d False by (simp_all add: ts_disk_def)
      have "ts_end_time sec = ta_last A" "ts_status sec = FDB_SECTOR_STORE_USING" using 1(1) u last by (simp_all add: sec_info_def last_conv_nth)
      moreover have "ts_rel s m q (A\<lparr>ta_last := tsdb_last_time (db1\<lparr>tsdb_cur_sec := sec, tsdb_last_time := ta_last A\<rparr>)\<rparr>) f (db1\<lparr>tsdb_cur_sec := sec, tsdb_last_time := ta_last A\<rparr>)"
        by (rule disk_rel [OF d]) (use 1 fr u in simp_all)
      ultimately show ?thesis using post [of "db1\<lparr>tsdb_cur_sec := sec, tsdb_last_time := ta_last A\<rparr>"] False re1 by simp
    qed
  qed
qed



section \<open>Opening a database\<close>

lemma ts_rel_init_ok [simp]: "ts_rel s m q A f (db\<lparr>db_init_ok := b\<rparr>) = ts_rel s m q A f db"
proof -
  have "stored s m f (db\<lparr>db_init_ok := b\<rparr>) = stored s m f db" by (rule stored_cong) simp_all
  then show ?thesis by (simp add: ts_rel_def ts_fresh_def ts_open_def ts_cur_def ts_base_def)
qed

text \<open>The options that opening and closing leave alone.\<close>

definition same_options :: "fdb_tsdb \<Rightarrow> fdb_tsdb \<Rightarrow> bool" where
  "same_options db db' \<longleftrightarrow> db_dir db' = db_dir db \<and> db_lock_fn db' = db_lock_fn db \<and> db_unlock_fn db' = db_unlock_fn db"

lemma tsdb_init_ok:
  assumes ini: "fdb_init_ex db name path FDB_DB_TYPE_TS ud = Some (FDB_NO_ERR, db1)" and st: "stored s m f db1"
    and d: "ts_disk s m q A f" and n: "max_len + 48 \<le> s"
    and post: "\<And>db'. ts_rel s m q (A\<lparr>ta_last := if ta_sectors A = [] then tsdb_last_time db1 else ta_last A\<rparr>) f db' \<Longrightarrow>
       db_init_ok db' \<Longrightarrow> tsdb_max_len db' = max_len \<Longrightarrow> same_options db1 db' \<Longrightarrow> Q (FDB_NO_ERR, db')"
  shows "holds (fdb_tsdb_init db name path True max_len ud) Q"
proof -
  let ?l = "db_lock db1"
  let ?db = "?l\<lparr>tsdb_get_time := True, tsdb_max_len := max_len, tsdb_rollover := True, db_oldest_addr := FDB_DATA_UNUSED,
     tsdb_cur_sec := (tsdb_cur_sec ?l)\<lparr>ts_addr := FDB_DATA_UNUSED\<rparr>\<rparr>"
  have l: "stored s m f ?l" "tsdb_last_time ?l = tsdb_last_time db1" using st by (simp_all add: db_lock_def)
  have st': "stored s m f ?db" using l(1) by simp
  have len: "max_len < db_sec_size ?db" using n st' by simp
  have inv: "chk_inv s m q A f ?db 0 \<lparr>cs_check_failed = False, cs_empty_num = 0, cs_empty_addr = 0\<rparr> ?db"
    using d st' by (simp add: chk_inv_def)
  have run: "holds (ts_sector_iterator ?db ((tsdb_stack_sector ?db)\<lparr>ts_addr := 0\<rparr>) FDB_SECTOR_STORE_UNUSED
     \<lparr>cs_check_failed = False, cs_empty_num = 0, cs_empty_addr = 0\<rparr> (Some ts_check_sec_hdr_cb) True)
     (\<lambda>(_, arg, db2). \<not> cs_check_failed arg \<and> holds (tsdb_load_last (tsdb_locate db2 arg)) (\<lambda>db3. Q (FDB_NO_ERR, fdb_init_finish (db_unlock db3) FDB_NO_ERR)))"
  proof (rule chk.iterator_ok [OF inv], unfold prod.case, goal_cases)
    case (1 sec arg db2)
    then have q: "chk_inv s m q A f ?db q arg db2" by simp
    have "holds (tsdb_load_last (tsdb_locate db2 arg)) (\<lambda>db3. Q (FDB_NO_ERR, fdb_init_finish (db_unlock db3) FDB_NO_ERR))"
    proof (rule locate_load [OF q], simp, use n in simp, goal_cases)
      case (1 db3)
      have "tsdb_max_len (db_unlock db3) = max_len" using reopenedD(2) [OF 1(2)] by (simp add: db_unlock_def)
      moreover have "same_options db1 (db_unlock db3\<lparr>db_init_ok := True\<rparr>)"
        using reopenedD [OF 1(2)] by (simp add: same_options_def db_unlock_def db_lock_def)
      ultimately show ?case using 1(1) l(2) by (intro post) (simp_all add: fdb_init_finish_def cong: if_cong)
    qed
    then show ?case using q by (simp add: chk_inv_def)
  qed
  have na: "\<not> \<not> max_len < db_sec_size ?db" using len by blast
  show ?thesis
    unfolding fdb_tsdb_init_def ini Option.bind.bind_lunit prod.case Let_def simp_thms if_False if_not_P [OF na] holds_bind
    using run by (auto elim!: holds_mono)
qed

text \<open>Closing a database and opening it again.\<close>

definition ts_reopen :: "fdb_tsdb \<Rightarrow> nat \<Rightarrow> nat \<Rightarrow> (fdb_err_t \<times> fdb_tsdb) option" where
  "ts_reopen db max_len ud = do { (_, db') \<leftarrow> fdb_tsdb_deinit db; fdb_tsdb_init db' (db_name db) (db_dir db) True max_len ud }"

lemma ts_reopen_ok:
  assumes rel: "ts_rel s m q A f db" and "open": "db_init_ok db" and geo: "s AND (s - 1) = 0" "db_dir db \<noteq> []" and n: "max_len + 48 \<le> s"
  shows "holds (ts_reopen db max_len ud) (\<lambda>(r, db'). r = FDB_NO_ERR \<and> db_init_ok db' \<and> tsdb_max_len db' = max_len \<and> same_options db db' \<and> ts_rel s m q A f db')"
proof -
  note b = ts_baseD [OF ts_rel_base [OF rel]]
  have m: "2 * s \<le> m" using b(2,3) by (simp add: sectors_def)
  have last: "tsdb_last_time db = ta_last A" using rel by (simp add: ts_rel_def)
  have A: "A\<lparr>ta_last := ta_last A\<rparr> = A" by simp
  show ?thesis
    unfolding ts_reopen_def fdb_tsdb_deinit_def holds_bind
  proof (rule holds_mono [OF deinit_init [where type = FDB_DB_TYPE_TS and ud = ud, OF b(1) "open" geo(1) m geo(2)]], goal_cases)
    case (1 db')
    then obtain db1 where ini: "fdb_init_ex db' (db_name db) (db_dir db) FDB_DB_TYPE_TS ud = Some (FDB_NO_ERR, db1)"
      and st1: "stored s m f db1" and more: "fdb_db.more db1 = fdb_db.more db" and opt: "same_options db db1"
      by (auto simp: holds_ex same_options_def)
    have lt: "tsdb_last_time db1 = ta_last A" using more last by (cases db1; cases db) simp
    have "holds (fdb_tsdb_init db' (db_name db) (db_dir db) True max_len ud)
       (\<lambda>(r, db'). r = FDB_NO_ERR \<and> db_init_ok db' \<and> tsdb_max_len db' = max_len \<and> same_options db db' \<and> ts_rel s m q A f db')"
      by (rule tsdb_init_ok [OF ini st1 ts_rel_disk [OF rel] n]) (use opt in \<open>simp add: lt A same_options_def cong: if_cong\<close>)
    then show ?case by simp
  qed
qed



section \<open>Storage without a database\<close>

text \<open>The first sector has another magic word: the check of the headers stops there.\<close>

definition unknown :: "nat \<Rightarrow> nat \<Rightarrow> nat \<Rightarrow> (addr \<Rightarrow> byte) \<Rightarrow> bool" where
  "unknown s m q f \<longleftrightarrow> sectors m q s \<and> 2 \<le> q \<and> m < 2 ^ 31 \<and> le32_dec (rd f 1 4) \<noteq> TS_SECTOR_MAGIC_WORD \<and> (\<forall>j < q. sane f s (j * s))"

lemma read_unknown:
  assumes st: "stored s m f db" and u: "unknown s m q f" "32 < s"
    and post: "\<And>r sec' db'. ts_addr sec' = 0 \<Longrightarrow> \<not> ts_check_ok sec' \<Longrightarrow> stored s m f db' \<Longrightarrow> io_frame db db' \<Longrightarrow> Q (r, sec', db')"
  shows "holds (ts_read_sector_info db 0 sec trav) Q"
proof -
  have mg: "le32_dec (take 4 (drop 1 (rd f 0 32))) \<noteq> TS_SECTOR_MAGIC_WORD" using u(1) by (simp add: unknown_def take_rd drop_rd min_def)
  have "0 < m" using u(1) by (simp add: unknown_def sectors_def)
  then have "in_sector s m 0 32" by (intro in_sector_base [OF storedD(4) [OF st]]) (use u(2) in simp_all)
  then show ?thesis
    unfolding ts_read_sector_info_def holds_bind
    by (rule stored_read [OF st]) (use mg post in \<open>simp add: uninit_def fdb_layout\<close>)
qed

definition unk_inv :: "nat \<Rightarrow> nat \<Rightarrow> nat \<Rightarrow> (addr \<Rightarrow> byte) \<Rightarrow> fdb_tsdb \<Rightarrow> nat \<Rightarrow> check_sec_hdr_cb_args \<Rightarrow> fdb_tsdb \<Rightarrow> bool" where
  "unk_inv s m q f db0 i arg db \<longleftrightarrow> i = 0 \<and> unknown s m q f \<and> 32 < s \<and> stored s m f db \<and> io_frame db0 db"

interpretation unk: ts_sector_visitor s m q ts_check_sec_hdr_cb True "unk_inv s m q f db0"
  "\<lambda>arg db. cs_check_failed arg \<and> stored s m f db \<and> io_frame db0 db" for s m q f db0
proof
  fix i :: nat and arg db
  assume "unk_inv s m q f db0 i arg db"
  then show "sectors m q s \<and> m < 2 ^ 31 \<and> db_sec_size db = s \<and> db_max_size db = m" by (auto simp: unk_inv_def unknown_def)
next
  fix i :: nat and arg db sec
  assume "unk_inv s m q f db0 i arg db"
  then have i: "i * s = 0" and u: "unknown s m q f" "32 < s" and st: "stored s m f db" and io: "io_frame db0 db" by (auto simp: unk_inv_def)
  show "holds (ts_read_sector_info db (i * s) sec False) (\<lambda>(_, sec, db).
        holds (if True then do { (_, sec, db) \<leftarrow> ts_read_sector_info db (i * s) sec True; Some (sec, db) } else Some (sec, db))
          (\<lambda>(sec, db). ts_addr sec = i * s \<and> holds (ts_check_sec_hdr_cb sec arg db)
             (\<lambda>(stop, arg, db). if stop then cs_check_failed arg \<and> stored s m f db \<and> io_frame db0 db else unk_inv s m q f db0 (Suc i) arg db)))"
    unfolding i if_True holds_bind
  proof (rule read_unknown [OF st u], unfold prod.case, rule read_unknown [OF _ u], assumption, unfold prod.case, goal_cases)
    case (1 r1 sec1 db1 r2 sec2 db2)
    then show ?case using io_frame_trans [OF io_frame_trans [OF io 1(4)] 1(8)] by (simp add: ts_check_sec_hdr_cb_def)
  qed
qed

text \<open>What the initialisation does then: it formats, or refuses.\<close>

lemma load_empty:
  assumes rel: "ts_rel s m q ts_empty f db"
    and post: "\<And>db'. ts_rel s m q ts_empty f db' \<Longrightarrow> reopened db db' \<Longrightarrow> Q db'"
  shows "holds (tsdb_load_last db) Q"
proof -
  have fr: "ts_fresh s m q 0 [] f db" and lt: "tsdb_last_time db = 0" using rel by (simp_all add: ts_rel_def ts_empty_def)
  have base: "ts_base s m q 0 (fresh_st 0) (ts_lg []) (ts_sr [] 0) f db" and cur: "ts_cur s q 0 (fresh_st 0) (ts_lg []) f 0 db"
    using fr by (simp_all add: ts_fresh_def)
  note b = ts_baseD [OF base]
  have c: "ts_addr (tsdb_cur_sec db) = 0" using cur by (simp add: ts_cur_def sec_info_def adr_def)
  have q: "0 < q" "0 < m" using b(2) by (simp_all add: sectors_def)
  have img: "sector_img f s 0 FDB_SECTOR_STORE_EMPTY []" using ring_imgD(1) [OF b(6) q(1)] by (simp add: adr_def fresh_st_def ts_lg_def)
  show ?thesis
    unfolding tsdb_load_last_def Let_def holds_bind c
  proof (rule stored_read_sector_info [OF b(1) _ q(2) img b(12)], simp, unfold prod.case, goal_cases)
    case (1 r sec db1)
    let ?d = "db1\<lparr>tsdb_cur_sec := sec\<rparr>"
    have s0: "ts_status sec = FDB_SECTOR_STORE_EMPTY" "ts_addr sec = 0" using 1(1) by (simp_all add: sec_info_def)
    have old: "db_oldest_addr db1 = 0" using b(7) io_frameD [OF 1(4)] by simp
    have "ts_rel s m q ts_empty f ?d"
      using ts_base_frame [OF base 1(3,4)] 1(1) q io_frame_ts [OF 1(4)] lt
      by (simp add: ts_rel_def ts_empty_def ts_fresh_def ts_cur_def ts_logs_def fresh_st_def ts_lg_def adr_def)
    moreover have "reopened db ?d" using reopened_frame(1) [OF _ 1(4), of db] by simp
    ultimately have "Q ?d" by (rule post)
    then show ?case using s0 old by simp
  qed
qed

lemma lock_fields [simp]:
  "db_dir (db_lock db) = db_dir db" "db_lock_fn (db_lock db) = db_lock_fn db" "db_unlock_fn (db_lock db) = db_unlock_fn db"
  "db_dir (db_unlock db) = db_dir db" "db_lock_fn (db_unlock db) = db_lock_fn db" "db_unlock_fn (db_unlock db) = db_unlock_fn db"
  "tsdb_max_len (db_lock tdb) = tsdb_max_len tdb" "tsdb_max_len (db_unlock tdb) = tsdb_max_len tdb"
  by (simp_all add: db_lock_def db_unlock_def)

lemma tsdb_init_unknown:
  assumes ini: "fdb_init_ex db name path FDB_DB_TYPE_TS ud = Some (FDB_NO_ERR, db1)" and st: "stored s m f db1"
    and u: "unknown s m q f" and n: "max_len + 48 \<le> s"
  shows "\<not> db_not_formatable db1 \<Longrightarrow> holds (fdb_tsdb_init db name path True max_len ud) (\<lambda>(r, db'). r = FDB_NO_ERR \<and> db_init_ok db'
      \<and> tsdb_max_len db' = max_len \<and> same_options db1 db' \<and> (\<exists>f'. ts_rel s m q ts_empty f' db'))"
    "db_not_formatable db1 \<Longrightarrow> holds (fdb_tsdb_init db name path True max_len ud) (\<lambda>(r, db'). r = FDB_READ_ERR \<and> db_lock_cnt db' = db_lock_cnt (db_lock db1))"
proof -
  let ?l = "db_lock db1"
  let ?db = "?l\<lparr>tsdb_get_time := True, tsdb_max_len := max_len, tsdb_rollover := True, db_oldest_addr := FDB_DATA_UNUSED,
     tsdb_cur_sec := (tsdb_cur_sec ?l)\<lparr>ts_addr := FDB_DATA_UNUSED\<rparr>\<rparr>"
  have l: "stored s m f ?l" using st by (simp add: db_lock_def)
  have st': "stored s m f ?db" using l by simp
  have na: "\<not> \<not> max_len < db_sec_size ?db" using n st' by simp
  have inv: "unk_inv s m q f ?db 0 \<lparr>cs_check_failed = False, cs_empty_num = 0, cs_empty_addr = 0\<rparr> ?db" using st' u n by (simp add: unk_inv_def)
  have q0: "0 < q" using u by (simp add: unknown_def)
  have run: "holds (ts_sector_iterator ?db ((tsdb_stack_sector ?db)\<lparr>ts_addr := 0\<rparr>) FDB_SECTOR_STORE_UNUSED
     \<lparr>cs_check_failed = False, cs_empty_num = 0, cs_empty_addr = 0\<rparr> (Some ts_check_sec_hdr_cb) True)
     (\<lambda>(_, arg, db2). cs_check_failed arg \<and> stored s m f db2 \<and> io_frame ?db db2)"
    by (rule unk.iterator_ok [OF inv]) (use q0 in \<open>auto simp: unk_inv_def\<close>)
  have nf: "db_not_formatable db2 = db_not_formatable db1" "db_lock_cnt db2 = db_lock_cnt ?l" if "io_frame ?db db2" for db2
    using io_frameD [OF that] by (simp_all add: db_lock_def)
  have fmt: "holds (tsl_format_all db2) (\<lambda>db3. holds (tsdb_load_last db3) (\<lambda>db4. db_init_ok (fdb_init_finish (db_unlock db4) FDB_NO_ERR)
      \<and> tsdb_max_len (fdb_init_finish (db_unlock db4) FDB_NO_ERR) = max_len \<and> same_options db1 (fdb_init_finish (db_unlock db4) FDB_NO_ERR)
      \<and> (\<exists>f'. ts_rel s m q ts_empty f' (fdb_init_finish (db_unlock db4) FDB_NO_ERR))))" if s2: "stored s m f db2" and io: "io_frame ?db db2" for db2
  proof (rule ts_format_all_ok [where q = q, OF s2], goal_cases)
    case (7 f3 db3)
    show ?case
    proof (rule load_empty [OF 7(1)], goal_cases)
      case (1 db4)
      note r = reopenedD [OF 1(2)] reopenedD [OF 7(2)] reopenedD [OF reopened_frame(2) [OF io reopened_refl]]
      show ?case using 1(1) r by (auto simp: fdb_init_finish_def same_options_def)
    qed
  qed (use u n io_frame_ts [OF io] in \<open>auto simp: unknown_def\<close>)
  show "holds (fdb_tsdb_init db name path True max_len ud) (\<lambda>(r, db'). r = FDB_NO_ERR \<and> db_init_ok db'
      \<and> tsdb_max_len db' = max_len \<and> same_options db1 db' \<and> (\<exists>f'. ts_rel s m q ts_empty f' db'))" if "\<not> db_not_formatable db1"
    unfolding fdb_tsdb_init_def ini Option.bind.bind_lunit prod.case Let_def simp_thms if_False if_not_P [OF na] holds_bind
    by (rule holds_mono [OF run]) (use that nf fmt in \<open>auto simp: split_def elim!: holds_mono\<close>)
  show "holds (fdb_tsdb_init db name path True max_len ud) (\<lambda>(r, db'). r = FDB_READ_ERR \<and> db_lock_cnt db' = db_lock_cnt (db_lock db1))" if "db_not_formatable db1"
    unfolding fdb_tsdb_init_def ini Option.bind.bind_lunit prod.case Let_def simp_thms if_False if_not_P [OF na] holds_bind
    by (rule holds_mono [OF run]) (use that nf in \<open>auto simp: fdb_init_finish_def\<close>)
qed

end
