(* ===== verification/TsRead.thy ===== *)
theory TsRead
  imports TsLife Service
begin

text \<open>
  Callbacks that only read: the counter of \<open>fdb_tsl_query_count\<close>, and a client that collects the time and the
  data of every log it is shown, with \<open>fdb_tsl_to_blob\<close> and \<open>fdb_blob_read\<close>.
\<close>

section \<open>Iterations that do not stop\<close>

lemma visit_all: "visit_logs (\<lambda>t x. (False, g t x)) ts x = (False, fold g ts x)"
  by (induction ts arbitrary: x) simp_all

lemma fold_snoc: "fold (\<lambda>t xs. xs @ [g t]) ts xs = xs @ map g ts"
  by (induction ts arbitrary: xs) simp_all

lemma fold_count:
  "x + length (filter P ts) < 2 ^ 64 \<Longrightarrow> fold (\<lambda>t c. if P t then u64 (c + 1) else c) ts x = x + length (filter P ts)"
proof (induction ts arbitrary: x)
  case (Cons t ts)
  then show ?case by (cases "P t") (simp_all add: u64_def)
qed simp


section \<open>A client that reads the data\<close>

definition collect_cb :: "(int \<times> byte list) list tsl_callback" where
  "collect_cb tsl xs db =
     (if tsl_log_len tsl = 0 then Some (False, xs @ [(tsl_time tsl, [])], db)
      else do {
        (n, blob, db) \<leftarrow> fdb_blob_read db
          (fdb_tsl_to_blob tsl (fdb_blob_make blob0 (Some (replicate (tsl_log_len tsl) 0)) (tsl_log_len tsl)));
        Some (False, xs @ [(tsl_time tsl, take n (the (blob_buf blob)))], db)
      })"

text \<open>The data of the log at a time; the times of the logs are distinct.\<close>

definition data_of :: "ts_abs \<Rightarrow> int \<Rightarrow> byte list" where
  "data_of A t = the (map_of (map (\<lambda>l. (lg_time l, lg_data l)) (ts_logs A)) t)"

lemma data_of_log:
  assumes "sorted_wrt (<) (map lg_time (ts_logs A))" "l \<in> set (ts_logs A)"
  shows "data_of A (lg_time l) = lg_data l"
proof -
  have "distinct (map lg_time (ts_logs A))" using assms(1) by (simp add: strict_sorted_iff)
  then have "map_of (map (\<lambda>l. (lg_time l, lg_data l)) (ts_logs A)) (lg_time l) = Some (lg_data l)"
    using assms(2) by (intro map_of_is_SomeI) (auto simp: comp_def)
  then show ?thesis by (simp add: data_of_def)
qed

definition collect_visit :: "ts_abs \<Rightarrow> fdb_tsl \<Rightarrow> (int \<times> byte list) list \<Rightarrow> bool \<times> (int \<times> byte list) list" where
  "collect_visit A tsl xs = (False, xs @ [(tsl_time tsl, data_of A (tsl_time tsl))])"

lemma tsls_cases:
  assumes "tsl \<in> set (ts_tsls s q A)"
  obtains j i where "j < length (ta_sectors A)" "i < length (ta_sectors A ! j)"
    "tsl = tsl_of s (adr s q (ta_start A) j) (ta_sectors A ! j) i"
  using assms by (auto simp: ts_tsls_def pos_tsls_def ts_lg_def split: if_splits)

lemma collect_reads:
  assumes rel: "ts_rel s m q A f db" and t: "tsl \<in> set (ts_tsls s q A)"
  shows "holds (collect_cb tsl xs db) (\<lambda>(stop, x, db'). stop = False \<and> x = snd (collect_visit A tsl xs) \<and> stored s m f db' \<and> io_frame db db')"
proof -
  obtain j i where j: "j < length (ta_sectors A)" and i: "i < length (ta_sectors A ! j)"
    and tsl: "tsl = tsl_of s (adr s q (ta_start A) j) (ta_sectors A ! j) i" by (rule tsls_cases [OF t])
  let ?L = "ta_sectors A ! j" and ?b = "adr s q (ta_start A) j"
  note b = ts_baseD [OF ts_rel_base [OF rel]]
  note img = sector_imgD [OF ts_rel_pos(2) [OF rel j]]
  have lt: "?L ! i \<in> set (ts_logs A)" using i j by (auto simp: ts_logs_def intro!: bexI [of _ ?L])
  have dat: "data_of A (tsl_time tsl) = lg_data (?L ! i)"
    using data_of_log [OF _ lt] rel tsl by (simp add: ts_rel_def tsl_of_def)
  have fld: "tsl_log_len tsl = length (lg_data (?L ! i))" "tsl_addr_log tsl = data_addr s ?b ?L i" by (simp_all add: tsl tsl_of_def)
  have rd: "rd f (data_addr s ?b ?L i) (length (lg_data (?L ! i))) = lg_data (?L ! i)" using img(3) [OF i] by (simp add: log_at_def)
  show ?thesis
  proof (cases "lg_data (?L ! i) = []")
    case True
    then show ?thesis using dat fld b(1) by (simp add: collect_cb_def collect_visit_def)
  next
    case False
    have d: "data_addr s ?b ?L i = ?b + (s - data_len (take (Suc i) ?L))"
      using data_len_take_le [of "Suc i" ?L] img(1) by (simp add: data_addr_def used_len_def)
    have "length (lg_data (?L ! i)) \<le> data_len (take (Suc i) ?L)" "data_len (take (Suc i) ?L) \<le> s"
      using data_len_take_Suc [OF i] data_len_take_le [of "Suc i" ?L] img(1) by (simp_all add: used_len_def)
    moreover have "0 < length (lg_data (?L ! i))" using False by simp
    ultimately have ins: "in_sector s m (data_addr s ?b ?L i) (length (lg_data (?L ! i)))"
      unfolding d by (intro sector_room(3) [OF b(1) adr_mod adr_less [OF b(2)]]) linarith+
    show ?thesis
      unfolding collect_cb_def fdb_blob_read_def fdb_tsl_to_blob_def fdb_blob_make_def Let_def using False
      by (simp add: fld, intro stored_read [OF b(1) ins]) (simp add: rd dat fld collect_visit_def)
  qed
qed

interpretation collector: tsl_reader s m q A collect_cb "collect_visit A" for s m q A
proof
  fix f db tsl x
  assume "ts_rel s m q A f db" "tsl \<in> set (ts_tsls s q A)"
  from collect_reads [OF this, of x]
  show "\<exists>db'. collect_cb tsl x db = Some (fst (collect_visit A tsl x), snd (collect_visit A tsl x), db') \<and> stored s m f db' \<and> io_frame db db'"
    by (auto simp: holds_ex collect_visit_def)
qed

interpretation counter: tsl_reader s m q A "query_count_cb st" "\<lambda>t c. (False, if tsl_status t = st then u64 (c + 1) else c)" for s m q A st
proof
  fix f db tsl x
  assume "ts_rel s m q A f db"
  then have "stored s m f db" by (rule ts_baseD(1) [OF ts_rel_base])
  then show "\<exists>db'. query_count_cb st tsl x db = Some (fst (False, if tsl_status tsl = st then u64 (x + 1) else x),
      snd (False, if tsl_status tsl = st then u64 (x + 1) else x), db') \<and> stored s m f db' \<and> io_frame db db'"
    by (simp add: query_count_cb_def)
qed



section \<open>What they return\<close>

definition entry :: "ts_log \<Rightarrow> int \<times> byte list" where
  "entry l = (lg_time l, lg_data l)"

text \<open>The logs of an interval, in the order of its bounds.\<close>

definition range_logs :: "int \<Rightarrow> int \<Rightarrow> ts_abs \<Rightarrow> ts_log list" where
  "range_logs from to A = (let ls = filter (\<lambda>l. in_range from to (lg_time l)) (ts_logs A) in if from \<le> to then ls else rev ls)"

lemma tsls_entries:
  assumes "ts_rel s m q A f db"
  shows "map (\<lambda>t. (tsl_time t, data_of A (tsl_time t))) (ts_tsls s q A) = map entry (ts_logs A)"
    "map (\<lambda>t. (tsl_time t, data_of A (tsl_time t))) (range_tsls s q A from to) = map entry (range_logs from to A)"
proof -
  have srt: "sorted_wrt (<) (map lg_time (ts_logs A))" using assms by (simp add: ts_rel_def)
  have conv: "map (\<lambda>t. (tsl_time t, data_of A (tsl_time t))) (filter (\<lambda>t. P (tsl_time t)) (ts_tsls s q A)) = map entry (filter (\<lambda>l. P (lg_time l)) (ts_logs A))" for P
  proof -
    have "map (\<lambda>t. (tsl_time t, data_of A (tsl_time t))) (filter (\<lambda>t. P (tsl_time t)) (ts_tsls s q A))
        = map (\<lambda>t. (t, data_of A t)) (filter P (map tsl_time (ts_tsls s q A)))" by (simp add: filter_map comp_def)
    also have "\<dots> = map entry (filter (\<lambda>l. P (lg_time l)) (ts_logs A))"
      unfolding tsls_fields(1) by (auto simp: filter_map comp_def entry_def data_of_log [OF srt])
    finally show ?thesis .
  qed
  show "map (\<lambda>t. (tsl_time t, data_of A (tsl_time t))) (ts_tsls s q A) = map entry (ts_logs A)" using conv [of "\<lambda>_. True"] by simp
  show "map (\<lambda>t. (tsl_time t, data_of A (tsl_time t))) (range_tsls s q A from to) = map entry (range_logs from to A)"
    using conv [of "in_range from to"] by (simp add: range_tsls_def range_logs_def Let_def flip: rev_map)
qed

lemma collect_visits: "snd (visit_logs (collect_visit A) ts xs) = xs @ map (\<lambda>t. (tsl_time t, data_of A (tsl_time t))) ts"
proof -
  have "collect_visit A = (\<lambda>t x. (False, x @ [(tsl_time t, data_of A (tsl_time t))]))" by (simp add: collect_visit_def fun_eq_iff)
  then show ?thesis by (simp add: visit_all fold_snoc)
qed

lemma collect_iter:
  assumes rel: "ts_rel s m q A f db"
  shows "(\<And>db'. ts_rel s m q A f db' \<Longrightarrow> read_only db db' \<Longrightarrow> Q (map entry (ts_logs A), db')) \<Longrightarrow> holds (fdb_tsl_iter db (Some collect_cb) []) Q"
    "(\<And>db'. ts_rel s m q A f db' \<Longrightarrow> read_only db db' \<Longrightarrow> Q (rev (map entry (ts_logs A)), db')) \<Longrightarrow> holds (fdb_tsl_iter_reverse db (Some collect_cb) []) Q"
    "(to < from \<Longrightarrow> \<forall>L \<in> set (ta_sectors A). used_len L < s) \<Longrightarrow> (\<And>db'. ts_rel s m q A f db' \<Longrightarrow> read_only db db' \<Longrightarrow> Q (map entry (range_logs from to A), db')) \<Longrightarrow>
      holds (fdb_tsl_iter_by_time db from to (Some collect_cb) []) Q"
  by (rule collector.tsl_iter_ok [OF rel], simp add: collect_visits tsls_entries [OF rel])
    (rule collector.tsl_iter_reverse_ok [OF rel], simp add: collect_visits tsls_entries [OF rel] flip: rev_map,
     rule collector.iter_by_time_ok [OF rel], simp, simp add: collect_visits tsls_entries [OF rel])

lemma length_concat_le: "(\<And>xs. xs \<in> set xss \<Longrightarrow> length xs \<le> n) \<Longrightarrow> length (concat xss) \<le> length xss * n"
proof (induction xss)
  case (Cons xs xss)
  then have "length xs \<le> n" "length (concat xss) \<le> length xss * n" by simp_all
  then show ?case by simp
qed simp

lemma log_count: "ts_rel s m q A f db \<Longrightarrow> length (ts_logs A) < 2 ^ 31"
proof -
  assume rel: "ts_rel s m q A f db"
  note b = ts_baseD [OF ts_rel_base [OF rel]]
  have le: "length (ta_sectors A) \<le> q" using ts_rel_cur(2) [OF rel] by (cases "ta_sectors A") auto
  have one: "length L \<le> s" if "L \<in> set (ta_sectors A)" for L
  proof -
    obtain j where "j < length (ta_sectors A)" "L = ta_sectors A ! j" using \<open>L \<in> set (ta_sectors A)\<close> by (metis in_set_conv_nth)
    then show ?thesis using sector_imgD(1) [OF ts_rel_pos(2) [OF rel, of j]] by (simp add: used_len_def)
  qed
  have "length (ts_logs A) \<le> length (ta_sectors A) * s"
    unfolding ts_logs_def by (rule length_concat_le) (rule one)
  also have "\<dots> \<le> m" using le b(2) by (simp add: sectors_def)
  finally show ?thesis using b(4) by simp
qed

lemma count_ok:
  assumes rel: "ts_rel s m q A f db" and gap: "to < from \<Longrightarrow> \<forall>L \<in> set (ta_sectors A). used_len L < s" and "open": "db_init_ok db"
    and post: "\<And>db'. ts_rel s m q A f db' \<Longrightarrow> read_only db db' \<Longrightarrow> Q (length (filter (\<lambda>l. in_range from to (lg_time l) \<and> lg_status l = st) (ts_logs A)), db')"
  shows "holds (fdb_tsl_query_count db from to st) Q"
proof -
  have two: "map (\<lambda>t. (tsl_time t, tsl_status t)) (ts_tsls s q A) = map (\<lambda>l. (lg_time l, lg_status l)) (ts_logs A)"
    by (rule map_tsls) (simp add: tsl_of_def)
  have "length (filter (\<lambda>t. tsl_status t = st) (range_tsls s q A from to))
      = length (filter (\<lambda>(t, u). in_range from to t \<and> u = st) (map (\<lambda>t. (tsl_time t, tsl_status t)) (ts_tsls s q A)))"
    by (simp add: range_tsls_def Let_def filter_map comp_def conj_commute flip: rev_filter)
  then have len: "length (filter (\<lambda>t. tsl_status t = st) (range_tsls s q A from to)) = length (filter (\<lambda>l. in_range from to (lg_time l) \<and> lg_status l = st) (ts_logs A))"
    unfolding two by (simp add: filter_map comp_def)
  have "length (filter (\<lambda>t. tsl_status t = st) (range_tsls s q A from to)) < 2 ^ 64"
    unfolding len using log_count [OF rel] by (intro order_le_less_trans [OF length_filter_le]) simp
  then have cnt: "snd (visit_logs (\<lambda>t c. (False, if tsl_status t = st then u64 (c + 1) else c)) (range_tsls s q A from to) 0)
      = length (filter (\<lambda>l. in_range from to (lg_time l) \<and> lg_status l = st) (ts_logs A))"
    unfolding visit_all len [symmetric] snd_conv by (subst fold_count) simp_all
  show ?thesis
    unfolding fdb_tsl_query_count_def using "open"
    by (simp, intro counter.iter_by_time_ok [OF rel gap]) (simp_all add: cnt post)
qed

end
