(* ===== verification/TsStatus.thy ===== *)
theory TsStatus
  imports TsLife
begin

text \<open>
  \<open>fdb_tsl_set_status\<close>: a client changes the status of a log it has been shown, and nothing else.
\<close>

section \<open>The abstract state\<close>

definition ts_restatus :: "ts_abs \<Rightarrow> nat \<Rightarrow> nat \<Rightarrow> fdb_tsl_status \<Rightarrow> ts_abs" where
  "ts_restatus A j i st = A\<lparr>ta_sectors := (ta_sectors A)[j := restatus (ta_sectors A ! j) i st]\<rparr>"

lemma restatus_nth:
  assumes "k < length L"
  shows "lg_time (restatus L i st ! k) = lg_time (L ! k)"
  using assms by (metis nth_map restatus_simps(1,2))

lemma restatus_ends:
  assumes "L \<noteq> []"
  shows "restatus L i st \<noteq> []" "lg_time (hd (restatus L i st)) = lg_time (hd L)" "lg_time (last (restatus L i st)) = lg_time (last L)"
proof -
  show ne: "restatus L i st \<noteq> []" using assms restatus_simps(1) [of L i st] by (metis length_0_conv)
  show "lg_time (hd (restatus L i st)) = lg_time (hd L)" using ne assms by (metis hd_map restatus_simps(2))
  show "lg_time (last (restatus L i st)) = lg_time (last L)" using ne assms by (metis last_map restatus_simps(2))
qed

lemma sec_info_restatus:
  assumes "sec_info f s b st L (length L) sec" "rd g (b + 5) 4 = rd f (b + 5) 4"
  shows "sec_info g s b st (restatus L i nst) (length L) sec"
proof (cases "L = []")
  case True
  then show ?thesis using assms by (simp add: sec_info_def restatus_def)
next
  case False
  have "length L - 1 < length L" using False by simp
  then show ?thesis
    using assms restatus_ends [OF False, of i nst] restatus_nth [of "length L - 1" L i nst] False restatus_simps(3) [of "length L" L i nst]
    by (simp add: sec_info_def used_len_def restatus_simps(1))
qed

lemma map_concat_update:
  assumes "map h ys = map h (xss ! j)"
  shows "map h (concat (xss[j := ys])) = map h (concat xss)"
proof -
  have "map (map h) (xss[j := ys]) = map (map h) xss"
    using assms by (metis list_update_id map_update)
  then show ?thesis by (simp only: map_concat)
qed

lemma restatus_logs:
  "map lg_time (ts_logs (ts_restatus A j i st)) = map lg_time (ts_logs A)" "map lg_data (ts_logs (ts_restatus A j i st)) = map lg_data (ts_logs A)"
proof -
  have d: "map lg_data (restatus L i st) = map lg_data L" for L
    by (cases "i < length L") (auto intro!: nth_equalityI simp: restatus_def nth_list_update list_update_beyond)
  show "map lg_time (ts_logs (ts_restatus A j i st)) = map lg_time (ts_logs A)" "map lg_data (ts_logs (ts_restatus A j i st)) = map lg_data (ts_logs A)"
    unfolding ts_logs_def ts_restatus_def ts_abs.simps
    using map_concat_update [OF restatus_simps(2), of "ta_sectors A" j i st] map_concat_update [OF d, of "ta_sectors A" j] by (simp_all del: map_concat)
qed


section \<open>The refinement\<close>

lemma set_status_ok:
  assumes rel: "ts_rel s m q A f db" and j: "j < length (ta_sectors A)" and i: "i < length (ta_sectors A ! j)"
    and nst: "nst \<notin> {FDB_TSL_UNUSED, FDB_TSL_PRE_WRITE}"
    and post: "\<And>f' db'. ts_rel s m q (ts_restatus A j i nst) f' db' \<Longrightarrow> io_frame db db' \<Longrightarrow> Q (FDB_NO_ERR, db')"
  shows "holds (fdb_tsl_set_status db (tsl_of s (adr s q (ta_start A) j) (ta_sectors A ! j) i) nst) Q"
proof -
  let ?b = "adr s q (ta_start A) j" and ?L = "ta_sectors A ! j" and ?k = "length (ta_sectors A)" and ?B = "ts_restatus A j i nst"
  note b = ts_baseD [OF ts_rel_base [OF rel]] and pos = ts_rel_pos [OF rel j]
  define g where "g = wr f (idx_addr ?b i) [status_byte (tsl_status_num nst)]"
  note img = restatus_img [OF pos(2) i nst, folded g_def]
  have L: "?L \<noteq> []" using i by auto
  have a: "idx_addr ?b i < m" using i sector_imgD(1) [OF pos(2)] adr_room [OF b(2), of "ta_start A" j] by (simp add: idx_addr_def used_len_def)
  have num: "0 < tsl_status_num nst" "tsl_status_num nst < FDB_TSL_STATUS_NUM" "FDB_TSL_STATUS_NUM \<le> 8" using nst by (cases nst; simp add: fdb_layout)+
  have tm: "rd g (?b + 5) 4 = time_bytes (ts_sr (ta_sectors A) 0 j)" if "ts_st ?k j \<noteq> FDB_SECTOR_STORE_EMPTY"
    using ring_imgD(2) [OF b(6) pos(1)] that img(3) by simp
  have lg: "(ts_lg (ta_sectors A))(j := restatus ?L i nst) = ts_lg (ta_sectors ?B)"
    using j by (auto simp: fun_eq_iff ts_lg_def ts_restatus_def nth_list_update)
  have sr: "ts_sr (ta_sectors A) 0 = ts_sr (ta_sectors ?B) 0"
    unfolding ts_sr_def lg [symmetric] using restatus_ends [OF L, of i nst] j L by (auto simp: fun_eq_iff ts_lg_def)
  have len: "length (ta_sectors ?B) = ?k" "ta_start ?B = ta_start A" "ta_last ?B = ta_last A" by (simp_all add: ts_restatus_def)
  have ring: "ring_img g s q (ta_start ?B) (ts_st (length (ta_sectors ?B))) (ts_lg (ta_sectors ?B)) (ts_sr (ta_sectors ?B) 0)"
    using ring_img_upd [OF b(6,2) pos(1) img(2,1) tm] by (simp add: lg len flip: sr)
  have d: "ts_disk s m q A f" by (rule ts_rel_disk [OF rel])
  have ls: "last (ta_sectors ?B) \<noteq> [] \<and> lg_time (last (last (ta_sectors ?B))) = lg_time (last (last (ta_sectors A)))"
  proof -
    have ne: "ta_sectors A \<noteq> []" "ta_sectors ?B \<noteq> []" using j len(1) by auto
    have la: "last (ta_sectors A) \<noteq> []" using d ne by (simp add: ts_disk_def)
    have "last (ta_sectors ?B) = (if j = ?k - 1 then restatus (last (ta_sectors A)) i nst else last (ta_sectors A))"
      using ne j by (auto simp: ts_restatus_def last_conv_nth nth_list_update)
    then show ?thesis using la restatus_ends [OF la, of i nst] by simp
  qed
  have d': "ts_disk s m q ?B g"
    using d ring ls j restatus_logs(1) [of A j i nst] by (auto simp: ts_disk_def len)
  have cur: "sec_info f s (cur_no q A * s) (ts_st ?k (?k - 1)) (ts_lg (ta_sectors A) (?k - 1)) (length (ts_lg (ta_sectors A) (?k - 1))) (tsdb_cur_sec db)"
  proof -
    have "ta_sectors A \<noteq> []" using j by auto
    then show ?thesis using ts_rel_cur(1) [OF rel] by (auto simp: cur_no_def adr_def ts_st_def ts_lg_def last_conv_nth)
  qed
  have kq: "?k - 1 < q" using d b(3) by (auto simp: ts_disk_def)
  have rdc: "rd g (cur_no q A * s + 5) 4 = rd f (cur_no q A * s + 5) 4"
  proof (cases "j = ?k - 1")
    case True
    then show ?thesis using img(3) by (simp add: cur_no_def adr_def)
  next
    case False
    show ?thesis
    proof (rule rd_cong)
      fix x :: nat
      assume x: "x < 4"
      have "cur_no q A * s + 5 + x < ?b \<or> ?b + s \<le> cur_no q A * s + 5 + x"
        using adr_disjoint [OF b(2) pos(1) kq False, of "ta_start A"] x b(12) by (auto simp: cur_no_def adr_def)
      then show "g (cur_no q A * s + 5 + x) = f (cur_no q A * s + 5 + x)" using img(2) unfolding same_outside_def by blast
    qed
  qed
  have cur': "sec_info g s (cur_no q ?B * s) (ts_st ?k (?k - 1)) (ts_lg (ta_sectors ?B) (?k - 1)) (length (ts_lg (ta_sectors ?B) (?k - 1))) (tsdb_cur_sec db)"
  proof (cases "j = ?k - 1")
    case True
    have e: "ts_lg (ta_sectors A) (?k - 1) = ?L" "ts_lg (ta_sectors ?B) (?k - 1) = restatus ?L i nst"
      using True j fun_cong [OF lg, of j] by (simp_all add: ts_lg_def)
    have c: "cur_no q ?B = cur_no q A" by (simp add: cur_no_def len)
    show ?thesis unfolding e(2) c restatus_simps(1) by (rule sec_info_restatus [OF cur [unfolded e(1)] rdc])
  next
    case False
    then show ?thesis using cur rdc by (auto simp: sec_info_def cur_no_def len simp flip: lg)
  qed
  show ?thesis
    unfolding fdb_tsl_set_status_def
  proof (rule stored_write_status [OF b(1) _ num], simp add: tsl_of_def a, goal_cases)
    case (1 db')
    have st': "stored s m g db'" using 1(1) by (simp add: g_def tsl_of_def)
    have "ts_rel s m q (?B\<lparr>ta_last := tsdb_last_time db'\<rparr>) g db'"
      by (rule disk_rel [OF d' st'])
        (use io_frame_ts [OF 1(2)] io_frameD [OF 1(2)] b cur' rel in \<open>simp_all add: len ts_rel_def\<close>)
    moreover have "?B\<lparr>ta_last := tsdb_last_time db'\<rparr> = ?B"
      using io_frame_ts [OF 1(2)] rel by (simp add: ts_restatus_def ts_rel_def)
    ultimately show ?case using 1(2) by (intro post) simp_all
  qed
qed

end
