(* ===== verification/TsLock.thy ===== *)
theory TsLock
  imports KvLock TsIter
begin

text \<open>
  The operations of the time-series database keep the configuration, as those of the key-value database do:
  one rule per operation, and one locale for the callbacks of each kind of iterator. Over any sequence of
  public calls the lock is released as often as it is taken, but for one exit of the initialisation.
\<close>

section \<open>A database for the witnesses\<close>

text \<open>A time-series database with four sectors of 256 bytes on an erased directory, not yet initialised.\<close>

definition demo_tsl :: fdb_tsl where
  "demo_tsl = \<lparr>tsl_status = FDB_TSL_UNUSED, tsl_time = 0, tsl_log_len = 0, tsl_addr_index = 0, tsl_addr_log = 0\<rparr>"

definition demo_ts_sector :: tsdb_sec_info where
  "demo_ts_sector = \<lparr>ts_check_ok = False, ts_status = FDB_SECTOR_STORE_UNUSED, ts_addr = 0, ts_magic = 0, ts_start_time = 0,
     ts_end_time = 0, ts_end_idx = 0, ts_end_info_stat0 = FDB_TSL_UNUSED, ts_end_info_stat1 = FDB_TSL_UNUSED,
     ts_remain = 0, ts_empty_idx = 0, ts_empty_data = 0\<rparr>"

definition demo_tsdb :: fdb_tsdb where
  "demo_tsdb = \<lparr>db_name = ''demo'', db_type = FDB_DB_TYPE_TS, db_dir = ''d'', db_sec_size = 256,
     db_max_size = 1024, db_oldest_addr = 0, db_init_ok = False, db_file_mode = True,
     db_not_formatable = False, db_cur_file_sec = [FDB_FAILED_ADDR, FDB_FAILED_ADDR],
     db_cur_file = [0, 0], db_cur_sec = 0, db_lock_fn = True, db_unlock_fn = True, db_lock_cnt = 0,
     db_user_data = 0, db_io = demo_io\<lparr>files := (\<lambda>_. Some (replicate 256 0xFF))\<rparr>,
     tsdb_cur_sec = demo_ts_sector, tsdb_last_time = 0, tsdb_get_time = False, tsdb_max_len = 0, tsdb_rollover = False,
     tsdb_stack_sector = demo_ts_sector, tsdb_stack_tsl = demo_tsl\<rparr>"

lemma demo_tsdb_ok: "file_ok demo_tsdb"
  by (simp add: file_ok_def dir_ok_def geometry_ok_def cache_ok_def slot_ok_def io_ok_def files_ok_def
      sec_num_def demo_tsdb_def demo_io_def DB_PATH_MAX_def)


section \<open>Operations\<close>

lemma ts_meta_updates [simp]:
  "meta (db\<lparr>tsdb_cur_sec := a\<rparr>) = meta db" "meta (db\<lparr>tsdb_last_time := b\<rparr>) = meta db"
  "meta (db\<lparr>tsdb_get_time := c\<rparr>) = meta db" "meta (db\<lparr>tsdb_max_len := d\<rparr>) = meta db"
  "meta (db\<lparr>tsdb_rollover := e\<rparr>) = meta db"
  by (simp_all add: meta_def)

lemma read_tsl_meta [wp_rules]:
  "(\<And>r t db'. meta db' = meta db \<Longrightarrow> Q (r, t, db')) \<Longrightarrow> yields (read_tsl db tsl) Q"
  by (auto simp: read_tsl_def Let_def intro!: wp_rules)

lemma ts_read_sector_loop_meta:
  assumes "ts_read_sector_loop db sector tsl = Some r"
  shows "meta (snd (snd r)) = meta db"
  apply (rule ts_read_sector_loop.raw_induct [where P = "\<lambda>db sector tsl r. meta (snd (snd r)) = meta db", OF _ assms])
  subgoal premises p for f db sector tsl r
  proof -
    have IH: "yields (f db sector tsl) (\<lambda>r. meta (snd (snd r)) = meta db)" for db sector tsl
      by (rule yieldsI) (erule p(1))
    show ?thesis
      by (rule yieldsD [OF p(2)]) (auto simp: Let_def intro!: wp_rules yields_mono [OF IH])
  qed
  done

lemma ts_read_sector_loop_wp [wp_rules]:
  "(\<And>r. meta (snd (snd r)) = meta db \<Longrightarrow> Q r) \<Longrightarrow> yields (ts_read_sector_loop db sector tsl) Q"
  by (rule yields_rec) (erule ts_read_sector_loop_meta)

lemma ts_sector_info_meta [wp_rules]:
  "(\<And>r sec' db'. meta db' = meta db \<Longrightarrow> Q (r, sec', db')) \<Longrightarrow> yields (ts_read_sector_info db a sector t) Q"
  by (auto simp: ts_read_sector_info_def Let_def intro!: wp_rules)

lemma ts_format_meta [wp_rules]:
  "(\<And>r db'. meta db' = meta db \<Longrightarrow> Q (r, db')) \<Longrightarrow> yields (ts_format_sector db a) Q"
  by (auto simp: ts_format_sector_def Let_def intro!: wp_rules)

lemma blob_data_yields [wp_rules]: "(\<And>d. Q d) \<Longrightarrow> yields (blob_data blob) Q"
  by (auto intro: yields_pure)

lemma write_tsl_meta [wp_rules]:
  "(\<And>r db'. meta db' = meta db \<Longrightarrow> Q (r, db')) \<Longrightarrow> yields (write_tsl db blob t) Q"
  by (auto simp: write_tsl_def Let_def intro!: wp_rules)

lemma save_end_meta [wp_rules]:
  "(\<And>r db'. meta db' = meta db \<Longrightarrow> Q (r, db')) \<Longrightarrow> yields (ts_save_end_info db sa ta ia t i) Q"
  by (auto simp: ts_save_end_info_def Let_def intro!: wp_rules)

lemma close_sector_meta [wp_rules]:
  "(\<And>r db'. meta db' = meta db \<Longrightarrow> Q (r, db')) \<Longrightarrow> yields (ts_close_sector db) Q"
  by (auto simp: ts_close_sector_def Let_def intro!: wp_rules)

lemma open_next_meta [wp_rules]:
  "(\<And>db'. meta db' = meta db \<Longrightarrow> Q db') \<Longrightarrow> yields (ts_open_next_sector db a) Q"
  by (auto simp: ts_open_next_sector_def Let_def intro!: wp_rules)

lemma leave_sector_meta [wp_rules]:
  "(\<And>r db'. meta db' = meta db \<Longrightarrow> Q (r, db')) \<Longrightarrow> yields (ts_leave_sector db blob) Q"
  by (auto simp: ts_leave_sector_def Let_def intro!: wp_rules)

lemma use_sector_meta [wp_rules]:
  "(\<And>r db'. meta db' = meta db \<Longrightarrow> Q (r, db')) \<Longrightarrow> yields (ts_use_sector db t) Q"
  by (auto simp: ts_use_sector_def Let_def intro!: wp_rules)

lemma ts_update_sec_status_meta [wp_rules]:
  "(\<And>r db'. meta db' = meta db \<Longrightarrow> Q (r, db')) \<Longrightarrow> yields (ts_update_sec_status db blob t) Q"
  by (auto simp: ts_update_sec_status_def Let_def intro!: wp_rules)

lemma tsl_append_meta [wp_rules]:
  "(\<And>r db'. meta db' = meta db \<Longrightarrow> Q (r, db')) \<Longrightarrow> yields (tsl_append db blob t) Q"
  by (auto simp: tsl_append_def Let_def intro!: wp_rules)

lemma search_start_tsl_loop_meta:
  assumes "search_start_tsl_loop db tsl a b from' to' = Some r"
  shows "meta (snd r) = meta db"
  apply (rule search_start_tsl_loop.raw_induct [where P = "\<lambda>db tsl a b from' to' r. meta (snd r) = meta db", OF _ assms])
  subgoal premises p for f db tsl a b from' to' r
  proof -
    have IH: "yields (f db tsl a b from' to') (\<lambda>r. meta (snd r) = meta db)" for db tsl a b from' to'
      by (rule yieldsI) (erule p(1))
    show ?thesis
      by (rule yieldsD [OF p(2)]) (auto simp: Let_def intro!: wp_rules yields_mono [OF IH])
  qed
  done

lemma search_start_tsl_loop_wp [wp_rules]:
  "(\<And>r. meta (snd r) = meta db \<Longrightarrow> Q r) \<Longrightarrow> yields (search_start_tsl_loop db tsl a b from' to') Q"
  by (rule yields_rec) (erule search_start_tsl_loop_meta)

lemma search_start_meta [wp_rules]:
  "(\<And>i db'. meta db' = meta db \<Longrightarrow> Q (i, db')) \<Longrightarrow> yields (search_start_tsl_addr db a b from' to') Q"
  by (auto simp: search_start_tsl_addr_def Let_def intro!: wp_rules)


section \<open>Iterators over callbacks that keep the configuration\<close>

locale ts_sector_keeper =
  fixes cb :: "'x ts_sec_callback"
  assumes visit: "yields (cb sector x db) (\<lambda>r. meta (snd (snd r)) = meta db)"
begin

lemma ts_sector_iterator_loop_keeps:
  assumes "ts_sector_iterator_loop db sector a t st x c tr = Some r"
  shows "c = (Some cb) \<longrightarrow> meta (snd (snd r)) = meta db"
  apply (rule ts_sector_iterator_loop.raw_induct
      [where P = "\<lambda>db sector a t st x c tr r. c = (Some cb) \<longrightarrow> meta (snd (snd r)) = meta db", OF _ assms])
  subgoal premises p for f db sector a t st x c tr r
  proof -
    have IH: "yields (f db sector a t st x (Some cb) tr) (\<lambda>r. meta (snd (snd r)) = meta db)" for db sector a t st x tr
      by (rule yieldsI) (erule p(1) [THEN mp, OF _ refl])
    show ?thesis
      by (rule impI, rule yieldsD [OF p(2)])
         (auto simp: Let_def intro!: wp_rules yields_mono [OF IH] yields_mono [OF visit])
  qed
  done

lemma ts_sector_iterator_loop_wp:
  "(\<And>r. meta (snd (snd r)) = meta db \<Longrightarrow> Q r) \<Longrightarrow> yields (ts_sector_iterator_loop db sector a t st x (Some cb) tr) Q"
  by (rule yields_rec) (erule ts_sector_iterator_loop_keeps [THEN mp, OF _ refl])

lemma ts_sector_iterator_wp:
  "(\<And>sec' x' db'. meta db' = meta db \<Longrightarrow> Q (sec', x', db')) \<Longrightarrow> yields (ts_sector_iterator db sector st x (Some cb) tr) Q"
  by (auto simp: ts_sector_iterator_def intro!: ts_sector_iterator_loop_wp)

end

locale tsl_keeper =
  fixes cb :: "'x tsl_callback"
  assumes visit: "yields (cb tsl x db) (\<lambda>r. meta (snd (snd r)) = meta db)"
begin

lemma tsl_iter_sector_keeps:
  assumes "tsl_iter_sector step db sector tsl x c = Some r"
  shows "c = cb \<longrightarrow> meta (snd (snd (snd r))) = meta db"
  apply (rule tsl_iter_sector.raw_induct
      [where P = "\<lambda>step db sector tsl x c r. c = cb \<longrightarrow> meta (snd (snd (snd r))) = meta db", OF _ assms])
  subgoal premises p for f step db sector tsl x c r
  proof -
    have IH: "yields (f step db sector tsl x cb) (\<lambda>r. meta (snd (snd (snd r))) = meta db)" for step db sector tsl x
      by (rule yieldsI) (erule p(1) [THEN mp, OF _ refl])
    show ?thesis
      by (rule impI, rule yieldsD [OF p(2)])
         (auto simp: Let_def intro!: wp_rules yields_mono [OF IH] yields_mono [OF visit])
  qed
  done

lemma tsl_iter_sector_wp:
  "(\<And>r. meta (snd (snd (snd r))) = meta db \<Longrightarrow> Q r) \<Longrightarrow> yields (tsl_iter_sector step db sector tsl x cb) Q"
  by (rule yields_rec) (erule tsl_iter_sector_keeps [THEN mp, OF _ refl])

lemma tsl_iter_loop_keeps:
  assumes "tsl_iter_loop db sector a t tsl x c = Some r"
  shows "c = cb \<longrightarrow> meta (snd r) = meta db"
  apply (rule tsl_iter_loop.raw_induct
      [where P = "\<lambda>db sector a t tsl x c r. c = cb \<longrightarrow> meta (snd r) = meta db", OF _ assms])
  subgoal premises p for f db sector a t tsl x c r
  proof -
    have IH: "yields (f db sector a t tsl x cb) (\<lambda>r. meta (snd r) = meta db)" for db sector a t tsl x
      by (rule yieldsI) (erule p(1) [THEN mp, OF _ refl])
    show ?thesis
      by (rule impI, rule yieldsD [OF p(2)])
         (auto simp: Let_def intro!: wp_rules yields_mono [OF IH] tsl_iter_sector_wp)
  qed
  done

lemma tsl_iter_loop_wp:
  "(\<And>r. meta (snd r) = meta db \<Longrightarrow> Q r) \<Longrightarrow> yields (tsl_iter_loop db sector a t tsl x cb) Q"
  by (rule yields_rec) (erule tsl_iter_loop_keeps [THEN mp, OF _ refl])

lemma tsl_iter_reverse_loop_keeps:
  assumes "tsl_iter_reverse_loop db sector a t tsl x c = Some r"
  shows "c = cb \<longrightarrow> meta (snd r) = meta db"
  apply (rule tsl_iter_reverse_loop.raw_induct
      [where P = "\<lambda>db sector a t tsl x c r. c = cb \<longrightarrow> meta (snd r) = meta db", OF _ assms])
  subgoal premises p for f db sector a t tsl x c r
  proof -
    have IH: "yields (f db sector a t tsl x cb) (\<lambda>r. meta (snd r) = meta db)" for db sector a t tsl x
      by (rule yieldsI) (erule p(1) [THEN mp, OF _ refl])
    show ?thesis
      by (rule impI, rule yieldsD [OF p(2)])
         (auto simp: Let_def intro!: wp_rules yields_mono [OF IH] tsl_iter_sector_wp)
  qed
  done

lemma tsl_iter_reverse_loop_wp:
  "(\<And>r. meta (snd r) = meta db \<Longrightarrow> Q r) \<Longrightarrow> yields (tsl_iter_reverse_loop db sector a t tsl x cb) Q"
  by (rule yields_rec) (erule tsl_iter_reverse_loop_keeps [THEN mp, OF _ refl])

lemma tsl_iter_time_sector_keeps:
  assumes "tsl_iter_time_sector db sector tsl from' to' x c = Some r"
  shows "c = cb \<longrightarrow> meta (snd (snd (snd r))) = meta db"
  apply (rule tsl_iter_time_sector.raw_induct
      [where P = "\<lambda>db sector tsl from' to' x c r. c = cb \<longrightarrow> meta (snd (snd (snd r))) = meta db", OF _ assms])
  subgoal premises p for f db sector tsl from' to' x c r
  proof -
    have IH: "yields (f db sector tsl from' to' x cb) (\<lambda>r. meta (snd (snd (snd r))) = meta db)" for db sector tsl from' to' x
      by (rule yieldsI) (erule p(1) [THEN mp, OF _ refl])
    show ?thesis
      by (rule impI, rule yieldsD [OF p(2)])
         (auto simp: Let_def intro!: wp_rules yields_mono [OF IH] yields_mono [OF visit])
  qed
  done

lemma tsl_iter_time_sector_wp:
  "(\<And>r. meta (snd (snd (snd r))) = meta db \<Longrightarrow> Q r) \<Longrightarrow> yields (tsl_iter_time_sector db sector tsl from' to' x cb) Q"
  by (rule yields_rec) (erule tsl_iter_time_sector_keeps [THEN mp, OF _ refl])

lemma tsl_iter_time_loop_keeps:
  assumes "tsl_iter_time_loop db sector a sa t fnd tsl from' to' x c = Some r"
  shows "c = cb \<longrightarrow> meta (snd r) = meta db"
  apply (rule tsl_iter_time_loop.raw_induct
      [where P = "\<lambda>db sector a sa t fnd tsl from' to' x c r. c = cb \<longrightarrow> meta (snd r) = meta db", OF _ assms])
  subgoal premises p for f db sector a sa t fnd tsl from' to' x c r
  proof -
    have IH: "yields (f db sector a sa t fnd tsl from' to' x cb) (\<lambda>r. meta (snd r) = meta db)" for db sector a sa t fnd tsl from' to' x
      by (rule yieldsI) (erule p(1) [THEN mp, OF _ refl])
    show ?thesis
      by (rule impI, rule yieldsD [OF p(2)])
         (auto simp: Let_def intro!: wp_rules yields_mono [OF IH] tsl_iter_time_sector_wp)
  qed
  done

lemma tsl_iter_time_loop_wp:
  "(\<And>r. meta (snd r) = meta db \<Longrightarrow> Q r) \<Longrightarrow> yields (tsl_iter_time_loop db sector a sa t fnd tsl from' to' x cb) Q"
  by (rule yields_rec) (erule tsl_iter_time_loop_keeps [THEN mp, OF _ refl])

lemma iterators_meta:
  assumes "lock_pair db"
  shows "yields (fdb_tsl_iter db (Some cb) x) (\<lambda>r. meta (snd r) = meta db)"
    "yields (fdb_tsl_iter_reverse db (Some cb) x) (\<lambda>r. meta (snd r) = meta db)"
    "yields (fdb_tsl_iter_by_time db from' to' (Some cb) x) (\<lambda>r. meta (snd r) = meta db)"
  using assms
  by (auto simp: fdb_tsl_iter_def fdb_tsl_iter_reverse_def fdb_tsl_iter_by_time_def Let_def
      intro!: tsl_iter_loop_wp tsl_iter_reverse_loop_wp tsl_iter_time_loop_wp)

end


interpretation format_keeper: ts_sector_keeper format_all_cb
  by unfold_locales (auto simp: format_all_cb_def intro!: wp_rules)

interpretation check_keeper: ts_sector_keeper ts_check_sec_hdr_cb
  by unfold_locales (simp add: ts_check_sec_hdr_cb_def Let_def)

interpretation count_keeper: tsl_keeper "query_count_cb st" for st
  by unfold_locales (simp add: query_count_cb_def)

declare format_keeper.ts_sector_iterator_wp [wp_rules] check_keeper.ts_sector_iterator_wp [wp_rules]

lemma format_all_meta [wp_rules]:
  "(\<And>db'. meta db' = meta db \<Longrightarrow> Q db') \<Longrightarrow> yields (tsl_format_all db) Q"
  by (auto simp: tsl_format_all_def Let_def intro!: wp_rules)

lemma locate_meta [simp]: "meta (tsdb_locate db arg) = meta db"
  by (simp add: tsdb_locate_def Let_def)

lemma load_last_meta [wp_rules]:
  "(\<And>db'. meta db' = meta db \<Longrightarrow> Q db') \<Longrightarrow> yields (tsdb_load_last db) Q"
  by (auto simp: tsdb_load_last_def Let_def intro!: wp_rules)


section \<open>Sequences of public calls\<close>

datatype ts_call =
    Ts_init string string bool nat nat
  | Ts_deinit
  | Ts_control int ctrl_arg
  | Ts_append fdb_blob int
  | Ts_append_ts fdb_blob int
  | Ts_iter "unit tsl_callback"
  | Ts_iter_reverse "unit tsl_callback"
  | Ts_iter_time int int "unit tsl_callback"
  | Ts_count int int fdb_tsl_status
  | Ts_set_status fdb_tsl fdb_tsl_status
  | Ts_clean

fun ts_exec :: "fdb_tsdb \<Rightarrow> ts_call \<Rightarrow> fdb_tsdb option" where
  "ts_exec db (Ts_init name path clock n ud) = map_option snd (fdb_tsdb_init db name path clock n ud)"
| "ts_exec db Ts_deinit = map_option snd (fdb_tsdb_deinit db)"
| "ts_exec db (Ts_control cmd arg) = map_option snd (fdb_tsdb_control db cmd arg)"
| "ts_exec db (Ts_append blob now) = map_option snd (fdb_tsl_append db blob now)"
| "ts_exec db (Ts_append_ts blob t) = map_option snd (fdb_tsl_append_with_ts db blob t)"
| "ts_exec db (Ts_iter cb) = map_option snd (fdb_tsl_iter db (Some cb) ())"
| "ts_exec db (Ts_iter_reverse cb) = map_option snd (fdb_tsl_iter_reverse db (Some cb) ())"
| "ts_exec db (Ts_iter_time t1 t2 cb) = map_option snd (fdb_tsl_iter_by_time db t1 t2 (Some cb) ())"
| "ts_exec db (Ts_count t1 t2 st) = map_option snd (fdb_tsl_query_count db t1 t2 st)"
| "ts_exec db (Ts_set_status tsl st) = map_option snd (fdb_tsl_set_status db tsl st)"
| "ts_exec db Ts_clean = fdb_tsl_clean db"

fun ts_run :: "fdb_tsdb \<Rightarrow> ts_call list \<Rightarrow> fdb_tsdb option" where
  "ts_run db [] = Some db"
| "ts_run db (c # cs) = do { db \<leftarrow> ts_exec db c; ts_run db cs }"

text \<open>
  A call that leaves the lock functions and the option \<open>not_formatable\<close> alone; its callback changes no
  configuration either.
\<close>

definition calm :: "unit tsl_callback \<Rightarrow> bool" where
  "calm cb \<longleftrightarrow> (\<forall>tsl x db. yields (cb tsl x db) (\<lambda>r. meta (snd (snd r)) = meta db))"

fun keeps_ts_locks :: "ts_call \<Rightarrow> bool" where
  "keeps_ts_locks (Ts_control cmd arg) \<longleftrightarrow> cmd \<noteq> FDB_TSDB_CTRL_SET_LOCK \<and> cmd \<noteq> FDB_TSDB_CTRL_SET_UNLOCK \<and> cmd \<noteq> FDB_TSDB_CTRL_SET_NOT_FORMAT"
| "keeps_ts_locks (Ts_iter cb) \<longleftrightarrow> calm cb"
| "keeps_ts_locks (Ts_iter_reverse cb) \<longleftrightarrow> calm cb"
| "keeps_ts_locks (Ts_iter_time t1 t2 cb) \<longleftrightarrow> calm cb"
| "keeps_ts_locks _ \<longleftrightarrow> True"

definition ts_locks :: "fdb_tsdb \<Rightarrow> (bool \<times> bool \<times> int) \<times> bool" where
  "ts_locks db = (locks db, db_not_formatable db)"

lemma ts_locks_meta: "meta db' = meta db \<Longrightarrow> ts_locks db' = ts_locks db"
  by (simp add: ts_locks_def meta_def locks_def)

lemma calm_keeper: "calm cb \<Longrightarrow> tsl_keeper cb"
  by (simp add: tsl_keeper_def calm_def)

declare init_ex_locks [wp_rules del]

lemma init_ex_ts_locks [wp_rules]:
  "(\<And>r db'. ts_locks db' = ts_locks db \<Longrightarrow> Q (r, db')) \<Longrightarrow> yields (fdb_init_ex db name path type ud) Q"
  by (auto simp: fdb_init_ex_def ts_locks_def locks_def Let_def)

lemma init_finish_ts_locks [simp]: "ts_locks (fdb_init_finish db r) = ts_locks db"
  by (simp add: fdb_init_finish_def ts_locks_def locks_def)

lemma unlock_ts_locks:
  assumes "ts_locks db1 = ts_locks db" "lock_pair db" "meta db2 = meta (db_lock db1)"
  shows "ts_locks (db_unlock db2) = ts_locks db"
proof -
  have "lock_pair db1" using assms(1,2) by (simp add: lock_pair_def ts_locks_def locks_def)
  then have "meta (db_unlock db2) = meta db1" using assms(3) by simp
  then show ?thesis using assms(1) ts_locks_meta by metis
qed

lemma tsdb_init_locks:
  assumes "lock_pair db" "\<not> db_not_formatable db"
  shows "yields (fdb_tsdb_init db name path clock n ud) (\<lambda>r. ts_locks (snd r) = ts_locks db)"
proof -
  have nf: "ts_locks db' = ts_locks db" if "ts_locks db1 = ts_locks db" "meta db' = meta (db_lock db1)" "db_not_formatable db'" for db1 db' :: fdb_tsdb
    using that assms(2) by (auto simp: ts_locks_def meta_def db_lock_def split: if_splits)
  show ?thesis
    unfolding fdb_tsdb_init_def Let_def
    by (auto intro!: wp_rules) (erule (2) nf, (erule (1) unlock_ts_locks [OF _ assms(1)])+)
qed

lemma ts_exec_keeps:
  assumes "lock_pair db" "\<not> db_not_formatable db" "keeps_ts_locks c"
  shows "yields (ts_exec db c) (\<lambda>db'. ts_locks db' = ts_locks db)"
proof (cases c)
  case (Ts_init name path clock n ud)
  then show ?thesis using tsdb_init_locks [OF assms(1,2)] by simp
next
  case Ts_deinit
  then show ?thesis by (auto simp: fdb_tsdb_deinit_def fdb_deinit_def ts_locks_def locks_def intro: yields_pure)
next
  case (Ts_control cmd arg)
  then show ?thesis using assms(3) by (auto simp: fdb_tsdb_control_def ts_locks_def locks_def split: ctrl_arg.split)
next
  case (Ts_iter cb)
  then show ?thesis using tsl_keeper.iterators_meta(1) [OF calm_keeper assms(1), of cb "()"] assms(3)
    by (auto intro: ts_locks_meta elim!: yields_mono)
next
  case (Ts_iter_reverse cb)
  then show ?thesis using tsl_keeper.iterators_meta(2) [OF calm_keeper assms(1), of cb "()"] assms(3)
    by (auto intro: ts_locks_meta elim!: yields_mono)
next
  case (Ts_iter_time t1 t2 cb)
  then show ?thesis using tsl_keeper.iterators_meta(3) [OF calm_keeper assms(1), of cb t1 t2 "()"] assms(3)
    by (auto intro: ts_locks_meta elim!: yields_mono)
next
  case (Ts_count t1 t2 st)
  then show ?thesis using count_keeper.iterators_meta(3) [OF assms(1), of t1 t2 st 0]
    by (auto simp: fdb_tsl_query_count_def intro: ts_locks_meta elim!: yields_mono)
qed (use assms(1) in \<open>auto simp: fdb_tsl_append_def fdb_tsl_append_with_ts_def fdb_tsl_set_status_def fdb_tsl_clean_def
      intro!: wp_rules unlock_ts_locks [OF refl] intro: ts_locks_meta\<close>)



section \<open>Properties\<close>

text \<open>
  C35: over any sequence of public calls of a time-series database that may be formatted, errors and early
  returns included, the lock is released exactly as often as it is taken; the callbacks of the iterators
  change no configuration.
\<close>

theorem ts_calls_balance_lock:
  assumes "db_lock_fn db = db_unlock_fn db" "\<not> db_not_formatable db" "list_all keeps_ts_locks cs"
  shows "yields (ts_run db cs) (\<lambda>db'. db_lock_cnt db' = db_lock_cnt db)"
proof -
  have "yields (ts_run db cs) (\<lambda>db'. ts_locks db' = ts_locks db)"
    using assms
  proof (induction cs arbitrary: db)
    case (Cons c cs)
    have lp: "lock_pair db" using Cons.prems(1) by (simp add: lock_pair_def)
    have "yields (ts_run db1 cs) (\<lambda>db'. ts_locks db' = ts_locks db)" if "ts_locks db1 = ts_locks db" for db1
      using Cons.IH [of db1] Cons.prems that by (simp add: ts_locks_def locks_def)
    with ts_exec_keeps [OF lp Cons.prems(2), of c] Cons.prems(3) show ?case
      by (auto elim!: yields_mono)
  qed simp
  then show ?thesis by (rule yields_mono) (simp add: ts_locks_def locks_def)
qed

theorem ts_calls_balance_lock_witness:
  "yields (ts_run demo_tsdb [Ts_init ''demo'' ''d'' True 32 0,
       Ts_append \<lparr>blob_buf = Some [1, 2], blob_size = 2, blob_meta_addr = 0, blob_addr = 0, blob_len = 0\<rparr> 5, Ts_count 0 9 FDB_TSL_WRITE, Ts_clean, Ts_deinit])
     (\<lambda>db'. db_lock_cnt db' = db_lock_cnt demo_tsdb)"
  by (rule ts_calls_balance_lock) (simp_all add: demo_tsdb_def)

end
