(* ===== verification/TsApi.thy ===== *)
theory TsApi
  imports TsRead TsStatus TsLock
begin

text \<open>
  The time-series database as a service: requests are calls of the public functions, the abstract state is the
  list of logs of each sector, and the answers are those of that state.
\<close>

section \<open>A database in use\<close>

definition ts_ready :: "nat \<Rightarrow> nat \<Rightarrow> nat \<Rightarrow> ts_abs \<Rightarrow> fdb_tsdb \<Rightarrow> bool" where
  "ts_ready s q n A db \<longleftrightarrow> db_init_ok db \<and> lock_pair db \<and> tsdb_max_len db = n \<and> s AND (s - 1) = 0 \<and> db_dir db \<noteq> []
     \<and> (\<exists>m f. ts_rel s m q A f db)"

lemma ts_readyE:
  assumes "ts_ready s q n A db"
  obtains m f where "db_init_ok db" "lock_pair db" "tsdb_max_len db = n" "s AND (s - 1) = 0" "db_dir db \<noteq> []" "ts_rel s m q A f db" "n + 48 \<le> s"
  using assms ts_baseD(9) [OF ts_rel_base] unfolding ts_ready_def by metis

lemma ts_ready_meta:
  assumes "ts_ready s q n A db" "ts_rel s m q B f db'" "meta db' = meta db" "tsdb_max_len db' = n"
  shows "ts_ready s q n B db'"
  using assms lock_pair_meta [of db db'] by (auto simp: ts_ready_def meta_def)

lemma read_only_ready:
  assumes "ts_ready s q n A db" "ts_rel s m q A f db'" "read_only db db'"
  shows "ts_ready s q n A db'"
proof -
  obtain db1 where e: "io_frame (db_lock db) db1" "db' = db_unlock db1" using assms(3) by (auto simp: read_only_def)
  have "lock_pair db1 = lock_pair db" using io_frameD [OF e(1)] by (simp add: lock_pair_def db_lock_def)
  then have lp: "lock_pair db'" using assms(1) by (simp add: ts_ready_def e(2) lock_pair_def db_unlock_def)
  show ?thesis using assms(1,2) lp read_onlyD [OF assms(3)] by (auto simp: ts_ready_def)
qed


section \<open>Requests\<close>

datatype ts_req =
    Append_req "byte list" int
  | All_req
  | Back_req
  | Range_req int int
  | Count_req int int fdb_tsl_status
  | Clean_req
  | Reopen_req

datatype ts_resp = Ts_result fdb_err_t | Ts_entries "(int \<times> byte list) list" | Ts_number nat | Ts_void

text \<open>A request as calls of public functions; the reading ones pass the client that collects times and data.\<close>

fun ts_serve :: "nat \<Rightarrow> fdb_tsdb \<Rightarrow> ts_req \<Rightarrow> (ts_resp \<times> fdb_tsdb) option" where
  "ts_serve n db (Append_req d t) = do {
     (r, db) \<leftarrow> fdb_tsl_append_with_ts db (fdb_blob_make blob0 (Some d) (length d)) t;
     Some (Ts_result r, db) }"
| "ts_serve n db All_req = do { (xs, db) \<leftarrow> fdb_tsl_iter db (Some collect_cb) []; Some (Ts_entries xs, db) }"
| "ts_serve n db Back_req = do { (xs, db) \<leftarrow> fdb_tsl_iter_reverse db (Some collect_cb) []; Some (Ts_entries xs, db) }"
| "ts_serve n db (Range_req t1 t2) = do { (xs, db) \<leftarrow> fdb_tsl_iter_by_time db t1 t2 (Some collect_cb) []; Some (Ts_entries xs, db) }"
| "ts_serve n db (Count_req t1 t2 st) = do { (k, db) \<leftarrow> fdb_tsl_query_count db t1 t2 st; Some (Ts_number k, db) }"
| "ts_serve n db Clean_req = do { db \<leftarrow> fdb_tsl_clean db; Some (Ts_void, db) }"
| "ts_serve n db Reopen_req = do { (r, db) \<leftarrow> ts_reopen db n 0; Some (Ts_result r, db) }"

text \<open>The answer and the new state, on the logs.\<close>

definition written :: "int \<Rightarrow> byte list \<Rightarrow> ts_log" where
  "written t d = \<lparr>lg_time = t, lg_data = d, lg_status = FDB_TSL_WRITE\<rparr>"

fun ts_spec :: "nat \<Rightarrow> nat \<Rightarrow> nat \<Rightarrow> ts_abs \<Rightarrow> ts_req \<Rightarrow> ts_resp \<times> ts_abs" where
  "ts_spec s q n A (Append_req d t) =
     (if length d \<le> n \<and> ta_last A < t then (Ts_result FDB_NO_ERR, ts_push q s A (written t d)) else (Ts_result FDB_WRITE_ERR, A))"
| "ts_spec s q n A All_req = (Ts_entries (map entry (ts_logs A)), A)"
| "ts_spec s q n A Back_req = (Ts_entries (rev (map entry (ts_logs A))), A)"
| "ts_spec s q n A (Range_req t1 t2) = (Ts_entries (map entry (filter (\<lambda>l. t1 \<le> lg_time l \<and> lg_time l \<le> t2) (ts_logs A))), A)"
| "ts_spec s q n A (Count_req t1 t2 st) =
     (Ts_number (length (filter (\<lambda>l. t1 \<le> lg_time l \<and> lg_time l \<le> t2 \<and> lg_status l = st) (ts_logs A))), A)"
| "ts_spec s q n A Clean_req = (Ts_void, ts_empty)"
| "ts_spec s q n A Reopen_req = (Ts_result FDB_NO_ERR, A)"

definition ts_answer :: "nat \<Rightarrow> nat \<Rightarrow> nat \<Rightarrow> ts_abs \<Rightarrow> ts_req \<Rightarrow> ts_resp \<Rightarrow> ts_abs option" where
  "ts_answer s q n A req r = (case ts_spec s q n A req of (r', A') \<Rightarrow> if r = r' then Some A' else None)"

text \<open>Times are 32-bit values; intervals are asked for from the older to the newer bound.\<close>

fun ts_req_ok :: "ts_req \<Rightarrow> bool" where
  "ts_req_ok (Append_req d t) \<longleftrightarrow> - (2 ^ 31) \<le> t \<and> t < 2 ^ 31"
| "ts_req_ok (Range_req t1 t2) \<longleftrightarrow> t1 \<le> t2"
| "ts_req_ok (Count_req t1 t2 st) \<longleftrightarrow> t1 \<le> t2"
| "ts_req_ok _ \<longleftrightarrow> True"

lemma in_range_up: "t1 \<le> t2 \<Longrightarrow> in_range t1 t2 t \<longleftrightarrow> t1 \<le> t \<and> t \<le> t2"
  by (simp add: in_range_def)

lemma append_meta: "lock_pair db \<Longrightarrow> yields (fdb_tsl_append_with_ts db blob t) (\<lambda>r. meta (snd r) = meta db)"
  by (auto simp: fdb_tsl_append_with_ts_def intro!: wp_rules)

lemma clean_meta: "lock_pair db \<Longrightarrow> yields (fdb_tsl_clean db) (\<lambda>db'. meta db' = meta db)"
  by (auto simp: fdb_tsl_clean_def intro!: wp_rules)

lemma append_ready:
  assumes r: "ts_ready s q n A db" and t: "- (2 ^ 31) \<le> t" "t < 2 ^ 31"
  shows "holds (fdb_tsl_append_with_ts db (fdb_blob_make blob0 (Some d) (length d)) t) (\<lambda>(r, db'). if length d \<le> n \<and> ta_last A < t
     then r = FDB_NO_ERR \<and> ts_ready s q n (ts_push q s A (written t d)) db' else r = FDB_WRITE_ERR \<and> ts_ready s q n A db')"
proof -
  from r obtain m f where i: "db_init_ok db" "lock_pair db" "tsdb_max_len db = n" "ts_rel s m q A f db" by (rule ts_readyE)
  let ?b = "fdb_blob_make blob0 (Some d) (length d)"
  have bl: "blob_data ?b = Some d" "blob_size ?b = length d" by (simp_all add: blob_data_def fdb_blob_make_def)
  have rel: "ts_rel s m q A f (db_lock db)" using i(4) by simp
  have n: "tsdb_max_len (db_lock db) = n" using i(3) by (simp add: db_lock_def)
  have un: "tsdb_max_len (db_unlock db') = tsdb_max_len db'" for db' by (simp add: db_unlock_def)
  have "holds (fdb_tsl_append_with_ts db ?b t) (\<lambda>(r, db'). tsdb_max_len db' = n \<and> (if length d \<le> n \<and> ta_last A < t
     then r = FDB_NO_ERR \<and> (\<exists>f'. ts_rel s m q (ts_push q s A (written t d)) f' db') else r = FDB_WRITE_ERR \<and> ts_rel s m q A f db'))"
  proof (cases "length d \<le> n \<and> ta_last A < t")
    case True
    have "holds (tsl_append (db_lock db) ?b t) (\<lambda>(r, db'). r = FDB_NO_ERR \<and> tsdb_max_len db' = n \<and> (\<exists>f'. ts_rel s m q (ts_push q s A (written t d)) f' db'))"
      by (rule append_ok [OF rel bl _ _ t]) (use True n in \<open>auto simp: written_def\<close>)
    then show ?thesis using i(1) True by (auto simp: fdb_tsl_append_with_ts_def un elim!: holds_mono)
  next
    case False
    then have "tsl_append (db_lock db) ?b t = Some (FDB_WRITE_ERR, db_lock db)" by (intro append_refused [OF rel]) (use n bl in auto)
    then show ?thesis using i(1,4) False n by (auto simp: fdb_tsl_append_with_ts_def un)
  qed
  then show ?thesis
    by (rule holds_yields [OF _ append_meta [OF i(2)]]) (use ts_ready_meta [OF r] in \<open>auto split: if_splits\<close>)
qed


lemma rel_sane:
  assumes "ts_rel s m q A f db" "j < q"
  shows "sane f s (j * s)"
  using chk_pos [OF ts_rel_disk [OF assms(1)] assms(2)] unfolding sane_def by blast

lemma clean_ready:
  assumes r: "ts_ready s q n A db"
  shows "holds (fdb_tsl_clean db) (ts_ready s q n ts_empty)"
proof -
  from r obtain m f where i: "lock_pair db" "tsdb_max_len db = n" "ts_rel s m q A f db" by (rule ts_readyE)
  have rel: "ts_rel s m q A f (db_lock db)" using i(3) by simp
  note b = ts_baseD [OF ts_rel_base [OF rel]]
  have n: "tsdb_max_len (db_lock db) = n" using i(2) by (simp add: db_lock_def)
  have un: "tsdb_max_len (db_unlock db') = tsdb_max_len db'" for db' by (simp add: db_unlock_def)
  have "holds (fdb_tsl_clean db) (\<lambda>db'. tsdb_max_len db' = n \<and> (\<exists>f'. ts_rel s m q ts_empty f' db'))"
    unfolding fdb_tsl_clean_def holds_bind
    by (rule ts_format_all_ok [OF b(1,2,3,4,8,9)], rule rel_sane [OF rel]) (use n reopenedD(2) in \<open>auto simp: un\<close>)
  then show ?thesis by (rule holds_yields [OF _ clean_meta [OF i(1)]]) (use ts_ready_meta [OF r] in auto)
qed

lemma reopen_ready:
  assumes r: "ts_ready s q n A db"
  shows "holds (ts_reopen db n ud) (\<lambda>(r, db'). r = FDB_NO_ERR \<and> ts_ready s q n A db')"
proof -
  from r obtain m f where i: "db_init_ok db" "lock_pair db" "s AND (s - 1) = 0" "db_dir db \<noteq> []" "ts_rel s m q A f db" "n + 48 \<le> s" by (rule ts_readyE)
  show ?thesis
    by (rule holds_mono [OF ts_reopen_ok [OF i(5,1,3,4,6)]])
      (use i in \<open>auto simp: ts_ready_def same_options_def lock_pair_def\<close>)
qed

lemma serve_ready:
  assumes r: "ts_ready s q n A db" and ok: "ts_req_ok req"
  shows "holds (ts_serve n db req) (\<lambda>(r, db'). \<exists>B. ts_answer s q n A req r = Some B \<and> ts_ready s q n B db')"
proof -
  from r obtain m f where i: "db_init_ok db" "ts_rel s m q A f db" by (rule ts_readyE)
  note ro = read_only_ready [OF r]
  have ans: "ts_answer s q n A rq x = Some B \<longleftrightarrow> ts_spec s q n A rq = (x, B)" for rq x B
    by (auto simp: ts_answer_def split: prod.split)
  show ?thesis
  proof (cases req)
    case (Append_req d t)
    then show ?thesis using append_ready [OF r, of t d] ok by (auto simp: ans split: if_splits elim!: holds_mono)
  next
    case All_req
    then show ?thesis by (simp add: ans, intro collect_iter(1) [OF i(2)]) (use ro in auto)
  next
    case Back_req
    then show ?thesis by (simp add: ans, intro collect_iter(2) [OF i(2)]) (use ro in auto)
  next
    case (Range_req t1 t2)
    then have le: "t1 \<le> t2" using ok by simp
    have "map entry (range_logs t1 t2 A) = map entry (filter (\<lambda>l. t1 \<le> lg_time l \<and> lg_time l \<le> t2) (ts_logs A))"
      using le by (simp add: range_logs_def in_range_up)
    then show ?thesis using Range_req le by (simp add: ans, intro collect_iter(3) [OF i(2)]) (use ro in auto)
  next
    case (Count_req t1 t2 st)
    then have le: "t1 \<le> t2" using ok by simp
    then show ?thesis using Count_req by (simp add: ans, intro count_ok [OF i(2) _ i(1)]) (use ro in \<open>auto simp: in_range_up conj_assoc\<close>)
  next
    case Clean_req
    then show ?thesis using clean_ready [OF r] by (auto simp: ans elim!: holds_mono)
  next
    case Reopen_req
    then show ?thesis using reopen_ready [OF r, of 0] by (auto simp: ans elim!: holds_mono)
  qed
qed

interpretation ts_service: service "ts_ready s q n" "ts_serve n" "ts_answer s q n" ts_req_ok for s q n
  by unfold_locales (rule serve_ready)



section \<open>A database for the examples\<close>

definition demo_opened :: fdb_tsdb where
  "demo_opened = demo_tsdb\<lparr>db_cur_file_sec := [FDB_FAILED_ADDR, FDB_FAILED_ADDR], db_cur_file := [0, 0]\<rparr>"

lemma demo_init_ex:
  "fdb_init_ex demo_tsdb ''demo'' ''d'' FDB_DB_TYPE_TS 0 = Some (FDB_NO_ERR, demo_opened)"
proof -
  have "replicate 2 x = [x, x]" for x :: nat by (simp add: numeral_2_eq_2)
  then show ?thesis by (simp add: fdb_init_ex_def demo_tsdb_def demo_opened_def FDB_FILE_CACHE_TABLE_SIZE_def)
qed

lemma demo_same: "demo_opened = demo_tsdb"
  by (simp add: demo_opened_def demo_tsdb_def)

lemma demo_stored: "stored 256 1024 (fl demo_tsdb) demo_opened"
  using storedI [OF demo_tsdb_ok] unfolding demo_same by (simp add: demo_tsdb_def)

lemma demo_erased: "a < 1024 \<Longrightarrow> fl demo_tsdb a = 0xFF"
  by (simp add: fl_def demo_tsdb_def)

lemma demo_unknown: "unknown 256 1024 4 (fl demo_tsdb)"
proof -
  have w: "le32_dec (rd (fl demo_tsdb) (j * 256 + 1) 4) \<noteq> TS_SECTOR_MAGIC_WORD" if "j < 4" for j
  proof -
    have "rd (fl demo_tsdb) (j * 256 + 1) 4 = rd (\<lambda>_. 0xFF) (j * 256 + 1) 4"
      using that by (intro rd_cong) (simp add: demo_erased)
    moreover have "rd (\<lambda>_. 0xFF) a 4 = [0xFF, 0xFF, 0xFF, 0xFF :: byte]" for a by (simp add: rd_def upt_rec)
    moreover have "le32_dec [0xFF, 0xFF, 0xFF, 0xFF] \<noteq> TS_SECTOR_MAGIC_WORD" by (simp add: le32_dec_def nth_Cons' fdb_layout)
    ultimately show ?thesis by simp
  qed
  then show ?thesis using w [of 0] by (auto simp: unknown_def sectors_def sane_def)
qed

lemma demo_ready:
  "holds (fdb_tsdb_init demo_tsdb ''demo'' ''d'' True 32 0) (\<lambda>(r, db). r = FDB_NO_ERR \<and> ts_ready 256 4 32 ts_empty db)"
  by (rule holds_mono [OF tsdb_init_unknown(1) [OF demo_init_ex demo_stored demo_unknown]])
    (auto simp: ts_ready_def same_options_def lock_pair_def demo_same demo_tsdb_def)

lemma demo_ready_ex: "\<exists>db. ts_ready 256 4 32 ts_empty db"
  using demo_ready by (auto simp: holds_ex)


section \<open>Properties\<close>

text \<open>
  C9: any sequence of appends, iterations forward and backward, queries over an interval, counts, cleanings and
  restarts returns and answers as the list of logs does. An append is refused exactly when the data is longer
  than the configured maximum or the time is not later than that of the last log; otherwise the log is added,
  and the logs of the oldest sector are given up when no sector is free. Every read shows exactly the logs with
  their times and data, in order; a restart keeps them. Formatting, the change of sector, the end records and
  the binary search are underneath.
\<close>

theorem ts_calls_refine_log:
  assumes "ts_ready s q n A db" "list_all ts_req_ok qs"
  shows "\<exists>rs db' B. serve_all (ts_serve n) db qs = Some (rs, db') \<and> accepts (ts_answer s q n) A qs rs = Some B \<and> ts_ready s q n B db'"
  using ts_service.session [OF assms] by (auto simp: holds_ex)

theorem ts_calls_refine_log_witness:
  "\<exists>db rs db' B. ts_ready 256 4 32 ts_empty db
     \<and> serve_all (ts_serve 32) db [Append_req [1, 2] 5, Append_req [3] 5, Reopen_req, Append_req [] 9, All_req, Range_req 6 9, Count_req 0 9 FDB_TSL_WRITE, Clean_req]
         = Some (rs, db')
     \<and> accepts (ts_answer 256 4 32) ts_empty
         [Append_req [1, 2] 5, Append_req [3] 5, Reopen_req, Append_req [] 9, All_req, Range_req 6 9, Count_req 0 9 FDB_TSL_WRITE, Clean_req] rs = Some B
     \<and> ts_ready 256 4 32 B db'"
proof -
  obtain db where d: "ts_ready 256 4 32 ts_empty db" using demo_ready_ex by blast
  show ?thesis using ts_calls_refine_log [OF d, of "[Append_req [1, 2] 5, Append_req [3] 5, Reopen_req, Append_req [] 9, All_req, Range_req 6 9, Count_req 0 9 FDB_TSL_WRITE, Clean_req]"] d
    by auto
qed

text \<open>
  C10: an append with a later time and data of at most the configured length always succeeds. It adds the log at
  the end, and no other log is lost unless every sector is in use and the current one has no room: then exactly
  the logs of the oldest sector go.
\<close>

theorem ts_append_logs:
  assumes "ts_ready s q n A db" "length d \<le> n" "ta_last A < t" "- (2 ^ 31) \<le> t" "t < 2 ^ 31"
  shows "holds (fdb_tsl_append_with_ts db (fdb_blob_make blob0 (Some d) (length d)) t) (\<lambda>(r, db'). r = FDB_NO_ERR \<and> (\<exists>B. ts_ready s q n B db'
    \<and> ts_logs B = (if ta_sectors A \<noteq> [] \<and> s < used_len (last (ta_sectors A)) + 16 + length d \<and> q \<le> length (ta_sectors A)
        then drop (length (hd (ta_sectors A))) (ts_logs A) else ts_logs A) @ [written t d]))"
proof -
  obtain start Cs L where pl: "ts_place q s A (length d) = (start, Cs, L)" by (metis prod_cases3)
  have tl: "ta_sectors A \<noteq> [] \<Longrightarrow> drop (length (hd (ta_sectors A))) (ts_logs A) = concat (tl (ta_sectors A))"
    by (cases "ta_sectors A") (simp_all add: ts_logs_def)
  have "ts_logs (ts_push q s A (written t d)) = concat (Cs @ [L]) @ [written t d]" using pl by (simp add: ts_push_def written_def ts_logs_def)
  then have "ts_logs (ts_push q s A (written t d)) = (if ta_sectors A \<noteq> [] \<and> s < used_len (last (ta_sectors A)) + 16 + length d \<and> q \<le> length (ta_sectors A)
        then drop (length (hd (ta_sectors A))) (ts_logs A) else ts_logs A) @ [written t d]"
    unfolding ts_place_logs [OF pl] using tl by simp
  then show ?thesis using append_ready [OF assms(1,4,5), of d] assms(2,3) by (auto elim!: holds_mono)
qed

theorem ts_append_logs_witness:
  "\<exists>db. ts_ready 256 4 32 ts_empty db \<and> holds (fdb_tsl_append_with_ts db (fdb_blob_make blob0 (Some [7, 8]) (length [7 :: byte, 8])) 3) (\<lambda>(r, db'). r = FDB_NO_ERR \<and> (\<exists>B. ts_ready 256 4 32 B db'
    \<and> ts_logs B = (if ta_sectors ts_empty \<noteq> [] \<and> 256 < used_len (last (ta_sectors ts_empty)) + 16 + length [7 :: byte, 8] \<and> 4 \<le> length (ta_sectors ts_empty)
        then drop (length (hd (ta_sectors ts_empty))) (ts_logs ts_empty) else ts_logs ts_empty) @ [written 3 [7, 8]]))"
proof -
  obtain db where d: "ts_ready 256 4 32 ts_empty db" using demo_ready_ex by blast
  show ?thesis by (rule exI [of _ db], rule conjI [OF d ts_append_logs [OF d]]) (simp_all add: ts_empty_def)
qed


text \<open>
  C11: what has been logged survives a restart: after \<open>fdb_tsdb_deinit\<close> and \<open>fdb_tsdb_init\<close> on the same
  directory, in whatever sector the ring begins, an iteration shows the times and data of all logs in order,
  and the database goes on from the same state.
\<close>

theorem ts_log_survives_restart:
  assumes "ts_ready s q n A db"
  shows "holds (ts_reopen db n ud) (\<lambda>(r, db1). r = FDB_NO_ERR \<and> ts_ready s q n A db1
    \<and> holds (fdb_tsl_iter db1 (Some collect_cb) []) (\<lambda>(xs, db2). xs = map entry (ts_logs A) \<and> ts_ready s q n A db2))"
proof -
  have "holds (fdb_tsl_iter db1 (Some collect_cb) []) (\<lambda>(xs, db2). xs = map entry (ts_logs A) \<and> ts_ready s q n A db2)"
    if r: "ts_ready s q n A db1" for db1
  proof -
    from r obtain m f where "ts_rel s m q A f db1" by (rule ts_readyE)
    then show ?thesis by (rule collect_iter(1)) (use read_only_ready [OF r] in auto)
  qed
  with reopen_ready [OF assms, of ud] show ?thesis by (auto elim!: holds_mono)
qed

theorem ts_log_survives_restart_witness:
  "\<exists>db. ts_ready 256 4 32 ts_empty db \<and> holds (ts_reopen db 32 0) (\<lambda>(r, db1). r = FDB_NO_ERR \<and> ts_ready 256 4 32 ts_empty db1
    \<and> holds (fdb_tsl_iter db1 (Some collect_cb) []) (\<lambda>(xs, db2). xs = map entry (ts_logs ts_empty) \<and> ts_ready 256 4 32 ts_empty db2))"
proof -
  obtain db where d: "ts_ready 256 4 32 ts_empty db" using demo_ready_ex by blast
  show ?thesis by (rule exI [of _ db], rule conjI [OF d ts_log_survives_restart [OF d]])
qed

text \<open>
  C13: a query from a later to an earlier time shows the logs of the interval with their data, newest first,
  provided no sector is filled to its last byte: the search reads the slot behind the last index node.
\<close>

theorem ts_range_backwards:
  assumes "ts_ready s q n A db" "t2 < t1" "\<forall>L \<in> set (ta_sectors A). used_len L < s"
  shows "holds (fdb_tsl_iter_by_time db t1 t2 (Some collect_cb) []) (\<lambda>(xs, db').
    xs = rev (map entry (filter (\<lambda>l. t2 \<le> lg_time l \<and> lg_time l \<le> t1) (ts_logs A))) \<and> ts_ready s q n A db')"
proof -
  from assms(1) obtain m f where rel: "ts_rel s m q A f db" by (rule ts_readyE)
  have "in_range t1 t2 t \<longleftrightarrow> t2 \<le> t \<and> t \<le> t1" for t using assms(2) by (auto simp: in_range_def)
  then have "map entry (range_logs t1 t2 A) = rev (map entry (filter (\<lambda>l. t2 \<le> lg_time l \<and> lg_time l \<le> t1) (ts_logs A)))"
    using assms(2) by (simp add: range_logs_def Let_def rev_map)
  then show ?thesis by (intro collect_iter(3) [OF rel]) (use assms(3) read_only_ready [OF assms(1)] in auto)
qed

theorem ts_range_backwards_witness:
  "\<exists>db. ts_ready 256 4 32 ts_empty db \<and> holds (fdb_tsl_iter_by_time db 9 2 (Some collect_cb) []) (\<lambda>(xs, db').
    xs = rev (map entry (filter (\<lambda>l. 2 \<le> lg_time l \<and> lg_time l \<le> 9) (ts_logs ts_empty))) \<and> ts_ready 256 4 32 ts_empty db')"
proof -
  obtain db where d: "ts_ready 256 4 32 ts_empty db" using demo_ready_ex by blast
  show ?thesis by (rule exI [of _ db], rule conjI [OF d ts_range_backwards [OF d]]) (simp_all add: ts_empty_def)
qed




text \<open>
  C12: the binary search for a start time returns, whatever the index nodes hold: the times need not be in
  order, and a status may be any byte. The result is the address of one of the \<open>k\<close> nodes or of a neighbour.
\<close>

theorem ts_search_terminates:
  assumes "stored s m f db" "m < 2 ^ 31" "b mod s = 0" "b < m" "0 < k" "32 + 16 * (k + 1) \<le> s"
  shows "holds (search_start_tsl_addr db (int b + 32) (int b + 32 + 16 * (int k - 1)) t1 t2)
    (\<lambda>(i, db'). \<exists>r. - 1 \<le> r \<and> r \<le> int k \<and> i = int b + 32 + 16 * r)"
proof -
  note room = sector_room [OF assms(1,3,4)]
  have slot: "readable f s m (nat (ia b i))" if i: "0 \<le> i" "i \<le> int k" for i
  proof -
    obtain j where j: "i = int j" "j \<le> k" using i by (metis nonneg_int_cases of_nat_le_iff)
    have "in_sector s m (b + (32 + 16 * j)) 16" by (rule room(3)) (use j(2) assms(6) in simp_all)
    moreover have "nat (ia b i) = b + (32 + 16 * j)" by (simp add: ia_def j(1) nat_add_distrib)
    ultimately show ?thesis by (simp add: readable_def)
  qed
  have "holds (search_start_tsl_loop db (tsdb_stack_tsl db) (ia b 0) (ia b (int k - 1)) t1 t2) (\<lambda>(i, db'). \<exists>r. - 1 \<le> r \<and> r \<le> int k \<and> i = ia b r)"
  proof (rule search_loop_ok [where ?lo0.0 = 0 and ?hi0.0 = "int k - 1", OF assms(1)], goal_cases)
    case (5 r db')
    then have "- 1 \<le> r \<and> r \<le> int k" by (auto simp: search_ends_def split: if_splits)
    then show ?case by auto
  qed (use slot room assms in \<open>auto simp: ia_def\<close>)
  then show ?thesis by (simp add: search_start_tsl_addr_def ia_def)
qed

theorem ts_search_terminates_witness:
  "holds (search_start_tsl_addr demo_opened (int 256 + 32) (int 256 + 32 + 16 * (int 9 - 1)) 7 100)
    (\<lambda>(i, db'). \<exists>r. - 1 \<le> r \<and> r \<le> int 9 \<and> i = int 256 + 32 + 16 * r)"
  by (rule ts_search_terminates [OF demo_stored]) simp_all



text \<open>
  C36: when the database must not be formatted, opening it on such storage fails with \<open>FDB_READ_ERR\<close>, and the
  lock stays taken: this exit of the initialisation does not release it.
\<close>

theorem ts_init_leaks_lock:
  assumes "fdb_init_ex db name path FDB_DB_TYPE_TS ud = Some (FDB_NO_ERR, db1)" "stored s m f db1" "unknown s m q f" "n + 48 \<le> s"
    "db_not_formatable db1" "db_lock_fn db1"
  shows "holds (fdb_tsdb_init db name path True n ud) (\<lambda>(r, db'). r = FDB_READ_ERR \<and> db_lock_cnt db' = db_lock_cnt db1 + 1)"
  by (rule holds_mono [OF tsdb_init_unknown(2) [OF assms(1-5)]]) (use assms(6) in \<open>auto simp: db_lock_def\<close>)

theorem ts_init_leaks_lock_witness:
  "holds (fdb_tsdb_init (demo_tsdb\<lparr>db_not_formatable := True\<rparr>) ''demo'' ''d'' True 32 0)
     (\<lambda>(r, db'). r = FDB_READ_ERR \<and> db_lock_cnt db' = db_lock_cnt (demo_opened\<lparr>db_not_formatable := True\<rparr>) + 1)"
proof (rule ts_init_leaks_lock)
  show "fdb_init_ex (demo_tsdb\<lparr>db_not_formatable := True\<rparr>) ''demo'' ''d'' FDB_DB_TYPE_TS 0 = Some (FDB_NO_ERR, demo_opened\<lparr>db_not_formatable := True\<rparr>)"
  proof -
    have "replicate 2 x = [x, x]" for x :: nat by (simp add: numeral_2_eq_2)
    then show ?thesis by (simp add: fdb_init_ex_def demo_tsdb_def demo_opened_def FDB_FILE_CACHE_TABLE_SIZE_def)
  qed
  have "stored 256 1024 (fl demo_tsdb) (demo_opened\<lparr>db_not_formatable := True\<rparr>) = stored 256 1024 (fl demo_tsdb) demo_opened"
    by (rule stored_cong) simp_all
  then show "stored 256 1024 (fl demo_tsdb) (demo_opened\<lparr>db_not_formatable := True\<rparr>)" using demo_stored by simp
  show "unknown 256 1024 4 (fl demo_tsdb)" by (rule demo_unknown)
qed (simp_all add: demo_opened_def demo_tsdb_def)

end
