(* ===== verification/Fal.thy ===== *)
theory Fal
  imports FdbDef
begin

text \<open>
  The flash abstraction layer (\<open>port/fal/src/fal.c\<close>, \<open>fal_flash.c\<close>, \<open>fal_partition.c\<close>): tables of flash
  devices and of partitions on them, and access to a partition. The file mode build does not use it. The
  drivers of the devices, the tables of \<open>fal_cfg.h\<close> and the success of \<open>malloc\<close> are arguments. \<open>FAL_DEBUG\<close> is 0,
  so \<open>assert\<close> does nothing; an access outside an array is \<open>None\<close>.
\<close>

section \<open>Data\<close>

definition FAL_DEV_NAME_MAX :: nat where "FAL_DEV_NAME_MAX = 24"
definition FAL_PART_MAGIC_WORD :: nat where "FAL_PART_MAGIC_WORD = 0x45503130"

text \<open>A device with the operations of its driver; \<open>'d\<close> is what the drivers work on.\<close>

record 'd fal_flash_dev =
  fd_name :: "byte list"
  fd_addr :: nat
  fd_len :: nat
  fd_blk_size :: nat
  fd_init :: "('d \<Rightarrow> int \<times> 'd) option"
  fd_read :: "'d \<Rightarrow> int \<Rightarrow> byte list \<Rightarrow> nat \<Rightarrow> int \<times> byte list \<times> 'd"
  fd_write :: "'d \<Rightarrow> int \<Rightarrow> byte list \<Rightarrow> nat \<Rightarrow> int \<times> 'd"
  fd_erase :: "'d \<Rightarrow> int \<Rightarrow> nat \<Rightarrow> int \<times> 'd"
  fd_write_gran :: nat

record fal_partition =
  fp_magic_word :: nat
  fp_name :: "byte list"
  fp_flash_name :: "byte list"
  fp_offset :: int
  fp_len :: nat
  fp_reserved :: nat

text \<open>
  The static variables of the three files. A pointer to a device is its index in the device table, a pointer
  to a partition its index in the current partition table. An entry of the cache of device pointers is \<open>None\<close>
  while its memory has not been written.
\<close>

record 'd fal =
  fal_device_table :: "'d fal_flash_dev list"
  fal_partition_table_def :: "fal_partition list"
  fal_partition_table :: "fal_partition list"
  fal_partition_table_len :: nat
  fal_part_flash_cache :: "nat option option list"
  fal_ok :: bool
  fal_flash_ok :: bool
  fal_part_ok :: bool
  fal_dev :: 'd


section \<open>Flash devices\<close>

fun flash_init_loop :: "'d fal_flash_dev list \<Rightarrow> 'd \<Rightarrow> 'd" where
  "flash_init_loop [] d = d"
| "flash_init_loop (dev # devs) d =
     flash_init_loop devs (case fd_init dev of None \<Rightarrow> d | Some init \<Rightarrow> snd (init d))"

definition fal_flash_init :: "'d fal \<Rightarrow> int \<times> 'd fal" where
  "fal_flash_init st =
     (if fal_flash_ok st then (0, st)
      else (0, st\<lparr>fal_dev := flash_init_loop (fal_device_table st) (fal_dev st), fal_flash_ok := True\<rparr>))"

fun device_find_loop :: "byte list \<Rightarrow> 'd fal_flash_dev list \<Rightarrow> nat \<Rightarrow> nat option" where
  "device_find_loop name [] i = None"
| "device_find_loop name (dev # devs) i =
     (if strncmp_eq name (fd_name dev) FAL_DEV_NAME_MAX then Some i else device_find_loop name devs (Suc i))"

definition fal_flash_device_find :: "'d fal \<Rightarrow> byte list \<Rightarrow> nat option" where
  "fal_flash_device_find st name = device_find_loop name (fal_device_table st) 0"


section \<open>Partitions\<close>

text \<open>The loop of \<open>check_and_update_part_cache\<close> from the entry \<open>i\<close> on.\<close>

fun update_part_cache_loop :: "'d fal \<Rightarrow> fal_partition list \<Rightarrow> nat \<Rightarrow> (int \<times> 'd fal) option" where
  "update_part_cache_loop st [] i = Some (0, st)"
| "update_part_cache_loop st (p # ps) i =
     (case fal_flash_device_find st (fp_flash_name p) of
        None \<Rightarrow> update_part_cache_loop st ps (Suc i)
      | Some k \<Rightarrow>
          if fp_offset p \<ge> int (fd_len (fal_device_table st ! k))
          then Some (-1, st\<lparr>fal_partition_table_len := 0\<rparr>)
          else if i < length (fal_part_flash_cache st)
          then update_part_cache_loop
                 (st\<lparr>fal_part_flash_cache := (fal_part_flash_cache st)[i := Some (Some k)]\<rparr>) ps (Suc i)
          else None)"

text \<open>With the table in \<open>fal_cfg.h\<close> the cache is an array of the size of that table; its size is fixed.\<close>

definition check_and_update_part_cache :: "'d fal \<Rightarrow> fal_partition list \<Rightarrow> (int \<times> 'd fal) option" where
  "check_and_update_part_cache st table = update_part_cache_loop st table 0"

definition fal_partition_init :: "'d fal \<Rightarrow> (int \<times> 'd fal) option" where
  "fal_partition_init st =
     (if fal_part_ok st then Some (int (fal_partition_table_len st), st)
      else do {
        let st = st\<lparr>fal_partition_table := fal_partition_table_def st,
                    fal_partition_table_len := length (fal_partition_table_def st)\<rparr>;
        (r, st) \<leftarrow> check_and_update_part_cache st (fal_partition_table st);
        let st = (if r \<noteq> 0 then st else st\<lparr>fal_part_ok := True\<rparr>);
        Some (int (fal_partition_table_len st), st)
      })"

fun partition_find_loop :: "byte list \<Rightarrow> fal_partition list \<Rightarrow> nat \<Rightarrow> nat option" where
  "partition_find_loop name [] i = None"
| "partition_find_loop name (p # ps) i =
     (if take (strlen name) name = take (strlen (fp_name p)) (fp_name p) then Some i
      else partition_find_loop name ps (Suc i))"

definition fal_partition_find :: "'d fal \<Rightarrow> byte list \<Rightarrow> nat option" where
  "fal_partition_find st name =
     partition_find_loop name (take (fal_partition_table_len st) (fal_partition_table st)) 0"

definition flash_device_find_by_part :: "'d fal \<Rightarrow> nat \<Rightarrow> nat option option" where
  "flash_device_find_by_part st part =
     (if part < length (fal_part_flash_cache st) then fal_part_flash_cache st ! part else None)"

definition fal_get_partition_table :: "'d fal \<Rightarrow> fal_partition list \<times> nat" where
  "fal_get_partition_table st = (fal_partition_table st, fal_partition_table_len st)"

text \<open>The result of the check is not used.\<close>

definition fal_set_partition_table_temp :: "'d fal \<Rightarrow> fal_partition list \<Rightarrow> 'd fal option" where
  "fal_set_partition_table_temp st table =
     do {
       (_, st) \<leftarrow> check_and_update_part_cache st table;
       Some (st\<lparr>fal_partition_table_len := length table, fal_partition_table := table\<rparr>)
     }"

text \<open>The sum \<open>addr + size\<close> is computed in \<open>size_t\<close>.\<close>

definition fal_partition_read ::
  "'d fal \<Rightarrow> nat \<Rightarrow> nat \<Rightarrow> byte list \<Rightarrow> nat \<Rightarrow> (int \<times> byte list \<times> 'd fal) option"
where
  "fal_partition_read st part a buf size' =
     (if part \<ge> length (fal_partition_table st) then None
      else let p = fal_partition_table st ! part in
      if u64 (a + size') > fp_len p then Some (-1, buf, st)
      else do {
        flash_dev \<leftarrow> flash_device_find_by_part st part;
        case flash_dev of
          None \<Rightarrow> Some (-1, buf, st)
        | Some k \<Rightarrow>
            case fd_read (fal_device_table st ! k) (fal_dev st) (fp_offset p + int a) buf size' of
              (ret, buf, d) \<Rightarrow> Some (ret, buf, st\<lparr>fal_dev := d\<rparr>)
      })"

definition fal_partition_write ::
  "'d fal \<Rightarrow> nat \<Rightarrow> nat \<Rightarrow> byte list \<Rightarrow> nat \<Rightarrow> (int \<times> 'd fal) option"
where
  "fal_partition_write st part a buf size' =
     (if part \<ge> length (fal_partition_table st) then None
      else let p = fal_partition_table st ! part in
      if u64 (a + size') > fp_len p then Some (-1, st)
      else do {
        flash_dev \<leftarrow> flash_device_find_by_part st part;
        case flash_dev of
          None \<Rightarrow> Some (-1, st)
        | Some k \<Rightarrow>
            case fd_write (fal_device_table st ! k) (fal_dev st) (fp_offset p + int a) buf size' of
              (ret, d) \<Rightarrow> Some (ret, st\<lparr>fal_dev := d\<rparr>)
      })"

definition fal_partition_erase :: "'d fal \<Rightarrow> nat \<Rightarrow> nat \<Rightarrow> nat \<Rightarrow> (int \<times> 'd fal) option" where
  "fal_partition_erase st part a size' =
     (if part \<ge> length (fal_partition_table st) then None
      else let p = fal_partition_table st ! part in
      if u64 (a + size') > fp_len p then Some (-1, st)
      else do {
        flash_dev \<leftarrow> flash_device_find_by_part st part;
        case flash_dev of
          None \<Rightarrow> Some (-1, st)
        | Some k \<Rightarrow>
            case fd_erase (fal_device_table st ! k) (fal_dev st) (fp_offset p + int a) size' of
              (ret, d) \<Rightarrow> Some (ret, st\<lparr>fal_dev := d\<rparr>)
      })"

definition fal_partition_erase_all :: "'d fal \<Rightarrow> nat \<Rightarrow> (int \<times> 'd fal) option" where
  "fal_partition_erase_all st part =
     (if part \<ge> length (fal_partition_table st) then None
      else fal_partition_erase st part 0 (fp_len (fal_partition_table st ! part)))"


section \<open>The table on the flash\<close>

text \<open>
  Without \<open>FAL_PART_HAS_TABLE_CFG\<close> the table is looked for on a device, from an offset downwards in blocks of
  64 bytes that overlap by three; the result is the offset of its magic word.
\<close>

definition magic_at :: "byte list \<Rightarrow> nat \<Rightarrow> bool" where
  "magic_at buf i \<longleftrightarrow> unat (buf ! i) + unat (buf ! (i + 1)) * 2 ^ 8 + unat (buf ! (i + 2)) * 2 ^ 16 + unat (buf ! (i + 3)) * 2 ^ 24
     = FAL_PART_MAGIC_WORD"

function part_table_search ::
  "'d fal_flash_dev \<Rightarrow> 'd \<Rightarrow> byte list \<Rightarrow> int \<Rightarrow> int option \<times> byte list \<times> 'd"
where
  "part_table_search dev d buf off =
     (if off < 0 then (None, buf, d)
      else case fd_read dev d off buf 64 of (r, buf, d) \<Rightarrow>
        if r \<le> 0 then (None, buf, d)
        else case List.find (magic_at buf) [0..<61] of
          Some i \<Rightarrow> (Some (off + int i), buf, d)
        | None \<Rightarrow>
            if off \<ge> 64 then part_table_search dev d buf (off - 61)
            else if off \<noteq> 0 then part_table_search dev d buf 0
            else (None, buf, d))"
  by pat_completeness auto
termination
  by (relation "measure (\<lambda>(dev, d, buf, off). nat off)") auto

text \<open>\<open>struct fal_partition\<close> of 80 bytes: two arrays of 24 characters, padding, two words of 8 bytes.\<close>

definition le64_nat :: "byte list \<Rightarrow> nat" where
  "le64_nat bs = foldr (\<lambda>b n. unat b + 256 * n) bs 0"

definition fal_partition_of :: "byte list \<Rightarrow> fal_partition" where
  "fal_partition_of bs =
     \<lparr>fp_magic_word = le64_nat (take 4 bs), fp_name = take 24 (drop 4 bs), fp_flash_name = take 24 (drop 28 bs),
      fp_offset = (let n = le64_nat (take 8 (drop 56 bs)) in if n < 2 ^ 63 then int n else int n - 2 ^ 64),
      fp_len = le64_nat (take 8 (drop 64 bs)), fp_reserved = le64_nat (take 4 (drop 72 bs))\<rparr>"

text \<open>What is asked of \<open>malloc\<close>: the buffer for one entry, the table, the cache of device pointers.\<close>

datatype fal_alloc = Alloc_part | Alloc_table nat | Alloc_cache nat

text \<open>
  The entries are read downwards from the magic word of the first one; the loop ends at the first entry
  without it. The \<open>memset\<close> before each read is given the number of entries as its length, so it leaves the
  buffer of 80 bytes at the 82nd. The result is \<open>table_num\<close>, the table in the heap and the device; the
  table \<open>old\<close> of an earlier call stays while there is no entry to store.
\<close>

partial_function (option) part_table_load ::
  "'d fal_flash_dev \<Rightarrow> (fal_alloc \<Rightarrow> bool) \<Rightarrow> fal_partition list \<Rightarrow> 'd \<Rightarrow> byte list \<Rightarrow> int \<Rightarrow> fal_partition list
     \<Rightarrow> (nat \<times> fal_partition list \<times> 'd) option"
where
  "part_table_load dev alloc_ok old d buf off table =
     (if length table > 80 then None
      else case fd_read dev d (off - int (80 * length table)) (replicate (length table) 0 @ drop (length table) buf) 80 of
        (r, buf, d) \<Rightarrow>
          if r < 0 then Some (0, if table = [] then old else table, d)
          else if fp_magic_word (fal_partition_of buf) \<noteq> FAL_PART_MAGIC_WORD 
          then Some (length table, if table = [] then old else table, d)
          else if \<not> alloc_ok (Alloc_table (Suc (length table))) then Some (0, [], d)
          else part_table_load dev alloc_ok old d buf off (table @ [fal_partition_of buf]))"

definition check_and_update_part_cache_heap ::
  "'d fal \<Rightarrow> (fal_alloc \<Rightarrow> bool) \<Rightarrow> fal_partition list \<Rightarrow> (int \<times> 'd fal) option"
where
  "check_and_update_part_cache_heap st alloc_ok table =
     (if \<not> alloc_ok (Alloc_cache (length table)) then Some (-2, st\<lparr>fal_part_flash_cache := []\<rparr>)
      else update_part_cache_loop (st\<lparr>fal_part_flash_cache := replicate (length table) None\<rparr>) table 0)"

definition fal_partition_init_flash ::
  "'d fal \<Rightarrow> byte list \<Rightarrow> int \<Rightarrow> (fal_alloc \<Rightarrow> bool) \<Rightarrow> byte list \<Rightarrow> byte list \<Rightarrow> (int \<times> 'd fal) option"
where
  "fal_partition_init_flash st dev_name end_offset alloc_ok read_buf new_part =
     (if fal_part_ok st then Some (int (fal_partition_table_len st), st)
      else case fal_flash_device_find st dev_name of
        None \<Rightarrow> Some (int (fal_partition_table_len st), st)
      | Some k \<Rightarrow>
          let dev = fal_device_table st ! k in
          if end_offset < 0 \<or> end_offset \<ge> int (fd_len dev) \<or> \<not> alloc_ok Alloc_part
          then Some (int (fal_partition_table_len st), st)
          else case part_table_search dev (fal_dev st) read_buf (end_offset - 64) of
            (None, _, d) \<Rightarrow> Some (int (fal_partition_table_len st), st\<lparr>fal_dev := d\<rparr>)
          | (Some off, _, d) \<Rightarrow> do {
              (table_num, table, d) \<leftarrow> part_table_load dev alloc_ok (fal_partition_table st) d new_part off [];
              let st = st\<lparr>fal_dev := d, fal_partition_table := table\<rparr>;
              if table_num = 0 then Some (int (fal_partition_table_len st), st)
              else do {
                (r, st) \<leftarrow> check_and_update_part_cache_heap (st\<lparr>fal_partition_table_len := table_num\<rparr>) alloc_ok table;
                let st = (if r \<noteq> 0 then st else st\<lparr>fal_part_ok := True\<rparr>);
                Some (int (fal_partition_table_len st), st)
              }
            })"


definition fal_set_partition_table_temp_heap ::
  "'d fal \<Rightarrow> (fal_alloc \<Rightarrow> bool) \<Rightarrow> fal_partition list \<Rightarrow> 'd fal option"
where
  "fal_set_partition_table_temp_heap st alloc_ok table =
     do {
       (_, st) \<leftarrow> check_and_update_part_cache_heap st alloc_ok table;
       Some (st\<lparr>fal_partition_table_len := length table, fal_partition_table := table\<rparr>)
     }"


section \<open>Initialisation\<close>

text \<open>\<open>part_init\<close> is the \<open>fal_partition_init\<close> of the build.\<close>

definition fal_init :: "('d fal \<Rightarrow> (int \<times> 'd fal) option) \<Rightarrow> 'd fal \<Rightarrow> (int \<times> 'd fal) option" where
  "fal_init part_init st =
     (case fal_flash_init st of (result, st) \<Rightarrow> do {
        (result, st) \<leftarrow> (if result < 0 then Some (result, st) else part_init st);
        Some (result, if result > 0 \<and> \<not> fal_ok st then st\<lparr>fal_ok := True\<rparr>
                      else if result \<le> 0 then st\<lparr>fal_ok := False\<rparr> else st)
      })"

definition fal_init_check :: "'d fal \<Rightarrow> bool" where
  "fal_init_check st = fal_ok st"

end
