(* ===== verification/FalSpec.thy ===== *)
theory FalSpec
  imports Fal
begin

text \<open>
  What the flash abstraction layer promises: an access never leaves its partition, partitions do not disturb
  each other, and what the initialisation has checked.
\<close>

section \<open>Requests on a partition\<close>





text \<open>Nothing but the device changes.\<close>

definition same_tables :: "'d fal \<Rightarrow> 'd fal \<Rightarrow> bool" where
  "same_tables st st' \<longleftrightarrow> st'\<lparr>fal_dev := fal_dev st\<rparr> = st"

lemma same_tablesI [simp]: "same_tables st (st\<lparr>fal_dev := d\<rparr>)" "same_tables st st"
  by (simp_all add: same_tables_def)



text \<open>
  A driver that works on bytes and changes none outside the range it is given: \<open>write\<close> and \<open>erase\<close> of the device
  number \<open>k\<close>.
\<close>

definition local_driver :: "nat \<Rightarrow> (nat \<times> int \<Rightarrow> byte) fal_flash_dev \<Rightarrow> bool" where
  "local_driver k dev \<longleftrightarrow>
     (\<forall>d off buf n j x. \<not> (j = k \<and> off \<le> x \<and> x < off + int n) \<longrightarrow> snd (fd_write dev d off buf n) (j, x) = d (j, x))
     \<and> (\<forall>d off n j x. \<not> (j = k \<and> off \<le> x \<and> x < off + int n) \<longrightarrow> snd (fd_erase dev d off n) (j, x) = d (j, x))"










section \<open>The checks of the initialisation\<close>

text \<open>The entry of the cache for a partition, and the check of its offset.\<close>

definition cache_entry :: "'d fal \<Rightarrow> nat option option \<Rightarrow> fal_partition \<Rightarrow> nat option option" where
  "cache_entry st old p = (case fal_flash_device_find st (fp_flash_name p) of None \<Rightarrow> old | Some k \<Rightarrow> Some (Some k))"

definition offset_ok :: "'d fal \<Rightarrow> fal_partition \<Rightarrow> bool" where
  "offset_ok st p = (case fal_flash_device_find st (fp_flash_name p) of None \<Rightarrow> True
     | Some k \<Rightarrow> fp_offset p < int (fd_len (fal_device_table st ! k)))"



lemma find_other_fields:
  shows "cache_entry (st\<lparr>fal_part_flash_cache := c\<rparr>) = cache_entry st" "offset_ok (st\<lparr>fal_part_flash_cache := c\<rparr>) = offset_ok st"
  by (simp_all add: fun_eq_iff cache_entry_def offset_ok_def fal_flash_device_find_def cong: option.case_cong)


text \<open>The layer after start-up: its pointers are null, the cache has one entry per partition of \<open>fal_cfg.h\<close>.\<close>

definition fal_boot :: "'d fal_flash_dev list \<Rightarrow> fal_partition list \<Rightarrow> 'd \<Rightarrow> 'd fal" where
  "fal_boot devs parts d = \<lparr>fal_device_table = devs, fal_partition_table_def = parts, fal_partition_table = [],
     fal_partition_table_len = 0, fal_part_flash_cache = replicate (length parts) (Some None),
     fal_ok = False, fal_flash_ok = False, fal_part_ok = False, fal_dev = d\<rparr>"







lemma strncmp_eq_self [simp]: "strncmp_eq_from i n s s"
  by (rule strncmp_eq_fromI) simp


section \<open>Properties\<close>


text \<open>A memory as a device: what is read, written and erased is a range of bytes.\<close>

definition ram_device :: "nat \<Rightarrow> byte list \<Rightarrow> nat \<Rightarrow> (nat \<times> int \<Rightarrow> byte) fal_flash_dev" where
  "ram_device k name n = \<lparr>fd_name = name, fd_addr = 0, fd_len = n, fd_blk_size = 4096, fd_init = None,
     fd_read = (\<lambda>d off buf n. (int n, map (\<lambda>i. d (k, off + int i)) [0..<n] @ drop n buf, d)),
     fd_write = (\<lambda>d off buf n. (int n, \<lambda>(j, x). if j = k \<and> off \<le> x \<and> x < off + int n then buf ! nat (x - off) else d (j, x))),
     fd_erase = (\<lambda>d off n. (int n, \<lambda>(j, x). if j = k \<and> off \<le> x \<and> x < off + int n then 0xFF else d (j, x))),
     fd_write_gran = 1\<rparr>"

lemma ram_local [simp]: "local_driver k (ram_device k name n)"
  by (auto simp: local_driver_def ram_device_def)

definition demo_part :: "byte list \<Rightarrow> int \<Rightarrow> nat \<Rightarrow> fal_partition" where
  "demo_part name off n = \<lparr>fp_magic_word = FAL_PART_MAGIC_WORD, fp_name = name, fp_flash_name = [97, 0], fp_offset = off,
     fp_len = n, fp_reserved = 0\<rparr>"

definition demo_fal :: "(nat \<times> int \<Rightarrow> byte) fal" where
  "demo_fal = fal_boot [ram_device 0 [97, 0] 8] [demo_part [98, 0] 0 4, demo_part [99, 0] 4 4] (\<lambda>_. 0)"

lemmas fal_eval = demo_fal_def demo_part_def ram_device_def fal_boot_def fal_init_def fal_flash_init_def fal_partition_init_def
  check_and_update_part_cache_def fal_flash_device_find_def strncmp_eq_def FAL_DEV_NAME_MAX_def fal_init_check_def







lemma update_cache_overrun:
  assumes "\<forall>p \<in> set ps. fal_flash_device_find st (fp_flash_name p) \<noteq> None \<and> offset_ok st p"
    "i + length ps > length (fal_part_flash_cache st)" "i \<le> length (fal_part_flash_cache st)"
  shows "update_part_cache_loop st ps i = None"
  using assms
proof (induction ps arbitrary: st i)
  case (Cons p ps)
  obtain k where k: "fal_flash_device_find st (fp_flash_name p) = Some k" using Cons.prems(1) by auto
  let ?st = "st\<lparr>fal_part_flash_cache := (fal_part_flash_cache st)[i := Some (Some k)]\<rparr>"
  have "fal_flash_device_find ?st = fal_flash_device_find st" by (simp add: fun_eq_iff fal_flash_device_find_def)
  then have "update_part_cache_loop ?st ps (Suc i) = None" if "i < length (fal_part_flash_cache st)"
    using Cons.prems that by (intro Cons.IH) (simp_all add: find_other_fields)
  then show ?case using k Cons.prems(1) by (auto simp: offset_ok_def)
qed simp

text \<open>C40: a temporary table with more partitions than the table of \<open>fal_cfg.h\<close> makes the update of the cache write
  past its end, whatever state the layer is in, when the devices exist and the offsets are in range.\<close>

theorem temp_table_overrun:
  assumes "length table > length (fal_part_flash_cache st)"
    and "\<forall>p \<in> set table. fal_flash_device_find st (fp_flash_name p) \<noteq> None \<and> offset_ok st p"
  shows "fal_set_partition_table_temp st table = None"
  using update_cache_overrun [OF assms(2), of 0] assms(1)
  by (simp add: fal_set_partition_table_temp_def check_and_update_part_cache_def)

theorem temp_table_overrun_witness:
  "fal_set_partition_table_temp demo_fal [demo_part [98, 0] 0 2, demo_part [99, 0] 2 2, demo_part [100, 0] 4 4] = None"
  by (rule temp_table_overrun) (simp_all add: fal_eval offset_ok_def)

end
