(* ===== verification/KvIterate.thy ===== *)
theory KvIterate
  imports KvApi
begin

text \<open>
  The external iterator (\<open>fdb_kv_iterator_init\<close>, \<open>fdb_kv_iterate\<close>) and the integrity check
  (\<open>fdb_kvdb_check\<close>) on a database in order. The iterator is a cursor into the list of all nodes that
  survives the deletion of the node it stands on, so a client may delete while it iterates.
\<close>

section \<open>The cursor in a sector\<close>

text \<open>The iterator after it has stopped at a node.\<close>

definition itr_show :: "fdb_kv_iterator \<Rightarrow> fdb_kv \<Rightarrow> fdb_kv_iterator" where
  "itr_show itr kv = itr\<lparr>itr_curr_kv := kv, itr_iterated_cnt := u32 (itr_iterated_cnt itr + 1),
     itr_iterated_obj_bytes := u64 (itr_iterated_obj_bytes itr + kv_len kv),
     itr_iterated_value_bytes := u64 (itr_iterated_value_bytes itr + kv_value_len kv)\<rparr>"

lemma itr_show_kv [simp]: "itr_curr_kv (itr_show itr kv) = kv"
  by (simp add: itr_show_def)

definition dead :: "kv_node \<Rightarrow> bool" where
  "dead n \<longleftrightarrow> nd_status n \<noteq> FDB_KV_WRITE"

lemma iterate_step:
  assumes st: "stored s m f db" and sh: "sector_holds s f b sst d (pre @ n # post)" and b: "b mod s = 0" "b < m"
    and info: "sec_addr sector = b" "sec_store sector \<noteq> FDB_SECTOR_STORE_EMPTY"
    and ca: "end_cached db b (pre @ n # post)" and kv: "itr_curr_kv itr = kv\<lparr>kv_addr_start := b + 16 + nodes_len pre\<rparr>"
    and Q: "\<And>db'. stored s m f db' \<Longrightarrow> io_frame db db' \<Longrightarrow> \<not> dead n \<Longrightarrow>
        Q (True, itr_show itr (node_kv kv (b + 16 + nodes_len pre) n), db')"
      "\<And>kv' db'. stored s m f db' \<Longrightarrow> io_frame db db' \<Longrightarrow> dead n \<Longrightarrow> post = [] \<Longrightarrow> Q (False, itr\<lparr>itr_curr_kv := kv'\<rparr>, db')"
      "\<And>db'. stored s m f db' \<Longrightarrow> io_frame db db' \<Longrightarrow> dead n \<Longrightarrow> post \<noteq> [] \<Longrightarrow>
        holds (kv_iterate_sector db' sector (itr\<lparr>itr_curr_kv := (node_kv kv (b + 16 + nodes_len pre) n)
          \<lparr>kv_addr_start := b + 16 + nodes_len pre + node_len n\<rparr>\<rparr>)) Q"
  shows "holds (kv_iterate_sector db sector itr) Q"
proof -
  let ?a = "b + 16 + nodes_len pre"
  note i = storedD [OF st] and bd = sector_bounds [OF st sh b]
  have n: "node_at f ?a n" "node_ok n" using sh by (auto simp: sector_holds_def nodes_at_append)
  have sec: "in_sector s m ?a (node_len n)"
    using in_sector_at [OF i(4) b, of "16 + nodes_len pre" "node_len n"] bd(2) by (simp add: log_end_def add.assoc)
  have ne: "?a + node_len n \<noteq> FAILED_ADDR" using bd stored_top [OF st] by (simp add: FAILED_ADDR_def log_end_def)
  have next1: "holds (get_next_kv_addr db1 sector (node_kv kv ?a n))
     (\<lambda>r. holds (case r of (a, db) \<Rightarrow> if a \<noteq> FAILED_ADDR
        then kv_iterate_sector db sector (itr\<lparr>itr_curr_kv := (node_kv kv ?a n)\<lparr>kv_addr_start := a\<rparr>\<rparr>)
        else Some (False, itr\<lparr>itr_curr_kv := (node_kv kv ?a n)\<lparr>kv_addr_start := a\<rparr>\<rparr>, db)) Q)"
    if d: "stored s m f db1" "io_frame db db1" and ns: "dead n" for db1
    by (rule get_next_node [OF d(1) sh b info])
       (use ca Q(2,3) ns ne d end_cached_frame [OF d(2)] io_frame_trans [OF d(2)] in auto)
  show ?thesis
    by (subst kv_iterate_sector.simps, unfold holds_bind kv, rule read_kv_node [OF st n sec])
       (use next1 Q(1) in \<open>auto simp: dead_def itr_show_def Let_def split_def cong: if_cong\<close>)
qed

lemma iterate_sector_ok:
  assumes "stored s m f db" "sector_holds s f b sst d (pre @ n # post)" "b mod s = 0" "b < m"
    and "sec_addr sector = b" "sec_store sector \<noteq> FDB_SECTOR_STORE_EMPTY" "end_cached db b (pre @ n # post)"
    and "itr_curr_kv itr = kv\<lparr>kv_addr_start := b + 16 + nodes_len pre\<rparr>"
    and "\<And>ns1 x ns2 kv0 db'. n # post = ns1 @ x # ns2 \<Longrightarrow> list_all dead ns1 \<Longrightarrow> \<not> dead x \<Longrightarrow> stored s m f db' \<Longrightarrow>
      io_frame db db' \<Longrightarrow> Q (True, itr_show itr (node_kv kv0 (b + 16 + nodes_len (pre @ ns1)) x), db')"
    and "\<And>kv' db'. list_all dead (n # post) \<Longrightarrow> stored s m f db' \<Longrightarrow> io_frame db db' \<Longrightarrow>
      Q (False, itr\<lparr>itr_curr_kv := kv'\<rparr>, db')"
  shows "holds (kv_iterate_sector db sector itr) Q"
  using assms
proof (induction "length post" arbitrary: post pre n kv db itr)
  case 0
  then show ?case by (intro iterate_step [OF 0(2-9)]) (use 0(10) [of "[]" n post] 0(11) in auto)
next
  case (Suc l)
  then obtain n' post' where post: "post = n' # post'" by (cases post) auto
  show ?case
  proof (rule iterate_step [OF Suc.prems(1-8)], goal_cases)
    case (1 db')
    then show ?case using Suc.prems(9) [of "[]" n post] by simp
  next
    case (3 db')
    let ?kv = "node_kv kv (b + 16 + nodes_len pre) n"
    show ?case
    proof (rule Suc.hyps(1) [of post' db' "pre @ [n]" n' _ ?kv], goal_cases)
      case (10 ns1 x ns2 kv0 db2)
      from Suc.prems(9) [of "n # ns1" x ns2 kv0 db2] 10 3 post io_frame_trans [OF 3(2) 10(5)]
      show ?case by (simp add: itr_show_def)
    next
      case (11 kv' db2)
      from Suc.prems(10) [OF _ 11(2) io_frame_trans [OF 3(2) 11(3)]] 11(1) 3(3) post show ?case by simp
    qed (use Suc post 3 end_cached_frame [OF 3(2)] in \<open>auto simp: add.assoc\<close>)
  qed (use post in simp)
qed


section \<open>The cursor in the database\<close>

text \<open>
  The iterator stands in the sector at position \<open>k\<close> of the ring, behind the nodes \<open>pre\<close>.
\<close>

definition cursor :: "nat \<Rightarrow> nat \<Rightarrow> nat \<Rightarrow> nat \<Rightarrow> kv_node list \<Rightarrow> fdb_kv_iterator \<Rightarrow> bool" where
  "cursor s q start k pre itr \<longleftrightarrow> itr_sector_addr itr = (start + k) mod q * s \<and> itr_traversed_len itr = k * s
     \<and> (if pre = [] then kv_addr_start (itr_curr_kv itr) = 0
        else kv_addr_start (itr_curr_kv itr) = (start + k) mod q * s + 16 + nodes_len (butlast pre)
          \<and> kv_crc_is_ok (itr_curr_kv itr) \<and> kv_len (itr_curr_kv itr) = node_len (last pre))"

text \<open>The nodes that are still ahead of the iterator.\<close>

definition ahead ::
  "nat \<Rightarrow> nat \<Rightarrow> (nat \<Rightarrow> sector_log) \<Rightarrow> nat \<Rightarrow> fdb_kv_iterator \<Rightarrow> (addr \<times> kv_node) list \<Rightarrow> bool"
where
  "ahead s q L start itr rest \<longleftrightarrow> (\<exists>k pre post. k < q \<and> log_nodes (L ((start + k) mod q)) = pre @ post \<and> cursor s q start k pre itr
     \<and> rest = addr_nodes ((start + k) mod q * s + 16 + nodes_len pre) post @ db_nodes s L (ring q start (Suc k)))"

text \<open>The counters of the iterator after it has shown the nodes \<open>ns\<close>.\<close>

definition counted :: "fdb_kv_iterator \<Rightarrow> kv_node list \<Rightarrow> fdb_kv_iterator \<Rightarrow> bool" where
  "counted itr ns itr' \<longleftrightarrow>
     (if ns = [] then itr_iterated_cnt itr' = itr_iterated_cnt itr \<and> itr_iterated_obj_bytes itr' = itr_iterated_obj_bytes itr
        \<and> itr_iterated_value_bytes itr' = itr_iterated_value_bytes itr
      else itr_iterated_cnt itr' = u32 (itr_iterated_cnt itr + length ns)
        \<and> itr_iterated_obj_bytes itr' = u64 (itr_iterated_obj_bytes itr + nodes_len ns)
        \<and> itr_iterated_value_bytes itr' = u64 (itr_iterated_value_bytes itr + sum_list (map (length \<circ> nd_val) ns)))"

lemma counted_trans: "counted itr [n] itr1 \<Longrightarrow> counted itr1 ns itr' \<Longrightarrow> counted itr (n # ns) itr'"
  by (auto simp: counted_def u32_def u64_def mod_simps add.assoc split: if_splits)

lemma iterate_start_ok:
  assumes r: "kv_rel s m f L db" and i: "i < m div s" "L i = (st, d, pre @ post)" "pre @ post \<noteq> []"
    and info: "sec_info_ok s (i * s) st d (pre @ post) sector"
    and c: "i = (start + k) mod (m div s)" "cursor s (m div s) start k pre itr"
    and found: "\<And>ns1 x ns2 kv0 db'. post = ns1 @ x # ns2 \<Longrightarrow> list_all dead ns1 \<Longrightarrow> \<not> dead x \<Longrightarrow> stored s m f db' \<Longrightarrow>
      io_frame db db' \<Longrightarrow> Q (True, itr_show itr (node_kv kv0 (i * s + 16 + nodes_len (pre @ ns1)) x), db')"
    and none: "\<And>kv' db'. list_all dead post \<Longrightarrow> stored s m f db' \<Longrightarrow> io_frame db db' \<Longrightarrow>
      Q (False, itr\<lparr>itr_curr_kv := kv'\<rparr>, db')"
  shows "holds (kv_iterate_start db sector itr) Q"
proof -
  note rel = kv_relD [OF r] and sa = sector_addr [OF kv_relD(1) [OF r] i(1)]
  have sh: "sector_holds s f (i * s) st d (pre @ post)" by (rule sectors_holdD [OF rel(2) i(1,2)])
  have sec: "sec_addr sector = i * s" "sec_store sector \<noteq> FDB_SECTOR_STORE_EMPTY"
    using info sh i(3) by (auto simp: sec_info_ok_def sector_holds_def)
  have ca: "end_cached db (i * s) (pre @ post)" by (rule end_cached_rel [OF r i(1,2)])
  note walk = iterate_sector_ok [OF _ _ sa(1,2) sec]
  show ?thesis
  proof (cases pre rule: rev_cases)
    case Nil
    then obtain n ns where post: "post = n # ns" using i(3) by (cases post) auto
    have "16 \<le> s" using sh by (simp add: sector_holds_def)
    then have u: "u32 (i * s + 16) = i * s + 16" using stored_u32_le [OF rel(1), of "i * s + 16"] sa(5) by simp
    let ?kv = "itr_curr_kv itr"
    have "holds (kv_iterate_sector db sector (itr\<lparr>itr_curr_kv := ?kv\<lparr>kv_addr_start := i * s + 16\<rparr>\<rparr>)) Q"
      by (rule walk [where pre = "[]" and n = n and post = ns and kv = ?kv, OF rel(1)])
         (use sh ca found none post Nil in \<open>auto simp: itr_show_def\<close>)
    moreover have "kv_addr_start ?kv = 0" using c(2) Nil by (simp add: cursor_def)
    ultimately show ?thesis by (simp add: kv_iterate_start_def sec u SECTOR_HDR_DATA_SIZE_def)
  next
    case (snoc pre' n)
    let ?kv = "itr_curr_kv itr" and ?a = "i * s + 16 + nodes_len pre'"
    have kv: "kv_addr_start ?kv = ?a" "kv_crc_is_ok ?kv" "kv_len ?kv = node_len n" using c snoc by (simp_all add: cursor_def)
    have ne: "?a + node_len n \<noteq> FAILED_ADDR"
      using sector_bounds [OF rel(1) sh sa(1,2)] stored_top [OF rel(1)] snoc by (simp add: FAILED_ADDR_def log_end_def)
    have sh': "sector_holds s f (i * s) st d (pre' @ n # post)" and ca': "end_cached db (i * s) (pre' @ n # post)"
      using sh ca snoc by simp_all
    have "holds (get_next_kv_addr db sector ?kv)
      (\<lambda>r. holds (case r of (a, db) \<Rightarrow> let itr = itr\<lparr>itr_curr_kv := ?kv\<lparr>kv_addr_start := a\<rparr>\<rparr> in
        if a = FAILED_ADDR then Some (False, itr, db) else kv_iterate_sector db sector itr) Q)"
    proof (rule get_next_node [OF rel(1) sh' sa(1,2) sec kv ca'], goal_cases)
      case (1 db')
      show ?case
      proof (cases post)
        case Nil
        then show ?thesis using none [of db'] 1 by simp
      next
        case (Cons x ns)
        have "holds (kv_iterate_sector db' sector (itr\<lparr>itr_curr_kv := ?kv\<lparr>kv_addr_start := i * s + 16 + nodes_len pre\<rparr>\<rparr>)) Q"
          by (rule walk [where pre = pre and n = x and post = ns and kv = ?kv, OF 1(1)])
             (use sh ca found none Cons end_cached_frame [OF 1(2)] io_frame_trans [OF 1(2)] in \<open>auto simp: itr_show_def\<close>)
        then show ?thesis using Cons ne snoc by (simp add: add.assoc)
      qed
    qed
    moreover have "kv_addr_start ?kv \<noteq> 0" using kv by simp
    ultimately show ?thesis by (simp add: kv_iterate_start_def Let_def split_def)
  qed
qed


lemma counted_show: "counted itr [n] (itr_show itr (node_kv kv a n))"
  by (simp add: counted_def itr_show_def One_nat_def)

lemma counted_same [simp]: "counted itr [] (itr\<lparr>itr_curr_kv := kv, itr_traversed_len := t, itr_sector_addr := a\<rparr>)"
  "counted itr [] itr"
  by (simp_all add: counted_def)

lemma cursor_show:
  "cursor s q start k pre itr \<Longrightarrow>
     cursor s q start k (pre @ ns @ [x]) (itr_show itr (node_kv kv ((start + k) mod q * s + 16 + nodes_len (pre @ ns)) x))"
  by (simp add: cursor_def itr_show_def butlast_append)

lemma addr_nodes_dead: "list_all (dead \<circ> snd) (addr_nodes a ns) = list_all dead ns"
  by (induction ns arbitrary: a) simp_all

text \<open>One call of \<open>fdb_kv_iterate\<close> moves the cursor to the next live node, or reports that there is none.\<close>

lemma iterate_loop_ok:
  assumes "kv_rel s m f L db" "m + s < 2 ^ 32" "start < m div s" "k < m div s"
    and "log_nodes (L ((start + k) mod (m div s))) = pre @ post" "cursor s (m div s) start k pre itr"
    and "\<And>ps a x rest kv itr' db'. addr_nodes ((start + k) mod (m div s) * s + 16 + nodes_len pre) post
        @ db_nodes s L (ring (m div s) start (Suc k)) = ps @ (a, x) # rest \<Longrightarrow> list_all (dead \<circ> snd) ps \<Longrightarrow> \<not> dead x \<Longrightarrow>
      itr_curr_kv itr' = node_kv kv a x \<Longrightarrow> counted itr [x] itr' \<Longrightarrow> ahead s (m div s) L start itr' rest \<Longrightarrow>
      kv_rel s m f L db' \<Longrightarrow> kv_frame db db' \<Longrightarrow> kvdb_kv_cache_table db' = kvdb_kv_cache_table db \<Longrightarrow> Q (True, itr', db')"
    and "\<And>itr' db'. list_all (dead \<circ> snd) (addr_nodes ((start + k) mod (m div s) * s + 16 + nodes_len pre) post
        @ db_nodes s L (ring (m div s) start (Suc k))) \<Longrightarrow> counted itr [] itr' \<Longrightarrow>
      kv_rel s m f L db' \<Longrightarrow> kv_frame db db' \<Longrightarrow> kvdb_kv_cache_table db' = kvdb_kv_cache_table db \<Longrightarrow> Q (False, itr', db')"
  shows "holds (kv_iterate_loop db sector itr) Q"
  using assms
proof (induction "m div s - k" arbitrary: k pre post db sector itr)
  case 0
  then show ?case by simp
next
  case (Suc l)
  let ?q = "m div s" and ?i = "(start + k) mod (m div s)"
  note r = Suc.prems(1) and found = Suc.prems(7) and none = Suc.prems(8)
  note rel = kv_relD [OF r] and sd = storedD [OF kv_relD(1) [OF r]]
  have q: "0 < ?q" and i: "?i < ?q" using Suc.prems(4) by simp_all
  obtain st d where L: "L ?i = (st, d, pre @ post)" using Suc.prems(5) by (cases "L ?i") simp
  have sh: "sector_holds s f (?i * s) st d (pre @ post)" by (rule sectors_holdD [OF rel(2) i L])
  have at: "itr_sector_addr itr = ?i * s" "itr_traversed_len itr = k * s" using Suc.prems(6) by (simp_all add: cursor_def)
  have km: "k * s + s \<le> m"
  proof -
    have "Suc k * s \<le> ?q * s" using Suc.prems(4) by (intro mult_le_mono1) simp
    then show ?thesis using sd(4) by simp
  qed
  have tl: "u32 (k * s + s) = Suc k * s" using km sd(5) by (simp add: u32_def)
  have on: "holds (let traversed_len = u32 (itr_traversed_len itr1 + db_sec_size db2);
             a = kv_get_next_sector_addr db2 sec traversed_len;
             itr = itr1\<lparr>itr_curr_kv := (itr_curr_kv itr1)\<lparr>kv_addr_start := 0\<rparr>,
                       itr_traversed_len := traversed_len, itr_sector_addr := a\<rparr>
         in if a \<noteq> FAILED_ADDR then kv_iterate_loop db2 sec itr else Some (False, itr, db2)) Q"
    if dd: "list_all dead post" and info: "sec_info_ok s (?i * s) st d (pre @ post) sec"
      and r2: "kv_rel s m f L db2" "kv_frame db db2" "kvdb_kv_cache_table db2 = kvdb_kv_cache_table db"
      and itr1: "itr1 = itr\<lparr>itr_curr_kv := kv1\<rparr>" for sec db2 itr1 kv1
  proof -
    have geo: "db_sec_size db2 = s" using kv_relD(1) [OF r2(1)] by simp
    have nx: "kv_get_next_sector_addr db2 sec (Suc k * s) = (if Suc k < ?q then (Suc ?i mod ?q) * s else FAILED_ADDR)"
      by (rule next_sector [OF kv_relD(1) [OF r2(1)] Suc.prems(2) _ _ i])
         (use info Suc.prems(4) in \<open>auto simp: sec_info_ok_def\<close>)
    let ?itr = "\<lambda>a. itr\<lparr>itr_curr_kv := kv1\<lparr>kv_addr_start := 0\<rparr>, itr_traversed_len := Suc k * s, itr_sector_addr := a\<rparr>"
    show ?thesis
    proof (cases "Suc k < ?q")
      case True
      let ?j = "(start + Suc k) mod ?q"
      have ia: "Suc ?i mod ?q = ?j" by (simp add: mod_Suc_eq)
      have ne: "?j * s \<noteq> FAILED_ADDR" by (rule sector_addr(6) [OF rel(1)]) (use q in simp)
      have rg: "db_nodes s L (ring ?q start (Suc k)) = addr_nodes (?j * s + 16) (log_nodes (L ?j)) @ db_nodes s L (ring ?q start (Suc (Suc k)))"
        using True by (simp add: ring_Cons)
      have "holds (kv_iterate_loop db2 sec (?itr (?j * s))) Q"
      proof (rule Suc.hyps(1) [of "Suc k" db2 "[]" "log_nodes (L ?j)"], goal_cases)
        case (8 ps a x rest itr' kv db')
        show ?case
          by (rule found [of "addr_nodes (?i * s + 16 + nodes_len pre) post @ ps" a x rest itr' kv])
             (use 8 dd rg r2 kv_frame_trans [OF r2(2)] in \<open>simp_all add: addr_nodes_dead counted_def\<close>)
      next
        case (9 itr' db')
        show ?case
          by (rule none) (use 9 dd rg r2 kv_frame_trans [OF r2(2)] in \<open>simp_all add: addr_nodes_dead counted_def\<close>)
      qed (use Suc.hyps(2) True Suc.prems(2,3) r2 in \<open>auto simp: cursor_def\<close>)
      then show ?thesis using True nx ia ne at(2) by (simp add: itr1 geo tl)
    next
      case False
      have "Q (False, ?itr FAILED_ADDR, db2)"
        by (rule none) (use dd False r2 in \<open>simp_all add: addr_nodes_dead\<close>)
      then show ?thesis using False nx at(2) by (simp add: itr1 geo tl)
    qed
  qed
  show ?case
  proof (subst kv_iterate_loop.simps, unfold holds_bind at(1), rule read_sector_plain [OF r i L], goal_cases)
    case (1 sec db1)
    note info = 1(1) and r1 = 1(2-4)
    have sto: "sec_store sec = st" using 1(1) by (simp add: sec_info_ok_def)
    show ?case
    proof (cases "pre @ post = []")
      case True
      with sh have "st = FDB_SECTOR_STORE_EMPTY" by (auto simp: sector_holds_def)
      then show ?thesis using on [of sec db1 itr "itr_curr_kv itr"] 1 True sto by simp
    next
      case False
      with sh have st: "st = FDB_SECTOR_STORE_USING" by (auto simp: sector_holds_def)
      have "holds (kv_iterate_start db1 sec itr) (\<lambda>r. holds (case r of (found, itr, db) \<Rightarrow> if found then Some (True, itr, db)
         else let traversed_len = u32 (itr_traversed_len itr + db_sec_size db);
             a = kv_get_next_sector_addr db sec traversed_len;
             itr = itr\<lparr>itr_curr_kv := (itr_curr_kv itr)\<lparr>kv_addr_start := 0\<rparr>,
                       itr_traversed_len := traversed_len, itr_sector_addr := a\<rparr>
         in if a \<noteq> FAILED_ADDR then kv_iterate_loop db sec itr else Some (False, itr, db)) Q)"
      proof (rule iterate_start_ok [OF 1(2) i L False 1(1) refl Suc.prems(6)], goal_cases)
        case (1 ns1 x ns2 kv0 db')
        note fr = kv_rel_frame [OF r1(1) 1(4,5)] kv_frame_trans [OF r1(2) kv_frame_io [OF 1(5)]]
        let ?a = "?i * s + 16 + nodes_len (pre @ ns1)"
        let ?rest = "addr_nodes (?i * s + 16 + nodes_len (pre @ ns1 @ [x])) ns2 @ db_nodes s L (ring ?q start (Suc k))"
        have "ahead s ?q L start (itr_show itr (node_kv kv0 ?a x)) ?rest"
          unfolding ahead_def using Suc.prems(4,5) 1(1) cursor_show [OF Suc.prems(6)]
          by (intro exI [of _ k] exI [of _ "pre @ ns1 @ [x]"] exI [of _ ns2]) simp
        then have "Q (True, itr_show itr (node_kv kv0 ?a x), db')"
          by (intro found [of "addr_nodes (?i * s + 16 + nodes_len pre) ns1" ?a x ?rest _ kv0])
             (use 1 fr r1(3) io_frame_kv(2) [OF 1(5)] in \<open>simp_all add: addr_nodes_dead counted_show add.assoc\<close>)
        then show ?case by simp
      next
        case (2 kv' db')
        note fr = kv_rel_frame [OF r1(1) 2(2,3)] kv_frame_trans [OF r1(2) kv_frame_io [OF 2(3)]]
        from on [OF 2(1) info fr _ refl, of kv'] r1(3) io_frame_kv(2) [OF 2(3)] show ?case by simp
      qed
      then show ?thesis using sto st by simp
    qed
  qed
qed


lemma iterate_call:
  assumes r: "kv_rel s m f L db" and big: "m + s < 2 ^ 32" and at: "start < m div s" "ahead s (m div s) L start itr rest"
    and "\<And>ps a x rest' kv itr' db'. rest = ps @ (a, x) # rest' \<Longrightarrow> list_all (dead \<circ> snd) ps \<Longrightarrow> \<not> dead x \<Longrightarrow>
      itr_curr_kv itr' = node_kv kv a x \<Longrightarrow> counted itr [x] itr' \<Longrightarrow> ahead s (m div s) L start itr' rest' \<Longrightarrow>
      kv_rel s m f L db' \<Longrightarrow> kv_frame db db' \<Longrightarrow> kvdb_kv_cache_table db' = kvdb_kv_cache_table db \<Longrightarrow> Q (True, itr', db')"
    and "\<And>itr' db'. list_all (dead \<circ> snd) rest \<Longrightarrow> counted itr [] itr' \<Longrightarrow> kv_rel s m f L db' \<Longrightarrow> kv_frame db db' \<Longrightarrow>
      kvdb_kv_cache_table db' = kvdb_kv_cache_table db \<Longrightarrow> Q (False, itr', db')"
  shows "holds (fdb_kv_iterate db itr) Q"
proof -
  from at(2) obtain k pre post where c: "k < m div s" "log_nodes (L ((start + k) mod (m div s))) = pre @ post"
      "cursor s (m div s) start k pre itr"
    and rest: "rest = addr_nodes ((start + k) mod (m div s) * s + 16 + nodes_len pre) post @ db_nodes s L (ring (m div s) start (Suc k))"
    by (auto simp: ahead_def)
  show ?thesis
    unfolding fdb_kv_iterate_def by (rule iterate_loop_ok [OF r big at(1) c, folded rest]) (fact assms(5), fact assms(6))
qed

text \<open>The nodes ahead are nodes of the database, each at its own address.\<close>

lemma ahead_node_in:
  assumes "ahead s (m div s) L start itr rest" "(a, n) \<in> set rest"
  shows "node_in s m L a n"
proof -
  from assms(1) obtain k pre post where k: "k < m div s" "log_nodes (L ((start + k) mod (m div s))) = pre @ post"
    and rest: "rest = addr_nodes ((start + k) mod (m div s) * s + 16 + nodes_len pre) post @ db_nodes s L (ring (m div s) start (Suc k))"
    by (auto simp: ahead_def)
  have q: "0 < m div s" using k(1) by simp
  show ?thesis
  proof (cases "(a, n) \<in> set (addr_nodes ((start + k) mod (m div s) * s + 16 + nodes_len pre) post)")
    case True
    then show ?thesis unfolding node_in_iff using q k(2) by (intro exI [of _ "(start + k) mod (m div s)"]) simp
  next
    case False
    then obtain i where "i \<in> set (ring (m div s) start (Suc k))" "(a, n) \<in> set (addr_nodes (i * s + 16) (log_nodes (L i)))"
      using assms(2) rest by (auto simp: db_nodes_def)
    moreover from this(1) q have "i < m div s" by (auto simp: ring_def)
    ultimately show ?thesis unfolding node_in_iff by blast
  qed
qed

lemma distinct_addr_nodes: "distinct (map fst (addr_nodes b ns))"
proof (induction ns arbitrary: b)
  case (Cons n ns)
  have "0 < node_len n" by (simp add: node_len_def KV_HDR_DATA_SIZE_def)
  then have "b \<notin> fst ` set (addr_nodes (b + node_len n) ns)" using addr_nodes_less [of b _ "b + node_len n" ns] by force
  with Cons.IH show ?case by simp
qed simp

lemma distinct_db_nodes:
  assumes r: "kv_rel s m f L db" and "is": "distinct is" "set is \<subseteq> {..<m div s}"
  shows "distinct (map fst (db_nodes s L is))"
  using "is"
proof (induction "is")
  case (Cons i "is")
  have "fst ` set (addr_nodes (i * s + 16) (log_nodes (L i))) \<inter> fst ` set (db_nodes s L is) = {}"
  proof (rule ccontr)
    assume "fst ` set (addr_nodes (i * s + 16) (log_nodes (L i))) \<inter> fst ` set (db_nodes s L is) \<noteq> {}"
    then obtain a n n' j where a: "(a, n) \<in> set (addr_nodes (i * s + 16) (log_nodes (L i)))" "j \<in> set is"
      "(a, n') \<in> set (addr_nodes (j * s + 16) (log_nodes (L j)))" by (auto simp: db_nodes_def)
    have j: "j < m div s" "j \<noteq> i" and i: "i < m div s" using a(2) Cons.prems by auto
    show False using sector_addr_of [OF r i a(1)] sector_addr_of [OF r j(1) a(3)] sector_disjoint [OF j(2), of s a] by simp
  qed
  with Cons distinct_addr_nodes show ?case by simp
qed simp

lemma ahead_init:
  assumes r: "kv_rel s m f L db"
  shows "ahead s (m div s) L (db_oldest_addr db div s) (fdb_kv_iterator_init db itr) (all_nodes s m (db_oldest_addr db) L)"
    "distinct (map fst (all_nodes s m (db_oldest_addr db) L))" "db_oldest_addr db div s < m div s"
proof -
  let ?o = "db_oldest_addr db div s"
  note rel = kv_relD [OF r] and o = oldest_index [OF r]
  show "?o < m div s" by (rule o)
  have "?o * s = db_oldest_addr db" using rel(5) by auto
  with o show "ahead s (m div s) L ?o (fdb_kv_iterator_init db itr) (all_nodes s m (db_oldest_addr db) L)"
    unfolding ahead_def by (intro exI [of _ 0] exI [of _ "[]"] exI [of _ "log_nodes (L ?o)"])
      (simp add: cursor_def fdb_kv_iterator_init_def all_nodes_def ring_Cons)
  show "distinct (map fst (all_nodes s m (db_oldest_addr db) L))"
    unfolding all_nodes_def by (rule distinct_db_nodes [OF r distinct_ring [OF o]]) (simp add: set_ring [OF o])
qed


text \<open>The node at \<open>a\<close> marked as deleted, everything else as it was.\<close>

definition taken :: "nat \<Rightarrow> nat \<Rightarrow> (nat \<Rightarrow> sector_log) \<Rightarrow> addr \<Rightarrow> (nat \<Rightarrow> sector_log) \<Rightarrow> bool" where
  "taken s m L a L' \<longleftrightarrow> (\<exists>i st d pre n post d'. i < m div s \<and> L i = (st, d, pre @ n # post) \<and> a = i * s + 16 + nodes_len pre
     \<and> L' = L(i := (st, d', pre @ n\<lparr>nd_status := FDB_KV_DELETED\<rparr> # post)))"

lemma node_len_status [simp]: "node_len (n\<lparr>nd_status := c\<rparr>) = node_len n"
  by (simp add: node_len_def)

lemma db_nodes_other: "i \<notin> set is \<Longrightarrow> db_nodes s (L(i := l)) is = db_nodes s L is"
  unfolding db_nodes_def by (rule arg_cong [of _ _ concat]) (auto intro: map_cong)

text \<open>The cursor survives the deletion of a node that is not ahead of it.\<close>

lemma ahead_taken:
  assumes t: "taken s m L a L'" and c: "ahead s (m div s) L start itr rest" and a: "a \<notin> fst ` set rest"
  shows "ahead s (m div s) L' start itr rest"
proof -
  let ?q = "m div s"
  from t obtain i st d pre n post d' where i: "i < ?q" "L i = (st, d, pre @ n # post)" "a = i * s + 16 + nodes_len pre"
    and L': "L' = L(i := (st, d', pre @ n\<lparr>nd_status := FDB_KV_DELETED\<rparr> # post))" by (auto simp: taken_def)
  from c obtain k p ps where k: "k < ?q" "log_nodes (L ((start + k) mod ?q)) = p @ ps" "cursor s ?q start k p itr"
    and rest: "rest = addr_nodes ((start + k) mod ?q * s + 16 + nodes_len p) ps @ db_nodes s L (ring ?q start (Suc k))"
    by (auto simp: ahead_def)
  let ?j = "(start + k) mod ?q"
  have mem: "(a, n) \<in> set (addr_nodes (i * s + 16) (log_nodes (L i)))" using i by (simp add: addr_nodes_mem)
  have "i \<notin> set (ring ?q start (Suc k))"
  proof
    assume "i \<in> set (ring ?q start (Suc k))"
    with mem have "(a, n) \<in> set rest" unfolding rest db_nodes_def by auto
    with a show False by force
  qed
  then have db: "db_nodes s L' (ring ?q start (Suc k)) = db_nodes s L (ring ?q start (Suc k))"
    unfolding L' by (rule db_nodes_other)
  have "\<exists>p'. log_nodes (L' ?j) = p' @ ps \<and> nodes_len p' = nodes_len p \<and> cursor s ?q start k p' itr"
  proof (cases "?j = i")
    case False
    then show ?thesis using k(2,3) L' by (intro exI [of _ p]) simp
  next
    case True
    with k(2) i(2) have eq: "pre @ n # post = p @ ps" by simp
    have "length pre < length p"
    proof (rule ccontr)
      assume "\<not> length pre < length p"
      with eq obtain zs where "pre = p @ zs" "ps = zs @ n # post" by (auto simp: append_eq_append_conv2)
      then have "(a, n) \<in> set (addr_nodes (?j * s + 16 + nodes_len p) ps)" using i(3) True by (simp add: addr_nodes_mem)
      with a rest show False by force
    qed
    with eq obtain zs where zs: "p = pre @ n # zs" "post = zs @ ps" by (auto simp: append_eq_append_conv2 Cons_eq_append_conv)
    let ?p = "pre @ n\<lparr>nd_status := FDB_KV_DELETED\<rparr> # zs"
    have "log_nodes (L' ?j) = ?p @ ps" using True L' zs by simp
    moreover have "nodes_len ?p = nodes_len p" using zs by simp
    moreover have "cursor s ?q start k ?p itr" using k(3) zs by (cases zs rule: rev_cases) (simp_all add: cursor_def butlast_append)
    ultimately show ?thesis by blast
  qed
  then show ?thesis unfolding ahead_def rest using k(1) db by metis
qed


section \<open>Clients of the iterator\<close>

text \<open>A client that looks at every key and value and may delete the one it is shown.\<close>

partial_function (option) kv_iterate_while ::
  "(fdb_kv \<Rightarrow> 'x \<Rightarrow> fdb_kvdb \<Rightarrow> ('x \<times> fdb_kvdb) option) \<Rightarrow> 'x \<Rightarrow> fdb_kvdb \<Rightarrow> fdb_kv_iterator
     \<Rightarrow> ('x \<times> fdb_kv_iterator \<times> fdb_kvdb) option"
where
  "kv_iterate_while body x db itr =
     do {
       (has_next, itr, db) \<leftarrow> fdb_kv_iterate db itr;
       if has_next then do {
         (x, db) \<leftarrow> body (itr_curr_kv itr) x db;
         kv_iterate_while body x db itr
       } else Some (x, itr, db)
     }"

definition lives :: "(addr \<times> kv_node) list \<Rightarrow> kv_node list" where
  "lives ps = filter (Not \<circ> dead) (map snd ps)"

lemma lives_simps [simp]:
  "lives [] = []" "lives (p # ps) = (if dead (snd p) then lives ps else snd p # lives ps)" "lives (ps @ ps') = lives ps @ lives ps'"
  by (simp_all add: lives_def)

lemma lives_dead: "list_all (dead \<circ> snd) ps \<Longrightarrow> lives ps = []"
  by (induction ps) simp_all

lemma iterate_inv:
  assumes inv: "kv_inv K s m f L db" and at: "start < m div s" "ahead s (m div s) L start itr rest"
  shows "holds (fdb_kv_iterate db itr) (\<lambda>(ok, itr', db'). kv_inv K s m f L db' \<and>
    (if ok then \<exists>ps a n rest' kv. rest = ps @ (a, n) # rest' \<and> lives ps = [] \<and> \<not> dead n \<and> itr_curr_kv itr' = node_kv kv a n
        \<and> counted itr [n] itr' \<and> ahead s (m div s) L start itr' rest'
     else lives rest = [] \<and> counted itr [] itr'))"
proof -
  note i = kv_invD [OF inv]
  have keep: "kv_inv K s m f L db'" if "kv_rel s m f L db'" "kv_frame db db'" "kvdb_kv_cache_table db' = kvdb_kv_cache_table db" for db'
    by (rule kv_inv_frame [OF inv that(1,2)]) (use i(4) that(3) in simp)
  show ?thesis
  proof (rule iterate_call [OF i(1,2) at], goal_cases)
    case (1 ps a x rest' kv itr' db')
    then show ?case using keep lives_dead [OF 1(2)] by simp blast
  next
    case (2 itr' db')
    then show ?case using keep lives_dead [OF 2(1)] by auto
  qed
qed

text \<open>The map after the keys of the nodes \<open>ns\<close> have been visited and those that satisfy \<open>removes\<close> deleted.\<close>

definition visited :: "(byte list \<Rightarrow> bool) \<Rightarrow> kv_node list \<Rightarrow> (byte list \<rightharpoonup> byte list) \<Rightarrow> byte list \<rightharpoonup> byte list" where
  "visited removes ns M k = (if removes k \<and> k \<in> nd_key ` set ns then None else M k)"

text \<open>The live nodes of a database in order are the entries of its map, each once.\<close>

lemma lives_mem: "n \<in> set (lives ps) \<longleftrightarrow> \<not> dead n \<and> (\<exists>a. (a, n) \<in> set ps)"
  by (force simp: lives_def)

lemma distinct_lives:
  assumes "distinct (map fst ps)"
    and "\<And>a n a' n'. (a, n) \<in> set ps \<Longrightarrow> (a', n') \<in> set ps \<Longrightarrow> \<not> dead n \<Longrightarrow> \<not> dead n' \<Longrightarrow> nd_key n = nd_key n' \<Longrightarrow> a = a'"
  shows "distinct (map nd_key (lives ps))"
  using assms
proof (induction ps)
  case (Cons p ps)
  have "nd_key (snd p) \<notin> nd_key ` set (lives ps)" if "\<not> dead (snd p)"
  proof
    assume "nd_key (snd p) \<in> nd_key ` set (lives ps)"
    then obtain a n where n: "(a, n) \<in> set ps" "\<not> dead n" "nd_key (snd p) = nd_key n" by (auto simp: lives_mem)
    then have "fst p = a" using Cons.prems(2) [of "fst p" "snd p" a n] that by simp
    with n(1) have "fst p \<in> fst ` set ps" by (force intro: image_eqI [of _ fst "(a, n)"])
    with Cons.prems(1) show False by simp
  qed
  moreover have "distinct (map nd_key (lives ps))" 
  proof (rule Cons.IH)
    show "distinct (map fst ps)" using Cons.prems(1) by simp
    show "a = a'" if "(a, n) \<in> set ps" "(a', n') \<in> set ps" "\<not> dead n" "\<not> dead n'" "nd_key n = nd_key n'" for a n a' n'
      by (rule Cons.prems(2) [of a n a' n']) (use that in simp_all)
  qed
  ultimately show ?case by simp
qed simp

lemma map_eqI: "(\<And>k v. A k = Some v \<longleftrightarrow> B k = Some v) \<Longrightarrow> A = B"
  by (intro ext) (metis option.exhaust)

lemma lives_store:
  assumes inv: "kv_inv K s m f L db"
  defines "ns \<equiv> lives (all_nodes s m (db_oldest_addr db) L)"
  shows "distinct (map nd_key ns)" "map_of (map (\<lambda>n. (nd_key n, nd_val n)) ns) = kv_store s m L"
proof -
  note i = kv_invD [OF inv] and at = ahead_init [OF kv_invD(1) [OF inv]]
  note mem = all_nodes_mem [OF at(3)]
  have one: "one_live s m L" using i(3) by (simp add: logs_ok_def)
  show d: "distinct (map nd_key ns)"
    unfolding ns_def by (rule distinct_lives [OF at(2)]) (use one mem in \<open>auto simp: one_live_def dead_def\<close>)
  let ?M = "map_of (map (\<lambda>n. (nd_key n, nd_val n)) ns)"
  have iff: "?M k = Some v \<longleftrightarrow> kv_store s m L k = Some v" for k v
  proof -
    have "map_of (map (\<lambda>n. (nd_key n, nd_val n)) ns) k = Some v \<longleftrightarrow> (\<exists>n \<in> set ns. nd_key n = k \<and> nd_val n = v)"
      using d by (subst map_of_eq_Some_iff) (auto simp: comp_def)
    also have "\<dots> \<longleftrightarrow> kv_store s m L k = Some v"
      unfolding store_Some [OF i(1) one, of k v] ns_def Bex_def lives_mem mem by (auto simp: live_def dead_def)
    finally show ?thesis .
  qed
  from iff show "?M = kv_store s m L" by (rule map_eqI)
qed

locale node_client =
  fixes K :: "byte list set" and body :: "fdb_kv \<Rightarrow> 'x \<Rightarrow> fdb_kvdb \<Rightarrow> ('x \<times> fdb_kvdb) option"
    and seen :: "kv_node \<Rightarrow> 'x \<Rightarrow> 'x" and removes :: "byte list \<Rightarrow> bool"
  assumes body_ok: "kv_inv K s m f L db \<Longrightarrow> db_init_ok db \<Longrightarrow> lock_pair db \<Longrightarrow> node_in s m L a n \<Longrightarrow> \<not> dead n \<Longrightarrow>
     holds (body (node_kv kv a n) x db) (\<lambda>(x', db'). x' = seen n x \<and> meta db' = meta db \<and> (\<exists>g L'. kv_inv K s m g L' db'
       \<and> (if removes (nd_key n) then taken s m L a L' \<and> kv_store s m L' = (kv_store s m L)(nd_key n := None) else L' = L)))"
begin

lemma iterate_all_ok:
  assumes "kv_inv K s m f L db" "db_init_ok db" "lock_pair db" "start < m div s"
    and "ahead s (m div s) L start itr rest" "distinct (map fst rest)"
  shows "holds (kv_iterate_while body x db itr) (\<lambda>(x', itr', db'). x' = fold seen (lives rest) x \<and> counted itr (lives rest) itr'
    \<and> meta db' = meta db \<and> (\<exists>g L'. kv_inv K s m g L' db' \<and> kv_store s m L' = visited removes (lives rest) (kv_store s m L)))"
  using assms
proof (induction "length rest" arbitrary: rest f L db itr x rule: less_induct)
  case less
  let ?post = "\<lambda>rest db itr L (x', itr', db'). x' = fold seen (lives rest) x \<and> counted itr (lives rest) itr'
    \<and> meta db' = meta db \<and> (\<exists>g L'. kv_inv K s m g L' db' \<and> kv_store s m L' = visited removes (lives rest) (kv_store s m L))"
  have step: "holds (case r of (has_next, itr, db) \<Rightarrow> if has_next then do {
         (x, db) \<leftarrow> body (itr_curr_kv itr) x db;
         kv_iterate_while body x db itr
       } else Some (x, itr, db)) (?post rest db itr L)"
    if r: "case r of (ok, itr', db') \<Rightarrow> kv_inv K s m f L db' \<and>
      (if ok then \<exists>ps a n rest' kv. rest = ps @ (a, n) # rest' \<and> lives ps = [] \<and> \<not> dead n \<and> itr_curr_kv itr' = node_kv kv a n
        \<and> counted itr [n] itr' \<and> ahead s (m div s) L start itr' rest'
       else lives rest = [] \<and> counted itr [] itr')" "meta (snd (snd r)) = meta db" for r
  proof -
    obtain ok itr1 db1 where rr: "r = (ok, itr1, db1)" by (cases r)
    have inv1: "kv_inv K s m f L db1" "meta db1 = meta db" using r rr by auto
    have db1: "db_init_ok db1" "lock_pair db1"
      using less.prems(2) inv1(2) lock_pair_meta [OF less.prems(3) inv1(2)] by (simp_all add: meta_def)
    show ?thesis
    proof (cases ok)
      case False
      have "visited removes [] M = M" for M by (simp add: visited_def fun_eq_iff)
      with False show ?thesis using r(1) inv1 rr by auto
    next
      case True
      with r(1) rr obtain ps a n rest' kv where rest: "rest = ps @ (a, n) # rest'" "lives ps = []" and n: "\<not> dead n"
        "itr_curr_kv itr1 = node_kv kv a n" "counted itr [n] itr1" "ahead s (m div s) L start itr1 rest'" by auto
      have nin: "node_in s m L a n" by (rule ahead_node_in [OF less.prems(5)]) (simp add: rest)
      have fresh: "a \<notin> fst ` set rest'" "distinct (map fst rest')" using less.prems(6) rest by auto
      have "holds (kv_iterate_while body x1 db2 itr1) (?post rest db itr L)"
        if b: "x1 = seen n x" "meta db2 = meta db1" "kv_inv K s m g L' db2"
          "if removes (nd_key n) then taken s m L a L' \<and> kv_store s m L' = (kv_store s m L)(nd_key n := None) else L' = L"
        for x1 db2 g L'
      proof -
        have db2: "db_init_ok db2" "lock_pair db2"
          using db1(1) b(2) lock_pair_meta [OF db1(2) b(2)] by (simp_all add: meta_def)
        have at2: "ahead s (m div s) L' start itr1 rest'"
          using b(4) n(4) ahead_taken [OF _ n(4) fresh(1)] by (auto split: if_splits)
        have st: "visited removes (lives rest') (kv_store s m L') = visited removes (lives rest) (kv_store s m L)"
          using b(4) rest n(1) by (intro ext) (auto simp: visited_def split: if_splits)
        show ?thesis
          by (rule holds_mono [OF less.hyps [OF _ b(3) db2 less.prems(4) at2 fresh(2), of x1]])
             (use rest n(1) st b(1,2) inv1(2) counted_trans [OF n(3)] in auto)
      qed
      with body_ok [OF inv1(1) db1 nin n(1), of kv x] n(2) True rr show ?thesis
        by (auto elim!: holds_mono)
    qed
  qed
  have "yields (fdb_kv_iterate db itr) (\<lambda>r. meta (snd (snd r)) = meta db)" by (rule iterate_meta) simp
  then show ?case
    unfolding kv_iterate_while.simps [of body x db itr] holds_bind
    by (rule holds_yields [OF iterate_inv [OF less.prems(1,4,5)]]) (rule step)
qed


text \<open>The whole loop from the initialised iterator.\<close>

lemma client_ready:
  assumes r: "kv_ready K M db"
  shows "holds (kv_iterate_while body x db (fdb_kv_iterator_init db itr)) (\<lambda>(x', itr', db'). \<exists>ns. x' = fold seen ns x
    \<and> distinct (map nd_key ns) \<and> map_of (map (\<lambda>n. (nd_key n, nd_val n)) ns) = M \<and> counted (fdb_kv_iterator_init db itr) ns itr'
    \<and> meta db' = meta db \<and> kv_ready K (M |` {k. \<not> removes k}) db')"
proof -
  from r obtain s m f L where i: "db_init_ok db" "lock_pair db" "kv_inv K s m f L db" "kv_store s m L = M" "db_sec_size db = s"
    by (rule kv_readyE)
  note at = ahead_init [OF kv_invD(1) [OF i(3)]] and st = lives_store [OF i(3)]
  let ?ns = "lives (all_nodes s m (db_oldest_addr db) L)"
  have "dom (kv_store s m L) = nd_key ` set ?ns" unfolding st(2) [symmetric] dom_map_of_conv_image_fst by force
  then have v: "visited removes ?ns (kv_store s m L) = M |` {k. \<not> removes k}"
    using i(4) by (auto simp: visited_def restrict_map_def fun_eq_iff domIff)
  show ?thesis
    by (rule holds_mono [OF iterate_all_ok [OF i(3,1,2) at(3) at(1) [of itr] at(2), of x]])
       (use v st i(4) kv_readyI [OF _ _ _ i(1,2)] in \<open>fastforce\<close>)
qed

end


section \<open>A client that reads everything\<close>

definition collect_kv :: "fdb_kv \<Rightarrow> (byte list \<times> byte list) list \<Rightarrow> fdb_kvdb \<Rightarrow> ((byte list \<times> byte list) list \<times> fdb_kvdb) option" where
  "collect_kv kv xs db = do {
     (n, blob, db) \<leftarrow> fdb_blob_read db
       (fdb_kv_to_blob kv (fdb_blob_make blob0 (Some (replicate (kv_value_len kv) 0)) (kv_value_len kv)));
     Some (xs @ [(take (kv_name_len kv) (kv_name kv), take n (the (blob_buf blob)))], db) }"

lemma take_node_name: "length key < 64 \<Longrightarrow> take (length key) (node_name key old) = key"
  by (simp add: node_name_def FDB_KV_NAME_MAX_def)

lemma live_key_ok:
  assumes "kv_inv K s m f L db" "node_in s m L a n" "\<not> dead n"
  shows "nd_key n \<in> K" "key_ok (nd_key n)"
proof -
  have l: "logs_ok K s m L" by (rule kv_invD(3) [OF assms(1)])
  from l assms(2,3) show "nd_key n \<in> K" unfolding logs_ok_def dead_def by blast
  with l show "key_ok (nd_key n)" unfolding logs_ok_def by blast
qed

interpretation collector: node_client K collect_kv "\<lambda>n xs. xs @ [(nd_key n, nd_val n)]" "\<lambda>_. False" for K
proof
  fix s m f L db a n kv x
  assume inv: "kv_inv K s m f L db" and "db_init_ok db" "lock_pair db" and n: "node_in s m L a n" "\<not> dead n"
  note r = kv_invD(1) [OF inv]
  have key: "length (nd_key n) < 64" using live_key_ok(2) [OF inv n] by (simp add: key_ok_def FDB_KV_NAME_MAX_def)
  let ?v = "nd_val n"
  have "holds (fdb_flash_read db (a + 24 + length (nd_key n)) (replicate (length ?v) 0) (length ?v))
     (\<lambda>(r, b, db'). (?v \<noteq> [] \<longrightarrow> r = FDB_NO_ERR) \<and> b = ?v \<and> kv_inv K s m f L db')"
    by (rule stored_read [OF kv_relD(1) [OF r] node_value(2) [OF r n(1)]])
       (use node_value(1) [OF r n(1), of "length ?v"] kv_inv_io [OF inv] in simp_all)
  moreover have "yields (fdb_flash_read db (a + 24 + length (nd_key n)) (replicate (length ?v) 0) (length ?v)) (\<lambda>(r, b, db'). meta db' = meta db)"
    by (rule read_meta) simp
  ultimately have "holds (fdb_flash_read db (a + 24 + length (nd_key n)) (replicate (length ?v) 0) (length ?v))
     (\<lambda>(r, b, db'). (?v \<noteq> [] \<longrightarrow> r = FDB_NO_ERR) \<and> b = ?v \<and> kv_inv K s m f L db' \<and> meta db' = meta db)"
    by (rule holds_yields) auto
  then show "holds (collect_kv (node_kv kv a n) x db) (\<lambda>(x', db'). x' = x @ [(nd_key n, ?v)] \<and> meta db' = meta db \<and>
       (\<exists>g L'. kv_inv K s m g L' db' \<and> (if False then taken s m L a L' \<and> kv_store s m L' = (kv_store s m L)(nd_key n := None) else L' = L)))"
    by (auto simp: collect_kv_def fdb_blob_read_def fdb_kv_to_blob_def fdb_blob_make_def Let_def take_node_name [OF key] elim!: holds_mono)
qed

lemma fold_collect: "fold (\<lambda>n xs. xs @ [h n]) ns xs = xs @ map h ns"
  by (induction ns arbitrary: xs) simp_all



section \<open>The integrity check\<close>

lemma check_sector_ok:
  assumes "stored s m f db" "sector_holds s f b sst d (pre @ ns)" "ns \<noteq> []" "b mod s = 0" "b < m"
    and "sec_addr sector = b" "sec_store sector \<noteq> FDB_SECTOR_STORE_EMPTY" "end_cached db b (pre @ ns)"
    and "\<And>kv' db'. stored s m f db' \<Longrightarrow> io_frame db db' \<Longrightarrow> Q (FDB_NO_ERR, kv', db')"
  shows "holds (kvdb_check_sector db sector (kv\<lparr>kv_addr_start := b + 16 + nodes_len pre\<rparr>)) Q"
  using assms
proof (induction ns arbitrary: pre kv db)
  case (Cons n post)
  let ?a = "b + 16 + nodes_len pre"
  note i = storedD [OF Cons.prems(1)] and b = Cons.prems(4,5) and bd = sector_bounds [OF Cons.prems(1,2,4,5)]
  have n: "node_at f ?a n" "node_ok n" using Cons.prems(2) by (auto simp: sector_holds_def nodes_at_append)
  have sec: "in_sector s m ?a (node_len n)"
    using in_sector_at [OF i(4) b, of "16 + nodes_len pre" "node_len n"] bd(2) by (simp add: log_end_def add.assoc)
  have ne: "?a + node_len n \<noteq> FAILED_ADDR"
    using bd stored_top [OF Cons.prems(1)] by (simp add: FAILED_ADDR_def log_end_def)
  have "holds (get_next_kv_addr db1 sector (node_kv kv ?a n))
     (\<lambda>r. holds (case r of (a, db) \<Rightarrow> if a \<noteq> FAILED_ADDR \<and> FDB_NO_ERR = FDB_NO_ERR
        then kvdb_check_sector db sector ((node_kv kv ?a n)\<lparr>kv_addr_start := a\<rparr>)
        else Some (FDB_NO_ERR, (node_kv kv ?a n)\<lparr>kv_addr_start := a\<rparr>, db)) Q)"
    if d: "stored s m f db1" "io_frame db db1" for db1
  proof (rule get_next_node [OF d(1) Cons.prems(2) b Cons.prems(6,7)], goal_cases)
    case (5 db2)
    note fr = io_frame_trans [OF d(2) 5(2)]
    show ?case
    proof (cases "post = []")
      case True
      then show ?thesis using Cons.prems(9) [OF 5(1) fr] by simp
    next
      case False
      have "holds (kvdb_check_sector db2 sector ((node_kv kv ?a n)\<lparr>kv_addr_start := b + 16 + nodes_len (pre @ [n])\<rparr>)) Q"
        by (rule Cons.IH) (use False Cons.prems 5 end_cached_frame [OF fr] io_frame_trans [OF fr] in simp_all)
      then show ?thesis using False ne by (simp add: add.assoc)
    qed
  qed (use Cons.prems(8) end_cached_frame [OF d(2)] in simp_all)
  then show ?case
    by (subst kvdb_check_sector.simps, unfold holds_bind, intro read_kv_node [OF Cons.prems(1) n sec])
       (simp add: Let_def split_def cong: if_cong)
qed simp


lemma check_loop_ok:
  assumes "kv_rel s m f L db" "m + s < 2 ^ 32" "start < m div s" "k < m div s"
    and "\<And>db'. kv_rel s m f L db' \<Longrightarrow> kv_frame db db' \<Longrightarrow> kvdb_kv_cache_table db' = kvdb_kv_cache_table db \<Longrightarrow> Q (FDB_NO_ERR, db')"
  shows "holds (kvdb_check_loop db sector kv ((start + k) mod (m div s) * s) (k * s)) Q"
  using assms
proof (induction "m div s - k" arbitrary: k db sector kv)
  case 0
  then show ?case by simp
next
  case (Suc l)
  let ?q = "m div s" and ?i = "(start + k) mod (m div s)"
  note r = Suc.prems(1) and rel = kv_relD [OF Suc.prems(1)] and sd = storedD [OF kv_relD(1) [OF Suc.prems(1)]]
  have q: "0 < ?q" and i: "?i < ?q" using Suc.prems(4) by simp_all
  obtain st d ns where L: "L ?i = (st, d, ns)" by (cases "L ?i")
  note sa = sector_addr [OF rel(1) i] and sh = sectors_holdD [OF rel(2) i L]
  have geo: "db_sec_size db = s" using rel(1) by simp
  have "Suc k * s \<le> ?q * s" using Suc.prems(4) by (intro mult_le_mono1) simp
  then have tl: "u32 (k * s + s) = Suc k * s" using sd(4,5) by (simp add: u32_def)
  have "16 \<le> s" using sh by (simp add: sector_holds_def)
  then have u: "u32 (?i * s + SECTOR_HDR_DATA_SIZE) = ?i * s + 16 + nodes_len []"
    using stored_u32_le [OF rel(1), of "?i * s + 16"] sa(5) by (simp add: SECTOR_HDR_DATA_SIZE_def)
  have on: "holds (let a = kv_get_next_sector_addr db2 sec (Suc k * s) in
      if a \<noteq> FAILED_ADDR \<and> FDB_NO_ERR = FDB_NO_ERR then kvdb_check_loop db2 sec kv2 a (Suc k * s) else Some (FDB_NO_ERR, db2)) Q"
    if info: "sec_info_ok s (?i * s) st d ns sec"
      and r2: "kv_rel s m f L db2" "kv_frame db db2" "kvdb_kv_cache_table db2 = kvdb_kv_cache_table db" for sec db2 kv2
  proof -
    have nx: "kv_get_next_sector_addr db2 sec (Suc k * s) = (if Suc k < ?q then (Suc ?i mod ?q) * s else FAILED_ADDR)"
      by (rule next_sector [OF kv_relD(1) [OF r2(1)] Suc.prems(2) _ _ i])
         (use info Suc.prems(4) in \<open>auto simp: sec_info_ok_def\<close>)
    show ?thesis
    proof (cases "Suc k < ?q")
      case True
      have ia: "Suc ?i mod ?q = (start + Suc k) mod ?q" by (simp add: mod_Suc_eq)
      have "(start + Suc k) mod ?q * s \<noteq> FAILED_ADDR" by (rule sector_addr(6) [OF rel(1)]) (use q in simp)
      moreover have "holds (kvdb_check_loop db2 sec kv2 ((start + Suc k) mod ?q * s) (Suc k * s)) Q"
        by (rule Suc.hyps(1)) (use Suc.hyps(2) True Suc.prems r2 kv_frame_trans [OF r2(2)] in auto)
      ultimately show ?thesis using True nx ia by simp
    qed (use nx Suc.prems(5) [OF r2] in simp)
  qed
  show ?case
  proof (subst kvdb_check_loop.simps, unfold Let_def holds_bind geo tl, rule read_sector_plain [OF r i L], goal_cases)
    case (1 sec db1)
    note info = 1(1) and r1 = 1(2-4)
    have sec: "sec_addr sec = ?i * s" "sec_store sec = st" using info by (simp_all add: sec_info_ok_def)
    show ?case
    proof (cases "ns = []")
      case True
      with sh have "st = FDB_SECTOR_STORE_EMPTY" by (auto simp: sector_holds_def)
      then show ?thesis using on [OF info r1, of kv] sec by (simp add: Let_def cong: if_cong)
    next
      case False
      with sh have st: "st = FDB_SECTOR_STORE_USING" by (auto simp: sector_holds_def)
      have "holds (kvdb_check_sector db1 sec (kv\<lparr>kv_addr_start := ?i * s + 16 + nodes_len []\<rparr>))
        (\<lambda>r. holds (case r of (result, kv, db) \<Rightarrow> let a = kv_get_next_sector_addr db sec (Suc k * s) in
           if a \<noteq> FAILED_ADDR \<and> result = FDB_NO_ERR then kvdb_check_loop db sec kv a (Suc k * s) else Some (result, db)) Q)"
      proof (rule check_sector_ok [OF kv_relD(1) [OF r1(1)] _ False sa(1,2) sec(1)], goal_cases)
        case (4 kv' db')
        from on [OF info kv_rel_frame [OF r1(1) 4] kv_frame_trans [OF r1(2) kv_frame_io [OF 4(2)]], of kv'] r1(3) io_frame_kv(2) [OF 4(2)]
        show ?case by simp
      qed (use sh sec st end_cached_rel [OF r1(1) i L] in simp_all)
      then show ?thesis using sec st by (simp add: u Let_def cong: if_cong)
    qed
  qed
qed


section \<open>A database with one key for the examples\<close>

definition demo_key :: "byte list" where
  "demo_key = [115, 58, 101, 58, 107]"

definition demo_itr :: fdb_kv_iterator where
  "demo_itr = \<lparr>itr_curr_kv = demo_kv, itr_iterated_cnt = 7, itr_iterated_obj_bytes = 7, itr_iterated_value_bytes = 7,
     itr_sector_addr = 0, itr_traversed_len = 0\<rparr>"

lemma demo_one_key: "\<exists>db. kv_ready {demo_key} [demo_key \<mapsto> [7, 8]] db"
proof -
  have K: "inj_on name_crc16 {demo_key}" "\<forall>k \<in> {demo_key}. key_ok k"
    by (simp_all add: demo_key_def key_ok_def FDB_KV_NAME_MAX_def c_string_def)
  note new = set_default_inv [OF demo_kvdb_ok _ _ _ _ _ _ _ _ _ _ _ _ K]
  have "holds (fdb_kv_set_default demo_kvdb) (\<lambda>(r, db). r = FDB_NO_ERR \<and> meta db = meta demo_kvdb
     \<and> (\<exists>g. kv_inv {demo_key} 4096 16384 g no_logs db))"
    by (rule new(1) [unfolded demo_geometry]; simp add: demo_kvdb_def demo_sector_def lock_pair_def
        FDB_SECTOR_CACHE_TABLE_SIZE_def FDB_KV_CACHE_TABLE_SIZE_def)
  then obtain db g where db: "kv_inv {demo_key} 4096 16384 g no_logs db" "meta db = meta demo_kvdb" by (auto simp: holds_ex)
  have i: "db_init_ok db" "lock_pair db"
    using db(2) demo_geometry(3) lock_pair_meta [OF demo_geometry(4) db(2)] by (simp_all add: meta_def)
  have free: "free_place 4096 16384 no_logs (24 + length demo_key + 2)"
    unfolding free_place_def no_logs_def FDB_SEC_REMAIN_THRESHOLD_def KV_HDR_DATA_SIZE_def FDB_KV_NAME_MAX_def demo_key_def
    by (intro disjI2 conjI exI [of _ 0] exI [of _ 1]) simp_all
  have "holds (fdb_kv_set_blob db demo_key (fdb_blob_make blob0 (Some [7, 8]) 2)) (\<lambda>(r, db').
      \<exists>g L. kv_inv {demo_key} 4096 16384 g L db' \<and> kv_store 4096 16384 L = (kv_store 4096 16384 no_logs)(demo_key \<mapsto> [7, 8]))"
    by (rule holds_mono [OF set_blob_inv [OF db(1) i(1), where v = "[7, 8]"]])
       (use K free in \<open>auto simp: demo_key_def FDB_SEC_REMAIN_THRESHOLD_def KV_HDR_DATA_SIZE_def FDB_KV_NAME_MAX_def split: if_splits\<close>)
  from holds_yields [OF this public_meta(1) [OF i(2)], of "\<lambda>(r, db'). kv_ready {demo_key} [demo_key \<mapsto> [7, 8]] db'"]
  have "holds (fdb_kv_set_blob db demo_key (fdb_blob_make blob0 (Some [7, 8]) 2)) (\<lambda>(r, db'). kv_ready {demo_key} [demo_key \<mapsto> [7, 8]] db')"
    using kv_readyI [OF _ _ _ i] demo_inv(2) [unfolded demo_geometry] by fastforce
  then show ?thesis by (auto simp: holds_ex)
qed


section \<open>Properties\<close>

text \<open>
  C17: a loop over \<open>fdb_kv_iterate\<close> from an initialised iterator ends, and shows every key of the database
  exactly once with its value: the pairs it collects, read with \<open>fdb_kv_to_blob\<close> and \<open>fdb_blob_read\<close>, have
  distinct keys and are the entries of the map. Deleted and superseded nodes are skipped, whatever sectors
  they are in. The counters of the iterator are the number of keys (modulo \<open>2 ^ 32\<close>) and the sum of the lengths
  of the values (modulo \<open>2 ^ 64\<close>), and the database still represents the same map.
\<close>

theorem kv_iterate_shows_map:
  assumes "kv_ready K M db"
  shows "holds (kv_iterate_while collect_kv [] db (fdb_kv_iterator_init db itr)) (\<lambda>(xs, itr', db').
    distinct (map fst xs) \<and> map_of xs = M \<and> itr_iterated_cnt itr' = u32 (length xs)
    \<and> itr_iterated_value_bytes itr' = u64 (sum_list (map (length \<circ> snd) xs)) \<and> kv_ready K M db')"
proof (rule holds_mono [OF collector.client_ready [OF assms, of "[]" itr]], clarify, goal_cases)
  case (1 xs itr' db' ns)
  have "M |` {k. \<not> False} = M" by (auto simp: restrict_map_def)
  with 1 show ?case
    by (auto simp: fold_collect comp_def counted_def fdb_kv_iterator_init_def u32_def u64_def split: if_splits)
qed

theorem kv_iterate_shows_map_witness:
  "\<exists>db. kv_ready {demo_key} [demo_key \<mapsto> [7, 8]] db \<and>
     holds (kv_iterate_while collect_kv [] db (fdb_kv_iterator_init db demo_itr)) (\<lambda>(xs, itr', db').
       distinct (map fst xs) \<and> map_of xs = [demo_key \<mapsto> [7, 8]] \<and> itr_iterated_cnt itr' = u32 (length xs)
       \<and> itr_iterated_value_bytes itr' = u64 (sum_list (map (length \<circ> snd) xs)) \<and> kv_ready {demo_key} [demo_key \<mapsto> [7, 8]] db')"
  using demo_one_key kv_iterate_shows_map by blast

text \<open>
  C19: the integrity check \<open>fdb_kvdb_check\<close> accepts every database that represents a map, whatever
  calls have produced it, and leaves it as it is.
\<close>

theorem kvdb_check_passes:
  assumes "kv_ready K M db"
  shows "holds (fdb_kvdb_check db) (\<lambda>(r, db'). r = FDB_NO_ERR \<and> kv_ready K M db')"
proof -
  from assms obtain s m f L where i: "db_init_ok db" "lock_pair db" "kv_inv K s m f L db" "kv_store s m L = M" "db_sec_size db = s"
    by (rule kv_readyE)
  note inv = kv_invD [OF i(3)]
  let ?o = "db_oldest_addr db div s" and ?db = "db_lock db"
  have o: "?o < m div s" by (rule oldest_index [OF inv(1)])
  have "?o * s = db_oldest_addr db" using kv_relD(5) [OF inv(1)] by auto
  moreover have "db_oldest_addr ?db = db_oldest_addr db" by (simp add: db_lock_def)
  ultimately have oa: "db_oldest_addr ?db = (?o + 0) mod (m div s) * s" using o by simp
  have invl: "kv_inv K s m f L ?db" using i(3) by simp
  have "holds (kvdb_check_loop ?db (kvdb_stack_sector ?db) (kvdb_stack_kv ?db) (db_oldest_addr ?db) (0 * s))
      (\<lambda>(r, db'). r = FDB_NO_ERR \<and> kv_inv K s m f L db')"
    unfolding oa
    by (rule check_loop_ok [OF kv_invD(1) [OF invl] inv(2) o])
       (use o kv_inv_frame [OF invl] kv_invD(4) [OF invl] in auto)
  then have "holds (fdb_kvdb_check db) (\<lambda>(r, db'). r = FDB_NO_ERR \<and> kv_inv K s m f L db')"
    using i(1) by (auto simp: fdb_kvdb_check_def Let_def elim!: holds_mono)
  then show ?thesis
    by (rule holds_yields [OF _ public_meta(6) [OF i(2)]]) (use kv_readyI [OF _ i(4) _ i(1,2)] in auto)
qed

theorem kvdb_check_passes_witness:
  "\<exists>db. kv_ready {demo_key} [demo_key \<mapsto> [7, 8]] db \<and>
     holds (fdb_kvdb_check db) (\<lambda>(r, db'). r = FDB_NO_ERR \<and> kv_ready {demo_key} [demo_key \<mapsto> [7, 8]] db')"
  using demo_one_key kvdb_check_passes by blast

end
