(* ===== verification/FlashStore.thy ===== *)
theory FlashStore
  imports KvIterate
begin

text \<open>
  The cache back end over the key-value database (\<open>flashdb_store.rs\<close>): get, set, delete, delete by prefix
  and flush as calls of the C functions. Strings are their bytes; a Rust vector that is handed to C is the
  buffer of the blob.
\<close>

section \<open>The back end\<close>

definition colon :: byte where
  "colon = 58"

definition internal_key :: "byte list \<Rightarrow> byte list \<Rightarrow> byte list \<Rightarrow> byte list" where
  "internal_key store entity key = store @ [colon] @ entity @ [colon] @ key"

text \<open>
  \<open>CString::new\<close> fails on a NUL byte. \<open>fdb_blob_make\<close> is called with a null pointer after the blob has been
  given the buffer; the length that \<open>fdb_kv_get_blob\<close> returns is compared with the error code 0.
\<close>

definition store_get :: "fdb_kvdb \<Rightarrow> byte list \<Rightarrow> byte list \<Rightarrow> byte list \<Rightarrow> (byte list option \<times> fdb_kvdb) option" where
  "store_get db store entity key =
     (let kv_key = internal_key store entity key in
      if 0 \<in> set kv_key then Some (None, db)
      else do {
        let buf = replicate 8192 0;
        let blob = blob0\<lparr>blob_buf := Some buf, blob_size := length buf\<rparr>;
        (result, blob, db) \<leftarrow> fdb_kv_get_blob db kv_key (fdb_blob_make blob None 0);
        let buf = (case blob_buf blob of None \<Rightarrow> buf | Some b \<Rightarrow> b);
        Some (if u32 result \<noteq> 0 \<or> blob_len blob = 0 then None else Some (take (blob_len blob) buf), db)
      })"

definition store_set :: "fdb_kvdb \<Rightarrow> byte list \<Rightarrow> byte list \<Rightarrow> byte list \<Rightarrow> byte list \<Rightarrow> fdb_kvdb option" where
  "store_set db store entity key value =
     (let kv_key = internal_key store entity key in
      if 0 \<in> set kv_key then Some db
      else do {
        (result, db) \<leftarrow> fdb_kv_set_blob db kv_key (fdb_blob_make blob0 (Some value) (length value));
        Some db
      })"

definition store_del :: "fdb_kvdb \<Rightarrow> byte list \<Rightarrow> byte list \<Rightarrow> byte list \<Rightarrow> fdb_kvdb option" where
  "store_del db store entity key =
     (let kv_key = internal_key store entity key in
      if 0 \<in> set kv_key then Some db
      else do {
        (result, db) \<leftarrow> fdb_kv_del db kv_key;
        Some db
      })"

definition starts_with :: "byte list \<Rightarrow> byte list \<Rightarrow> bool" where
  "starts_with p xs \<longleftrightarrow> take (length p) xs = p"

text \<open>
  The body of the loop of \<open>delete_by_prefix\<close>. The C string at \<open>kv.name\<close> ends at the first NUL.
\<close>

definition delete_matching :: "byte list \<Rightarrow> fdb_kv \<Rightarrow> unit \<Rightarrow> fdb_kvdb \<Rightarrow> (unit \<times> fdb_kvdb) option" where
  "delete_matching full_prefix kv x db =
     (let name_bytes = take (kv_name_len kv) (kv_name kv) in
      if starts_with full_prefix name_bytes then do {
        (result, db) \<leftarrow> fdb_kv_del db (takeWhile (\<lambda>c. c \<noteq> 0) (kv_name kv));
        Some ((), db)
      } else Some ((), db))"

definition zeroed_kv :: fdb_kv where
  "zeroed_kv = \<lparr>kv_status = FDB_KV_UNUSED, kv_crc_is_ok = False, kv_name_len = 0, kv_len = 0,
     kv_value_len = 0, kv_name = replicate FDB_KV_NAME_MAX 0, kv_addr_start = 0, kv_addr_value = 0\<rparr>"

definition zeroed_itr :: fdb_kv_iterator where
  "zeroed_itr = \<lparr>itr_curr_kv = zeroed_kv, itr_iterated_cnt = 0, itr_iterated_obj_bytes = 0, itr_iterated_value_bytes = 0,
     itr_sector_addr = 0, itr_traversed_len = 0\<rparr>"

definition store_delete_by_prefix :: "fdb_kvdb \<Rightarrow> byte list \<Rightarrow> byte list \<Rightarrow> fdb_kvdb option" where
  "store_delete_by_prefix db store prefix =
     (let full_prefix = store @ [colon] @ prefix @ [colon] in
      do {
        ((), itr, db) \<leftarrow> kv_iterate_while (delete_matching full_prefix) () db (fdb_kv_iterator_init db zeroed_itr);
        Some db
      })"

definition store_flush :: "fdb_kvdb \<Rightarrow> byte list \<Rightarrow> fdb_kvdb option" where
  "store_flush db store = store_delete_by_prefix db store []"





definition store_drop :: "fdb_kvdb \<Rightarrow> (fdb_err_t \<times> fdb_kvdb) option" where
  "store_drop db = fdb_kvdb_deinit db"


section \<open>Deleting while iterating\<close>

lemma take_while_name:
  assumes "length key < 64" "0 \<notin> set key"
  shows "takeWhile (\<lambda>c. c \<noteq> 0) (node_name key old) = key"
proof -
  have "node_name key old = key @ (drop (length key) old)[0 := 0]"
    using assms(1) by (simp add: node_name_def FDB_KV_NAME_MAX_def list_update_append)
  then show ?thesis using assms(2) by (cases "drop (length key) old") (auto simp: takeWhile_append)
qed

lemma del_taken:
  assumes inv: "kv_inv K s m f L db" and i: "db_init_ok db" "lock_pair db" and n: "node_in s m L a n" "\<not> dead n"
  shows "holds (fdb_kv_del db (nd_key n)) (\<lambda>(r, db'). meta db' = meta db \<and> (\<exists>g L'. kv_inv K s m g L' db'
    \<and> taken s m L a L' \<and> kv_store s m L' = (kv_store s m L)(nd_key n := None)))"
proof -
  let ?key = "nd_key n"
  note key = live_key_ok [OF inv n]
  have invl: "kv_inv K s m f L (db_lock db)" using inv by simp
  have one: "one_live s m L" using kv_invD(3) [OF inv] by (simp add: logs_ok_def)
  have len: "strlen ?key = length ?key" using key(2) by (simp add: key_ok_def)
  have live: "live ?key n" using n(2) by (simp add: live_def dead_def)
  have "holds (del_kv (db_lock db) (Some ?key) None True) (\<lambda>(r, db'). \<exists>g L'. kv_inv K s m g L' db'
     \<and> taken s m L a L' \<and> kv_store s m L' = (kv_store s m L)(?key := None))"
    unfolding del_kv_def option.case holds_bind
  proof (rule find_kv_inv [OF invl key(2,1)], goal_cases)
    case (1 kv' db')
    then show ?case using n live by (auto simp: no_live_def)
  next
    case (2 b x kv0 db1)
    note j = kv_invD [OF 2(3)]
    have "b = a" using one 2(1,2) n unfolding one_live_def live_def dead_def by blast
    with 2(1) have "x = n" using node_in_unique [OF j(1)] n(1) by blast
    obtain i st d pre post where at: "i < m div s" "L i = (st, d, pre @ n # post)" and a: "a = i * s + 16 + nodes_len pre"
      using n(1) by (auto simp: node_in_def)
    have "holds (del_kv_node db1 (Some ?key) (node_kv kv0 a n) True) (\<lambda>(r, db'). \<exists>g L'. kv_inv K s m g L' db'
       \<and> taken s m L a L' \<and> kv_store s m L' = (kv_store s m L)(?key := None))"
    proof (rule del_node_rel [OF j(1) at], simp add: a, goal_cases)
      case (1 g db')
      let ?L = "L(i := (st, dirtied d, pre @ n\<lparr>nd_status := deleted True\<rparr> # post))"
      have gone: "node_gone s m L a n True ?L" using gone_at [OF j(1) at] a by simp
      have tab: "kvdb_kv_cache_table db' = kvdb_kv_cache_table (update_kv_cache db1 ?key FDB_DATA_UNUSED)"
        using 1(3) j(6) by (simp add: del_name_def len)
      have "taken s m L a ?L"
        unfolding taken_def using at a
        by (intro exI [of _ i] exI [of _ st] exI [of _ d] exI [of _ pre] exI [of _ n] exI [of _ post] exI [of _ "dirtied d"])
           (simp add: deleted_def)
      then show ?case
        using kv_inv_del [OF 2(3) n(1) live key(2) 1(1) gone 1(2) tab] gone_store [OF j(1) gone n(1) live j(3) 1(1)] by blast
    qed
    then show ?case using \<open>b = a\<close> \<open>x = n\<close> by simp
  qed
  then have "holds (fdb_kv_del db ?key) (\<lambda>(r, db'). \<exists>g L'. kv_inv K s m g L' db'
     \<and> taken s m L a L' \<and> kv_store s m L' = (kv_store s m L)(?key := None))"
    using i(1) by (auto simp: fdb_kv_del_def elim!: holds_mono) blast
  then show ?thesis by (rule holds_yields [OF _ public_meta(2) [OF i(2)]]) auto
qed

interpretation prefix_client: node_client K "delete_matching p" "\<lambda>_ _. ()" "starts_with p" for K p
proof
  fix s m f L db a n kv x
  assume inv: "kv_inv K s m f L db" and i: "db_init_ok db" "lock_pair db" and n: "node_in s m L a n" "\<not> dead n"
  have "length (nd_key n) < 64" "0 \<notin> set (nd_key n)"
    using live_key_ok(2) [OF inv n] by (auto simp: key_ok_def FDB_KV_NAME_MAX_def c_string_def list_all_iff)
  then show "holds (delete_matching p (node_kv kv a n) x db) (\<lambda>(x', db'). x' = () \<and> meta db' = meta db \<and>
       (\<exists>g L'. kv_inv K s m g L' db' \<and> (if starts_with p (nd_key n) then taken s m L a L' \<and> kv_store s m L' = (kv_store s m L)(nd_key n := None) else L' = L)))"
    using del_taken [OF inv i n] inv
    by (auto simp: delete_matching_def take_node_name take_while_name elim!: holds_mono) blast
qed

lemma delete_by_prefix_ready:
  assumes "kv_ready K M db"
  shows "holds (store_delete_by_prefix db store prefix) (\<lambda>db'.
    kv_ready K (M |` {k. \<not> starts_with (store @ [colon] @ prefix @ [colon]) k}) db')"
  unfolding store_delete_by_prefix_def Let_def holds_bind
  by (rule holds_mono [OF prefix_client.client_ready [OF assms]]) (simp add: split_def split: unit.split, blast)

lemma demo_key_parts: "internal_key [115] [101] [107] = demo_key"
  by (simp add: internal_key_def colon_def demo_key_def)


section \<open>A database without file mode\<close>








section \<open>Properties\<close>

text \<open>
  C18: \<open>delete_by_prefix\<close> ends and removes exactly the keys that start with the store, the prefix and a colon
  after each, although it deletes while it iterates; every other key keeps its value.
\<close>

theorem delete_by_prefix_removes:
  assumes "kv_ready K M db"
  shows "holds (store_delete_by_prefix db store prefix) (\<lambda>db'. kv_ready K
    (\<lambda>k. if starts_with (store @ [colon] @ prefix @ [colon]) k then None else M k) db')"
proof -
  have "M |` {k. \<not> starts_with (store @ [colon] @ prefix @ [colon]) k}
      = (\<lambda>k. if starts_with (store @ [colon] @ prefix @ [colon]) k then None else M k)"
    by (auto simp: restrict_map_def)
  with delete_by_prefix_ready [OF assms, of store prefix] show ?thesis by simp
qed

theorem delete_by_prefix_removes_witness:
  "\<exists>db. kv_ready {demo_key} [demo_key \<mapsto> [7, 8]] db \<and>
     holds (store_delete_by_prefix db [115] [101]) (\<lambda>db'. kv_ready {demo_key} Map.empty db')"
proof -
  obtain db where db: "kv_ready {demo_key} [demo_key \<mapsto> [7, 8]] db" using demo_one_key by blast
  have "(\<lambda>k. if starts_with ([115] @ [colon] @ [101] @ [colon]) k then None else [demo_key \<mapsto> [7 :: byte, 8]] k) = Map.empty"
    by (auto simp: starts_with_def colon_def demo_key_def)
  with delete_by_prefix_removes [OF db, of "[115]" "[101]"] db show ?thesis by auto
qed

text \<open>
  C21: \<open>get\<close> never returns a stored value. It gives the blob its buffer and then calls \<open>fdb_blob_make\<close> with a
  null pointer and size 0, so the library reports the length of the value without reading it: for a value
  that is not empty the answer is a vector of zeros of that length, at most 8192.
\<close>

theorem store_get_returns_zeros:
  assumes "kv_ready K M db" "internal_key store entity key \<in> K" "M (internal_key store entity key) = Some v" "v \<noteq> []"
  shows "holds (store_get db store entity key) (\<lambda>(r, db'). r = Some (replicate (min 8192 (length v)) 0) \<and> kv_ready K M db')"
proof -
  let ?k = "internal_key store entity key" and ?b = "fdb_blob_make (blob0\<lparr>blob_buf := Some (replicate 8192 0), blob_size := 8192\<rparr>) None 0"
  from assms(1) obtain s m f L where i: "db_init_ok db" "lock_pair db" "kv_inv K s m f L db" "kv_store s m L = M" "db_sec_size db = s"
    by (rule kv_readyE)
  have key: "key_ok ?k" by (rule kv_ready_key [OF assms(1,2)])
  then have nul: "0 \<notin> set ?k" by (auto simp: key_ok_def c_string_def list_all_iff)
  have v: "kv_store s m L ?k = Some v" using i(4) assms(3) by simp
  have "holds (get_kv (db_lock db) ?k None 0) (\<lambda>(n, len, buf, db'). n = 0 \<and> len = length v \<and> buf = None \<and> kv_inv K s m f L db')"
    by (rule get_kv_inv [where s = s and m = m and f = f and L = L, OF _ key assms(2)]) (use i(3) in \<open>simp_all add: v got_def\<close>)
  then have "holds (fdb_kv_get_blob db ?k ?b) (\<lambda>(n, blob, db'). n = 0 \<and> blob_len blob = length v \<and> blob_buf blob = None \<and> kv_inv K s m f L db')"
    using i(1) by (auto simp: fdb_kv_get_blob_def fdb_blob_make_def elim!: holds_mono)
  then have "holds (fdb_kv_get_blob db ?k ?b) (\<lambda>(n, blob, db'). n = 0 \<and> blob_len blob = length v \<and> blob_buf blob = None \<and> kv_ready K M db')"
    by (rule holds_yields [OF _ public_meta(4) [OF i(2)]]) (use kv_readyI [OF _ i(4) _ i(1,2)] in auto)
  then show ?thesis
    using nul assms(4) by (auto simp: store_get_def Let_def u32_def min.commute elim!: holds_mono)
qed

theorem store_get_returns_zeros_witness:
  "\<exists>db. kv_ready {demo_key} [demo_key \<mapsto> [7, 8]] db \<and>
     holds (store_get db [115] [101] [107]) (\<lambda>(r, db'). r = Some [0, 0] \<and> kv_ready {demo_key} [demo_key \<mapsto> [7, 8]] db')"
proof -
  obtain db where db: "kv_ready {demo_key} [demo_key \<mapsto> [7, 8]] db" using demo_one_key by blast
  from store_get_returns_zeros [OF db, of "[115]" "[101]" "[107]" "[7, 8]"] db
  show ?thesis by (auto simp: demo_key_parts numeral_2_eq_2)
qed

text \<open>
  C22: \<open>flush\<close> does not empty the store: it deletes by the empty prefix, which stands for keys with an empty
  entity, so every entry whose entity is not empty and does not start with a colon stays.
\<close>

theorem store_flush_keeps_entries:
  assumes "kv_ready K M db" "entity \<noteq> []" "hd entity \<noteq> colon"
  shows "holds (store_flush db store) (\<lambda>db'. \<exists>M'. kv_ready K M' db' \<and>
    M' (internal_key store entity key) = M (internal_key store entity key))"
proof -
  have "\<not> starts_with (store @ [colon] @ [] @ [colon]) (internal_key store entity key)"
    using assms(2,3) by (cases entity) (auto simp: starts_with_def internal_key_def)
  then show ?thesis
    unfolding store_flush_def
    by (intro holds_mono [OF delete_by_prefix_ready [OF assms(1)]]) (auto simp: restrict_map_def)
qed

theorem store_flush_keeps_entries_witness:
  "\<exists>db. kv_ready {demo_key} [demo_key \<mapsto> [7, 8]] db \<and>
     holds (store_flush db [115]) (\<lambda>db'. \<exists>M'. kv_ready {demo_key} M' db' \<and> M' demo_key = Some [7, 8])"
proof -
  obtain db where db: "kv_ready {demo_key} [demo_key \<mapsto> [7, 8]] db" using demo_one_key by blast
  from store_flush_keeps_entries [OF db, of "[101]" "[115]" "[107]"] db
  show ?thesis by (auto simp: demo_key_parts colon_def)
qed



end
