(* ===== verification/Spec2Isabelle.thy ===== *)
theory Spec2Isabelle
  imports KvCrash TsApi FalSpec FlashStore
begin

text \<open>
  FlashDB as it is embedded in Ixmati (\<open>crates/ixmati-cache/flashdb-native\<close>): the C library under the cache
  service, a key-value database (KVDB) and a time-series database (TSDB) over a storage of equal sectors.

  \<^bold>\<open>The program.\<close> The configuration is that of \<open>fdb_cfg.h\<close> and the build script: file mode with the C library
  (\<open>FDB_USING_FILE_LIBC_MODE\<close>), write granularity of one bit, both databases, no automatic update of default
  values, 32-bit time stamps, a 64-bit little-endian machine. Each sector is one file of a directory. Writes may
  only clear bits between two erasures, so every status is a table of bits that is cleared one after the other
  (\<open>fdb_utils.c\<close>). KVDB and TSDB call the storage operations of \<open>fdb_utils.c\<close>, these call \<open>fdb_file.c\<close>, this
  calls \<open>fopen\<close>, \<open>fread\<close>, \<open>fwrite\<close>. Both databases share the initialisation and the lock macros of \<open>fdb.c\<close>.
  \<open>port/fal\<close> is the layer of flash devices and partitions that the library uses in place of files on a board.

  \<^bold>\<open>The model.\<close> Every definition is named after its C function (with a prefix \<open>kv_\<close> or \<open>ts_\<close> where both databases
  have a static function of the same name). A function takes the database record and returns it changed, in the
  option monad; \<open>None\<close> means that the C code has no defined result there: a failed \<open>FDB_ASSERT\<close>, a null pointer, a
  closed stream, an access outside of a buffer, or a loop that does not end. Error codes are values
  (\<open>fdb_err_t\<close>). Addresses and 32-bit sizes are natural numbers with the wrap-around written out (\<open>u32\<close>,
  \<open>sub32\<close>, \<open>u64\<close>, \<open>sub64\<close>), bytes and checksums are words, time stamps are integers in the range of \<open>int32_t\<close>.
  Loops whose end depends on the storage are \<open>partial_function (option)\<close>; there is no fuel. That they end is part
  of every statement with \<open>holds m P\<close> (the program \<open>m\<close> returns and its result satisfies \<open>P\<close>); \<open>yields m P\<close>
  speaks only of runs that return, and is used where a statement covers arbitrary storage contents.
  Local variables that the C code reads before it writes them are fields of the record (\<open>kvdb_stack_kv\<close>,
  \<open>tsdb_stack_sector\<close>) or come from \<open>junk\<close>, so no result depends on an assumed value of them.

  \<^bold>\<open>Theories of the model,\<close> in the order of the calls:

  \<^item> \<open>Prelude\<close>: word and list lemmas, byte images (\<open>rd\<close>, \<open>wr\<close>), C strings, \<open>holds\<close>, \<open>yields\<close> and their rule collections.
  \<^item> \<open>Crc32\<close>: \<open>crc32_table\<close>, \<open>fdb_calc_crc32\<close>. \<open>FdbDef\<close>: \<open>fdb_cfg.h\<close>, \<open>fdb_def.h\<close>, \<open>fdb_low_lvl.h\<close>. \<open>StatusTable\<close>: \<open>_fdb_set_status\<close>, \<open>_fdb_get_status\<close>.
  \<^item> \<open>LibcStdio\<close>: files as byte lists, streams with a position, a list of faults that says which calls fail.
    \<open>FdbFile\<close>: \<open>fdb_file.c\<close>, the cache of two open streams. \<open>FlashIo\<close>: \<open>_fdb_flash_read\<close>, \<open>_fdb_flash_write\<close>, \<open>_fdb_flash_erase\<close>, the search
    for the erased tail, blobs. \<open>FdbInit\<close>: \<open>fdb.c\<close>, the lock macros with a counter of lock calls.
  \<^item> \<open>KvDef\<close>, \<open>KvCache\<close>, \<open>KvRead\<close>, \<open>KvWrite\<close>, \<open>KvSet\<close>, \<open>KvInit\<close>: \<open>fdb_kvdb.c\<close> in the order of the file: headers and
    structures, sector and key cache, decoding and iteration, allocation and deletion, garbage collection and set,
    load with recovery, initialisation, options, external iterator, integrity check.
  \<^item> \<open>Tsdb\<close>, \<open>TsAppend\<close>, \<open>TsIter\<close>: \<open>fdb_tsdb.c\<close>: index nodes and sector headers, append and change of sector, cleaning,
    initialisation; iterators, binary search, count, options. What \<open>get_time\<close> returns is an argument.
  \<^item> \<open>Fal\<close>: \<open>fal.c\<close>, \<open>fal_flash.c\<close>, \<open>fal_partition.c\<close>; the device drivers are functions in the device records.
  \<^item> \<open>FlashStore\<close>: \<open>flashdb_store.rs\<close>, the cache back end that calls the KVDB, with the feature \<open>flashdb\<close>.

  \<^bold>\<open>What is proved.\<close>

  \<^item> Checksums and status tables (\<open>Crc32\<close>, \<open>StatusTable\<close>): the table-driven checksum is the division by the
    polynomial, it can be computed in pieces, and it notices every change of one byte; a status cell only advances
    (locales \<open>status_cell\<close> and \<open>status_enum\<close>, interpreted on all enumerations of the library).
  \<^item> Storage (\<open>FileSpec\<close>, \<open>FlashSpec\<close>, \<open>FlashImage\<close>, \<open>Reopen\<close>): a directory of sector files with the cache of streams
    behaves as one array of bytes \<open>fl db\<close> (locale \<open>flash_store\<close>), also across closing and opening. \<open>stored s m f db\<close>
    says that the database \<open>db\<close> with sectors of \<open>s\<close> bytes and \<open>m\<close> bytes in all holds the bytes \<open>f\<close>.
  \<^item> KVDB (\<open>KvNode\<close>, \<open>KvSector\<close>, \<open>KvDb\<close>: bytes, nodes, sectors with the caches; \<open>KvFind\<close>, \<open>KvAlloc\<close>, \<open>KvFormat\<close>, \<open>KvChange\<close>, \<open>KvKeys\<close>,
    \<open>KvLookup\<close>: the operations on them; \<open>KvMap\<close>, \<open>KvOps\<close>: the invariant \<open>kv_inv\<close> and the map \<open>kv_store\<close>; \<open>KvMove\<close>, \<open>KvGc\<close>, \<open>KvCollect\<close>:
    garbage collection; \<open>KvApi\<close>: the public calls as a service on a map; \<open>KvRecover\<close>, \<open>KvCrash\<close>: load after a restart
    and after a power loss between the three steps of a set). The callbacks of the iterators are instances of
    the locales \<open>node_reader\<close>, \<open>sector_reader\<close>, \<open>sector_worker\<close> and \<open>node_worker\<close>. \<open>KvIterate\<close>: the external iterator is a cursor
    into the list of nodes that survives a deletion, for every client that fits the locale \<open>node_client\<close>; the
    integrity check.
  \<^item> TSDB (\<open>TsImage\<close>, \<open>TsChange\<close>, \<open>TsRing\<close>: bytes, logs, the ring of sectors; \<open>TsPush\<close>, \<open>TsAdd\<close>: append refines \<open>ts_push\<close> on the list of logs
    of each sector, the abstract state \<open>ts_abs\<close> related by \<open>ts_rel\<close>; \<open>TsWalk\<close>, \<open>TsTime\<close>, \<open>TsQuery\<close>, \<open>TsRead\<close>: the iterators show exactly
    the logs, all of them or those of an interval, to every callback that fits the locale \<open>tsl_reader\<close>; \<open>TsLife\<close>:
    formatting and initialisation through the locale \<open>ts_sector_visitor\<close>; \<open>TsStatus\<close>; \<open>TsApi\<close>: the public calls as
    a service on the list of logs).
  \<^item> \<open>Service\<close> is the interface that both databases implement: requests served one after the other answer as the
    abstract state allows.
  \<^item> Locks and configuration (\<open>KvFrame\<close>, \<open>KvLock\<close>, \<open>TsLock\<close>): on every path, whatever the storage holds, a public call that returns has
    released the lock as often as it took it, with the one exception that is proved too, and keeps the configuration.
  \<^item> \<open>FlashStore\<close>: on a database in file mode the back end deletes by prefix exactly; its \<open>get\<close> and \<open>flush\<close> do not do what they
    mean to, and its \<open>new\<close> opens a database that is not in file mode and so has no storage.
  \<^item> \<open>FalSpec\<close>: initialisation, isolation of partitions, and the two places where bounds are not checked.

  \<^bold>\<open>Bounds and assumptions.\<close> The statements on databases assume that every sector file is present in full, that the
  calls of the C library succeed (\<open>faults\<close> is empty), that a sector is a multiple of 32 bytes and \<open>max_size\<close> a
  multiple of it below \<open>2 ^ 32\<close> (KVDB, one sector less) or \<open>2 ^ 31\<close> (TSDB, whose search uses \<open>int\<close> addresses). KVDB: the keys in
  use are shorter than 64 bytes and have different 16-bit checksums, since the key cache compares only those and a
  prefix of the name. TSDB: rollover is on, which the initialisation sets; the maximal length of a log leaves room
  for the sector header and one index node; a query backwards in time also needs that no sector is filled to
  its last byte. A power loss is modelled between calls of the storage layer, not inside a write.

  \<^bold>\<open>Not modelled:\<close> the POSIX variant of \<open>fdb_file.c\<close> and the automatic update of default values (not compiled), torn
  writes and buffering inside the C library, \<open>fal_rtt.c\<close> (shell commands of RT-Thread), the printing of the
  partition table, the Rust code but for the back end over the library (server, clients and services over sockets
  and third-party databases), and the copy of the library with board demos under
  \<open>spike/flashdb-ffi\<close>.
\<close>

end
